(* ===== verification/Prelude.thy ===== *)
theory Prelude
  imports Main
begin

text \<open>
  Shared material of the development: results with errors as values, the containers of the C++
  standard library as lists (\<open>std::unordered_map\<close> and \<open>std::map\<close> as association lists,
  \<open>std::unordered_set\<close> and \<open>std::set\<close> as lists without repetition), decimal printing of
  integers, and the collections of rules the component proofs use.

  An \<open>unordered_\<close> container has no specified iteration order. Its list is one such order; the
  properties are stated on the set of elements or on look-ups, never on the order.
\<close>

named_theorems alist_simps \<open>look-ups in updated association lists\<close>
named_theorems res_simps \<open>unfolding of the error result operations\<close>
named_theorems edge_simps \<open>edges of an updated node heap\<close>

section \<open>Errors as values\<close>

text \<open>
  Undefined behaviour and failures the code can run into: dereferencing a null pointer, a failed
  \<open>assert\<close>, the \<open>std::out_of_range\<close> exception of \<open>at\<close>, an access past the end of a container
  or through its \<open>end\<close> iterator. \<open>OutOfFuel\<close> is the value of a bounded recursion that reached its
  bound; it never occurs where the bound suffices.
\<close>

datatype error = NullDeref | AssertFailed | OutOfRange | UndefinedAccess | OutOfFuel

type_synonym 'a res = "error + 'a"

definition bind_res :: "'a res \<Rightarrow> ('a \<Rightarrow> 'b res) \<Rightarrow> 'b res" where
  "bind_res r f = (case r of Inl e \<Rightarrow> Inl e | Inr a \<Rightarrow> f a)"

lemma bind_res_simps [simp, res_simps]:
  "bind_res (Inl e) f = Inl e"
  "bind_res (Inr a) f = f a"
  by (simp_all add: bind_res_def)

lemma bind_res_Inr [res_simps]: "bind_res r f = Inr b \<longleftrightarrow> (\<exists>a. r = Inr a \<and> f a = Inr b)"
  by (cases r) simp_all

lemma bind_res_cong:
  "r = r' \<Longrightarrow> (\<And>a. r' = Inr a \<Longrightarrow> f a = g a) \<Longrightarrow> bind_res r f = bind_res r' g"
  by (cases r') simp_all

fun map_res :: "('a \<Rightarrow> 'b res) \<Rightarrow> 'a list \<Rightarrow> 'b list res" where
  "map_res f [] = Inr []"
| "map_res f (x # xs) = bind_res (f x) (\<lambda>y. bind_res (map_res f xs) (\<lambda>ys. Inr (y # ys)))"

fun fold_res :: "('a \<Rightarrow> 's \<Rightarrow> 's res) \<Rightarrow> 'a list \<Rightarrow> 's \<Rightarrow> 's res" where
  "fold_res f [] s = Inr s"
| "fold_res f (x # xs) s = bind_res (f x s) (fold_res f xs)"

lemma map_res_Inr:
  "map_res f xs = Inr ys \<longleftrightarrow> list_all2 (\<lambda>x y. f x = Inr y) xs ys"
  by (induction xs arbitrary: ys) (auto simp: res_simps list_all2_Cons1)

lemma fold_res_invariant:
  assumes "fold_res f xs s = Inr t" and "P s"
    and "\<And>x s t. x \<in> set xs \<Longrightarrow> P s \<Longrightarrow> f x s = Inr t \<Longrightarrow> P t"
  shows "P t"
  using assms
proof (induction xs arbitrary: s)
  case Nil
  then show ?case by simp
next
  case (Cons x xs)
  from Cons.prems(1) obtain s' where s': "f x s = Inr s'" "fold_res f xs s' = Inr t"
    by (auto simp: res_simps)
  have "P s'" using Cons.prems(3) [OF _ Cons.prems(2) s'(1)] by simp
  with s'(2) show ?case by (rule Cons.IH) (use Cons.prems(3) in auto)
qed

section \<open>Sets as lists\<close>

definition sins :: "'a \<Rightarrow> 'a list \<Rightarrow> 'a list" where
  "sins x xs = (if x \<in> set xs then xs else xs @ [x])"

lemma set_sins [simp]: "set (sins x xs) = insert x (set xs)"
  by (auto simp: sins_def)

lemma distinct_sins [simp, intro]: "distinct xs \<Longrightarrow> distinct (sins x xs)"
  by (simp add: sins_def)

text \<open>Inserting every element of a list.\<close>

definition sinsl :: "'a list \<Rightarrow> 'a list \<Rightarrow> 'a list" where
  "sinsl ys xs = fold sins ys xs"

lemma set_sinsl [simp]: "set (sinsl ys xs) = set ys \<union> set xs"
  by (induction ys arbitrary: xs) (auto simp: sinsl_def)

lemma distinct_sinsl [simp, intro]: "distinct xs \<Longrightarrow> distinct (sinsl ys xs)"
  by (induction ys arbitrary: xs) (auto simp: sinsl_def)

lemma sinsl_id: "set ys \<subseteq> set xs \<Longrightarrow> sinsl ys xs = xs"
  by (induction ys) (auto simp: sinsl_def sins_def)

text \<open>\<open>erase\<close> of a key.\<close>

definition sdel :: "'a \<Rightarrow> 'a list \<Rightarrow> 'a list" where
  "sdel x xs = filter (\<lambda>y. y \<noteq> x) xs"

lemma set_sdel [simp]: "set (sdel x xs) = set xs - {x}"
  by (auto simp: sdel_def)

lemma distinct_sdel [simp, intro]: "distinct xs \<Longrightarrow> distinct (sdel x xs)"
  by (simp add: sdel_def)

text \<open>Insertion into an ordered set (\<open>std::set\<close> with a key order).\<close>

fun oins :: "nat \<Rightarrow> nat list \<Rightarrow> nat list" where
  "oins x [] = [x]"
| "oins x (y # ys) = (if x < y then x # y # ys else if x = y then y # ys else y # oins x ys)"

lemma set_oins [simp]: "set (oins x xs) = insert x (set xs)"
  by (induction xs) auto

lemma sorted_oins: "sorted_wrt (<) xs \<Longrightarrow> sorted_wrt (<) (oins x xs)"
  by (induction xs) auto

section \<open>Maps as association lists\<close>

text \<open>\<open>m[k] = v\<close> of \<open>std::unordered_map\<close>.\<close>

fun aput :: "'k \<Rightarrow> 'v \<Rightarrow> ('k \<times> 'v) list \<Rightarrow> ('k \<times> 'v) list" where
  "aput k v [] = [(k, v)]"
| "aput k v ((k', v') # m) = (if k' = k then (k, v) # m else (k', v') # aput k v m)"

lemma map_of_aput [simp, alist_simps]: "map_of (aput k v m) = (map_of m)(k \<mapsto> v)"
  by (induction k v m rule: aput.induct) auto

lemma dom_aput [simp]: "fst ` set (aput k v m) = insert k (fst ` set m)"
  by (induction k v m rule: aput.induct) auto

lemma distinct_aput [simp, intro]: "distinct (map fst m) \<Longrightarrow> distinct (map fst (aput k v m))"
  by (induction k v m rule: aput.induct) (auto simp flip: image_set)

text \<open>\<open>m.insert({k, v})\<close>, which keeps an entry that is already there.\<close>

definition ains :: "'k \<Rightarrow> 'v \<Rightarrow> ('k \<times> 'v) list \<Rightarrow> ('k \<times> 'v) list" where
  "ains k v m = (case map_of m k of None \<Rightarrow> aput k v m | Some _ \<Rightarrow> m)"

lemma map_of_ains [simp, alist_simps]:
  "map_of (ains k v m) = (case map_of m k of None \<Rightarrow> (map_of m)(k \<mapsto> v) | Some _ \<Rightarrow> map_of m)"
  by (auto simp: ains_def split: option.splits)

lemma dom_ains [simp]: "fst ` set (ains k v m) = insert k (fst ` set m)"
proof (cases "map_of m k")
  case None
  then show ?thesis by (simp add: ains_def)
next
  case (Some v')
  then have "k \<in> fst ` set m" by (metis map_of_eq_None_iff option.distinct(1))
  with Some show ?thesis by (simp add: ains_def insert_absorb)
qed

lemma distinct_ains [simp, intro]: "distinct (map fst m) \<Longrightarrow> distinct (map fst (ains k v m))"
  by (auto simp: ains_def split: option.splits)

text \<open>\<open>m.erase(k)\<close>.\<close>

definition adel :: "'k \<Rightarrow> ('k \<times> 'v) list \<Rightarrow> ('k \<times> 'v) list" where
  "adel k m = filter (\<lambda>(k', v). k' \<noteq> k) m"

lemma map_of_adel [simp, alist_simps]: "map_of (adel k m) = (map_of m)(k := None)"
  by (induction m) (auto simp: adel_def)

lemma dom_adel [simp]: "fst ` set (adel k m) = fst ` set m - {k}"
  by (auto simp: adel_def)

lemma distinct_adel [simp, intro]: "distinct (map fst m) \<Longrightarrow> distinct (map fst (adel k m))"
  by (induction m) (auto simp: adel_def)

text \<open>\<open>m[k] = v\<close> of \<open>std::map\<close>, whose entries are in the order of their keys.\<close>

fun oput :: "'k::linorder \<Rightarrow> 'v \<Rightarrow> ('k \<times> 'v) list \<Rightarrow> ('k \<times> 'v) list" where
  "oput k v [] = [(k, v)]"
| "oput k v ((k', v') # m) =
     (if k < k' then (k, v) # (k', v') # m
      else if k = k' then (k, v) # m
      else (k', v') # oput k v m)"

lemma set_map_fst_oput [simp]: "fst ` set (oput k v m) = insert k (fst ` set m)"
  by (induction k v m rule: oput.induct) auto

lemma sorted_oput:
  "sorted_wrt (<) (map fst m) \<Longrightarrow> sorted_wrt (<) (map fst (oput k v m))"
proof (induction k v m rule: oput.induct)
  case (2 k v k' v' m)
  then show ?case by (force simp flip: image_set)
qed simp

lemma map_of_oput [alist_simps]:
  "sorted_wrt (<) (map fst m) \<Longrightarrow> map_of (oput k v m) = (map_of m)(k \<mapsto> v)"
proof (induction k v m rule: oput.induct)
  case (2 k v k' v' m)
  then show ?case by (fastforce simp: fun_eq_iff)
qed auto

lemma map_of_in_dom: "map_of m k = Some v \<Longrightarrow> k \<in> fst ` set m"
  by (metis map_of_eq_None_iff option.distinct(1))

lemma map_of_in_set: "map_of m k = Some v \<Longrightarrow> (k, v) \<in> set m"
  by (rule map_of_SomeD)

section \<open>Decimal printing\<close>

fun string_of_nat :: "nat \<Rightarrow> string" where
  "string_of_nat n =
     (if n < 10 then [char_of (48 + n)]
      else string_of_nat (n div 10) @ [char_of (48 + n mod 10)])"

declare string_of_nat.simps [simp del]

definition string_of_int :: "int \<Rightarrow> string" where
  "string_of_int i =
     (if i < 0 then ''-'' @ string_of_nat (nat (- i)) else string_of_nat (nat i))"

text \<open>The separator-joined concatenation of the printing loops.\<close>

fun join :: "string \<Rightarrow> string list \<Rightarrow> string" where
  "join sep [] = []"
| "join sep [x] = x"
| "join sep (x # y # ys) = x @ sep @ join sep (y # ys)"

end
