(* ===== verification/Clang_AST.thy ===== *)
theory Clang_AST
  imports Prelude
begin

text \<open>
  The input of every pass: the syntax tree Clang builds. Clang is not part of the repository. Its
  tree is data, given by a datatype whose constructors are the node classes the passes dispatch on
  with \<open>isa<...>\<close> and \<open>cast<...>\<close>, and whose arguments are what they read of a node: its address,
  its begin location, the type of an expression, the sub-statements. Classes the passes never name
  are \<open>OtherExpr\<close> and \<open>OtherStmt\<close>.

  What Clang computes (type queries, \<open>IgnoreParenImpCasts\<close>, \<open>printPretty\<close>,
  \<open>EvaluateAsInt\<close>) is a parameter: a field of the record \<open>clang\<close>, which every definition that
  calls it takes as an argument. Types are a type variable, seen only through those fields.
\<close>

record srcloc =
  loc_offset :: nat
  loc_file :: string
  loc_system :: bool

text \<open>A variable or field: the address of its canonical declaration, its name, type and location.\<close>

record 't vardecl =
  vd_canonical :: nat
  vd_name :: string
  vd_type :: 't
  vd_loc :: srcloc

text \<open>A declaration that is no variable has an address, a name and a location.\<close>

datatype 't decl = VarDecl "'t vardecl" | OtherDecl nat string srcloc

record 't fundecl =
  fd_canonical :: nat
  fd_name :: string
  fd_params :: "'t vardecl list"
  fd_loc :: srcloc
  fd_isConst :: bool
  fd_returnType :: 't
  fd_context :: nat

text \<open>What a member access refers to.\<close>

datatype 't memberdecl = FieldMember "'t vardecl" | MethodMember "'t fundecl"

datatype unary_op =
  UO_Deref | UO_AddrOf | UO_PostInc | UO_PostDec | UO_PreInc | UO_PreDec | UO_Minus | UO_LNot

datatype 't ekind =
  DeclRefExpr "'t decl"
| ArraySubscriptExpr
| UnaryOperator unary_op
| BinaryOperator bool \<comment> \<open>whether it is the plain assignment\<close>
| CompoundAssignOperator
| CallExpr "'t fundecl option"
| CXXMemberCallExpr "'t fundecl option"
| CXXOperatorCallExpr "'t fundecl option" bool \<comment> \<open>whether it is an assignment operator\<close>
| MemberExpr "'t memberdecl"
| CXXThisExpr
| IntegerLiteral
| StringLiteral
| GNUNullExpr
| CXXDeleteExpr
| CXXNewExpr
| CXXBindTemporaryExpr
| CXXConstructExpr
| ParenExpr
| ImplicitCastExpr
| OtherExpr

datatype 't stmt =
  Expr nat srcloc 't "'t ekind" "'t stmt list"
| DeclStmt nat srcloc "('t decl \<times> 't stmt option) list"
| ReturnStmt nat srcloc "'t stmt option"
| IfStmt nat srcloc "'t stmt" "'t stmt" "'t stmt option"
| ForStmt nat srcloc "'t stmt option" "'t stmt option" "'t stmt option" "'t stmt"
| WhileStmt nat srcloc "'t stmt" "'t stmt"
| CompoundStmt nat srcloc "'t stmt list"
| GotoStmt nat srcloc
| OtherStmt nat srcloc "'t stmt list"

fun sid :: "'t stmt \<Rightarrow> nat" where
  "sid (Expr i _ _ _ _) = i"
| "sid (DeclStmt i _ _) = i"
| "sid (ReturnStmt i _ _) = i"
| "sid (IfStmt i _ _ _ _) = i"
| "sid (ForStmt i _ _ _ _ _) = i"
| "sid (WhileStmt i _ _ _) = i"
| "sid (CompoundStmt i _ _) = i"
| "sid (GotoStmt i _) = i"
| "sid (OtherStmt i _ _) = i"

fun getBeginLoc :: "'t stmt \<Rightarrow> srcloc" where
  "getBeginLoc (Expr _ l _ _ _) = l"
| "getBeginLoc (DeclStmt _ l _) = l"
| "getBeginLoc (ReturnStmt _ l _) = l"
| "getBeginLoc (IfStmt _ l _ _ _) = l"
| "getBeginLoc (ForStmt _ l _ _ _ _) = l"
| "getBeginLoc (WhileStmt _ l _ _) = l"
| "getBeginLoc (CompoundStmt _ l _) = l"
| "getBeginLoc (GotoStmt _ l) = l"
| "getBeginLoc (OtherStmt _ l _) = l"

text \<open>The non-null children in Clang's order.\<close>

fun children :: "'t stmt \<Rightarrow> 't stmt list" where
  "children (Expr _ _ _ _ cs) = cs"
| "children (DeclStmt _ _ ds) = List.map_filter snd ds"
| "children (ReturnStmt _ _ r) = (case r of None \<Rightarrow> [] | Some e \<Rightarrow> [e])"
| "children (IfStmt _ _ c t e) = [c, t] @ (case e of None \<Rightarrow> [] | Some s \<Rightarrow> [s])"
| "children (ForStmt _ _ i c n b) = List.map_filter id [i, c, n] @ [b]"
| "children (WhileStmt _ _ c b) = [c, b]"
| "children (CompoundStmt _ _ ss) = ss"
| "children (GotoStmt _ _) = []"
| "children (OtherStmt _ _ ss) = ss"

lemma size_children [termination_simp]: "c \<in> set (children s) \<Longrightarrow> size c < size s"
proof (cases s)
  case (DeclStmt i l ds)
  assume "c \<in> set (children s)"
  with DeclStmt obtain d where "(d, Some c) \<in> set ds"
    by (auto simp: List.map_filter_def)
  then have "size c < size_list (\<lambda>x. size_option size (snd x)) ds"
    by (induction ds) auto
  moreover have "size_list (\<lambda>x. size_option size (snd x)) ds
      \<le> size_list (size_prod size (size_option size)) ds"
    by (induction ds) auto
  ultimately show ?thesis using DeclStmt by simp
qed (auto simp: List.map_filter_def less_Suc_eq_le intro!: size_list_estimation'
      dest: size_list_estimation' [where f = size, OF _ order_refl]
      split: option.splits if_splits)

fun isExpr :: "'t stmt \<Rightarrow> bool" where
  "isExpr (Expr _ _ _ _ _) = True"
| "isExpr _ = False"

fun exprKind :: "'t stmt \<Rightarrow> 't ekind option" where
  "exprKind (Expr _ _ _ k _) = Some k"
| "exprKind _ = None"

fun getType :: "'t stmt \<Rightarrow> 't option" where
  "getType (Expr _ _ t _ _) = Some t"
| "getType _ = None"

definition isDeclRefExpr :: "'t stmt \<Rightarrow> bool" where
  "isDeclRefExpr s = (case exprKind s of Some (DeclRefExpr _) \<Rightarrow> True | _ \<Rightarrow> False)"

definition declRefVar :: "'t stmt \<Rightarrow> 't vardecl option" where
  "declRefVar s = (case exprKind s of Some (DeclRefExpr (VarDecl v)) \<Rightarrow> Some v | _ \<Rightarrow> None)"

definition isArraySubscriptExpr :: "'t stmt \<Rightarrow> bool" where
  "isArraySubscriptExpr s = (case exprKind s of Some ArraySubscriptExpr \<Rightarrow> True | _ \<Rightarrow> False)"

text \<open>\<open>CallExpr\<close> has the two subclasses for member calls and overloaded operators.\<close>

definition callCallee :: "'t stmt \<Rightarrow> 't fundecl option option" where
  "callCallee s = (case exprKind s of
       Some (CallExpr f) \<Rightarrow> Some f
     | Some (CXXMemberCallExpr f) \<Rightarrow> Some f
     | Some (CXXOperatorCallExpr f _) \<Rightarrow> Some f
     | _ \<Rightarrow> None)"

definition isCallExpr :: "'t stmt \<Rightarrow> bool" where
  "isCallExpr s = (callCallee s \<noteq> None)"

text \<open>The first child of a call is the callee expression, the others are the arguments.\<close>

definition callArgs :: "'t stmt \<Rightarrow> 't stmt list" where
  "callArgs s = tl (children s)"

definition isForStmt :: "'t stmt \<Rightarrow> bool" where
  "isForStmt s = (case s of ForStmt _ _ _ _ _ _ \<Rightarrow> True | _ \<Rightarrow> False)"

definition isIfStmt :: "'t stmt \<Rightarrow> bool" where
  "isIfStmt s = (case s of IfStmt _ _ _ _ _ \<Rightarrow> True | _ \<Rightarrow> False)"

definition isCompoundStmt :: "'t stmt \<Rightarrow> bool" where
  "isCompoundStmt s = (case s of CompoundStmt _ _ _ \<Rightarrow> True | _ \<Rightarrow> False)"

definition isDeclStmt :: "'t stmt \<Rightarrow> bool" where
  "isDeclStmt s = (case s of DeclStmt _ _ _ \<Rightarrow> True | _ \<Rightarrow> False)"

definition isGotoStmt :: "'t stmt \<Rightarrow> bool" where
  "isGotoStmt s = (case s of GotoStmt _ _ \<Rightarrow> True | _ \<Rightarrow> False)"

definition isCXXDeleteExpr :: "'t stmt \<Rightarrow> bool" where
  "isCXXDeleteExpr s = (exprKind s = Some CXXDeleteExpr)"

text \<open>The parameters: what Clang computes on types and expressions.\<close>

record 't clang =
  isNullType :: "'t \<Rightarrow> bool"
  isPointerType :: "'t \<Rightarrow> bool"
  isReferenceType :: "'t \<Rightarrow> bool"
  isArrayType :: "'t \<Rightarrow> bool"
  isConstQualified :: "'t \<Rightarrow> bool"
  getPointeeType :: "'t \<Rightarrow> 't"
  getNonReferenceType :: "'t \<Rightarrow> 't"
  getArrayElementType :: "'t \<Rightarrow> 't"
  getSingleStepDesugaredType :: "'t \<Rightarrow> 't"
  getPointerType :: "'t \<Rightarrow> 't"
  typeAsString :: "'t \<Rightarrow> string"
  ignoreParenImpCasts :: "'t stmt \<Rightarrow> 't stmt"
  ignoreImpCasts :: "'t stmt \<Rightarrow> 't stmt"
  ignoreCasts :: "'t stmt \<Rightarrow> 't stmt"
  lhsIsBase :: "'t stmt \<Rightarrow> bool"
  getImplicitObjectArgument :: "'t stmt \<Rightarrow> 't stmt option"
  templateFirstArg :: "'t \<Rightarrow> 't option"
  typeDepth :: "'t \<Rightarrow> nat"
  printPretty :: "'t stmt \<Rightarrow> string"
  evaluateAsInt :: "'t stmt \<Rightarrow> int option"
  isVoidType :: "'t \<Rightarrow> bool"
  isBuiltinType :: "'t \<Rightarrow> bool"
  isConstantArrayType :: "'t \<Rightarrow> bool"
  isStructureOrClassType :: "'t \<Rightarrow> bool"
  constructors :: "'t \<Rightarrow> (bool \<times> bool) list"
  withConst :: "'t \<Rightarrow> 't"
  getUnqualifiedType :: "'t \<Rightarrow> 't"
  getLValueReferenceType :: "'t \<Rightarrow> 't"
  ignoreParenCasts :: "'t stmt \<Rightarrow> 't stmt"
  getOpcodeStr :: "'t stmt \<Rightarrow> string"
  getStmtInit :: "'t stmt \<Rightarrow> 't stmt option"
  getConditionVariableDeclStmt :: "'t stmt \<Rightarrow> 't stmt option"

text \<open>
  \<open>templateFirstArg\<close> is the first argument of a template specialisation, \<open>typeDepth\<close> the length of
  the chain of pointees of a type, \<open>lhsIsBase\<close> tells whether the base of an array subscript is its
  first child, \<open>getImplicitObjectArgument\<close> is the object of a member call, \<open>constructors\<close> lists for
  each constructor of a class whether it is a default one and whether it is deleted, \<open>withConst\<close>
  adds the qualifier to a type, \<open>getStmtInit\<close> and \<open>getConditionVariableDeclStmt\<close> are the declarations
  in the header of a conditional or a \<open>while\<close>.

  The documented behaviour of the casts and objects the termination of the passes relies on: they go
  down the tree, to a node that is no larger.
\<close>

definition ign_shrinks :: "'t clang \<Rightarrow> bool" where
  "ign_shrinks C \<longleftrightarrow>
     (\<forall>e. size (ignoreParenImpCasts C e) \<le> size e \<and> size (ignoreImpCasts C e) \<le> size e)"

text \<open>
  The documented behaviour of the type queries: the chain of pointees of a type is finite, and
  removing one level of sugar keeps its length and does not give the null type.
\<close>

definition types_finite :: "'t clang \<Rightarrow> bool" where
  "types_finite C \<longleftrightarrow>
     (\<forall>t. \<not> isNullType C t \<longrightarrow>
        \<not> isNullType C (getSingleStepDesugaredType C t)
      \<and> typeDepth C (getSingleStepDesugaredType C t) \<le> typeDepth C t
      \<and> typeDepth C (getPointeeType C t) < typeDepth C t)"

section \<open>Parts of expressions\<close>

text \<open>The children of an expression a \<open>cast\<close> to its class gives access to.\<close>

definition nthChild :: "'t stmt \<Rightarrow> nat \<Rightarrow> 't stmt res" where
  "nthChild s n = (if n < length (children s) then Inr (children s ! n) else Inl UndefinedAccess)"

definition getSubExpr :: "'t stmt \<Rightarrow> 't stmt res" where
  "getSubExpr s = nthChild s 0"

definition getBase :: "'t clang \<Rightarrow> 't stmt \<Rightarrow> 't stmt res" where
  "getBase C s = nthChild s (if lhsIsBase C s then 0 else 1)"

definition getIdx :: "'t clang \<Rightarrow> 't stmt \<Rightarrow> 't stmt res" where
  "getIdx C s = nthChild s (if lhsIsBase C s then 1 else 0)"

definition getLHS :: "'t stmt \<Rightarrow> 't stmt res" where
  "getLHS s = nthChild s 0"

definition getRHS :: "'t stmt \<Rightarrow> 't stmt res" where
  "getRHS s = nthChild s 1"

lemma nthChild_in: "nthChild s n = Inr c \<Longrightarrow> c \<in> set (children s)"
  by (auto simp: nthChild_def split: if_splits)

lemma nthChild_size: "nthChild s n = Inr c \<Longrightarrow> size c < size s"
  by (rule size_children [OF nthChild_in])

text \<open>The type of a node that is an expression.\<close>

definition exprType :: "'t stmt \<Rightarrow> 't res" where
  "exprType s = (case getType s of None \<Rightarrow> Inl UndefinedAccess | Some t \<Rightarrow> Inr t)"

text \<open>The measure of the searches over the tree: a node counts for more than its children together.\<close>

definition weight :: "'t stmt \<Rightarrow> nat" where
  "weight s = Suc (2 * size s)"

lemma weight_children: "sum_list (map weight (children s)) < weight s"
proof -
  have lst: "sum_list (map weight cs) \<le> 2 * size_list size cs" for cs :: "'a stmt list"
    by (induction cs) (auto simp: weight_def)
  have flt: "sum_list (map weight (List.map_filter id rs)) \<le> 2 * sum_list (map (size_option size) rs)"
    for rs :: "'a stmt option list"
    by (induction rs) (auto simp: List.map_filter_def weight_def split: option.splits)
  have dcl: "sum_list (map weight (List.map_filter snd ds)) \<le> 2 * size_list (size_prod f (size_option size)) ds"
    for ds :: "('b \<times> 'a stmt option) list" and f
    by (induction ds) (auto simp: List.map_filter_def weight_def split: option.splits)
  show ?thesis
  proof (cases s)
    case (DeclStmt i l ds)
    then show ?thesis by (simp add: weight_def less_Suc_eq_le) (intro le_SucI dcl)
  next
    case (ForStmt i l a b c body)
    then show ?thesis using flt [of "[a, b, c]"] by (simp add: weight_def)
  next
    case (Expr i l t k cs)
    then show ?thesis using lst [of cs] by (simp add: weight_def)
  next
    case (CompoundStmt i l cs)
    then show ?thesis using lst [of cs] by (simp add: weight_def)
  next
    case (OtherStmt i l cs)
    then show ?thesis using lst [of cs] by (simp add: weight_def)
  qed (auto simp: weight_def split: option.splits)
qed

lemma weight_filter: "sum_list (map weight (filter P cs)) \<le> sum_list (map weight cs)"
  by (induction cs) auto

lemma weight_child: "nthChild s n = Inr c \<Longrightarrow> weight c < weight s"
  by (auto simp: weight_def dest: nthChild_size)

end
