(* ===== verification/Alias_Arg.thy ===== *)
theory Alias_Arg
  imports Clang_AST
begin

text \<open>
  One entry of the alias table (\<open>AliasArg.hpp\<close>, \<open>AliasArg.cpp\<close>): a variable or an array
  element, with the entries that point to it, refer to it, and that it may alias.

  A \<open>std::shared_ptr<aliasArg>\<close> is an address, a natural number with 0 for \<open>nullptr\<close>. The
  object with identifier \<open>id\<close> is at address \<open>id + 1\<close>: every object of the table is built by
  one constructor call, which takes a fresh identifier.
\<close>

type_synonym addr = nat

definition null :: addr where
  "null = 0"

datatype AliasType = Reference | Pointer | Variable | NoneType

record 't aliasArg =
  hasUnknownIndex :: bool
  declarationOf :: "'t vardecl"
  atype :: AliasType
  indexes :: "int list"
  indexString :: string
  expression :: "'t stmt option"
  aid :: nat
  pointers :: "addr list"
  references :: "addr list"
  aliased :: "addr list"

text \<open>The two type queries of \<open>common.cpp\<close> the classification rests on.\<close>

fun contains :: "string \<Rightarrow> string \<Rightarrow> bool" where
  "contains pat [] = (pat = [])"
| "contains pat (c # cs) = (take (length pat) (c # cs) = pat \<or> contains pat cs)"

definition isPointerQualType :: "'t clang \<Rightarrow> 't \<Rightarrow> bool" where
  "isPointerQualType C t = (if isNullType C t then False else isPointerType C t)"

definition isReferenceQualType :: "'t clang \<Rightarrow> 't \<Rightarrow> bool" where
  "isReferenceQualType C t =
     (if isReferenceType C t then True else contains ''reference_wrapper'' (typeAsString C t))"

definition getAliasType :: "'t clang \<Rightarrow> 't \<Rightarrow> AliasType" where
  "getAliasType C t =
     (if isPointerQualType C t then Pointer
      else if isReferenceQualType C t then Reference
      else Variable)"

text \<open>
  The constructor. An index that is not known at compile time is \<open>-1\<close>, and then the text of
  the indexes must be given.
\<close>

definition aliasArg_new ::
    "'t vardecl \<Rightarrow> AliasType \<Rightarrow> int list \<Rightarrow> string \<Rightarrow> 't stmt option \<Rightarrow> nat \<Rightarrow> 't aliasArg res" where
  "aliasArg_new d t idx istr ex curId =
     (if -1 \<in> set idx \<and> istr = [] then Inl AssertFailed
      else Inr \<lparr>hasUnknownIndex = (-1 \<in> set idx), declarationOf = d, atype = t, indexes = idx,
                indexString = istr, expression = ex, aid = curId,
                pointers = [], references = [], aliased = []\<rparr>)"

definition getIndexKey :: "'t aliasArg \<Rightarrow> string" where
  "getIndexKey a = (if hasUnknownIndex a then indexString a else [])"

definition varAsString :: "'t aliasArg \<Rightarrow> string" where
  "varAsString a = vd_name (declarationOf a) @
     (if hasUnknownIndex a then indexString a
      else concat (map (\<lambda>i. ''['' @ string_of_int i @ '']'') (indexes a)))"

text \<open>Two index lists may denote the same element: \<open>-1\<close> matches any index.\<close>

fun indexesMatch_loop :: "int list \<Rightarrow> int list \<Rightarrow> bool" where
  "indexesMatch_loop (x # xs) (y # ys) =
     (if x \<noteq> y \<and> x \<noteq> -1 \<and> y \<noteq> -1 then False else indexesMatch_loop xs ys)"
| "indexesMatch_loop _ _ = True"

definition indexesMatch :: "int list \<Rightarrow> int list \<Rightarrow> bool" where
  "indexesMatch xs ys = (if length xs \<noteq> length ys then False else indexesMatch_loop xs ys)"

section \<open>Properties\<close>

lemma indexesMatch_iff:
  "indexesMatch xs ys \<longleftrightarrow> list_all2 (\<lambda>x y. x = y \<or> x = -1 \<or> y = -1) xs ys"
proof -
  have "length xs = length ys \<Longrightarrow> indexesMatch_loop xs ys
      \<longleftrightarrow> list_all2 (\<lambda>x y. x = y \<or> x = -1 \<or> y = -1) xs ys"
    by (induction xs ys rule: indexesMatch_loop.induct) auto
  then show ?thesis by (auto simp: indexesMatch_def dest: list_all2_lengthD)
qed

lemma indexesMatch_refl [simp]: "indexesMatch xs xs"
  by (simp add: indexesMatch_iff list_all2_same)

lemma indexesMatch_sym: "indexesMatch xs ys \<longleftrightarrow> indexesMatch ys xs"
  by (auto simp: indexesMatch_iff list_all2_conv_all_nth)

lemma aliasArg_new_Inr:
  "aliasArg_new d t idx istr ex i = Inr a \<Longrightarrow>
     indexes a = idx \<and> indexString a = istr \<and> declarationOf a = d \<and> atype a = t \<and> aid a = i
     \<and> pointers a = [] \<and> references a = [] \<and> aliased a = []
     \<and> hasUnknownIndex a = (-1 \<in> set idx) \<and> (-1 \<in> set idx \<longrightarrow> istr \<noteq> [])"
  by (auto simp: aliasArg_new_def split: if_splits)

lemma aliasArg_new_error:
  "aliasArg_new d t idx istr ex i = Inl e \<longleftrightarrow> e = AssertFailed \<and> -1 \<in> set idx \<and> istr = []"
  by (auto simp: aliasArg_new_def)

end
