(* ===== verification/Alias_Maps.thy ===== *)
theory Alias_Maps
  imports Alias_Arg
begin

text \<open>
  The two-level map from variables and index paths to entries (\<open>AliasTableMaps.hpp\<close>,
  \<open>AliasTableAliasMap.cpp\<close>, \<open>AliasTableIndexMap.cpp\<close>). A variable without recorded elements
  maps to an \<open>aliasArgStruct\<close>; one with recorded elements maps to an \<open>IndexTableMapStruct\<close>,
  a tree with one level per index, each level an ordered \<open>std::map<int, ...>\<close>. An
  \<open>aliasArgStruct\<close> holds the entry of the position itself and, for a position reached
  through an index unknown at compile time, one entry per index text.
\<close>

record argStruct =
  aliasPtr :: addr
  unknownIndexAliases :: "(string \<times> addr) list"

text \<open>The variant \<open>aliasesTableValues\<close>; \<open>aliasStruct\<close> of a sub-array can be null.\<close>

datatype tableValue =
  ArgStruct argStruct
| SubArray "argStruct option" "(int \<times> tableValue) list"

type_synonym indexMap = "(int \<times> tableValue) list"
type_synonym aliasTableMap = "(nat \<times> tableValue) list"

definition argStruct_nbElements :: "argStruct \<Rightarrow> nat" where
  "argStruct_nbElements s =
     (if aliasPtr s \<noteq> null then 1 else 0) + length (unknownIndexAliases s)"

definition getAllAlias :: "argStruct \<Rightarrow> addr list" where
  "getAllAlias s = (if aliasPtr s \<noteq> null then [aliasPtr s] else []) @ map snd (unknownIndexAliases s)"

definition argStruct_plus :: "argStruct \<Rightarrow> argStruct \<Rightarrow> argStruct" where
  "argStruct_plus s r =
     s\<lparr>unknownIndexAliases := fold (\<lambda>(k, a). ains k a) (unknownIndexAliases r) (unknownIndexAliases s)\<rparr>"

definition isVariantSubArray :: "tableValue \<Rightarrow> bool" where
  "isVariantSubArray v = (case v of SubArray _ _ \<Rightarrow> True | ArgStruct _ \<Rightarrow> False)"

section \<open>The index tree\<close>

fun IndexTableMap_at :: "indexMap \<Rightarrow> int list \<Rightarrow> tableValue option" where
  "IndexTableMap_at m [] = None"
| "IndexTableMap_at m [i] = map_of m i"
| "IndexTableMap_at m (i # is) =
     (case map_of m i of
        Some (SubArray _ m') \<Rightarrow> IndexTableMap_at m' is
      | _ \<Rightarrow> None)"

fun IndexTableMap_count :: "indexMap \<Rightarrow> int list \<Rightarrow> int" where
  "IndexTableMap_count m [] = 0"
| "IndexTableMap_count m [i] = (if map_of m i \<noteq> None then 1 else 0)"
| "IndexTableMap_count m (i # is) =
     (case map_of m i of
        Some (SubArray _ m') \<Rightarrow> IndexTableMap_count m' is
      | _ \<Rightarrow> 0)"

fun tableValue_nbElements :: "tableValue \<Rightarrow> nat" where
  "tableValue_nbElements (ArgStruct s) = argStruct_nbElements s"
| "tableValue_nbElements (SubArray s m) =
     (case s of None \<Rightarrow> 0 | Some s' \<Rightarrow> argStruct_nbElements s') +
     sum_list (map (\<lambda>(i, v). tableValue_nbElements v) m)"

text \<open>
  The insertion loop, for a path that is not empty. It goes down the path, creates the missing
  levels, turns an \<open>aliasArgStruct\<close> on the way into a sub-array that keeps it, and at the last
  index either stores the new struct or merges its unknown-index entries into the struct of the
  sub-array there, which may be the null pointer.
\<close>

definition stepInto :: "tableValue option \<Rightarrow> argStruct option \<times> indexMap" where
  "stepInto v = (case v of
       None \<Rightarrow> (None, [])
     | Some (ArgStruct s) \<Rightarrow> (Some s, [])
     | Some (SubArray s m) \<Rightarrow> (s, m))"

fun IndexTableMap_insert_loop :: "indexMap \<Rightarrow> int list \<Rightarrow> argStruct \<Rightarrow> indexMap res" where
  "IndexTableMap_insert_loop m [] e = Inr m"
| "IndexTableMap_insert_loop m [b] e =
     (case map_of m b of
        None \<Rightarrow> Inr (oput b (ArgStruct e) m)
      | Some v \<Rightarrow>
          (case stepInto (Some v) of
             (None, m') \<Rightarrow> Inl NullDeref
           | (Some s, m') \<Rightarrow> Inr (oput b (SubArray (Some (argStruct_plus s e)) m') m)))"
| "IndexTableMap_insert_loop m (i # is) e =
     (case stepInto (map_of m i) of (s, m') \<Rightarrow>
        bind_res (IndexTableMap_insert_loop m' is e) (\<lambda>m''. Inr (oput i (SubArray s m'') m)))"

definition struct_of :: "'t aliasArg \<Rightarrow> argStruct" where
  "struct_of a =
     (if hasUnknownIndex a then \<lparr>aliasPtr = null, unknownIndexAliases = [(getIndexKey a, Suc (aid a))]\<rparr>
      else \<lparr>aliasPtr = Suc (aid a), unknownIndexAliases = []\<rparr>)"

definition IndexTableMap_insert ::
    "argStruct option \<Rightarrow> indexMap \<Rightarrow> 't aliasArg \<Rightarrow> int list \<Rightarrow> tableValue res" where
  "IndexTableMap_insert s m a idx =
     (if idx = [] then
        Inr (SubArray (case s of None \<Rightarrow> Some (struct_of a) | Some s' \<Rightarrow> Some s') m)
      else bind_res (IndexTableMap_insert_loop m idx (struct_of a)) (\<lambda>m'. Inr (SubArray s m')))"

section \<open>The table of variables\<close>

text \<open>The overload of \<open>at\<close> on a constant table returns the null pointer for a missing key.\<close>

definition AliasTableMap_at :: "aliasTableMap \<Rightarrow> nat \<Rightarrow> int list \<Rightarrow> tableValue option" where
  "AliasTableMap_at t key idx =
     (case map_of t key of
        None \<Rightarrow> None
      | Some v \<Rightarrow>
          (if idx = [] then Some v
           else (case v of ArgStruct _ \<Rightarrow> None | SubArray _ m \<Rightarrow> IndexTableMap_at m idx)))"

text \<open>The other overload reports a missing key and then calls \<open>std::unordered_map::at\<close> on it.\<close>

definition AliasTableMap_at_mut :: "aliasTableMap \<Rightarrow> nat \<Rightarrow> int list \<Rightarrow> tableValue option res" where
  "AliasTableMap_at_mut t key idx =
     (case map_of t key of
        None \<Rightarrow> Inl OutOfRange
      | Some v \<Rightarrow>
          Inr (if idx = [] then Some v
               else (case v of ArgStruct _ \<Rightarrow> None | SubArray _ m \<Rightarrow> IndexTableMap_at m idx)))"

definition AliasTableMap_nbElements :: "aliasTableMap \<Rightarrow> nat" where
  "AliasTableMap_nbElements t = sum_list (map (\<lambda>(k, v). tableValue_nbElements v) t)"

definition AliasTableMap_count :: "aliasTableMap \<Rightarrow> nat \<Rightarrow> int list \<Rightarrow> int" where
  "AliasTableMap_count t key idx =
     (if idx = [] then (if map_of t key \<noteq> None then 1 else 0)
      else (case map_of t key of
              None \<Rightarrow> 0
            | Some (ArgStruct _) \<Rightarrow> 0
            | Some (SubArray _ m) \<Rightarrow> IndexTableMap_count m idx))"

definition AliasTableMap_insert ::
    "aliasTableMap \<Rightarrow> 't aliasArg \<Rightarrow> int list \<Rightarrow> aliasTableMap res" where
  "AliasTableMap_insert t a idx =
     (let key = vd_canonical (declarationOf a); e = struct_of a in
      if idx = [] then
        (case map_of t key of
           None \<Rightarrow> Inr (aput key (ArgStruct e) t)
         | Some (SubArray None m) \<Rightarrow> Inr (aput key (SubArray (Some e) m) t)
         | Some _ \<Rightarrow> Inr t)
      else
        (case stepInto (map_of t key) of (s, m) \<Rightarrow>
           bind_res (IndexTableMap_insert s m a idx) (\<lambda>v. Inr (aput key v t))))"

section \<open>The table as a function from positions to structs\<close>

text \<open>
  A position is a variable and an index path. The abstraction of a table maps a position to the
  struct stored there; it forgets which levels are sub-arrays.
\<close>

fun descend :: "tableValue option \<Rightarrow> int list \<Rightarrow> tableValue option" where
  "descend v [] = v"
| "descend v (i # is) = descend (map_of (snd (stepInto v)) i) is"

definition struct_in :: "tableValue option \<Rightarrow> int list \<Rightarrow> argStruct option" where
  "struct_in v p = fst (stepInto (descend v p))"

definition struct_at :: "aliasTableMap \<Rightarrow> nat \<Rightarrow> int list \<Rightarrow> argStruct option" where
  "struct_at t key p = struct_in (map_of t key) p"

fun sorted_value :: "tableValue \<Rightarrow> bool" where
  "sorted_value (ArgStruct s) = True"
| "sorted_value (SubArray s m) =
     (sorted_wrt (<) (map fst m) \<and> (\<forall>(i, v) \<in> set m. sorted_value v))"

definition sorted_table :: "aliasTableMap \<Rightarrow> bool" where
  "sorted_table t \<longleftrightarrow> (\<forall>(k, v) \<in> set t. sorted_value v)"

lemma stepInto_simps [simp]:
  "stepInto None = (None, [])"
  "stepInto (Some (ArgStruct s)) = (Some s, [])"
  "stepInto (Some (SubArray s' m)) = (s', m)"
  by (simp_all add: stepInto_def)

lemma descend_None [simp]: "descend None p = None"
  by (induction p) auto

lemma IndexTableMap_at_descend: "IndexTableMap_at m (i # is) = descend (map_of m i) is"
proof (induction "is" arbitrary: m i)
  case Nil
  then show ?case by simp
next
  case (Cons j js)
  then show ?case by (cases "map_of m i" rule: option.exhaust [case_names None Some])
      (auto split: tableValue.splits)
qed

lemma AliasTableMap_at_descend: "AliasTableMap_at t k p = descend (map_of t k) p"
  by (cases p; cases "map_of t k")
    (auto simp: AliasTableMap_at_def IndexTableMap_at_descend simp del: IndexTableMap_at.simps
      split: tableValue.splits)

lemma AliasTableMap_at_mut_eq:
  "AliasTableMap_at_mut t k p =
     (if map_of t k = None then Inl OutOfRange else Inr (AliasTableMap_at t k p))"
  by (auto simp: AliasTableMap_at_mut_def AliasTableMap_at_def split: option.splits)

lemma IndexTableMap_count_at: "IndexTableMap_count m p > 0 \<longleftrightarrow> IndexTableMap_at m p \<noteq> None"
  by (induction m p rule: IndexTableMap_count.induct) (auto split: option.splits tableValue.splits)

lemma AliasTableMap_count_at: "AliasTableMap_count t k p > 0 \<longleftrightarrow> AliasTableMap_at t k p \<noteq> None"
  by (auto simp: AliasTableMap_count_def AliasTableMap_at_def IndexTableMap_count_at
      split: option.splits tableValue.splits)

subsection \<open>Insertion is an update of that function at one position\<close>

lemma sorted_value_step:
  "sorted_value v \<Longrightarrow> map_of (snd (stepInto (Some v))) i = Some w \<Longrightarrow> sorted_value w"
  by (cases v) (auto dest: map_of_SomeD)

lemma set_oput_subset: "set (oput k v m) \<subseteq> insert (k, v) (set m)"
  by (induction k v m rule: oput.induct) auto

lemma insert_loop_sorted:
  assumes "IndexTableMap_insert_loop m p e = Inr m'" and "sorted_value (SubArray None m)"
  shows "sorted_value (SubArray None m')"
  using assms
proof (induction m p e arbitrary: m' rule: IndexTableMap_insert_loop.induct)
  case (2 m b e)
  then show ?case
    using set_oput_subset [of b _ m]
    by (fastforce simp: sorted_oput stepInto_def dest: map_of_SomeD
        split: option.splits tableValue.splits)
next
  case (3 m i j js e)
  obtain s m1 where s: "stepInto (map_of m i) = (s, m1)" by fastforce
  with "3.prems"(1) obtain m2 where m2: "IndexTableMap_insert_loop m1 (j # js) e = Inr m2"
    and m': "m' = oput i (SubArray s m2) m"
    by (auto simp: res_simps)
  have "sorted_value (SubArray None m1)"
    using s "3.prems"(2) by (force simp: stepInto_def dest: map_of_SomeD
        split: option.splits tableValue.splits)
  from "3.IH" [OF s [symmetric] m2 this] "3.prems"(2) m'
  show ?case using set_oput_subset [of i _ m] by (fastforce simp: sorted_oput)
qed auto

lemma insert_loop_struct:
  assumes "IndexTableMap_insert_loop m p e = Inr m'" and "sorted_value (SubArray None m)"
    and "p \<noteq> []" and "q \<noteq> []"
  shows "struct_in (Some (SubArray x m')) q =
     (if q = p then (case struct_in (Some (SubArray x m)) p of
                       None \<Rightarrow> Some e | Some s \<Rightarrow> Some (argStruct_plus s e))
      else struct_in (Some (SubArray x m)) q)"
  using assms
proof (induction m p e arbitrary: m' q x rule: IndexTableMap_insert_loop.induct)
  case (2 m b e)
  obtain c qs where q: "q = c # qs" using "2.prems"(4) by (cases q) auto
  have sm: "sorted_wrt (<) (map fst m)" using "2.prems"(2) by simp
  show ?case
  proof (cases "map_of m b")
    case None
    with "2.prems"(1) have "m' = oput b (ArgStruct e) m" by simp
    with q None show ?thesis
      by (cases qs) (auto simp: struct_in_def map_of_oput [OF sm])
  next
    case (Some v)
    obtain s0 m1 where v: "stepInto (Some v) = (s0, m1)" by fastforce
    with Some "2.prems"(1) obtain s where "s0 = Some s"
      and "m' = oput b (SubArray (Some (argStruct_plus s e)) m1) m"
      by (cases s0) auto
    with q Some v show ?thesis
      by (cases qs) (auto simp: struct_in_def map_of_oput [OF sm])
  qed
next
  case (3 m i j js e)
  obtain s m1 where s: "stepInto (map_of m i) = (s, m1)" by fastforce
  with "3.prems"(1) obtain m2 where m2: "IndexTableMap_insert_loop m1 (j # js) e = Inr m2"
    and m': "m' = oput i (SubArray s m2) m"
    by (auto simp: res_simps)
  have sm: "sorted_wrt (<) (map fst m)" using "3.prems"(2) by simp
  have s1: "sorted_value (SubArray None m1)"
    using s "3.prems"(2) by (force simp: stepInto_def dest: map_of_SomeD
        split: option.splits tableValue.splits)
  note IH = "3.IH" [OF s [symmetric] m2 s1, of _ s]
  obtain c qs where q: "q = c # qs" using "3.prems"(4) by (cases q) auto
  show ?case
  proof (cases "c = i \<and> qs \<noteq> []")
    case True
    have "struct_in (Some (SubArray y m0)) (i # r) = struct_in (map_of m0 i) r" for y m0 r
      by (simp add: struct_in_def)
    moreover have "struct_in (map_of m i) r = struct_in (Some (SubArray s m1)) r" for r
      using s by (cases r) (auto simp: struct_in_def)
    ultimately show ?thesis
      using True q m' IH [of qs] by (simp add: map_of_oput [OF sm])
  next
    case False
    with q m' s show ?thesis
      by (cases "c = i") (auto simp: struct_in_def map_of_oput [OF sm])
  qed
qed auto

text \<open>The insertion fails exactly when the position is a level that has no struct of its own.\<close>

lemma insert_loop_error:
  assumes "p \<noteq> []"
  shows "IndexTableMap_insert_loop m p e = Inl err \<longleftrightarrow>
     err = NullDeref \<and> descend (Some (SubArray x m)) p \<noteq> None
     \<and> struct_in (Some (SubArray x m)) p = None"
  using assms
proof (induction m p e arbitrary: x rule: IndexTableMap_insert_loop.induct)
  case (2 m b e)
  then show ?case by (auto simp: struct_in_def split: option.splits prod.splits)
next
  case (3 m i j js e)
  obtain s m1 where s: "stepInto (map_of m i) = (s, m1)" by fastforce
  have "descend (Some (SubArray x m)) (i # j # js) = descend (Some (SubArray s m1)) (j # js)"
    using s by simp
  with "3.IH" [OF s [symmetric], of s] s show ?case
    by (auto simp: struct_in_def bind_res_def split: sum.splits)
qed auto

end
