(* ===== verification/Worklist.thy ===== *)
theory Worklist
  imports Prelude
begin

text \<open>
  Two loop shapes recur in the passes. The first takes an element off a stack, skips it if it was
  visited, and otherwise marks it and pushes its successors. The second repeats a pass that adds
  the successors of a whole set until the size of the set no longer changes. Each has its own
  definition where the code has it; the locales here hold the proof that such a loop computes
  reachability, from the equations of the loop alone.
\<close>

definition edges_of :: "('a \<Rightarrow> 'a list) \<Rightarrow> ('a \<times> 'a) set" where
  "edges_of succ = {(x, y). y \<in> set (succ x)}"

lemma edges_of_iff [simp]: "(x, y) \<in> edges_of succ \<longleftrightarrow> y \<in> set (succ x)"
  by (simp add: edges_of_def)

lemma Image_closed_rtrancl:
  assumes "r `` X \<subseteq> X"
  shows "r\<^sup>* `` X = X"
proof -
  have "y \<in> X" if "(x, y) \<in> r\<^sup>*" and "x \<in> X" for x y
    using that by (induction rule: rtrancl_induct) (use assms in auto)
  then show ?thesis by auto
qed

locale worklist =
  fixes succ :: "'a \<Rightarrow> 'a list"
    and run :: "'a list \<Rightarrow> 'a list \<Rightarrow> 'a list"
    and V :: "'a set"
  assumes finite_V: "finite V"
    and succ_outside: "x \<notin> V \<Longrightarrow> succ x = []"
    and run_nil: "run [] vis = vis"
    and run_skip: "x \<in> set vis \<Longrightarrow> run (x # st) vis = run st vis"
    and run_push: "x \<notin> set vis \<Longrightarrow> run (x # st) vis = run (rev (succ x) @ st) (sins x vis)"
begin

lemma run_induct [case_names nil skip push]:
  assumes nil: "\<And>vis. P [] vis"
    and skip: "\<And>x st vis. x \<in> set vis \<Longrightarrow> P st vis \<Longrightarrow> P (x # st) vis"
    and push: "\<And>x st vis. x \<notin> set vis \<Longrightarrow> P (rev (succ x) @ st) (sins x vis) \<Longrightarrow> P (x # st) vis"
  shows "P st vis"
proof (induction "(st, vis)" arbitrary: st vis
    rule: wf_induct [OF wf_measures [of "[\<lambda>(st, vis). card (V - set vis), \<lambda>(st, vis). length st]"]])
  case (1 st vis)
  show ?case
  proof (cases st)
    case Nil
    then show ?thesis by (simp add: nil)
  next
    case (Cons x xs)
    show ?thesis
    proof (cases "x \<in> set vis")
      case True
      with 1 Cons show ?thesis by (auto intro!: skip)
    next
      case False
      have "P (rev (succ x) @ xs) (sins x vis)"
      proof (cases "x \<in> V")
        case True
        have "V - set (sins x vis) \<subset> V - set vis" using True False by auto
        then have "card (V - set (sins x vis)) < card (V - set vis)"
          using finite_V by (meson finite_Diff psubset_card_mono)
        with 1 Cons show ?thesis by auto
      next
        case False
        then have "succ x = []" and "V - set (sins x vis) = V - set vis"
          using succ_outside by auto
        with 1 Cons show ?thesis by auto
      qed
      with False Cons show ?thesis by (simp add: push)
    qed
  qed
qed

lemma run_extends: "set vis \<union> set st \<subseteq> set (run st vis)"
  by (induction st vis rule: run_induct) (auto simp: run_nil run_skip run_push)

lemma run_bounded: "set (run st vis) \<subseteq> set vis \<union> (edges_of succ)\<^sup>* `` set st"
proof (induction st vis rule: run_induct)
  case (push x st vis)
  have "(edges_of succ)\<^sup>* `` set (succ x) \<subseteq> (edges_of succ)\<^sup>* `` {x}"
    by (auto intro: converse_rtrancl_into_rtrancl)
  with push show ?case by (auto simp: run_push Image_Un)
qed (auto simp: run_nil run_skip)

lemma run_closed:
  "edges_of succ `` set vis \<subseteq> set vis \<union> set st \<Longrightarrow>
     edges_of succ `` set (run st vis) \<subseteq> set (run st vis)"
proof (induction st vis rule: run_induct)
  case (push x st vis)
  have "edges_of succ `` set (sins x vis) \<subseteq> set (sins x vis) \<union> set (rev (succ x) @ st)"
    using push.prems by auto
  with push.IH have "edges_of succ `` set (run (rev (succ x) @ st) (sins x vis))
      \<subseteq> set (run (rev (succ x) @ st) (sins x vis))" .
  with push.hyps show ?case by (simp only: run_push not_False_eq_True)
qed (auto simp: run_nil run_skip)

theorem run_reachable:
  assumes "edges_of succ `` set vis \<subseteq> set vis"
  shows "set (run st vis) = set vis \<union> (edges_of succ)\<^sup>* `` set st"
proof
  show "set (run st vis) \<subseteq> set vis \<union> (edges_of succ)\<^sup>* `` set st" by (rule run_bounded)
  have "edges_of succ `` set (run st vis) \<subseteq> set (run st vis)"
    using assms by (intro run_closed) auto
  then have "(edges_of succ)\<^sup>* `` set (run st vis) = set (run st vis)"
    by (rule Image_closed_rtrancl)
  moreover have "(edges_of succ)\<^sup>* `` set st \<subseteq> (edges_of succ)\<^sup>* `` set (run st vis)"
    using run_extends [of vis st] by (auto intro: Image_mono)
  ultimately show "set vis \<union> (edges_of succ)\<^sup>* `` set st \<subseteq> set (run st vis)"
    using run_extends [of vis st] by auto
qed

lemma run_distinct: "distinct vis \<Longrightarrow> distinct (run st vis)"
  by (induction st vis rule: run_induct) (auto simp: run_nil run_skip run_push)

end

locale saturation =
  fixes E :: "('a \<times> 'a) set"
    and els :: "'s \<Rightarrow> 'a list"
    and step :: "'s \<Rightarrow> 's"
    and run :: "'s \<Rightarrow> 's"
    and ok :: "'s \<Rightarrow> bool"
  assumes finite_range: "finite (Range E)"
    and ok_step: "ok s \<Longrightarrow> ok (step s)"
    and els_step: "ok s \<Longrightarrow> set (els (step s)) = set (els s) \<union> E `` set (els s)"
    and ok_distinct: "ok s \<Longrightarrow> distinct (els s)"
    and run_eq: "run s = (if length (els (step s)) = length (els s) then step s else run (step s))"
begin

lemma run_els:
  assumes "ok s"
  shows "set (els (run s)) = E\<^sup>* `` set (els s) \<and> ok (run s)"
  using assms
proof (induction "card (Range E - set (els s))" arbitrary: s rule: less_induct)
  case less
  note st = els_step [OF less.prems]
  have card: "length (els s') = card (set (els s'))" if "ok s'" for s'
    using ok_distinct [OF that] by (simp add: distinct_card)
  show ?case
  proof (cases "length (els (step s)) = length (els s)")
    case True
    then have "card (set (els (step s))) = card (set (els s))"
      using card less.prems ok_step by metis
    then have "set (els (step s)) = set (els s)"
      using st by (metis List.finite_set Un_upper1 card_subset_eq)
    moreover from this st have "E `` set (els s) \<subseteq> set (els s)" by blast
    ultimately show ?thesis
      using True ok_step [OF less.prems] by (simp add: run_eq [of s] Image_closed_rtrancl)
  next
    case False
    then have "set (els (step s)) \<noteq> set (els s)"
      using card less.prems ok_step by metis
    with st have "Range E - set (els (step s)) \<subset> Range E - set (els s)" by blast
    then have "card (Range E - set (els (step s))) < card (Range E - set (els s))"
      using finite_range by (meson finite_Diff psubset_card_mono)
    from less.hyps [OF this ok_step [OF less.prems]]
    have "set (els (run s)) = E\<^sup>* `` (set (els s) \<union> E `` set (els s)) \<and> ok (run s)"
      using False st by (simp add: run_eq [of s])
    moreover have "E\<^sup>* `` (X \<union> E `` X) = E\<^sup>* `` X" for X
      by (auto intro: converse_rtrancl_into_rtrancl)
    ultimately show ?thesis by simp
  qed
qed

end

end
