(* ===== verification/Alias_Table.thy ===== *)
theory Alias_Table
  imports Alias_Maps Worklist
begin

text \<open>
  The alias table (\<open>AliasTable.hpp\<close>, \<open>AliasTable.cpp\<close>): the map of positions, the heap of
  entries and the counter of identifiers. Operations that follow a pointer return
  \<open>Inl NullDeref\<close> for a null pointer. A set of entries is iterated over as the list of its
  elements; where the code inserts into a set while it iterates over it
  (\<open>getAliases\<close>, \<open>getModifiedVariables\<close>), the model iterates over the elements present when
  the pass starts, and the result is shown to be the closure whatever the order.
\<close>

type_synonym 't heap = "(addr \<times> 't aliasArg) list"

record 't aliasTable =
  tmap :: aliasTableMap
  heap :: "'t heap"
  curId :: nat

definition aliasTable_empty :: "'t aliasTable" where
  "aliasTable_empty = \<lparr>tmap = [], heap = [], curId = 0\<rparr>"

definition deref :: "'t heap \<Rightarrow> addr \<Rightarrow> 't aliasArg res" where
  "deref h p = (case map_of h p of None \<Rightarrow> Inl NullDeref | Some a \<Rightarrow> Inr a)"

definition modify :: "addr \<Rightarrow> ('t aliasArg \<Rightarrow> 't aliasArg) \<Rightarrow> 't aliasTable \<Rightarrow> 't aliasTable res" where
  "modify p f T = bind_res (deref (heap T) p) (\<lambda>a. Inr (T\<lparr>heap := aput p (f a) (heap T)\<rparr>))"

definition getKey :: "'t vardecl \<Rightarrow> nat" where
  "getKey v = vd_canonical v"

section \<open>Look-up and insertion\<close>

definition getAliasArg_const :: "'t aliasTable \<Rightarrow> 't vardecl \<Rightarrow> int list \<Rightarrow> string \<Rightarrow> addr" where
  "getAliasArg_const T v idx istr =
     (if AliasTableMap_count (tmap T) (getKey v) [] \<noteq> 0 then
        (case fst (stepInto (AliasTableMap_at (tmap T) (getKey v) idx)) of
           None \<Rightarrow> null
         | Some s \<Rightarrow>
             (if istr = [] then aliasPtr s
              else (case map_of (unknownIndexAliases s) istr of Some a \<Rightarrow> a | None \<Rightarrow> null)))
      else null)"

definition getAliasArg :: "'t aliasTable \<Rightarrow> 't vardecl \<Rightarrow> int list \<Rightarrow> string \<Rightarrow> addr res" where
  "getAliasArg T v idx istr =
     (if AliasTableMap_count (tmap T) (getKey v) [] \<noteq> 0 then
        bind_res (AliasTableMap_at_mut (tmap T) (getKey v) idx) (\<lambda>tableValue.
        (case fst (stepInto tableValue) of
           None \<Rightarrow> Inr null
         | Some s \<Rightarrow>
             Inr (if istr = [] then aliasPtr s
                  else (case map_of (unknownIndexAliases s) istr of Some a \<Rightarrow> a | None \<Rightarrow> null))))
      else Inr null)"

definition isInTable :: "'t aliasTable \<Rightarrow> 't vardecl \<Rightarrow> int list \<Rightarrow> bool" where
  "isInTable T v idx = (AliasTableMap_count (tmap T) (getKey v) idx > 0)"

definition addElementToAliasTable ::
    "'t aliasTable \<Rightarrow> 't vardecl \<Rightarrow> AliasType \<Rightarrow> int list \<Rightarrow> string \<Rightarrow> 't stmt option \<Rightarrow>
     't aliasTable res" where
  "addElementToAliasTable T v t idx istr ex =
     bind_res (aliasArg_new v t idx istr ex (curId T)) (\<lambda>a.
     bind_res (AliasTableMap_insert (tmap T) a idx) (\<lambda>m.
       Inr (T\<lparr>tmap := m, heap := aput (Suc (curId T)) a (heap T), curId := Suc (curId T)\<rparr>)))"

definition getOrAddAliasArg ::
    "'t aliasTable \<Rightarrow> 't vardecl \<Rightarrow> AliasType \<Rightarrow> int list \<Rightarrow> string \<Rightarrow> 't stmt option \<Rightarrow>
     (addr \<times> 't aliasTable) res" where
  "getOrAddAliasArg T v t idx istr ex =
     bind_res (getAliasArg T v [] []) (\<lambda>a0.
     bind_res (if a0 = null then addElementToAliasTable T v t [] [] None else Inr T) (\<lambda>T1.
     bind_res (getAliasArg T1 v idx []) (\<lambda>a1.
     bind_res (if a1 = null then addElementToAliasTable T1 v t idx istr ex else Inr T1) (\<lambda>T2.
     bind_res (getAliasArg T2 v idx istr) (\<lambda>a2.
     bind_res (if a2 = null then addElementToAliasTable T2 v t idx istr ex else Inr T2) (\<lambda>T3.
     bind_res (getAliasArg T3 v idx istr) (\<lambda>a3.
       Inr (a3, T3))))))))"

section \<open>Links between entries\<close>

definition addAliasReference :: "'t aliasTable \<Rightarrow> addr \<Rightarrow> addr \<Rightarrow> 't aliasTable res" where
  "addAliasReference T var ref =
     (if var \<noteq> null \<and> ref \<noteq> null then
        bind_res (modify var (\<lambda>a. a\<lparr>references := sins ref (references a)\<rparr>) T)
          (modify ref (\<lambda>a. a\<lparr>aliased := sins var (aliased a)\<rparr>))
      else Inr T)"

definition addAliasPtr :: "'t aliasTable \<Rightarrow> addr \<Rightarrow> addr \<Rightarrow> 't aliasTable res" where
  "addAliasPtr T var ptr =
     (if var \<noteq> null \<and> ptr \<noteq> null then
        bind_res (modify var (\<lambda>a. a\<lparr>pointers := sins ptr (pointers a)\<rparr>) T)
          (modify ptr (\<lambda>a. a\<lparr>aliased := sins var (aliased a)\<rparr>))
      else Inr T)"

text \<open>The body of the loops that make \<open>dest\<close> alias what another entry aliases.\<close>

definition linkAliased :: "addr \<Rightarrow> addr \<Rightarrow> 't aliasTable \<Rightarrow> 't aliasTable res" where
  "linkAliased dest x T =
     bind_res (modify dest (\<lambda>a. a\<lparr>aliased := sins x (aliased a)\<rparr>) T)
       (modify x (\<lambda>a. a\<lparr>pointers := sins dest (pointers a)\<rparr>))"

definition fuseAliased :: "'t aliasTable \<Rightarrow> addr \<Rightarrow> addr \<Rightarrow> 't aliasTable res" where
  "fuseAliased T sourcePointer destPointer =
     (if destPointer \<noteq> null \<and> sourcePointer \<noteq> null \<and> destPointer \<noteq> sourcePointer then
        bind_res (deref (heap T) sourcePointer) (\<lambda>s.
          fold_res (linkAliased destPointer) (aliased s) T)
      else Inr T)"

text \<open>
  \<open>removeDependencyPtr\<close> looks up the entry of the declaration of each aliased element, without
  its indexes.
\<close>

definition removeDependencyPtr :: "'t aliasTable \<Rightarrow> addr \<Rightarrow> 't aliasTable res" where
  "removeDependencyPtr T ptr =
     (if ptr \<noteq> null then
        bind_res (deref (heap T) ptr) (\<lambda>p.
        bind_res (fold_res (\<lambda>x T'.
            bind_res (deref (heap T') x) (\<lambda>a.
            bind_res (getAliasArg T' (declarationOf a) [] []) (\<lambda>tableValueVar.
              modify tableValueVar (\<lambda>b. b\<lparr>pointers := sdel ptr (pointers b)\<rparr>) T')))
          (aliased p) T)
        (modify ptr (\<lambda>a. a\<lparr>aliased := []\<rparr>)))
      else Inr T)"

definition replaceAliasedToElement :: "'t aliasTable \<Rightarrow> addr \<Rightarrow> addr \<Rightarrow> 't aliasTable res" where
  "replaceAliasedToElement T toAddAliaser targetAlias =
     (if toAddAliaser \<noteq> targetAlias then
        bind_res (removeDependencyPtr T targetAlias) (\<lambda>T'.
        bind_res (deref (heap T') toAddAliaser) (\<lambda>s.
          fold_res (linkAliased targetAlias) (aliased s) T'))
      else Inr T)"

section \<open>Transitive queries\<close>

text \<open>
  The entries a query follows from an entry. A pointer in the heap is never dangling, so a
  missing address has no successor.
\<close>

definition aliasedSucc :: "'t heap \<Rightarrow> addr \<Rightarrow> addr list" where
  "aliasedSucc h cur =
     (case map_of h cur of
        None \<Rightarrow> []
      | Some a \<Rightarrow> (if atype a = Reference \<or> atype a = Pointer then aliased a else []))"

function getAliased_loop :: "'t heap \<Rightarrow> addr list \<Rightarrow> addr list \<Rightarrow> addr list" where
  "getAliased_loop h [] aliases = aliases"
| "getAliased_loop h (cur # aliasStack) aliases =
     (if cur \<in> set aliases then getAliased_loop h aliasStack aliases
      else getAliased_loop h (rev (aliasedSucc h cur) @ aliasStack) (sins cur aliases))"
  by pat_completeness auto
termination
proof (relation "measures [\<lambda>(h, st, al). card (fst ` set h - set al), \<lambda>(h, st, al). length st]")
  fix h :: "'t heap" and cur :: addr and aliasStack aliases
  assume new: "cur \<notin> set aliases"
  show "((h, rev (aliasedSucc h cur) @ aliasStack, sins cur aliases), h, cur # aliasStack, aliases)
      \<in> measures [\<lambda>(h, st, al). card (fst ` set h - set al), \<lambda>(h, st, al). length st]"
  proof (cases "cur \<in> fst ` set h")
    case True
    then have "fst ` set h - set (sins cur aliases) \<subset> fst ` set h - set aliases"
      using new by auto
    then have "card (fst ` set h - set (sins cur aliases)) < card (fst ` set h - set aliases)"
      by (simp add: psubset_card_mono)
    then show ?thesis by simp
  next
    case False
    then have "aliasedSucc h cur = []"
      by (auto simp: aliasedSucc_def dest: map_of_in_dom split: option.splits)
    moreover have "fst ` set h - set (sins cur aliases) = fst ` set h - set aliases"
      using False by auto
    ultimately show ?thesis by simp
  qed
qed auto

definition getAliased :: "'t aliasTable \<Rightarrow> addr \<Rightarrow> addr list" where
  "getAliased T v = getAliased_loop (heap T) (if v \<noteq> null then [v] else []) []"

definition getReferencesAliases :: "'t heap \<Rightarrow> addr \<Rightarrow> addr list \<Rightarrow> addr list" where
  "getReferencesAliases h v aliases =
     (case map_of h v of None \<Rightarrow> aliases | Some a \<Rightarrow> sinsl (references a) aliases)"

definition getPointersAliases :: "'t heap \<Rightarrow> addr \<Rightarrow> addr list \<Rightarrow> addr list" where
  "getPointersAliases h v aliases =
     (case map_of h v of None \<Rightarrow> aliases | Some a \<Rightarrow> sinsl (pointers a) aliases)"

definition referenceSucc :: "'t heap \<Rightarrow> addr \<Rightarrow> addr list" where
  "referenceSucc h v =
     (case map_of h v of
        None \<Rightarrow> []
      | Some a \<Rightarrow> (if atype a = Reference then aliased a else []))"

text \<open>One pass of the \<open>while\<close> loop of \<open>getAliases\<close>, on the two sets.\<close>

definition getAliases_pass :: "'t heap \<Rightarrow> addr list \<times> addr list \<Rightarrow> addr list \<times> addr list" where
  "getAliases_pass h s =
     (case fold (\<lambda>alias (aliases, prevAliases).
                   (sinsl (referenceSucc h alias) aliases, getReferencesAliases h alias prevAliases))
                (fst s) s of
        (aliases, prevAliases) \<Rightarrow> (sinsl prevAliases aliases, prevAliases))"

definition heap_targets :: "'t heap \<Rightarrow> addr set" where
  "heap_targets h = (\<Union>(p, a) \<in> set h. set (aliased a) \<union> set (references a))"

lemma finite_heap_targets [simp]: "finite (heap_targets h)"
  by (auto simp: heap_targets_def)

lemma heap_targetsI:
  "map_of h v = Some a \<Longrightarrow> set (aliased a) \<union> set (references a) \<subseteq> heap_targets h"
  by (force simp: heap_targets_def dest: map_of_SomeD)

lemma referenceSucc_targets: "set (referenceSucc h v) \<subseteq> heap_targets h"
  using heap_targetsI [of h v] by (cases "map_of h v") (auto simp: referenceSucc_def)

definition referencesOf :: "'t heap \<Rightarrow> addr \<Rightarrow> addr list" where
  "referencesOf h v = (case map_of h v of None \<Rightarrow> [] | Some a \<Rightarrow> references a)"

lemma referencesOf_targets: "set (referencesOf h v) \<subseteq> heap_targets h"
  using heap_targetsI [of h v] by (cases "map_of h v") (auto simp: referencesOf_def)

lemma getReferencesAliases_eq:
  "getReferencesAliases h v al = sinsl (referencesOf h v) al"
  by (auto simp: getReferencesAliases_def referencesOf_def sinsl_def split: option.splits)

lemma getAliases_pass_fold:
  "set (fst (fold (\<lambda>alias (al, pv). (sinsl (referenceSucc h alias) al,
        getReferencesAliases h alias pv)) xs s))
     = set (fst s) \<union> (\<Union>x \<in> set xs. set (referenceSucc h x))
   \<and> set (snd (fold (\<lambda>alias (al, pv). (sinsl (referenceSucc h alias) al,
        getReferencesAliases h alias pv)) xs s))
     = set (snd s) \<union> (\<Union>x \<in> set xs. set (referencesOf h x))"
  by (induction xs arbitrary: s) (auto simp: getReferencesAliases_eq split: prod.splits)

lemma getAliases_pass_sets:
  "set (snd (getAliases_pass h s)) = set (snd s) \<union> (\<Union>x \<in> set (fst s). set (referencesOf h x))"
  "set (fst (getAliases_pass h s)) =
     set (fst s) \<union> (\<Union>x \<in> set (fst s). set (referenceSucc h x)) \<union> set (snd (getAliases_pass h s))"
  using getAliases_pass_fold [of h "fst s" s]
  by (auto simp: getAliases_pass_def split: prod.splits)

lemma getAliases_pass_stable:
  assumes "set (fst (getAliases_pass h s)) \<subseteq> set (fst s)"
  shows "fst (getAliases_pass h s) = fst s"
proof -
  have fold: "fst (fold (\<lambda>alias (al, pv). (sinsl (referenceSucc h alias) al,
        getReferencesAliases h alias pv)) xs t) = fst t"
    if "\<forall>x \<in> set xs. set (referenceSucc h x) \<subseteq> set (fst t)" for xs t
    using that by (induction xs arbitrary: t) (auto simp: sinsl_id split: prod.splits)
  have "\<forall>x \<in> set (fst s). set (referenceSucc h x) \<subseteq> set (fst s)"
    and "set (snd (getAliases_pass h s)) \<subseteq> set (fst s)"
    using assms by (auto simp: getAliases_pass_sets(2))
  with fold [of "fst s" s] show ?thesis
    by (auto simp: getAliases_pass_def sinsl_id split: prod.splits)
qed

function getAliases_loop :: "'t heap \<Rightarrow> addr list \<times> addr list \<Rightarrow> addr list \<times> addr list" where
  "getAliases_loop h s =
     (let s' = getAliases_pass h s in
      if length (fst s') = length (fst s) then s' else getAliases_loop h s')"
  by pat_completeness auto
termination
proof (relation "measure (\<lambda>(h, s). card (heap_targets h \<union> set (snd s) - set (fst s)))", goal_cases)
  case (2 h s s')
  have "\<not> set (fst s') \<subseteq> set (fst s)" using 2 getAliases_pass_stable [of h s] by auto
  moreover have "set (snd s') \<subseteq> heap_targets h \<union> set (snd s)"
    and "set (fst s') \<subseteq> set (fst s) \<union> (heap_targets h \<union> set (snd s))"
    and "set (fst s) \<subseteq> set (fst s')"
    using 2 referenceSucc_targets [of h] referencesOf_targets [of h]
    by (auto simp: getAliases_pass_sets)
  ultimately have "heap_targets h \<union> set (snd s') - set (fst s')
      \<subset> heap_targets h \<union> set (snd s) - set (fst s)"
    by blast
  then show ?case by (simp add: psubset_card_mono)
qed simp

declare getAliases_loop.simps [simp del]

definition getAliases :: "'t aliasTable \<Rightarrow> addr \<Rightarrow> addr list" where
  "getAliases T v = fst (getAliases_loop (heap T) ([v], []))"

section \<open>Queries by depth of access\<close>

text \<open>\<open>aliased\<close> of an entry that must not be the null pointer, without null elements.\<close>

definition aliasedOf :: "'t heap \<Rightarrow> addr \<Rightarrow> addr list" where
  "aliasedOf h v = (case map_of h v of None \<Rightarrow> [] | Some a \<Rightarrow> aliased a)"

fun getPointerAccessedVariables_loop ::
    "'t heap \<Rightarrow> nat \<Rightarrow> addr list \<Rightarrow> addr list \<Rightarrow> addr list res" where
  "getPointerAccessedVariables_loop h 0 precSet setResults = Inr setResults"
| "getPointerAccessedVariables_loop h (Suc n) precSet setResults =
     (if null \<in> set precSet then Inl NullDeref
      else (let curSet = sinsl (filter (\<lambda>p. p \<noteq> null) (concat (map (aliasedOf h) precSet))) [] in
            getPointerAccessedVariables_loop h n curSet (sinsl curSet setResults)))"

definition getPointerAccessedVariables ::
    "'t aliasTable \<Rightarrow> addr list \<Rightarrow> int \<Rightarrow> addr list res" where
  "getPointerAccessedVariables T setResults depth =
     getPointerAccessedVariables_loop (heap T) (nat depth) setResults setResults"

definition pointerSucc :: "'t heap \<Rightarrow> addr \<Rightarrow> addr list" where
  "pointerSucc h v =
     (case map_of h v of
        None \<Rightarrow> []
      | Some a \<Rightarrow> (if atype a = Reference then [] else if atype a = Pointer then aliased a else []))"

text \<open>The null pointer is skipped.\<close>

definition pointerHop :: "'t heap \<Rightarrow> addr \<Rightarrow> addr list" where
  "pointerHop h d = (if d = null then [] else pointerSucc h d)"

fun getModifiedVariables_steps :: "'t heap \<Rightarrow> nat \<Rightarrow> addr list \<Rightarrow> addr list" where
  "getModifiedVariables_steps h 0 curSet = curSet"
| "getModifiedVariables_steps h (Suc n) curSet =
     getModifiedVariables_steps h n
       (sinsl (concat (map (pointerHop h) curSet)) [])"

text \<open>One pass of the loop of depth 0, on \<open>tempAliased\<close> and \<open>curSet\<close>.\<close>

definition getModifiedVariables_pass :: "'t heap \<Rightarrow> addr list \<times> addr list \<Rightarrow> addr list \<times> addr list" where
  "getModifiedVariables_pass h s =
     fold (\<lambda>d (tempAliased, curSet).
             (sinsl (referenceSucc h d) tempAliased, sinsl (referencesOf h d) curSet))
          (fst s) s"

lemma getModifiedVariables_pass_sets:
  "set (fst (getModifiedVariables_pass h s)) =
     set (fst s) \<union> (\<Union>x \<in> set (fst s). set (referenceSucc h x))"
  "set (snd (getModifiedVariables_pass h s)) =
     set (snd s) \<union> (\<Union>x \<in> set (fst s). set (referencesOf h x))"
  using getAliases_pass_fold [of h "fst s" s]
  by (simp_all add: getModifiedVariables_pass_def getReferencesAliases_eq)

lemma getModifiedVariables_pass_stable:
  assumes "set (fst (getModifiedVariables_pass h s)) \<subseteq> set (fst s)"
  shows "fst (getModifiedVariables_pass h s) = fst s"
proof -
  have "fst (fold (\<lambda>d (al, cs). (sinsl (referenceSucc h d) al, sinsl (referencesOf h d) cs)) xs t) = fst t"
    if "\<forall>x \<in> set xs. set (referenceSucc h x) \<subseteq> set (fst t)" for xs t
    using that by (induction xs arbitrary: t) (auto simp: sinsl_id split: prod.splits)
  from this [of "fst s" s] assms show ?thesis
    by (auto simp: getModifiedVariables_pass_def getModifiedVariables_pass_sets(1)
        [unfolded getModifiedVariables_pass_def])
qed

function getModifiedVariables_loop :: "'t heap \<Rightarrow> addr list \<times> addr list \<Rightarrow> addr list \<times> addr list" where
  "getModifiedVariables_loop h s =
     (let s' = getModifiedVariables_pass h s in
      if length (fst s') = length (fst s) then s' else getModifiedVariables_loop h s')"
  by pat_completeness auto
termination
proof (relation "measure (\<lambda>(h, s). card (heap_targets h - set (fst s)))", goal_cases)
  case (2 h s s')
  have "\<not> set (fst s') \<subseteq> set (fst s)"
    using 2 getModifiedVariables_pass_stable [of h s] by auto
  moreover have "set (fst s') \<subseteq> set (fst s) \<union> heap_targets h" and "set (fst s) \<subseteq> set (fst s')"
    using 2 referenceSucc_targets [of h] by (auto simp: getModifiedVariables_pass_sets)
  ultimately have "heap_targets h - set (fst s') \<subset> heap_targets h - set (fst s)"
    by blast
  then show ?case by (simp add: psubset_card_mono)
qed simp

declare getModifiedVariables_loop.simps [simp del]

definition getModifiedVariables :: "'t aliasTable \<Rightarrow> addr list \<Rightarrow> int \<Rightarrow> addr list res" where
  "getModifiedVariables T setResults depth =
     (if depth > 0 then Inr (getModifiedVariables_steps (heap T) (nat depth) setResults)
      else if depth = 0 then
        (if null \<in> set setResults then Inl NullDeref
         else (case getModifiedVariables_loop (heap T) (setResults, setResults) of
                 (tempAliased, curSet) \<Rightarrow> Inr (sinsl (sinsl tempAliased curSet) setResults)))
      else if depth = -1 then Inr []
      else Inr setResults)"

section \<open>Array elements\<close>

definition getDirectChildren :: "tableValue \<Rightarrow> int \<Rightarrow> tableValue list res" where
  "getDirectChildren elem depth =
     (if depth < -1 then Inl AssertFailed
      else (case elem of
              SubArray s m \<Rightarrow>
                (if depth = -1 then Inr (map snd m)
                 else (case map_of m depth of Some v \<Rightarrow> Inr [v] | None \<Rightarrow> Inr []))
            | ArgStruct s \<Rightarrow> Inr []))"

text \<open>All the entries of the struct of a value.\<close>

definition aliasesOfValue :: "tableValue \<Rightarrow> addr list" where
  "aliasesOfValue v = (case fst (stepInto (Some v)) of None \<Rightarrow> [] | Some s \<Rightarrow> getAllAlias s)"

text \<open>
  The loop over the stack \<open>toVisit\<close> and the remaining indexes. The values found are collected in
  \<open>nextToVisit\<close> until the stack is empty, and are then the stack of the next index.
\<close>

fun getArrayElementDependencies_loop ::
    "tableValue list \<Rightarrow> int list \<Rightarrow> tableValue list \<Rightarrow> addr list \<Rightarrow> addr list res" where
  "getArrayElementDependencies_loop [] idx nextToVisit deps = Inr deps"
| "getArrayElementDependencies_loop (cur # toVisit) [] nextToVisit deps = Inr deps"
| "getArrayElementDependencies_loop (cur # toVisit) (i # is) nextToVisit deps =
     bind_res (getDirectChildren cur i) (\<lambda>curChildren.
       (let deps' = sinsl (concat (map aliasesOfValue curChildren)) deps;
            next' = nextToVisit @ curChildren in
        if toVisit = [] then getArrayElementDependencies_loop (rev next') is [] deps'
        else getArrayElementDependencies_loop toVisit (i # is) next' deps'))"

definition getArrayElementDependencies :: "'t aliasTable \<Rightarrow> addr \<Rightarrow> addr list res" where
  "getArrayElementDependencies T elem =
     (if elem = null then Inr []
      else bind_res (deref (heap T) elem) (\<lambda>a.
        (case AliasTableMap_at (tmap T) (getKey (declarationOf a)) [] of
           None \<Rightarrow> Inl NullDeref
         | Some curElem \<Rightarrow>
             getArrayElementDependencies_loop [curElem] (indexes a) []
               (sinsl (aliasesOfValue curElem) []))))"

definition getArrayElementChildren :: "'t aliasTable \<Rightarrow> addr \<Rightarrow> addr list res" where
  "getArrayElementChildren T elem =
     bind_res (getArrayElementDependencies T elem) (\<lambda>allElem.
     bind_res (deref (heap T) elem) (\<lambda>e.
     bind_res (map_res (\<lambda>c. bind_res (deref (heap T) c) (\<lambda>o'. Inr (c, o'))) allElem) (\<lambda>cs.
       Inr (map fst (filter (\<lambda>(c, o'). length (indexes o') \<ge> length (indexes e)) cs)))))"

text \<open>The parents: for each entry with fewer indexes the code pushes \<open>elem\<close> itself.\<close>

definition getArrayElementParents :: "'t aliasTable \<Rightarrow> addr \<Rightarrow> addr list res" where
  "getArrayElementParents T elem =
     bind_res (getArrayElementDependencies T elem) (\<lambda>allElements.
     bind_res (map_res (\<lambda>c. bind_res (deref (heap T) c) (\<lambda>o'.
         bind_res (deref (heap T) elem) (\<lambda>e.
           Inr (length (indexes o') < length (indexes e))))) allElements) (\<lambda>shorter.
       Inr (map (\<lambda>_. elem) (filter id shorter))))"

end
