(* ===== verification/Alias_Store.thy ===== *)
theory Alias_Store
  imports Alias_Table
begin

text \<open>
  The alias table as a store of entries: the invariant that ties every entry to its position, the
  laws of look-up and insertion as a locale, and what \<open>getOrAddAliasArg\<close> guarantees.
\<close>

section \<open>Look-up as a function of the position\<close>

lemma getAliasArg_const_struct_at:
  "getAliasArg_const T v idx istr =
     (case struct_at (tmap T) (getKey v) idx of
        None \<Rightarrow> null
      | Some s \<Rightarrow> (if istr = [] then aliasPtr s
                   else (case map_of (unknownIndexAliases s) istr of Some a \<Rightarrow> a | None \<Rightarrow> null)))"
  by (auto simp: getAliasArg_const_def AliasTableMap_count_def AliasTableMap_at_descend
      struct_at_def struct_in_def)

lemma getAliasArg_eq: "getAliasArg T v idx istr = Inr (getAliasArg_const T v idx istr)"
  by (auto simp: getAliasArg_def getAliasArg_const_def AliasTableMap_count_def
      AliasTableMap_at_mut_eq split: option.splits)

section \<open>Insertion as an update of the positions\<close>

lemma set_aput_subset: "set (aput k v m) \<subseteq> insert (k, v) (set m)"
  by (induction k v m rule: aput.induct) auto

lemma sorted_stepInto:
  assumes "sorted_table t" and "stepInto (map_of t k) = (s, m)"
  shows "sorted_value (SubArray s' m)"
proof (cases "map_of t k")
  case None
  with assms(2) show ?thesis by simp
next
  case (Some v)
  then have "sorted_value v" using assms(1) by (auto simp: sorted_table_def dest: map_of_SomeD)
  with Some assms(2) show ?thesis by (cases v) auto
qed

lemma struct_at_aput:
  "struct_at (aput k v t) k' p = (if k' = k then struct_in (Some v) p else struct_at t k' p)"
  by (simp add: struct_at_def)

lemma struct_at_SubArray:
  assumes "stepInto (map_of t k) = (s, m)"
  shows "struct_at t k p = struct_in (Some (SubArray s m)) p"
  using assms by (cases p) (auto simp: struct_at_def struct_in_def)

lemma AliasTableMap_insert_struct:
  assumes "AliasTableMap_insert t a idx = Inr t'" and "sorted_table t"
  shows "struct_at t' k p =
     (if k = getKey (declarationOf a) \<and> p = idx then
        (case struct_at t k p of
           None \<Rightarrow> Some (struct_of a)
         | Some s \<Rightarrow> Some (if idx = [] then s else argStruct_plus s (struct_of a)))
      else struct_at t k p)"
proof -
  let ?k = "getKey (declarationOf a)"
  show ?thesis
  proof (cases "idx = []")
    case True
    with assms(1) show ?thesis
      by (cases p) (auto simp: AliasTableMap_insert_def struct_at_aput struct_in_def getKey_def
          struct_at_def Let_def split: option.splits tableValue.splits)
  next
    case False
    obtain s m where s: "stepInto (map_of t ?k) = (s, m)" by fastforce
    then obtain m' where m': "IndexTableMap_insert_loop m idx (struct_of a) = Inr m'"
      and t': "t' = aput ?k (SubArray s m') t"
      using assms(1) False by (auto simp: AliasTableMap_insert_def IndexTableMap_insert_def
          Let_def getKey_def res_simps)
    note st = struct_at_SubArray [OF s]
    show ?thesis
    proof (cases "p = []")
      case True
      with False st t' show ?thesis by (simp add: struct_at_aput struct_in_def)
    next
      case p: False
      note upd = insert_loop_struct [OF m' sorted_stepInto [OF assms(2) s] False p, of s]
      with False st t' show ?thesis by (auto simp: struct_at_aput split: option.splits)
    qed
  qed
qed

lemma AliasTableMap_insert_sorted:
  assumes "AliasTableMap_insert t a idx = Inr t'" and "sorted_table t"
  shows "sorted_table t'"
proof -
  let ?k = "getKey (declarationOf a)"
  obtain s m where s: "stepInto (map_of t ?k) = (s, m)" by fastforce
  note sm = sorted_stepInto [OF assms(2) s]
  have aput: "sorted_table (aput k v t)" if "sorted_value v" for k v
    using that assms(2) set_aput_subset [of k v t] by (auto simp: sorted_table_def)
  show ?thesis
  proof (cases "idx = []")
    case True
    with assms s sm aput show ?thesis
      by (auto simp: AliasTableMap_insert_def getKey_def Let_def
          split: option.splits tableValue.splits)
  next
    case False
    then obtain m' where "IndexTableMap_insert_loop m idx (struct_of a) = Inr m'"
      and "t' = aput ?k (SubArray s m') t"
      using assms(1) s by (auto simp: AliasTableMap_insert_def IndexTableMap_insert_def
          Let_def getKey_def res_simps)
    with insert_loop_sorted [OF _ sm] aput show ?thesis by auto
  qed
qed

lemma AliasTableMap_insert_error:
  "AliasTableMap_insert t a idx = Inl e \<longleftrightarrow>
     e = NullDeref \<and> idx \<noteq> [] \<and> AliasTableMap_at t (getKey (declarationOf a)) idx \<noteq> None
     \<and> struct_at t (getKey (declarationOf a)) idx = None"
proof (cases "idx = []")
  case True
  then show ?thesis
    by (auto simp: AliasTableMap_insert_def Let_def split: option.splits tableValue.splits)
next
  case False
  let ?k = "getKey (declarationOf a)"
  obtain s m where s: "stepInto (map_of t ?k) = (s, m)" by fastforce
  have "descend (map_of t ?k) idx = descend (Some (SubArray s m)) idx"
    using False s by (cases idx) auto
  moreover have "bind_res r (\<lambda>m'. Inr (f m')) = Inl e \<longleftrightarrow> r = Inl e" for r :: "indexMap res" and f :: "indexMap \<Rightarrow> aliasTableMap"
    by (cases r) auto
  moreover have "AliasTableMap_insert t a idx = bind_res (IndexTableMap_insert_loop m idx (struct_of a))
      (\<lambda>m'. Inr (aput ?k (SubArray s m') t))"
    using False s by (cases "IndexTableMap_insert_loop m idx (struct_of a)")
      (simp_all add: AliasTableMap_insert_def IndexTableMap_insert_def Let_def getKey_def)
  ultimately show ?thesis
    using False insert_loop_error [OF False, of m "struct_of a" e s] struct_at_SubArray [OF s]
    by (simp add: AliasTableMap_at_descend)
qed

section \<open>The invariant\<close>

definition entry_ok :: "'t heap \<Rightarrow> nat \<Rightarrow> int list \<Rightarrow> addr \<Rightarrow> string \<Rightarrow> bool" where
  "entry_ok h k p a istr \<longleftrightarrow>
     (\<exists>obj. map_of h a = Some obj \<and> indexes obj = p \<and> getKey (declarationOf obj) = k
        \<and> hasUnknownIndex obj = (istr \<noteq> []) \<and> (istr \<noteq> [] \<longrightarrow> indexString obj = istr))"

definition struct_ok :: "'t heap \<Rightarrow> nat \<Rightarrow> int list \<Rightarrow> argStruct \<Rightarrow> bool" where
  "struct_ok h k p s \<longleftrightarrow>
     (aliasPtr s \<noteq> null \<longrightarrow> entry_ok h k p (aliasPtr s) [])
     \<and> (\<forall>(istr, a) \<in> set (unknownIndexAliases s). a \<noteq> null \<and> istr \<noteq> [] \<and> entry_ok h k p a istr)
     \<and> (aliasPtr s \<noteq> null \<or> unknownIndexAliases s \<noteq> [])"

definition heap_ok :: "'t aliasTable \<Rightarrow> bool" where
  "heap_ok T \<longleftrightarrow> (\<forall>a obj. map_of (heap T) a = Some obj \<longrightarrow>
     a = Suc (aid obj) \<and> aid obj < curId T \<and> hasUnknownIndex obj = (-1 \<in> set (indexes obj)))"

definition table_ok :: "'t aliasTable \<Rightarrow> bool" where
  "table_ok T \<longleftrightarrow> sorted_table (tmap T) \<and> heap_ok T
     \<and> (\<forall>k p s. struct_at (tmap T) k p = Some s \<longrightarrow> struct_ok (heap T) k p s)"

lemma table_ok_empty: "table_ok aliasTable_empty"
  by (simp add: table_ok_def aliasTable_empty_def sorted_table_def heap_ok_def struct_at_def
      struct_in_def)

lemma entry_ok_aput:
  "entry_ok h k p a istr \<Longrightarrow> map_of h b = None \<Longrightarrow> entry_ok (aput b obj h) k p a istr"
  by (auto simp: entry_ok_def)

lemma struct_ok_aput:
  "struct_ok h k p s \<Longrightarrow> map_of h b = None \<Longrightarrow> struct_ok (aput b obj h) k p s"
  by (auto simp: struct_ok_def intro: entry_ok_aput)

lemma heap_ok_fresh: "heap_ok T \<Longrightarrow> map_of (heap T) (Suc (curId T)) = None"
  by (metis heap_ok_def Suc_inject less_irrefl option.exhaust)

lemma addElement_table_ok:
  assumes "table_ok T" and "addElementToAliasTable T v t idx istr ex = Inr T'"
  shows "table_ok T'"
proof -
  obtain a m where a: "aliasArg_new v t idx istr ex (curId T) = Inr a"
    and m: "AliasTableMap_insert (tmap T) a idx = Inr m"
    and T': "T' = T\<lparr>tmap := m, heap := aput (Suc (curId T)) a (heap T), curId := Suc (curId T)\<rparr>"
    using assms(2) by (auto simp: addElementToAliasTable_def res_simps)
  note a_fields = aliasArg_new_Inr [OF a]
  have ok: "sorted_table (tmap T)" "heap_ok T"
    and sok: "\<And>k p s. struct_at (tmap T) k p = Some s \<Longrightarrow> struct_ok (heap T) k p s"
    using assms(1) by (auto simp: table_ok_def)
  note fresh = heap_ok_fresh [OF ok(2)]
  have new: "struct_ok (heap T') (getKey v) idx (struct_of a)"
    using a_fields T' by (auto simp: struct_ok_def struct_of_def entry_ok_def getIndexKey_def null_def)
  have old: "struct_ok (heap T') k p s" if "struct_at (tmap T) k p = Some s" for k p s
    using sok [OF that] fresh T' by (auto intro: struct_ok_aput)
  have merge: "struct_ok (heap T') k p (argStruct_plus s (struct_of a))"
    if "struct_ok (heap T') k p s" and "k = getKey v" and "p = idx" for k p s
  proof -
    have "set (ains x y l) \<subseteq> insert (x, y) (set l)" for x :: string and y :: addr and l
      using set_aput_subset [of x y l] by (auto simp: ains_def split: option.splits)
    moreover have "ains x y l \<noteq> []" for x :: string and y :: addr and l
      by (cases l) (auto simp: ains_def split: option.splits)
    ultimately show ?thesis
      using that new by (fastforce simp: struct_ok_def argStruct_plus_def struct_of_def
          split: if_splits)
  qed
  have "struct_ok (heap T') k p s" if "struct_at (tmap T') k p = Some s" for k p s
    using that AliasTableMap_insert_struct [OF m ok(1), of k p] new old merge a_fields T'
    by (auto split: if_splits option.splits)
  moreover have "heap_ok T'"
    using ok(2) T' a_fields unfolding heap_ok_def by (auto intro: less_SucI)
  ultimately show ?thesis
    using AliasTableMap_insert_sorted [OF m ok(1)] T' by (auto simp: table_ok_def)
qed

section \<open>The store contract\<close>

text \<open>
  What the callers of the table rely on: an entry that was found is found again at the same
  address, an insertion makes its own entry available and changes no other. \<open>lookup\<close> returns the
  null pointer for a missing entry.
\<close>

locale entry_store =
  fixes lookup :: "'s \<Rightarrow> 'k \<Rightarrow> addr"
    and add :: "'a \<Rightarrow> 's \<Rightarrow> 's res"
    and key :: "'a \<Rightarrow> 'k"
    and wf :: "'a \<Rightarrow> bool"
    and inv :: "'s \<Rightarrow> bool"
  assumes add_inv: "inv s \<Longrightarrow> add a s = Inr s' \<Longrightarrow> inv s'"
    and add_same: "inv s \<Longrightarrow> wf a \<Longrightarrow> add a s = Inr s' \<Longrightarrow> lookup s' (key a) \<noteq> null"
    and add_keep: "inv s \<Longrightarrow> wf a \<Longrightarrow> add a s = Inr s' \<Longrightarrow> lookup s k \<noteq> null \<Longrightarrow> lookup s' k = lookup s k"
    and add_other: "inv s \<Longrightarrow> wf a \<Longrightarrow> add a s = Inr s' \<Longrightarrow> k \<noteq> key a \<Longrightarrow> lookup s' k = lookup s k"
begin

text \<open>Insertion guarded by a look-up, of a key that may be another one.\<close>

definition ensure :: "'k \<times> 'a \<Rightarrow> 's \<Rightarrow> 's res" where
  "ensure pa s = (if lookup s (fst pa) = null then add (snd pa) s else Inr s)"

lemma ensure_step:
  assumes "inv s" and "ensure pa s = Inr s'" and "wf (snd pa)"
  shows "inv s'" and "lookup s k \<noteq> null \<Longrightarrow> lookup s' k = lookup s k"
    and "k \<noteq> key (snd pa) \<Longrightarrow> lookup s' k = lookup s k"
  using assms by (auto simp: ensure_def split: if_splits intro: add_inv add_keep add_other)

lemma ensure_found:
  assumes "inv s" and "ensure (key a, a) s = Inr s'" and "wf a"
  shows "lookup s' (key a) \<noteq> null"
  using assms by (auto simp: ensure_def split: if_splits dest: add_same)

lemma ensures_step:
  assumes "fold_res ensure pas s = Inr s'" and "inv s" and "\<forall>pa \<in> set pas. wf (snd pa)"
  shows "inv s' \<and> (\<forall>k. lookup s k \<noteq> null \<longrightarrow> lookup s' k = lookup s k)
     \<and> (\<forall>k. k \<notin> (key \<circ> snd) ` set pas \<longrightarrow> lookup s' k = lookup s k)"
  using assms
proof (induction pas arbitrary: s)
  case Nil
  then show ?case by simp
next
  case (Cons pa pas)
  from Cons.prems(1) obtain t where t: "ensure pa s = Inr t" "fold_res ensure pas t = Inr s'"
    by (auto simp: res_simps)
  have "wf (snd pa)" using Cons.prems(3) by simp
  note step = ensure_step [OF Cons.prems(2) t(1) this]
  from Cons.IH [OF t(2) step(1)] Cons.prems(3) show ?case using step(2,3) by auto
qed

end

definition struct_entry :: "argStruct \<Rightarrow> string \<Rightarrow> addr" where
  "struct_entry s istr =
     (if istr = [] then aliasPtr s
      else (case map_of (unknownIndexAliases s) istr of Some a \<Rightarrow> a | None \<Rightarrow> null))"

definition entry_at :: "'t aliasTable \<Rightarrow> nat \<times> int list \<times> string \<Rightarrow> addr" where
  "entry_at T pos = (case pos of (k, p, istr) \<Rightarrow>
     (case struct_at (tmap T) k p of None \<Rightarrow> null | Some s \<Rightarrow> struct_entry s istr))"

type_synonym 't entry_request = "'t vardecl \<times> AliasType \<times> int list \<times> string \<times> 't stmt option"

definition request_key :: "'t entry_request \<Rightarrow> nat \<times> int list \<times> string" where
  "request_key r = (case r of (v, t, p, istr, ex) \<Rightarrow> (getKey v, p, istr))"

definition request_wf :: "'t entry_request \<Rightarrow> bool" where
  "request_wf r = (case r of (v, t, p, istr, ex) \<Rightarrow> (-1 \<in> set p) = (istr \<noteq> []))"

definition add_entry :: "'t entry_request \<Rightarrow> 't aliasTable \<Rightarrow> 't aliasTable res" where
  "add_entry r T = (case r of (v, t, p, istr, ex) \<Rightarrow> addElementToAliasTable T v t p istr ex)"

lemma addElement_cases:
  assumes "addElementToAliasTable T v t p istr ex = Inr T'"
  obtains a m where "aliasArg_new v t p istr ex (curId T) = Inr a"
    and "AliasTableMap_insert (tmap T) a p = Inr m"
    and "T' = T\<lparr>tmap := m, heap := aput (Suc (curId T)) a (heap T), curId := Suc (curId T)\<rparr>"
  using assms by (auto simp: addElementToAliasTable_def res_simps)

lemma struct_ok_at: "table_ok T \<Longrightarrow> struct_at (tmap T) k p = Some s \<Longrightarrow> struct_ok (heap T) k p s"
  by (simp add: table_ok_def)

lemma struct_ok_known:
  assumes "table_ok T" and "struct_at (tmap T) k p = Some s" and "-1 \<notin> set p"
  shows "aliasPtr s \<noteq> null \<and> unknownIndexAliases s = []"
proof -
  note s = struct_ok_at [OF assms(1,2)]
  have "unknownIndexAliases s = []"
  proof (rule ccontr)
    assume "unknownIndexAliases s \<noteq> []"
    then obtain istr a where "(istr, a) \<in> set (unknownIndexAliases s)" by (cases "unknownIndexAliases s") auto
    with s have "istr \<noteq> []" and "entry_ok (heap T) k p a istr" by (auto simp: struct_ok_def)
    with assms(1,3) show False by (auto simp: entry_ok_def table_ok_def heap_ok_def)
  qed
  with s show ?thesis by (simp add: struct_ok_def)
qed

lemma map_of_argStruct_plus:
  assumes "unknownIndexAliases r = [] \<or> (\<exists>k a. unknownIndexAliases r = [(k, a)])"
  shows "map_of (unknownIndexAliases (argStruct_plus s r)) x =
     (case map_of (unknownIndexAliases s) x of
        Some a \<Rightarrow> Some a | None \<Rightarrow> map_of (unknownIndexAliases r) x)"
  using assms by (auto simp: argStruct_plus_def split: option.splits)

lemma struct_ok_not_null:
  "struct_ok h k p s \<Longrightarrow> map_of (unknownIndexAliases s) x = Some a \<Longrightarrow> a \<noteq> null"
  by (auto simp: struct_ok_def dest!: map_of_SomeD)

lemma struct_entry_of:
  assumes "hasUnknownIndex a \<longleftrightarrow> indexString a \<noteq> []"
  shows "struct_entry (struct_of a) istr = (if istr = indexString a then Suc (aid a) else null)"
  using assms by (auto simp: struct_entry_def struct_of_def getIndexKey_def)

lemma struct_entry_plus:
  assumes "hasUnknownIndex a \<longleftrightarrow> indexString a \<noteq> []"
    and "\<And>x b. map_of (unknownIndexAliases s) x = Some b \<Longrightarrow> b \<noteq> null"
    and "\<not> hasUnknownIndex a \<Longrightarrow> aliasPtr s \<noteq> null"
  shows "struct_entry (argStruct_plus s (struct_of a)) istr =
     (if struct_entry s istr = null \<and> istr = indexString a then Suc (aid a) else struct_entry s istr)"
  using assms by (auto simp: struct_entry_def struct_of_def getIndexKey_def argStruct_plus_def
      split: option.splits)

lemma add_entry_lookup:
  assumes "table_ok T" and "add_entry r T = Inr T'" and "request_wf r"
  shows "entry_at T' k =
     (if entry_at T k = null \<and> k = request_key r then Suc (curId T) else entry_at T k)"
proof -
  obtain v t p istr ex where r: "r = (v, t, p, istr, ex)" by (cases r)
  with assms(2) have "addElementToAliasTable T v t p istr ex = Inr T'" by (simp add: add_entry_def)
  then obtain a m where a: "aliasArg_new v t p istr ex (curId T) = Inr a"
    and m: "AliasTableMap_insert (tmap T) a p = Inr m"
    and T': "T' = T\<lparr>tmap := m, heap := aput (Suc (curId T)) a (heap T), curId := Suc (curId T)\<rparr>"
    by (rule addElement_cases)
  have sorted: "sorted_table (tmap T)" using assms(1) by (simp add: table_ok_def)
  note f = aliasArg_new_Inr [OF a]
  note upd = AliasTableMap_insert_struct [OF m sorted]
  have wf: "(-1 \<in> set p) = (istr \<noteq> [])" using assms(3) r by (simp add: request_wf_def)
  obtain k1 p1 i1 where k: "k = (k1, p1, i1)" by (cases k)
  show ?thesis
  proof (cases "k1 = getKey v \<and> p1 = p")
    case False
    with k r T' f show ?thesis by (auto simp: entry_at_def upd request_key_def split: option.splits)
  next
    case pos: True
    show ?thesis
    proof (cases "struct_at (tmap T) (getKey v) p")
      case None
      with pos k r T' f wf show ?thesis
        by (auto simp: entry_at_def upd request_key_def struct_entry_of)
    next
      case (Some s)
      have known: "aliasPtr s \<noteq> null" if "-1 \<notin> set p"
        using struct_ok_known [OF assms(1) Some that] by simp
      have plus: "struct_entry (argStruct_plus s (struct_of a)) i1 =
          (if struct_entry s i1 = null \<and> i1 = istr then Suc (curId T) else struct_entry s i1)"
        using struct_entry_plus [of a s i1] f wf known
          struct_ok_not_null [OF struct_ok_at [OF assms(1) Some]]
        by auto
      have "struct_entry s istr \<noteq> null" if "p = []"
        using that wf known by (simp add: struct_entry_def)
      with Some pos k r T' f plus show ?thesis
        by (auto simp: entry_at_def upd request_key_def)
    qed
  qed
qed

interpretation table_store: entry_store entry_at add_entry request_key request_wf table_ok
proof (unfold_locales, goal_cases)
  case (1 s a s')
  then show ?case by (auto simp: add_entry_def intro: addElement_table_ok split: prod.splits)
next
  case (2 s a s')
  then show ?case by (simp add: add_entry_lookup null_def)
next
  case (3 s a s' k)
  then show ?case by (simp add: add_entry_lookup)
next
  case (4 s a s' k)
  then show ?case by (simp add: add_entry_lookup)
qed

section \<open>getOrAddAliasArg\<close>

definition base_request :: "'t vardecl \<Rightarrow> AliasType \<Rightarrow> 't entry_request" where
  "base_request v t = (v, t, [], [], None)"

lemma getAliasArg_entry_at: "getAliasArg T v p istr = Inr (entry_at T (getKey v, p, istr))"
  by (auto simp: getAliasArg_eq getAliasArg_const_struct_at entry_at_def struct_entry_def
      split: option.splits)

lemma getOrAddAliasArg_ensures:
  "getOrAddAliasArg T v t p istr ex =
     bind_res (fold_res table_store.ensure
         [((getKey v, [], []), base_request v t),
          ((getKey v, p, []), (v, t, p, istr, ex)),
          ((getKey v, p, istr), (v, t, p, istr, ex))] T)
       (\<lambda>T'. Inr (entry_at T' (getKey v, p, istr), T'))"
  by (simp add: getOrAddAliasArg_def getAliasArg_entry_at table_store.ensure_def base_request_def
      add_entry_def bind_res_def split: sum.splits)

lemma base_request_wf [simp]: "request_wf (base_request v t)"
  and base_request_key [simp]: "request_key (base_request v t) = (getKey v, [], [])"
  by (simp_all add: base_request_def request_wf_def request_key_def)

text \<open>
  C14: when \<open>getOrAddAliasArg\<close> returns, it returns the entry stored for the variable, the indexes
  and the index text, which is not the null pointer; it keeps the invariant of the table, and
  changes no look-up except those of this element and of the variable itself; an entry that was
  there before keeps its address.
\<close>

theorem getOrAddAliasArg_correct:
  assumes "table_ok T" and "(-1 \<in> set p) = (istr \<noteq> [])"
    and "getOrAddAliasArg T v t p istr ex = Inr (a, T')"
  shows "table_ok T' \<and> a \<noteq> null \<and> getAliasArg T' v p istr = Inr a
     \<and> (\<forall>w q jstr. getAliasArg T w q jstr \<noteq> Inr null \<longrightarrow> getAliasArg T' w q jstr = getAliasArg T w q jstr)
     \<and> (\<forall>w q jstr. (getKey w, q, jstr) \<notin> {(getKey v, [], []), (getKey v, p, istr)} \<longrightarrow>
          getAliasArg T' w q jstr = getAliasArg T w q jstr)"
proof -
  let ?r = "(v, t, p, istr, ex)" and ?k = "(getKey v, p, istr)"
  let ?es = "[((getKey v, [], []), base_request v t), ((getKey v, p, []), ?r), (?k, ?r)]"
  have r: "request_wf ?r" "request_key ?r = ?k"
    using assms(2) by (simp_all add: request_wf_def request_key_def)
  have run: "fold_res table_store.ensure ?es T = Inr T'" and a: "a = entry_at T' ?k"
    using assms(3) by (auto simp: getOrAddAliasArg_ensures res_simps)
  then obtain T2 where T2: "fold_res table_store.ensure (butlast ?es) T = Inr T2"
    and last: "table_store.ensure (?k, ?r) T2 = Inr T'"
    by (auto simp: res_simps)
  have "table_ok T2"
    using table_store.ensures_step [OF T2 assms(1)] r by simp
  then have "a \<noteq> null" using table_store.ensure_found [of T2 ?r T'] last r a by simp
  with table_store.ensures_step [OF run assms(1)] r a show ?thesis
    by (simp add: getAliasArg_entry_at)
qed

text \<open>A position in the middle of the path of a recorded element, with no entry of its own.\<close>

definition bare_level :: "'t aliasTable \<Rightarrow> 't vardecl \<Rightarrow> int list \<Rightarrow> bool" where
  "bare_level T v p \<longleftrightarrow>
     p \<noteq> [] \<and> isInTable T v p \<and> struct_at (tmap T) (getKey v) p = None"

lemma add_entry_error:
  assumes "request_wf (v, t, p, istr, ex)"
  shows "add_entry (v, t, p, istr, ex) T = Inl e \<longleftrightarrow> e = NullDeref \<and> bare_level T v p"
proof -
  obtain a where a: "aliasArg_new v t p istr ex (curId T) = Inr a"
    using assms by (cases "aliasArg_new v t p istr ex (curId T)")
      (auto simp: aliasArg_new_error request_wf_def)
  have "add_entry (v, t, p, istr, ex) T = Inl e \<longleftrightarrow> AliasTableMap_insert (tmap T) a p = Inl e"
    by (cases "AliasTableMap_insert (tmap T) a p")
      (simp_all add: add_entry_def addElementToAliasTable_def a)
  then show ?thesis
    using aliasArg_new_Inr [OF a]
    by (auto simp: AliasTableMap_insert_error bare_level_def isInTable_def AliasTableMap_count_at)
qed

lemma struct_at_at: "struct_at t k p = fst (stepInto (AliasTableMap_at t k p))"
  by (simp add: struct_at_def struct_in_def AliasTableMap_at_descend)

lemma base_added:
  assumes "table_store.ensure ((getKey v, [], []), base_request v t) T = Inr T1" and "p \<noteq> []"
  shows "AliasTableMap_at (tmap T1) (getKey v) p = AliasTableMap_at (tmap T) (getKey v) p"
proof -
  obtain i q where "p = i # q" using assms(2) by (cases p) auto
  with assms(1) show ?thesis
    by (auto simp: table_store.ensure_def base_request_def add_entry_def
        addElementToAliasTable_def res_simps aliasArg_new_def AliasTableMap_insert_def Let_def
        AliasTableMap_at_descend getKey_def split: if_splits option.splits tableValue.splits)
qed

text \<open>
  C34: \<open>getOrAddAliasArg\<close> fails exactly when the position is a level of the index tree that was
  only created on the way to a deeper element (\<open>tab[0]\<close> after \<open>tab[0][1]\<close>), and then it
  dereferences the null \<open>aliasStruct\<close> of that level.
\<close>

theorem getOrAddAliasArg_error:
  assumes "table_ok T" and "(-1 \<in> set p) = (istr \<noteq> [])"
  shows "getOrAddAliasArg T v t p istr ex = Inl e \<longleftrightarrow> e = NullDeref \<and> bare_level T v p"
proof -
  let ?r = "(v, t, p, istr, ex)" and ?k = "(getKey v, p, istr)"
  have wf: "request_wf ?r" using assms(2) by (simp add: request_wf_def)
  have "\<exists>T1. table_store.ensure ((getKey v, [], []), base_request v t) T = Inr T1"
    using add_entry_error [of v t "[]" "[]" None T]
    by (cases "add_entry (base_request v t) T")
      (auto simp: table_store.ensure_def base_request_def request_wf_def bare_level_def)
  then obtain T1 where T1: "table_store.ensure ((getKey v, [], []), base_request v t) T = Inr T1" ..
  have bare: "bare_level T1 v p \<longleftrightarrow> bare_level T v p"
    using base_added [OF T1, of p]
    by (cases "p = []") (simp_all add: bare_level_def isInTable_def AliasTableMap_count_at struct_at_at)
  have ok1: "table_ok T1" using table_store.ensure_step [OF assms(1) T1] by simp
  show ?thesis
  proof (cases "bare_level T v p")
    case True
    then have "entry_at T1 (getKey v, p, []) = null"
      using bare by (simp add: entry_at_def bare_level_def)
    moreover have "add_entry ?r T1 = Inl NullDeref"
      using add_entry_error [OF wf, of T1 NullDeref] bare True by simp
    ultimately have "table_store.ensure ((getKey v, p, []), ?r) T1 = Inl NullDeref"
      by (simp add: table_store.ensure_def)
    with True T1 show ?thesis by (auto simp: getOrAddAliasArg_ensures)
  next
    case False
    then have "add_entry ?r T1 \<noteq> Inl e'" for e'
      using bare add_entry_error [OF wf, of T1 e'] by simp
    then have "\<exists>T2. table_store.ensure ((getKey v, p, []), ?r) T1 = Inr T2"
      by (cases "add_entry ?r T1") (auto simp: table_store.ensure_def)
    then obtain T2 where T2: "table_store.ensure ((getKey v, p, []), ?r) T1 = Inr T2" ..
    have "\<not> bare_level T2 v p"
    proof (cases "entry_at T1 (getKey v, p, []) = null")
      case True
      then have "add_entry ?r T1 = Inr T2" using T2 by (simp add: table_store.ensure_def)
      then have "entry_at T2 ?k \<noteq> null"
        using table_store.add_same [OF ok1 wf] by (simp add: request_key_def)
      then show ?thesis by (auto simp: entry_at_def bare_level_def)
    next
      case unchanged: False
      with T2 bare False show ?thesis by (simp add: table_store.ensure_def)
    qed
    then have "add_entry ?r T2 \<noteq> Inl e'" for e'
      using add_entry_error [OF wf, of T2 e'] by simp
    then have "\<exists>T3. table_store.ensure (?k, ?r) T2 = Inr T3"
      by (cases "add_entry ?r T2") (auto simp: table_store.ensure_def)
    then obtain T3 where "table_store.ensure (?k, ?r) T2 = Inr T3" ..
    with False T1 T2 show ?thesis by (auto simp: getOrAddAliasArg_ensures)
  qed
qed

end
