(* ===== verification/Alias_Links.thy ===== *)
theory Alias_Links
  imports Alias_Store
begin

text \<open>
  The links between entries as relations, and the operations that change them as updates of these
  relations: what an entry may alias (\<open>aliased\<close>), the references to an entry and the pointers to it.
\<close>

definition link_rel :: "('t aliasArg \<Rightarrow> addr list) \<Rightarrow> 't heap \<Rightarrow> (addr \<times> addr) set" where
  "link_rel g h = {(p, q). \<exists>a. map_of h p = Some a \<and> q \<in> set (g a)}"

abbreviation aliased_rel :: "'t heap \<Rightarrow> (addr \<times> addr) set" where
  "aliased_rel \<equiv> link_rel aliased"

abbreviation references_rel :: "'t heap \<Rightarrow> (addr \<times> addr) set" where
  "references_rel \<equiv> link_rel references"

abbreviation pointers_rel :: "'t heap \<Rightarrow> (addr \<times> addr) set" where
  "pointers_rel \<equiv> link_rel pointers"

text \<open>The three link fields agree: \<open>x\<close> is aliased by \<open>y\<close> iff \<open>y\<close> is a reference or a pointer to \<open>x\<close>.\<close>

definition links_ok :: "'t heap \<Rightarrow> bool" where
  "links_ok h \<longleftrightarrow> (aliased_rel h)\<inverse> = references_rel h \<union> pointers_rel h"

definition heap_closed :: "'t heap \<Rightarrow> bool" where
  "heap_closed h \<longleftrightarrow> (\<forall>g \<in> {aliased, references, pointers}. Range (link_rel g h) \<subseteq> dom (map_of h))"

text \<open>The part of an object the link operations never change.\<close>

definition core :: "'t aliasArg \<Rightarrow> 't aliasArg" where
  "core a = a\<lparr>pointers := [], references := [], aliased := []\<rparr>"

lemma core_updates [simp]:
  "core (a\<lparr>pointers := x\<rparr>) = core a"
  "core (a\<lparr>references := x\<rparr>) = core a"
  "core (a\<lparr>aliased := x\<rparr>) = core a"
  by (simp_all add: core_def)

lemma core_fields:
  assumes "core a = core b"
  shows "declarationOf a = declarationOf b" "indexes a = indexes b" "atype a = atype b"
    "hasUnknownIndex a = hasUnknownIndex b" "indexString a = indexString b" "aid a = aid b"
    "expression a = expression b"
  using assms by (cases a; cases b; simp add: core_def)+

definition same_objects :: "'t heap \<Rightarrow> 't heap \<Rightarrow> bool" where
  "same_objects h h' \<longleftrightarrow> (\<forall>p. map_option core (map_of h' p) = map_option core (map_of h p))"

lemma same_objects_refl [simp]: "same_objects h h"
  by (simp add: same_objects_def)

lemma same_objects_trans: "same_objects h h' \<Longrightarrow> same_objects h' h'' \<Longrightarrow> same_objects h h''"
  by (simp add: same_objects_def)

lemma same_objects_sym: "same_objects h h' \<Longrightarrow> same_objects h' h"
  by (simp add: same_objects_def)

lemma same_objects_Some:
  assumes "same_objects h h'" and "map_of h p = Some a"
  obtains a' where "map_of h' p = Some a'" and "core a' = core a"
proof -
  have "map_option core (map_of h' p) = Some (core a)"
    using assms by (simp add: same_objects_def)
  then show ?thesis using that by auto
qed

lemma same_objects_dom: "same_objects h h' \<Longrightarrow> dom (map_of h') = dom (map_of h)"
proof -
  assume "same_objects h h'"
  then have "map_option core (map_of h' p) = None \<longleftrightarrow> map_option core (map_of h p) = None" for p
    by (simp add: same_objects_def)
  then show ?thesis by (auto simp: dom_def)
qed

text \<open>The look-ups and the invariant of the table do not depend on the links.\<close>

lemma same_objects_table_ok:
  assumes "table_ok T" and "same_objects (heap T) (heap T')" and "tmap T' = tmap T" and "curId T' = curId T"
  shows "table_ok T'"
proof -
  have entry: "entry_ok (heap T') k p a istr" if en: "entry_ok (heap T) k p a istr" for k p a istr
  proof -
    obtain b where b: "map_of (heap T) a = Some b" and e: "indexes b = p \<and> getKey (declarationOf b) = k
        \<and> hasUnknownIndex b = (istr \<noteq> []) \<and> (istr \<noteq> [] \<longrightarrow> indexString b = istr)"
      using en unfolding entry_ok_def by blast
    from same_objects_Some [OF assms(2) b] obtain b' where "map_of (heap T') a = Some b'"
      and "core b' = core b" .
    with e core_fields [of b' b] show ?thesis by (simp add: entry_ok_def)
  qed
  have "heap_ok T'"
    unfolding heap_ok_def
  proof (intro allI impI)
    fix p a' assume "map_of (heap T') p = Some a'"
    then obtain a where a: "map_of (heap T) p = Some a" and "core a = core a'"
      by (rule same_objects_Some [OF same_objects_sym [OF assms(2)]])
    note f = core_fields [OF this(2)]
    have "p = Suc (aid a) \<and> aid a < curId T \<and> hasUnknownIndex a = (-1 \<in> set (indexes a))"
      using a assms(1) unfolding table_ok_def heap_ok_def by blast
    with f assms(4) show "p = Suc (aid a') \<and> aid a' < curId T'
        \<and> hasUnknownIndex a' = (-1 \<in> set (indexes a'))"
      by simp
  qed
  moreover have "struct_ok (heap T') k p s" if "struct_ok (heap T) k p s" for k p s
    using that by (auto simp: struct_ok_def intro: entry)
  ultimately show ?thesis using assms(1,3) by (simp add: table_ok_def)
qed

lemma entry_at_tmap: "tmap T' = tmap T \<Longrightarrow> entry_at T' k = entry_at T k"
  by (simp add: entry_at_def)

section \<open>One modification\<close>

lemma modify_Inr:
  "modify p f T = Inr T' \<longleftrightarrow> (\<exists>a. map_of (heap T) p = Some a \<and> T' = T\<lparr>heap := aput p (f a) (heap T)\<rparr>)"
  by (auto simp: modify_def deref_def split: option.splits)

lemma modify_total: "map_of (heap T) p = Some a \<Longrightarrow> modify p f T = Inr (T\<lparr>heap := aput p (f a) (heap T)\<rparr>)"
  by (simp add: modify_def deref_def)

definition link_row :: "('t aliasArg \<Rightarrow> addr list) \<Rightarrow> 't heap \<Rightarrow> addr \<Rightarrow> addr set" where
  "link_row g h p = (case map_of h p of None \<Rightarrow> {} | Some a \<Rightarrow> set (g a))"

lemma link_rel_row: "(p, q) \<in> link_rel g h \<longleftrightarrow> q \<in> link_row g h p"
  by (auto simp: link_rel_def link_row_def split: option.splits)

lemma link_rel_Image: "link_rel g h `` {p} = link_row g h p"
  by (auto simp: link_rel_row)

lemma link_row_aput: "link_row g (aput p a h) x = (if x = p then set (g a) else link_row g h x)"
  by (simp add: link_row_def)

lemma link_row_at: "map_of h p = Some a \<Longrightarrow> link_row g h p = set (g a)"
  by (simp add: link_row_def)

lemma link_rel_eqI: "(\<And>p. link_row g h p = {q. (p, q) \<in> R}) \<Longrightarrow> link_rel g h = R"
  by (auto simp: link_rel_row)

lemma same_objects_aput: "map_of h p = Some a \<Longrightarrow> core a' = core a \<Longrightarrow> same_objects h (aput p a' h)"
  by (simp add: same_objects_def)

text \<open>The effect of adding a link \<open>p \<rightarrow> q\<close> and the link back.\<close>

lemma add_link:
  assumes "map_of (heap T) p \<noteq> None" and "map_of (heap T) q \<noteq> None"
  shows "\<exists>T'. bind_res (modify p (\<lambda>a. a\<lparr>pointers := sins q (pointers a)\<rparr>) T)
            (modify q (\<lambda>a. a\<lparr>aliased := sins p (aliased a)\<rparr>)) = Inr T'
     \<and> tmap T' = tmap T \<and> curId T' = curId T \<and> same_objects (heap T) (heap T')
     \<and> pointers_rel (heap T') = insert (p, q) (pointers_rel (heap T))
     \<and> references_rel (heap T') = references_rel (heap T)
     \<and> aliased_rel (heap T') = insert (q, p) (aliased_rel (heap T))" (is ?ptr)
  and "\<exists>T'. bind_res (modify p (\<lambda>a. a\<lparr>references := sins q (references a)\<rparr>) T)
            (modify q (\<lambda>a. a\<lparr>aliased := sins p (aliased a)\<rparr>)) = Inr T'
     \<and> tmap T' = tmap T \<and> curId T' = curId T \<and> same_objects (heap T) (heap T')
     \<and> references_rel (heap T') = insert (p, q) (references_rel (heap T))
     \<and> pointers_rel (heap T') = pointers_rel (heap T)
     \<and> aliased_rel (heap T') = insert (q, p) (aliased_rel (heap T))" (is ?ref)
  and "\<exists>T'. linkAliased q p T = Inr T'
     \<and> tmap T' = tmap T \<and> curId T' = curId T \<and> same_objects (heap T) (heap T')
     \<and> pointers_rel (heap T') = insert (p, q) (pointers_rel (heap T))
     \<and> references_rel (heap T') = references_rel (heap T)
     \<and> aliased_rel (heap T') = insert (q, p) (aliased_rel (heap T))" (is ?link)
proof -
  obtain a b where ab: "map_of (heap T) p = Some a" "map_of (heap T) q = Some b" using assms by auto
  let ?add = "\<lambda>f. bind_res (modify p f T) (modify q (\<lambda>a. a\<lparr>aliased := sins p (aliased a)\<rparr>))"
  have two: "?add f = Inr (T\<lparr>heap := aput q (c\<lparr>aliased := sins p (aliased c)\<rparr>) (aput p (f a) (heap T))\<rparr>)"
    if "c = (if p = q then f a else b)" for f c
    using ab that by (auto simp: modify_total)
  note rows = link_row_aput link_rel_row link_row_at [OF ab(1)] link_row_at [OF ab(2)]
  show ?ptr
    using ab by (subst two [OF refl])
      (auto intro!: link_rel_eqI simp: same_objects_def rows split: if_splits)
  show ?ref
    using ab by (subst two [OF refl])
      (auto intro!: link_rel_eqI simp: same_objects_def rows split: if_splits)
  have "linkAliased q p T = Inr (T\<lparr>heap := aput p (c\<lparr>pointers := sins q (pointers c)\<rparr>)
      (aput q (b\<lparr>aliased := sins p (aliased b)\<rparr>) (heap T))\<rparr>)"
    if "c = (if p = q then b\<lparr>aliased := sins p (aliased b)\<rparr> else a)" for c
    using ab that by (auto simp: linkAliased_def modify_total)
  then show ?link
    using ab by (auto intro!: link_rel_eqI simp: same_objects_def rows split: if_splits)
qed


section \<open>The operations\<close>

text \<open>An update of the links that keeps the objects, and the resulting relations.\<close>

definition links_become :: "'t aliasTable \<Rightarrow> 't aliasTable \<Rightarrow> (addr \<times> addr) set \<Rightarrow> (addr \<times> addr) set \<Rightarrow>
    (addr \<times> addr) set \<Rightarrow> bool" where
  "links_become T T' A R P \<longleftrightarrow>
     tmap T' = tmap T \<and> curId T' = curId T \<and> same_objects (heap T) (heap T')
     \<and> aliased_rel (heap T') = A \<and> references_rel (heap T') = R \<and> pointers_rel (heap T') = P"

lemma links_become_dom: "links_become T T' A R P \<Longrightarrow> dom (map_of (heap T')) = dom (map_of (heap T))"
  by (simp add: links_become_def same_objects_dom)

lemma links_become_table_ok: "links_become T T' A R P \<Longrightarrow> table_ok T \<Longrightarrow> table_ok T'"
  by (auto simp: links_become_def intro: same_objects_table_ok)

lemma links_become_trans:
  "links_become T T' A R P \<Longrightarrow> links_become T' T'' A' R' P' \<Longrightarrow> links_become T T'' A' R' P'"
  by (auto simp: links_become_def intro: same_objects_trans)

lemma links_become_self:
  "links_become T T (aliased_rel (heap T)) (references_rel (heap T)) (pointers_rel (heap T))"
  by (simp add: links_become_def)

lemma addAliasPtr_links:
  assumes "var \<noteq> null" and "ptr \<noteq> null" and "{var, ptr} \<subseteq> dom (map_of (heap T))"
  shows "\<exists>T'. addAliasPtr T var ptr = Inr T' \<and> links_become T T'
     (insert (ptr, var) (aliased_rel (heap T))) (references_rel (heap T))
     (insert (var, ptr) (pointers_rel (heap T)))"
  using add_link(1) [of T var ptr] assms by (auto simp: addAliasPtr_def links_become_def)

lemma addAliasReference_links:
  assumes "var \<noteq> null" and "ref \<noteq> null" and "{var, ref} \<subseteq> dom (map_of (heap T))"
  shows "\<exists>T'. addAliasReference T var ref = Inr T' \<and> links_become T T'
     (insert (ref, var) (aliased_rel (heap T))) (insert (var, ref) (references_rel (heap T)))
     (pointers_rel (heap T))"
  using add_link(2) [of T var ref] assms by (auto simp: addAliasReference_def links_become_def)

lemma linkAliased_fold:
  assumes "set xs \<subseteq> dom (map_of (heap T))" and "dest \<in> dom (map_of (heap T))"
  shows "\<exists>T'. fold_res (linkAliased dest) xs T = Inr T' \<and> links_become T T'
     (aliased_rel (heap T) \<union> {dest} \<times> set xs) (references_rel (heap T))
     (pointers_rel (heap T) \<union> set xs \<times> {dest})"
  using assms
proof (induction xs arbitrary: T)
  case Nil
  then show ?case by (simp add: links_become_self)
next
  case (Cons x xs)
  obtain T1 where T1: "linkAliased dest x T = Inr T1" and "links_become T T1
     (insert (dest, x) (aliased_rel (heap T))) (references_rel (heap T))
     (insert (x, dest) (pointers_rel (heap T)))"
    using add_link(3) [of T x dest] Cons.prems by (auto simp: links_become_def)
  note L = this(2)
  obtain T2 where "fold_res (linkAliased dest) xs T1 = Inr T2" and L2: "links_become T1 T2
     (aliased_rel (heap T1) \<union> {dest} \<times> set xs) (references_rel (heap T1))
     (pointers_rel (heap T1) \<union> set xs \<times> {dest})"
    using Cons.IH [of T1] Cons.prems links_become_dom [OF L] by auto
  moreover have "aliased_rel (heap T1) \<union> {dest} \<times> set xs = aliased_rel (heap T) \<union> {dest} \<times> set (x # xs)"
    and "pointers_rel (heap T1) \<union> set xs \<times> {dest} = pointers_rel (heap T) \<union> set (x # xs) \<times> {dest}"
    and "references_rel (heap T1) = references_rel (heap T)"
    using L by (auto simp: links_become_def)
  then have "links_become T T2 (aliased_rel (heap T) \<union> {dest} \<times> set (x # xs))
      (references_rel (heap T)) (pointers_rel (heap T) \<union> set (x # xs) \<times> {dest})"
    using links_become_trans [OF L L2] by simp
  ultimately show ?case using T1 by auto
qed

lemma fuseAliased_links:
  assumes "heap_closed (heap T)" and "src \<noteq> null" and "dest \<noteq> null" and "src \<noteq> dest"
    and "{src, dest} \<subseteq> dom (map_of (heap T))"
  shows "\<exists>T'. fuseAliased T src dest = Inr T' \<and> links_become T T'
     (aliased_rel (heap T) \<union> {dest} \<times> aliased_rel (heap T) `` {src}) (references_rel (heap T))
     (pointers_rel (heap T) \<union> aliased_rel (heap T) `` {src} \<times> {dest})"
proof -
  obtain a where a: "map_of (heap T) src = Some a" using assms(5) by auto
  then have xs: "aliased_rel (heap T) `` {src} = set (aliased a)"
    by (simp add: link_rel_Image link_row_at)
  have "aliased_rel (heap T) `` {src} \<subseteq> Range (aliased_rel (heap T))" by blast
  then have "set (aliased a) \<subseteq> dom (map_of (heap T))"
    using assms(1) unfolding xs heap_closed_def by blast
  moreover have "fuseAliased T src dest = fold_res (linkAliased dest) (aliased a) T"
    using a assms(2-4) by (simp add: fuseAliased_def deref_def)
  ultimately show ?thesis
    using linkAliased_fold [of "aliased a" T dest] assms(5) unfolding xs by simp
qed

lemma links_become_ok:
  assumes "links_become T T' A R P" and "A\<inverse> = R \<union> P"
  shows "links_ok (heap T')"
  using assms by (simp add: links_become_def links_ok_def)

lemma links_become_closed:
  assumes "links_become T T' A R P" and "Range A \<union> Range R \<union> Range P \<subseteq> dom (map_of (heap T))"
  shows "heap_closed (heap T')"
  using assms links_become_dom [OF assms(1)] by (auto simp: links_become_def heap_closed_def)

definition table_inv :: "'t aliasTable \<Rightarrow> bool" where
  "table_inv T \<longleftrightarrow> table_ok T \<and> links_ok (heap T) \<and> heap_closed (heap T)"

lemma table_inv_become:
  assumes "table_inv T" and "links_become T T' A R P" and "A\<inverse> = R \<union> P"
    and "Range A \<union> Range R \<union> Range P \<subseteq> dom (map_of (heap T))"
  shows "table_inv T'"
  using assms links_become_ok [OF assms(2,3)] links_become_closed [OF assms(2,4)]
    links_become_table_ok [OF assms(2)]
  by (simp add: table_inv_def)


lemma dom_not_null: "table_inv T \<Longrightarrow> p \<in> dom (map_of (heap T)) \<Longrightarrow> p \<noteq> null"
  by (auto simp: table_inv_def table_ok_def heap_ok_def null_def)

lemma closed_ranges:
  assumes "heap_closed h"
  shows "Range (aliased_rel h) \<subseteq> dom (map_of h)" "Range (references_rel h) \<subseteq> dom (map_of h)"
    "Range (pointers_rel h) \<subseteq> dom (map_of h)"
  using assms by (auto simp: heap_closed_def)

lemma table_inv_parts:
  assumes "table_inv T"
  shows "table_ok T" "heap_closed (heap T)"
    "(aliased_rel (heap T))\<inverse> = references_rel (heap T) \<union> pointers_rel (heap T)"
  using assms by (simp_all add: table_inv_def links_ok_def)

lemma addAliasPtr_inv:
  assumes "table_inv T" and "{p, q} \<subseteq> dom (map_of (heap T))"
  shows "\<exists>T'. addAliasPtr T p q = Inr T' \<and> table_inv T'"
proof -
  note inv = table_inv_parts [OF assms(1)]
  have nn: "p \<noteq> null" "q \<noteq> null" using assms dom_not_null by auto
  obtain T1 where T1: "addAliasPtr T p q = Inr T1" and L1: "links_become T T1
      (insert (q, p) (aliased_rel (heap T))) (references_rel (heap T))
      (insert (p, q) (pointers_rel (heap T)))"
    using addAliasPtr_links [OF nn assms(2)] by blast
  have "table_inv T1"
    by (rule table_inv_become [OF assms(1) L1]) (use inv(3) closed_ranges [OF inv(2)] assms(2) in auto)
  with T1 show ?thesis by blast
qed

lemma addAliasReference_inv:
  assumes "table_inv T" and "{p, q} \<subseteq> dom (map_of (heap T))"
  shows "\<exists>T'. addAliasReference T p q = Inr T' \<and> table_inv T'"
proof -
  note inv = table_inv_parts [OF assms(1)]
  have nn: "p \<noteq> null" "q \<noteq> null" using assms dom_not_null by auto
  obtain T2 where T2: "addAliasReference T p q = Inr T2" and L2: "links_become T T2
      (insert (q, p) (aliased_rel (heap T))) (insert (p, q) (references_rel (heap T)))
      (pointers_rel (heap T))"
    using addAliasReference_links [OF nn assms(2)] by blast
  have "table_inv T2"
    by (rule table_inv_become [OF assms(1) L2]) (use inv(3) closed_ranges [OF inv(2)] assms(2) in auto)
  with T2 show ?thesis by blast
qed

lemma fuseAliased_inv:
  assumes "table_inv T" and "{p, q} \<subseteq> dom (map_of (heap T))"
  shows "\<exists>T'. fuseAliased T p q = Inr T' \<and> table_inv T'"
proof (cases "p = q")
  case True
  then show ?thesis using assms(1) by (simp add: fuseAliased_def)
next
  case False
  note inv = table_inv_parts [OF assms(1)]
  have nn: "p \<noteq> null" "q \<noteq> null" using assms dom_not_null by auto
  obtain T3 where T3: "fuseAliased T p q = Inr T3" and L3: "links_become T T3
      (aliased_rel (heap T) \<union> {q} \<times> aliased_rel (heap T) `` {p}) (references_rel (heap T))
      (pointers_rel (heap T) \<union> aliased_rel (heap T) `` {p} \<times> {q})"
    using fuseAliased_links [OF inv(2) nn False assms(2)] by blast
  have "table_inv T3"
    by (rule table_inv_become [OF assms(1) L3]) (use inv(3) closed_ranges [OF inv(2)] assms(2) in auto)
  with T3 show ?thesis by blast
qed

lemma add_entry_table_inv:
  assumes "table_inv T" and "add_entry r T = Inr T'"
  shows "table_inv T'"
proof -
  obtain v t p istr ex where "r = (v, t, p, istr, ex)" by (cases r)
  with assms(2) have "addElementToAliasTable T v t p istr ex = Inr T'" by (simp add: add_entry_def)
  then obtain a m where a: "aliasArg_new v t p istr ex (curId T) = Inr a"
    and T': "T' = T\<lparr>tmap := m, heap := aput (Suc (curId T)) a (heap T), curId := Suc (curId T)\<rparr>"
    by (rule addElement_cases)
  note inv = table_inv_parts [OF assms(1)]
  have fresh: "map_of (heap T) (Suc (curId T)) = None"
    using heap_ok_fresh inv(1) by (auto simp: table_ok_def)
  have same: "link_rel g (heap T') = link_rel g (heap T)" if "g a = []" for g
  proof (rule link_rel_eqI)
    have "link_row g (heap T) (Suc (curId T)) = {}" using fresh by (simp add: link_row_def)
    then show "link_row g (heap T') p = {q. (p, q) \<in> link_rel g (heap T)}" for p
      using that T' by (auto simp: link_row_aput link_rel_row)
  qed
  have "table_ok T'" using table_store.add_inv [OF inv(1) assms(2)] .
  moreover have "dom (map_of (heap T)) \<subseteq> dom (map_of (heap T'))" using T' by auto
  moreover have "aliased a = []" "references a = []" "pointers a = []"
    using aliasArg_new_Inr [OF a] by simp_all
  then have "aliased_rel (heap T') = aliased_rel (heap T)"
    "references_rel (heap T') = references_rel (heap T)" "pointers_rel (heap T') = pointers_rel (heap T)"
    using same by blast+
  ultimately show ?thesis
    using inv(3) closed_ranges [OF inv(2)] unfolding table_inv_def links_ok_def heap_closed_def
    by (simp add: subset_trans)
qed

interpretation inv_store: entry_store entry_at add_entry request_key request_wf table_inv
proof (unfold_locales, goal_cases)
  case (1 s a s')
  then show ?case by (rule add_entry_table_inv)
next
  case (2 s a s')
  then show ?case using table_store.add_same [OF table_inv_parts(1)] by blast
next
  case (3 s a s' k)
  then show ?case using table_store.add_keep [OF table_inv_parts(1)] by blast
next
  case (4 s a s' k)
  then show ?case using table_store.add_other [OF table_inv_parts(1)] by blast
qed


section \<open>Removing what a pointer aliases\<close>

text \<open>The entry \<open>removeDependencyPtr\<close> updates for an element: the one of its variable.\<close>

definition base_entry :: "'t aliasTable \<Rightarrow> addr \<Rightarrow> addr" where
  "base_entry T x =
     (case map_of (heap T) x of None \<Rightarrow> null | Some a \<Rightarrow> entry_at T (getKey (declarationOf a), [], []))"

lemma base_entry_same:
  assumes "same_objects (heap T) (heap T')" and "tmap T' = tmap T"
  shows "base_entry T' x = base_entry T x"
proof (cases "map_of (heap T) x")
  case None
  then have "map_of (heap T') x = None"
    using same_objects_dom [OF assms(1)] by (metis domIff)
  with None show ?thesis by (simp add: base_entry_def)
next
  case (Some a)
  from same_objects_Some [OF assms(1) Some] obtain a' where "map_of (heap T') x = Some a'"
    and "core a' = core a" .
  with Some core_fields(1) [of a' a] show ?thesis
    by (simp add: base_entry_def entry_at_tmap [OF assms(2)])
qed

lemma removeDependencyPtr_fold:
  assumes "\<forall>x \<in> set xs. x \<in> dom (map_of (heap T)) \<and> base_entry T x \<in> dom (map_of (heap T))"
  shows "\<exists>T'. fold_res (\<lambda>x T'.
            bind_res (deref (heap T') x) (\<lambda>a.
            bind_res (getAliasArg T' (declarationOf a) [] []) (\<lambda>tableValueVar.
              modify tableValueVar (\<lambda>b. b\<lparr>pointers := sdel ptr (pointers b)\<rparr>) T'))) xs T = Inr T'
     \<and> links_become T T' (aliased_rel (heap T)) (references_rel (heap T))
         (pointers_rel (heap T) - base_entry T ` set xs \<times> {ptr})"
  using assms
proof (induction xs arbitrary: T)
  case Nil
  then show ?case by (simp add: links_become_self)
next
  case (Cons x xs)
  let ?b = "base_entry T x"
  obtain a b where a: "map_of (heap T) x = Some a" and b: "map_of (heap T) ?b = Some b"
    using Cons.prems by auto
  have be: "entry_at T (getKey (declarationOf a), [], []) = ?b" using a by (simp add: base_entry_def)
  define T1 where "T1 = T\<lparr>heap := aput ?b (b\<lparr>pointers := sdel ptr (pointers b)\<rparr>) (heap T)\<rparr>"
  have step: "bind_res (deref (heap T) x) (\<lambda>a.
      bind_res (getAliasArg T (declarationOf a) [] []) (\<lambda>tableValueVar.
        modify tableValueVar (\<lambda>b. b\<lparr>pointers := sdel ptr (pointers b)\<rparr>) T)) = Inr T1"
    using a b by (simp add: deref_def getAliasArg_entry_at be modify_total T1_def)
  have L: "links_become T T1 (aliased_rel (heap T)) (references_rel (heap T))
      (pointers_rel (heap T) - {(?b, ptr)})"
    using b by (auto simp: links_become_def T1_def same_objects_def link_row_aput link_rel_row
        link_row_at intro!: link_rel_eqI split: if_splits)
  have bes: "base_entry T1 y = base_entry T y" for y
    using L by (intro base_entry_same) (auto simp: links_become_def)
  obtain T2 where T2: "fold_res (\<lambda>x T'.
            bind_res (deref (heap T') x) (\<lambda>a.
            bind_res (getAliasArg T' (declarationOf a) [] []) (\<lambda>tableValueVar.
              modify tableValueVar (\<lambda>b. b\<lparr>pointers := sdel ptr (pointers b)\<rparr>) T'))) xs T1 = Inr T2"
    and L2: "links_become T1 T2 (aliased_rel (heap T1)) (references_rel (heap T1))
         (pointers_rel (heap T1) - base_entry T1 ` set xs \<times> {ptr})"
    using Cons.IH [of T1] Cons.prems links_become_dom [OF L] bes by auto
  have "aliased_rel (heap T1) = aliased_rel (heap T)"
    "references_rel (heap T1) = references_rel (heap T)"
    "pointers_rel (heap T1) - base_entry T1 ` set xs \<times> {ptr}
      = pointers_rel (heap T) - base_entry T ` set (x # xs) \<times> {ptr}"
    using L bes by (auto simp: links_become_def)
  with links_become_trans [OF L L2] step T2 show ?case by auto
qed

lemma entry_at_ok:
  assumes "table_ok T" and "entry_at T (k, p, istr) \<noteq> null"
  shows "entry_ok (heap T) k p (entry_at T (k, p, istr)) istr"
proof -
  obtain s where s: "struct_at (tmap T) k p = Some s" and e: "entry_at T (k, p, istr) = struct_entry s istr"
    using assms(2) by (cases "struct_at (tmap T) k p") (auto simp: entry_at_def)
  have "struct_ok (heap T) k p s" using assms(1) s by (rule struct_ok_at)
  with e assms(2) show ?thesis
    by (auto simp: struct_entry_def struct_ok_def dest!: map_of_SomeD split: if_splits option.splits)
qed

lemma base_entry_dom:
  assumes "table_ok T" and "base_entry T x \<noteq> null"
  shows "base_entry T x \<in> dom (map_of (heap T))"
  using assms entry_at_ok [OF assms(1), of _ "[]" "[]"]
  by (fastforce simp: base_entry_def entry_ok_def split: option.splits)

lemma removeDependencyPtr_links:
  assumes "table_inv T" and "ptr \<in> dom (map_of (heap T))"
    and "\<forall>x \<in> aliased_rel (heap T) `` {ptr}. base_entry T x \<noteq> null"
  shows "\<exists>T'. removeDependencyPtr T ptr = Inr T' \<and> links_become T T'
     (aliased_rel (heap T) - {ptr} \<times> UNIV) (references_rel (heap T))
     (pointers_rel (heap T) - base_entry T ` (aliased_rel (heap T) `` {ptr}) \<times> {ptr})"
proof -
  have ok: "table_ok T" and closed: "heap_closed (heap T)" using assms(1) by (simp_all add: table_inv_def)
  obtain p where p: "map_of (heap T) ptr = Some p" using assms(2) by auto
  have xs: "aliased_rel (heap T) `` {ptr} = set (aliased p)"
    using p by (simp add: link_rel_Image link_row_at)
  have "aliased_rel (heap T) `` {ptr} \<subseteq> Range (aliased_rel (heap T))" by blast
  then have "set (aliased p) \<subseteq> dom (map_of (heap T))"
    using closed_ranges(1) [OF closed] unfolding xs by blast
  then have prem: "\<forall>x \<in> set (aliased p). x \<in> dom (map_of (heap T)) \<and> base_entry T x \<in> dom (map_of (heap T))"
    using assms(3) base_entry_dom [OF ok] unfolding xs by blast
  obtain T1 where T1: "fold_res (\<lambda>x T'.
            bind_res (deref (heap T') x) (\<lambda>a.
            bind_res (getAliasArg T' (declarationOf a) [] []) (\<lambda>tableValueVar.
              modify tableValueVar (\<lambda>b. b\<lparr>pointers := sdel ptr (pointers b)\<rparr>) T'))) (aliased p) T = Inr T1"
    and L1: "links_become T T1 (aliased_rel (heap T)) (references_rel (heap T))
         (pointers_rel (heap T) - base_entry T ` set (aliased p) \<times> {ptr})"
    using removeDependencyPtr_fold [OF prem, of ptr] by blast
  obtain p1 where p1: "map_of (heap T1) ptr = Some p1"
    using links_become_dom [OF L1] assms(2) by auto
  let ?T2 = "T1\<lparr>heap := aput ptr (p1\<lparr>aliased := []\<rparr>) (heap T1)\<rparr>"
  have "removeDependencyPtr T ptr = Inr ?T2"
    using dom_not_null [OF assms(1,2)] p T1 p1
    by (simp add: removeDependencyPtr_def deref_def [of "heap T" ptr] modify_total)
  moreover have "links_become T1 ?T2 (aliased_rel (heap T1) - {ptr} \<times> UNIV) (references_rel (heap T1))
      (pointers_rel (heap T1))"
    using p1 by (auto simp: links_become_def same_objects_def link_row_aput link_rel_row link_row_at
        intro!: link_rel_eqI split: if_splits)
  note links_become_trans [OF L1 this]
  moreover have "aliased_rel (heap T1) = aliased_rel (heap T)"
    "references_rel (heap T1) = references_rel (heap T)"
    "pointers_rel (heap T1) = pointers_rel (heap T) - base_entry T ` (aliased_rel (heap T) `` {ptr}) \<times> {ptr}"
    using L1 unfolding xs by (simp_all add: links_become_def)
  ultimately show ?thesis by auto
qed

text \<open>
  C35: \<open>removeDependencyPtr\<close> always succeeds on an entry whose aliased elements belong to variables
  of the table: afterwards the entry aliases nothing and all other links of \<open>aliased\<close> and
  \<open>references\<close> are as before. The links back are removed from the entries of the variables only,
  so the links stay symmetric if and only if no aliased element had indexes: an array element
  keeps a stale pointer.
\<close>

theorem removeDependencyPtr_correct:
  assumes "table_inv T" and "ptr \<in> dom (map_of (heap T))"
    and "\<forall>x \<in> aliased_rel (heap T) `` {ptr}. base_entry T x \<noteq> null"
    and "\<forall>x. (x, ptr) \<notin> references_rel (heap T)"
  shows "\<exists>T'. removeDependencyPtr T ptr = Inr T' \<and> table_ok T'
     \<and> aliased_rel (heap T') = aliased_rel (heap T) - {ptr} \<times> UNIV
     \<and> references_rel (heap T') = references_rel (heap T)
     \<and> (links_ok (heap T') \<longleftrightarrow>
          (\<forall>x. (ptr, x) \<in> aliased_rel (heap T) \<longrightarrow> x \<in> base_entry T ` (aliased_rel (heap T) `` {ptr})))
     \<and> (\<forall>x a. (ptr, x) \<in> aliased_rel (heap T) \<and> map_of (heap T) x = Some a \<and> indexes a \<noteq> [] \<longrightarrow>
          (x, ptr) \<in> pointers_rel (heap T') \<and> \<not> links_ok (heap T'))"
proof -
  let ?B = "base_entry T ` (aliased_rel (heap T) `` {ptr})"
  obtain T' where T': "removeDependencyPtr T ptr = Inr T'" and L: "links_become T T'
     (aliased_rel (heap T) - {ptr} \<times> UNIV) (references_rel (heap T))
     (pointers_rel (heap T) - ?B \<times> {ptr})"
    using removeDependencyPtr_links [OF assms(1-3)] by blast
  have ok: "table_ok T" using assms(1) by (simp add: table_inv_def)
  have sym: "(aliased_rel (heap T))\<inverse> = references_rel (heap T) \<union> pointers_rel (heap T)"
    using assms(1) by (simp add: table_inv_def links_ok_def)
  have ptrs: "(x, ptr) \<in> pointers_rel (heap T) \<longleftrightarrow> (ptr, x) \<in> aliased_rel (heap T)" for x
    using sym assms(4) by (metis UnCI UnE converse_iff)
  have links: "links_ok (heap T') \<longleftrightarrow> (aliased_rel (heap T) - {ptr} \<times> UNIV)\<inverse>
      = references_rel (heap T) \<union> (pointers_rel (heap T) - ?B \<times> {ptr})"
    using L by (simp add: links_become_def links_ok_def)
  also have "\<dots> \<longleftrightarrow> (\<forall>x. (ptr, x) \<in> aliased_rel (heap T) \<longrightarrow> x \<in> ?B)"
  proof
    assume eq: "(aliased_rel (heap T) - {ptr} \<times> UNIV)\<inverse>
      = references_rel (heap T) \<union> (pointers_rel (heap T) - ?B \<times> {ptr})"
    show "\<forall>x. (ptr, x) \<in> aliased_rel (heap T) \<longrightarrow> x \<in> ?B"
    proof (intro allI impI, rule ccontr)
      fix x assume "(ptr, x) \<in> aliased_rel (heap T)" and "x \<notin> ?B"
      then have "(x, ptr) \<in> references_rel (heap T) \<union> (pointers_rel (heap T) - ?B \<times> {ptr})"
        using ptrs by blast
      then show False using eq by blast
    qed
  next
    assume B: "\<forall>x. (ptr, x) \<in> aliased_rel (heap T) \<longrightarrow> x \<in> ?B"
    show "(aliased_rel (heap T) - {ptr} \<times> UNIV)\<inverse>
      = references_rel (heap T) \<union> (pointers_rel (heap T) - ?B \<times> {ptr})"
    proof (rule set_eqI, clarify)
      fix x y
      have "(y, x) \<in> aliased_rel (heap T) \<longleftrightarrow> (x, y) \<in> references_rel (heap T) \<union> pointers_rel (heap T)"
        using sym by (metis converse_iff)
      then show "(x, y) \<in> (aliased_rel (heap T) - {ptr} \<times> UNIV)\<inverse> \<longleftrightarrow>
          (x, y) \<in> references_rel (heap T) \<union> (pointers_rel (heap T) - ?B \<times> {ptr})"
        using B ptrs assms(4) by (cases "y = ptr") auto
    qed
  qed
  finally have iff: "links_ok (heap T') \<longleftrightarrow> (\<forall>x. (ptr, x) \<in> aliased_rel (heap T) \<longrightarrow> x \<in> ?B)" .
  have stale: "x \<notin> ?B" if x: "map_of (heap T) x = Some a" "indexes a \<noteq> []" for x a
  proof
    assume "x \<in> ?B"
    then obtain y where y: "(ptr, y) \<in> aliased_rel (heap T)" "x = base_entry T y" by auto
    then have "base_entry T y \<noteq> null" using assms(3) by blast
    then obtain k where "entry_ok (heap T) k [] x []"
      using entry_at_ok [OF ok, of _ "[]" "[]"] y(2) by (auto simp: base_entry_def split: option.splits)
    with x show False by (simp add: entry_ok_def)
  qed
  have P': "pointers_rel (heap T') = pointers_rel (heap T) - ?B \<times> {ptr}"
    and "aliased_rel (heap T') = aliased_rel (heap T) - {ptr} \<times> UNIV"
    and "references_rel (heap T') = references_rel (heap T)"
    using L by (simp_all add: links_become_def)
  moreover have "(x, ptr) \<in> pointers_rel (heap T') \<and> \<not> links_ok (heap T')"
    if x: "(ptr, x) \<in> aliased_rel (heap T) \<and> map_of (heap T) x = Some a \<and> indexes a \<noteq> []" for x a
  proof -
    have "x \<notin> ?B" using x stale by blast
    moreover have "(x, ptr) \<in> pointers_rel (heap T)" using x ptrs by blast
    ultimately show ?thesis using x iff unfolding P' by blast
  qed
  ultimately show ?thesis
    using T' links_become_table_ok [OF L ok] iff by (intro exI [of _ T'] conjI) blast+
qed

text \<open>
  \<open>replaceAliasedToElement\<close> makes the target alias exactly what the other entry aliases, and
  leaves the \<open>aliased\<close> links of every other entry as they are.
\<close>

lemma replaceAliasedToElement_correct:
  assumes "table_inv T" and "{src, target} \<subseteq> dom (map_of (heap T))" and "src \<noteq> target"
    and "\<forall>x \<in> aliased_rel (heap T) `` {target}. base_entry T x \<noteq> null"
  shows "\<exists>T'. replaceAliasedToElement T src target = Inr T' \<and> table_ok T'
     \<and> aliased_rel (heap T') `` {target} = aliased_rel (heap T) `` {src}
     \<and> (\<forall>p. p \<noteq> target \<longrightarrow> aliased_rel (heap T') `` {p} = aliased_rel (heap T) `` {p})"
proof -
  have tgt: "target \<in> dom (map_of (heap T))" using assms(2) by simp
  obtain T1 where T1: "removeDependencyPtr T target = Inr T1" and L1: "links_become T T1
     (aliased_rel (heap T) - {target} \<times> UNIV) (references_rel (heap T))
     (pointers_rel (heap T) - base_entry T ` (aliased_rel (heap T) `` {target}) \<times> {target})"
    using removeDependencyPtr_links [OF assms(1) tgt assms(4)] by blast
  note dom1 = links_become_dom [OF L1]
  obtain a where a: "map_of (heap T1) src = Some a" using assms(2) dom1 by auto
  have al1: "aliased_rel (heap T1) = aliased_rel (heap T) - {target} \<times> UNIV"
    using L1 by (simp add: links_become_def)
  have xs: "set (aliased a) = aliased_rel (heap T1) `` {src}"
    using a by (simp add: link_rel_Image link_row_at)
  have "Range (aliased_rel (heap T)) \<subseteq> dom (map_of (heap T))"
    using assms(1) closed_ranges(1) by (auto simp: table_inv_def)
  then have "set (aliased a) \<subseteq> dom (map_of (heap T1))" unfolding xs al1 dom1 by blast
  then obtain T2 where T2: "fold_res (linkAliased target) (aliased a) T1 = Inr T2"
    and L2: "links_become T1 T2 (aliased_rel (heap T1) \<union> {target} \<times> set (aliased a))
      (references_rel (heap T1)) (pointers_rel (heap T1) \<union> set (aliased a) \<times> {target})"
    using linkAliased_fold [of "aliased a" T1 target] tgt dom1 by auto
  have "replaceAliasedToElement T src target = Inr T2"
    using assms(3) T1 a T2 by (simp add: replaceAliasedToElement_def deref_def)
  moreover have "table_ok T2"
    using links_become_table_ok [OF links_become_trans [OF L1 L2]] assms(1) by (simp add: table_inv_def)
  moreover have al2: "aliased_rel (heap T2)
      = (aliased_rel (heap T) - {target} \<times> UNIV) \<union> {target} \<times> aliased_rel (heap T) `` {src}"
    using L2 xs al1 assms(3) by (auto simp: links_become_def)
  ultimately show ?thesis by (intro exI [of _ T2]) (auto simp: al2)
qed


section \<open>Example tables\<close>

text \<open>A variable, a pointer to it, an element of an array, and a pointer that is not linked.\<close>

definition ex_var :: "nat \<Rightarrow> unit vardecl" where
  "ex_var n = \<lparr>vd_canonical = n, vd_name = ''v'' @ string_of_nat n, vd_type = (), vd_loc = \<lparr>loc_offset = 0, loc_file = [], loc_system = False\<rparr>\<rparr>"

definition ex_requests :: "unit entry_request list" where
  "ex_requests =
     [(ex_var 1, Variable, [], [], None), (ex_var 2, Pointer, [], [], None),
      (ex_var 3, Pointer, [], [], None), (ex_var 3, Pointer, [0], [], None),
      (ex_var 3, Pointer, [-1], ''[i]'', None), (ex_var 4, Pointer, [], [], None)]"

definition ex_unlinked :: "unit aliasTable" where
  "ex_unlinked = (case fold_res add_entry ex_requests aliasTable_empty of Inr T \<Rightarrow> T | Inl _ \<Rightarrow> aliasTable_empty)"

definition ex_table :: "unit aliasTable" where
  "ex_table = (case addAliasPtr ex_unlinked 1 2 of Inr T \<Rightarrow> T | Inl _ \<Rightarrow> aliasTable_empty)"

lemma table_inv_empty: "table_inv aliasTable_empty"
  using table_ok_empty
  by (auto simp: table_inv_def links_ok_def heap_closed_def link_rel_def aliasTable_empty_def)

lemma add_entries_inv: "fold_res add_entry rs T = Inr T' \<Longrightarrow> table_inv T \<Longrightarrow> table_inv T'"
  by (erule fold_res_invariant) (auto intro: add_entry_table_inv)

lemma ex_unlinked_inv: "table_inv ex_unlinked"
  using add_entries_inv [OF _ table_inv_empty] table_inv_empty
  by (auto simp: ex_unlinked_def split: sum.splits)

lemma ex_unlinked_dom: "{1, 2, 3, 4, 5, 6} \<subseteq> dom (map_of (heap ex_unlinked))"
proof -
  have "list_all (\<lambda>p. map_of (heap ex_unlinked) p \<noteq> None) [1, 2, 3, 4, 5, 6]" by code_simp
  then show ?thesis by auto
qed

lemma ex_table_inv: "table_inv ex_table"
  using addAliasPtr_inv [OF ex_unlinked_inv, of 1 2] ex_unlinked_dom
  by (auto simp: ex_table_def)

lemma ex_table_dom: "{1, 2, 3, 4, 5, 6} \<subseteq> dom (map_of (heap ex_table))"
proof -
  have "list_all (\<lambda>p. map_of (heap ex_table) p \<noteq> None) [1, 2, 3, 4, 5, 6]" by code_simp
  then show ?thesis by auto
qed

lemma ex_table_objects:
  "map_option aliased (map_of (heap ex_table) 2) = Some [1]"
  "map_option aliased (map_of (heap ex_table) 6) = Some []"
  "list_all (\<lambda>(p, a). references a = []) (heap ex_table)"
  "base_entry ex_table 1 = 1"
  by code_simp+

lemma ex_table_aliased: "(2, x) \<in> aliased_rel (heap ex_table) \<longleftrightarrow> x = 1"
    "(6, x) \<notin> aliased_rel (heap ex_table)"
  using ex_table_objects(1,2) by (auto simp: link_rel_def)

lemma ex_table_references: "(x, y) \<notin> references_rel (heap ex_table)"
  using ex_table_objects(3) by (fastforce simp: link_rel_def list_all_iff dest!: map_of_SomeD)


lemma removeDependencyPtr_witness:
  "\<exists>T'. removeDependencyPtr ex_table 2 = Inr T' \<and> table_ok T'
     \<and> aliased_rel (heap T') = aliased_rel (heap ex_table) - {2} \<times> UNIV"
proof -
  have "\<forall>x \<in> aliased_rel (heap ex_table) `` {2}. base_entry ex_table x \<noteq> null"
    using ex_table_objects(4) by (auto simp: ex_table_aliased null_def)
  from removeDependencyPtr_correct [OF ex_table_inv _ this] ex_table_dom ex_table_references
  show ?thesis by blast
qed

lemma replaceAliasedToElement_witness:
  "\<exists>T'. replaceAliasedToElement ex_table 2 6 = Inr T'
     \<and> aliased_rel (heap T') `` {6} = aliased_rel (heap ex_table) `` {2}"
proof -
  have "{2, 6} \<subseteq> dom (map_of (heap ex_table))" using ex_table_dom by simp
  moreover have "\<forall>x \<in> aliased_rel (heap ex_table) `` {6}. base_entry ex_table x \<noteq> null"
    by (auto simp: ex_table_aliased)
  ultimately show ?thesis
    using replaceAliasedToElement_correct [OF ex_table_inv, of 2 6] by auto
qed

lemma getOrAddAliasArg_correct_witness:
  "\<exists>a T'. getOrAddAliasArg ex_table (ex_var 3) Pointer [1] [] None = Inr (a, T') \<and> a \<noteq> null
     \<and> getAliasArg T' (ex_var 3) [1] [] = Inr a"
proof -
  have "case getOrAddAliasArg ex_table (ex_var 3) Pointer [1] [] None of Inl _ \<Rightarrow> False | Inr _ \<Rightarrow> True"
    by code_simp
  then obtain a T' where r: "getOrAddAliasArg ex_table (ex_var 3) Pointer [1] [] None = Inr (a, T')"
    by (cases "getOrAddAliasArg ex_table (ex_var 3) Pointer [1] [] None") auto
  have "(-1 \<in> set [1 :: int]) = (([] :: string) \<noteq> [])" by simp
  from getOrAddAliasArg_correct [OF table_inv_parts(1) [OF ex_table_inv] this r] r
  show ?thesis by blast
qed

text \<open>The access \<open>tab[0]\<close> after \<open>tab[0][1]\<close>.\<close>

definition ex_bare_requests :: "unit entry_request list" where
  "ex_bare_requests = [(ex_var 1, Pointer, [], [], None), (ex_var 1, Pointer, [0, 1], [], None)]"

definition ex_bare :: "unit aliasTable" where
  "ex_bare = (case fold_res add_entry ex_bare_requests aliasTable_empty of
     Inr T \<Rightarrow> T | Inl _ \<Rightarrow> aliasTable_empty)"

lemma ex_bare_inv: "table_inv ex_bare"
  using add_entries_inv [OF _ table_inv_empty] table_inv_empty
  by (auto simp: ex_bare_def split: sum.splits)

lemma getOrAddAliasArg_error_witness:
  "getOrAddAliasArg ex_bare (ex_var 1) Pointer [0] [] None = Inl NullDeref"
proof -
  have "bare_level ex_bare (ex_var 1) [0]" by code_simp
  then show ?thesis
    using getOrAddAliasArg_error [OF table_inv_parts(1) [OF ex_bare_inv], of "[0]" "[]" "ex_var 1" Pointer None NullDeref]
    by simp
qed

end
