(* ===== verification/Alias_Queries.thy ===== *)
theory Alias_Queries
  imports Alias_Links
begin

text \<open>
  What the transitive queries of the alias table compute: \<open>getAliased\<close> and \<open>getAliases\<close> are
  reachability over the links of the entries, \<open>getPointerAccessedVariables\<close> and
  \<open>getModifiedVariables\<close> follow a pointer a number of levels, and the array queries return the
  entries whose index path matches.
\<close>

section \<open>getAliased and getAliases\<close>

interpretation getAliased_walk: worklist "aliasedSucc h" "getAliased_loop h" "fst ` set h"
  for h :: "'t heap"
  by unfold_locales (auto simp: aliasedSucc_def dest: map_of_in_dom split: option.splits)

lemma fold_sinsl_distinct:
  "distinct (fst s) \<Longrightarrow> distinct (fst (fold (\<lambda>d (al, cs). (sinsl (f d) al, g d cs)) xs s))"
  by (induction xs arbitrary: s) (auto split: prod.splits)

definition aliasLinks :: "'t heap \<Rightarrow> addr \<Rightarrow> addr list" where
  "aliasLinks h x = referenceSucc h x @ referencesOf h x"

lemma aliasLinks_range: "Range (edges_of (aliasLinks h)) \<subseteq> heap_targets h"
  by (auto simp: aliasLinks_def dest: subsetD [OF referenceSucc_targets]
      subsetD [OF referencesOf_targets])

lemma referenceSucc_range: "Range (edges_of (referenceSucc h)) \<subseteq> heap_targets h"
  by (auto dest: subsetD [OF referenceSucc_targets])

interpretation getAliases_walk: saturation "edges_of (aliasLinks h)" fst "getAliases_pass h"
    "getAliases_loop h" "\<lambda>s. distinct (fst s) \<and> set (snd s) \<subseteq> set (fst s)"
  for h :: "'t heap"
proof (unfold_locales, goal_cases)
  case 1
  show ?case using aliasLinks_range finite_heap_targets by (rule finite_subset)
next
  case (2 s)
  then show ?case using fold_sinsl_distinct [of s "referenceSucc h" "getReferencesAliases h" "fst s"]
    by (auto simp: getAliases_pass_def split: prod.splits)
next
  case (3 s)
  then show ?case by (auto simp: getAliases_pass_sets aliasLinks_def)
next
  case (4 s)
  then show ?case by simp
next
  case (5 s)
  show ?case by (simp add: getAliases_loop.simps [of h s] Let_def)
qed

interpretation getModifiedVariables_walk: saturation "edges_of (referenceSucc h)" fst
    "getModifiedVariables_pass h" "getModifiedVariables_loop h" "\<lambda>s. distinct (fst s)"
  for h :: "'t heap"
proof (unfold_locales, goal_cases)
  case 1
  show ?case using referenceSucc_range finite_heap_targets by (rule finite_subset)
next
  case (2 s)
  then show ?case
    using fold_sinsl_distinct [of s "referenceSucc h" "\<lambda>d. sinsl (referencesOf h d)" "fst s"]
    by (simp add: getModifiedVariables_pass_def)
next
  case (3 s)
  then show ?case by (auto simp: getModifiedVariables_pass_sets)
next
  case (4 s)
  then show ?case by simp
next
  case (5 s)
  show ?case by (simp add: getModifiedVariables_loop.simps [of h s] Let_def)
qed

text \<open>
  \<open>getAliased\<close> returns exactly the entries reachable from \<open>v\<close> by following the \<open>aliased\<close>
  links of references and pointers, and nothing for the null pointer.
\<close>

lemma getAliased_reachable:
  "set (getAliased T v) = (if v = null then {} else (edges_of (aliasedSucc (heap T)))\<^sup>* `` {v})"
  by (simp add: getAliased_def getAliased_walk.run_reachable)

text \<open>
  \<open>getAliases\<close> returns exactly the closure of \<open>v\<close> under "is referred to by" and, for a
  reference, "refers to".
\<close>

lemma getAliases_closure:
  "set (getAliases T v) = (edges_of (aliasLinks (heap T)))\<^sup>* `` {v}"
  using getAliases_walk.run_els [of "([v], [])" "heap T"] by (simp add: getAliases_def)

section \<open>Queries by depth\<close>

primrec levels :: "('a \<Rightarrow> 'a list) \<Rightarrow> nat \<Rightarrow> 'a set \<Rightarrow> 'a set" where
  "levels f 0 X = X"
| "levels f (Suc n) X = levels f n (\<Union>x \<in> X. set (f x))"

lemma levels_relpow: "levels f n X = (edges_of f ^^ n) `` X"
proof (induction n arbitrary: X)
  case 0
  then show ?case by simp
next
  case (Suc n)
  have "(edges_of f ^^ Suc n) `` X = (edges_of f ^^ n) `` (edges_of f `` X)"
    by (simp only: relpow.simps(2) relpow_commute [symmetric] relcomp_Image)
  moreover have "edges_of f `` X = (\<Union>x \<in> X. set (f x))" by auto
  ultimately show ?case by (simp add: Suc)
qed

lemma getModifiedVariables_steps_levels:
  "set (getModifiedVariables_steps h n S) =
     levels (pointerHop h) n (set S)"
  by (induction n arbitrary: S) auto

text \<open>The variables an access at depth \<open>d\<close> may modify, as a function of the start set.\<close>

definition modified_spec :: "'t heap \<Rightarrow> addr set \<Rightarrow> int \<Rightarrow> addr set" where
  "modified_spec h S d =
     (if d > 0 then (edges_of (pointerHop h) ^^ nat d) `` S
      else if d = 0 then
        (let A = (edges_of (referenceSucc h))\<^sup>* `` S in A \<union> (\<Union>x \<in> A. set (referencesOf h x)))
      else if d = -1 then {}
      else S)"

lemma getModifiedVariables_loop_refs:
  "distinct (fst s) \<Longrightarrow> set (snd s) \<union> (\<Union>x \<in> set (fst s). set (referencesOf h x))
      \<subseteq> set (snd (getModifiedVariables_loop h s))
   \<and> set (snd (getModifiedVariables_loop h s))
      \<subseteq> set (snd s) \<union> (\<Union>x \<in> set (fst (getModifiedVariables_loop h s)). set (referencesOf h x))
   \<and> (\<Union>x \<in> set (fst (getModifiedVariables_loop h s)). set (referencesOf h x))
      \<subseteq> set (snd (getModifiedVariables_loop h s))"
proof (induction h s rule: getModifiedVariables_loop.induct)
  case (1 h s)
  let ?s = "getModifiedVariables_pass h s"
  note sets = getModifiedVariables_pass_sets [of h s]
  have mono: "set (fst ?s) \<subseteq> set (fst (getModifiedVariables_loop h ?s))"
    using getModifiedVariables_walk.run_els [of ?s h]
      getModifiedVariables_walk.ok_step [OF "1.prems", of h] by auto
  show ?case
  proof (cases "length (fst ?s) = length (fst s)")
    case True
    have "set (fst ?s) = set (fst s)"
    proof (rule sym, rule card_subset_eq)
      show "set (fst s) \<subseteq> set (fst ?s)" using sets by auto
      show "card (set (fst s)) = card (set (fst ?s))"
        using True "1.prems" getModifiedVariables_walk.ok_step [OF "1.prems", of h]
        by (simp add: distinct_card)
    qed simp
    with True sets show ?thesis by (simp add: getModifiedVariables_loop.simps [of h s] Let_def)
  next
    case False
    note IH = "1.IH" [OF refl False getModifiedVariables_walk.ok_step [OF "1.prems"]]
    have eq: "getModifiedVariables_loop h s = getModifiedVariables_loop h ?s"
      using False by (simp add: getModifiedVariables_loop.simps [of h s] Let_def)
    let ?L = "set (snd (getModifiedVariables_loop h ?s))"
    let ?R = "\<Union>x \<in> set (fst (getModifiedVariables_loop h ?s)). set (referencesOf h x)"
    let ?B = "\<Union>x \<in> set (fst s). set (referencesOf h x)"
    have i: "set (snd ?s) \<subseteq> ?L" "?L \<subseteq> set (snd ?s) \<union> ?R" "?R \<subseteq> ?L"
      using IH by simp_all
    have AB: "set (snd ?s) = set (snd s) \<union> ?B" by (rule sets(2))
    have "set (fst s) \<subseteq> set (fst (getModifiedVariables_loop h ?s))" using mono sets(1) by blast
    then have "?B \<subseteq> ?R" by blast
    with AB have "set (snd ?s) \<union> ?R = set (snd s) \<union> ?R" by blast
    with i AB eq show ?thesis by simp
  qed
qed


lemma getPointerAccessedVariables_loop_levels:
  assumes "null \<notin> set P" and "\<forall>x \<in> heap_targets h. x \<noteq> null" and "set P \<subseteq> set S"
  shows "\<exists>R. getPointerAccessedVariables_loop h n P S = Inr R
     \<and> set R = set S \<union> (\<Union>k \<le> n. levels (aliasedOf h) k (set P))"
  using assms
proof (induction n arbitrary: P S)
  case 0
  then show ?case by auto
next
  case (Suc n)
  let ?C = "sinsl (filter (\<lambda>p. p \<noteq> null) (concat (map (aliasedOf h) P))) []"
  have "x \<noteq> null" if "x \<in> set (aliasedOf h p)" for x p
    using that Suc.prems(2) heap_targetsI [of h p]
    by (cases "map_of h p") (auto simp: aliasedOf_def)
  then have C: "set ?C = (\<Union>x \<in> set P. set (aliasedOf h x))" by auto
  have "null \<notin> set ?C" by simp
  from Suc.IH [OF this Suc.prems(2), of "sinsl ?C S"]
  obtain R where R: "getPointerAccessedVariables_loop h n ?C (sinsl ?C S) = Inr R"
    and sR: "set R = set (sinsl ?C S) \<union> (\<Union>k \<le> n. levels (aliasedOf h) k (set ?C))"
    by auto
  have "(\<Union>k \<le> Suc n. levels (aliasedOf h) k (set P))
      = set P \<union> (\<Union>k \<le> n. levels (aliasedOf h) k (\<Union>x \<in> set P. set (aliasedOf h x)))"
    by (simp add: atMost_Suc_eq_insert_0)
  moreover have "set ?C \<subseteq> (\<Union>k \<le> n. levels (aliasedOf h) k (set ?C))"
    using levels.simps(1) [of "aliasedOf h" "set ?C"] by blast
  ultimately show ?case
    using Suc.prems(1,3) R sR C by (auto simp: Let_def)
qed

text \<open>
  \<open>getPointerAccessedVariables\<close> returns every entry read on the way of an access at depth
  \<open>d\<close>: the entries up to \<open>d\<close> levels of \<open>aliased\<close> links away.
\<close>

lemma getPointerAccessedVariables_correct:
  assumes "null \<notin> set S" and "null \<notin> heap_targets (heap T)"
  shows "\<exists>R. getPointerAccessedVariables T S d = Inr R
     \<and> set R = (\<Union>k \<le> nat d. (edges_of (aliasedOf (heap T)) ^^ k) `` set S)"
proof -
  obtain R where "getPointerAccessedVariables_loop (heap T) (nat d) S S = Inr R"
    and "set R = set S \<union> (\<Union>k \<le> nat d. levels (aliasedOf (heap T)) k (set S))"
    using getPointerAccessedVariables_loop_levels [of S "heap T" S "nat d"] assms by auto
  moreover have "set S \<subseteq> (\<Union>k \<le> nat d. levels (aliasedOf (heap T)) k (set S))"
    using levels.simps(1) [of "aliasedOf (heap T)" "set S"] by blast
  ultimately show ?thesis by (auto simp: getPointerAccessedVariables_def levels_relpow)
qed


lemma getPointerAccessedVariables_witness:
  "\<exists>R. getPointerAccessedVariables ex_table [2] 1 = Inr R
     \<and> set R = (\<Union>k \<le> nat 1. (edges_of (aliasedOf (heap ex_table)) ^^ k) `` {2})"
proof -
  have "list_all (\<lambda>(p, a). null \<notin> set (aliased a) \<and> null \<notin> set (references a)) (heap ex_table)"
    by code_simp
  then have "null \<notin> heap_targets (heap ex_table)"
    by (auto simp: heap_targets_def list_all_iff)
  moreover have "null \<notin> set [2 :: addr]" by (simp add: null_def)
  ultimately show ?thesis
    using getPointerAccessedVariables_correct [of "[2]" ex_table 1] by simp
qed

end
