(* ===== verification/Alias_Arrays.thy ===== *)
theory Alias_Arrays
  imports Alias_Links
begin

text \<open>
  The array queries of the alias table: which entries \<open>getArrayElementDependencies\<close>,
  \<open>getArrayElementChildren\<close> and \<open>getArrayElementParents\<close> return, as a relation between the
  index paths of the entries, and what that means for two accesses to elements of one array.
\<close>

text \<open>Path \<open>q\<close> is on the way of the index list: an unknown index (-1) goes to every child.\<close>

fun covers :: "int list \<Rightarrow> int list \<Rightarrow> bool" where
  "covers idx [] = True"
| "covers [] (j # q) = False"
| "covers (i # idx) (j # q) = ((i = -1 \<or> i = j) \<and> covers idx q)"

definition value_children :: "int \<Rightarrow> tableValue \<Rightarrow> tableValue set" where
  "value_children i v = {w. \<exists>j. (i = -1 \<or> i = j) \<and> map_of (snd (stepInto (Some v))) j = Some w}"

definition value_descendants :: "int list \<Rightarrow> tableValue \<Rightarrow> tableValue set" where
  "value_descendants idx v = {w. \<exists>q. q \<noteq> [] \<and> covers idx q \<and> descend (Some v) q = Some w}"

lemma value_descendants_Nil [simp]: "value_descendants [] v = {}"
proof -
  have "\<not> covers [] q" if "q \<noteq> []" for q using that by (cases q) auto
  then show ?thesis by (auto simp: value_descendants_def)
qed

lemma value_descendants_Cons:
  "value_descendants (i # idx) v =
     value_children i v \<union> (\<Union>w \<in> value_children i v. value_descendants idx w)"
proof (intro equalityI subsetI)
  fix w assume "w \<in> value_descendants (i # idx) v"
  then obtain p where p: "p \<noteq> []" "covers (i # idx) p" "descend (Some v) p = Some w"
    by (auto simp: value_descendants_def)
  obtain j q where "p = j # q" using p(1) by (cases p) auto
  with p have q: "i = -1 \<or> i = j" "covers idx q" "descend (Some v) (j # q) = Some w" by simp_all
  then obtain u where u: "map_of (snd (stepInto (Some v))) j = Some u" "descend (Some u) q = Some w"
    by (cases "map_of (snd (stepInto (Some v))) j") auto
  have "u \<in> value_children i v" using q(1) u(1) by (auto simp: value_children_def)
  moreover have "w = u \<or> w \<in> value_descendants idx u"
    using q(2) u(2) by (cases "q = []") (auto simp: value_descendants_def)
  ultimately show "w \<in> value_children i v \<union> (\<Union>w \<in> value_children i v. value_descendants idx w)"
    by auto
next
  fix w assume "w \<in> value_children i v \<union> (\<Union>w \<in> value_children i v. value_descendants idx w)"
  then obtain u where u: "u \<in> value_children i v" and w: "w = u \<or> w \<in> value_descendants idx u"
    by auto
  from w obtain q where "covers idx q" "descend (Some u) q = Some w"
    by (auto simp: value_descendants_def intro: that [of "[]"])
  moreover from u obtain j where "i = -1 \<or> i = j" "map_of (snd (stepInto (Some v))) j = Some u"
    by (auto simp: value_children_def)
  ultimately have "covers (i # idx) (j # q)" "descend (Some v) (j # q) = Some w" by auto
  then show "w \<in> value_descendants (i # idx) v" unfolding value_descendants_def by blast
qed

lemma getDirectChildren_set:
  assumes "sorted_value v" and "i \<ge> -1"
  shows "\<exists>cs. getDirectChildren v i = Inr cs \<and> set cs = value_children i v
     \<and> (\<forall>c \<in> set cs. sorted_value c)"
proof (cases v)
  case (ArgStruct s)
  with assms show ?thesis by (simp add: getDirectChildren_def value_children_def)
next
  case (SubArray s m)
  have "distinct (map fst m)"
    using assms(1) SubArray by (simp add: strict_sorted_iff)
  then have "map_of m j = Some w \<longleftrightarrow> (j, w) \<in> set m" for j w by (simp add: map_of_eq_Some_iff)
  then have "set (map snd m) = {w. \<exists>j. map_of m j = Some w}" by force
  with assms SubArray show ?thesis
    by (auto simp: getDirectChildren_def value_children_def split: option.splits dest: map_of_SomeD)
qed

lemma dependencies_loop_level:
  assumes "\<forall>v \<in> set st. sorted_value v" and "i \<ge> -1" and "st \<noteq> []"
  shows "\<exists>next' deps'. getArrayElementDependencies_loop st (i # is) nx deps =
           getArrayElementDependencies_loop (rev next') is [] deps'
       \<and> set next' = set nx \<union> (\<Union>v \<in> set st. value_children i v)
       \<and> set deps' = set deps \<union> (\<Union>v \<in> set st. \<Union>w \<in> value_children i v. set (aliasesOfValue w))
       \<and> (\<forall>w \<in> set next' - set nx. sorted_value w)"
  using assms
proof (induction st arbitrary: nx deps)
  case Nil
  then show ?case by simp
next
  case (Cons v st)
  obtain cs where cs: "getDirectChildren v i = Inr cs" "set cs = value_children i v"
    "\<forall>c \<in> set cs. sorted_value c"
    using getDirectChildren_set [of v i] Cons.prems by auto
  show ?case
  proof (cases "st = []")
    case True
    with cs show ?thesis
      by (intro exI [of _ "nx @ cs"] exI [of _ "sinsl (concat (map aliasesOfValue cs)) deps"]) auto
  next
    case False
    obtain next' deps' where "getArrayElementDependencies_loop st (i # is) (nx @ cs)
          (sinsl (concat (map aliasesOfValue cs)) deps) =
         getArrayElementDependencies_loop (rev next') is [] deps'"
      and "set next' = set (nx @ cs) \<union> (\<Union>v \<in> set st. value_children i v)"
      and "set deps' = set (sinsl (concat (map aliasesOfValue cs)) deps)
         \<union> (\<Union>v \<in> set st. \<Union>w \<in> value_children i v. set (aliasesOfValue w))"
      and "\<forall>w \<in> set next' - set (nx @ cs). sorted_value w"
      using Cons.IH [of "nx @ cs" "sinsl (concat (map aliasesOfValue cs)) deps"] Cons.prems False
      by (metis list.set_intros(2))
    with False cs show ?thesis
      by (intro exI [of _ next'] exI [of _ deps']) (auto simp: Let_def)
  qed
qed

lemma dependencies_loop_set:
  assumes "\<forall>v \<in> set st. sorted_value v" and "\<forall>i \<in> set idx. i \<ge> -1"
  shows "\<exists>R. getArrayElementDependencies_loop st idx [] deps = Inr R
     \<and> set R = set deps \<union> (\<Union>v \<in> set st. \<Union>w \<in> value_descendants idx v. set (aliasesOfValue w))"
  using assms
proof (induction idx arbitrary: st deps)
  case Nil
  then show ?case by (cases st) auto
next
  case (Cons i "is")
  show ?case
  proof (cases "st = []")
    case True
    then show ?thesis by simp
  next
    case False
    obtain next' deps' where lv: "getArrayElementDependencies_loop st (i # is) [] deps =
         getArrayElementDependencies_loop (rev next') is [] deps'"
      and sets: "set next' = (\<Union>v \<in> set st. value_children i v)"
        "set deps' = set deps \<union> (\<Union>v \<in> set st. \<Union>w \<in> value_children i v. set (aliasesOfValue w))"
      and "\<forall>w \<in> set next'. sorted_value w"
      using dependencies_loop_level [OF Cons.prems(1) _ False, of i "is" "[]" deps] Cons.prems(2) by auto
    then obtain R where "getArrayElementDependencies_loop (rev next') is [] deps' = Inr R"
      and "set R = set deps' \<union> (\<Union>v \<in> set next'. \<Union>w \<in> value_descendants is v. set (aliasesOfValue w))"
      using Cons.IH [of "rev next'" deps'] Cons.prems(2) by auto
    with lv sets show ?thesis
      by (intro exI [of _ R]) (auto simp: value_descendants_Cons)
  qed
qed


section \<open>The entries of a position\<close>

text \<open>The entries stored in a table, with their objects.\<close>

definition stored :: "'t aliasTable \<Rightarrow> addr \<Rightarrow> 't aliasArg \<Rightarrow> bool" where
  "stored T e b \<longleftrightarrow> map_of (heap T) e = Some b
     \<and> (\<exists>s. struct_at (tmap T) (getKey (declarationOf b)) (indexes b) = Some s
          \<and> e \<in> set (getAllAlias s))"

lemma getAllAlias_stored:
  assumes "table_ok T" and "struct_at (tmap T) k p = Some s" and "e \<in> set (getAllAlias s)"
  shows "\<exists>b. stored T e b \<and> getKey (declarationOf b) = k \<and> indexes b = p"
proof -
  have "struct_ok (heap T) k p s" using assms(1,2) by (rule struct_ok_at)
  with assms(3) obtain istr where "entry_ok (heap T) k p e istr"
    by (fastforce simp: struct_ok_def getAllAlias_def split: if_splits)
  with assms(2,3) show ?thesis by (auto simp: entry_ok_def stored_def)
qed

lemma aliasesOfValue_descend:
  "descend (map_of t k) p = Some w \<Longrightarrow>
     set (aliasesOfValue w) = {e. \<exists>s. struct_at t k p = Some s \<and> e \<in> set (getAllAlias s)}"
  by (cases "fst (stepInto (Some w))") (simp_all add: aliasesOfValue_def struct_at_def struct_in_def)

lemma struct_at_descend:
  "struct_at t k p = Some s \<Longrightarrow> \<exists>w. descend (map_of t k) p = Some w"
  by (cases "descend (map_of t k) p") (auto simp: struct_at_def struct_in_def)

lemma sorted_table_value: "sorted_table t \<Longrightarrow> map_of t k = Some v \<Longrightarrow> sorted_value v"
  by (auto simp: sorted_table_def dest: map_of_SomeD)

lemma stored_in_table: "stored T e b \<Longrightarrow> e \<noteq> null \<Longrightarrow> \<exists>v. map_of (tmap T) (getKey (declarationOf b)) = Some v"
  by (cases "map_of (tmap T) (getKey (declarationOf b))")
    (auto simp: stored_def struct_at_def struct_in_def)

lemma stored_not_null: "table_ok T \<Longrightarrow> stored T e b \<Longrightarrow> e \<noteq> null"
  by (auto simp: stored_def table_ok_def heap_ok_def null_def)

lemma dependencies_stored:
  assumes "table_ok T" and "stored T e a" and "\<forall>i \<in> set (indexes a). i \<ge> -1"
  shows "\<exists>R. getArrayElementDependencies T e = Inr R
     \<and> set R = {d. \<exists>b. stored T d b \<and> getKey (declarationOf b) = getKey (declarationOf a)
                    \<and> covers (indexes a) (indexes b)}"
proof -
  let ?k = "getKey (declarationOf a)"
  have e: "e \<noteq> null" using stored_not_null [OF assms(1,2)] .
  obtain v where v: "map_of (tmap T) ?k = Some v" using stored_in_table [OF assms(2) e] by blast
  have "sorted_value v" using assms(1) v by (auto simp: table_ok_def intro: sorted_table_value)
  then obtain R where R: "getArrayElementDependencies_loop [v] (indexes a) []
        (sinsl (aliasesOfValue v) []) = Inr R"
    and sR: "set R = set (aliasesOfValue v)
        \<union> (\<Union>w \<in> value_descendants (indexes a) v. set (aliasesOfValue w))"
    using dependencies_loop_set [of "[v]" "indexes a" "sinsl (aliasesOfValue v) []"] assms(3) by auto
  let ?D = "insert v (value_descendants (indexes a) v)"
  have D: "w \<in> ?D \<longleftrightarrow> (\<exists>q. covers (indexes a) q \<and> descend (map_of (tmap T) ?k) q = Some w)" for w
  proof
    assume "w \<in> ?D"
    then show "\<exists>q. covers (indexes a) q \<and> descend (map_of (tmap T) ?k) q = Some w"
    proof
      assume "w = v"
      then show ?thesis using v by (intro exI [of _ "[]"]) simp
    next
      assume "w \<in> value_descendants (indexes a) v"
      then show ?thesis using v by (auto simp: value_descendants_def)
    qed
  next
    assume "\<exists>q. covers (indexes a) q \<and> descend (map_of (tmap T) ?k) q = Some w"
    then obtain q where "covers (indexes a) q" "descend (Some v) q = Some w" using v by auto
    then show "w \<in> ?D" by (cases "q = []") (auto simp: value_descendants_def)
  qed
  have in_R: "d \<in> set R \<longleftrightarrow> (\<exists>w \<in> ?D. d \<in> set (aliasesOfValue w))" for d
    using sR by auto
  have "d \<in> set R \<longleftrightarrow> (\<exists>q s. covers (indexes a) q \<and> struct_at (tmap T) ?k q = Some s
        \<and> d \<in> set (getAllAlias s))" for d
  proof
    assume "d \<in> set R"
    then obtain w q where "covers (indexes a) q" "descend (map_of (tmap T) ?k) q = Some w"
      "d \<in> set (aliasesOfValue w)"
      using in_R D by blast
    then show "\<exists>q s. covers (indexes a) q \<and> struct_at (tmap T) ?k q = Some s
        \<and> d \<in> set (getAllAlias s)"
      using aliasesOfValue_descend by blast
  next
    assume "\<exists>q s. covers (indexes a) q \<and> struct_at (tmap T) ?k q = Some s \<and> d \<in> set (getAllAlias s)"
    then obtain q s where q: "covers (indexes a) q" "struct_at (tmap T) ?k q = Some s"
      "d \<in> set (getAllAlias s)" by blast
    then obtain w where w: "descend (map_of (tmap T) ?k) q = Some w" using struct_at_descend by blast
    then have "d \<in> set (aliasesOfValue w)" using aliasesOfValue_descend q(2,3) by blast
    then show "d \<in> set R" using in_R D q(1) w by blast
  qed
  then have "set R = {d. \<exists>q s. covers (indexes a) q \<and> struct_at (tmap T) ?k q = Some s
        \<and> d \<in> set (getAllAlias s)}"
    by blast
  also have "\<dots> = {d. \<exists>b. stored T d b \<and> getKey (declarationOf b) = ?k
        \<and> covers (indexes a) (indexes b)}" (is "?L = ?M")
  proof
    show "?L \<subseteq> ?M" using getAllAlias_stored [OF assms(1)] by fastforce
    show "?M \<subseteq> ?L" unfolding stored_def by force
  qed
  finally show ?thesis
    using R assms(2) e v by (auto simp: getArrayElementDependencies_def deref_def stored_def
        AliasTableMap_at_descend)
qed


section \<open>Children and parents\<close>

definition matches :: "int list \<Rightarrow> int list \<Rightarrow> bool" where
  "matches idx q = list_all2 (\<lambda>i j. i = -1 \<or> i = j) idx q"

lemma matches_covers: "matches idx q \<longleftrightarrow> covers idx q \<and> length idx \<le> length q"
  unfolding matches_def by (induction idx q rule: covers.induct) auto

lemma covers_length: "covers idx q \<Longrightarrow> length q \<le> length idx"
  by (induction idx q rule: covers.induct) auto

lemma map_res_objects:
  assumes "\<And>c. c \<in> set cs \<Longrightarrow> deref h c = Inr (f c)"
  shows "map_res (\<lambda>c. bind_res (deref h c) (g c)) cs = map_res (\<lambda>c. g c (f c)) cs"
  using assms by (induction cs) auto

lemma map_res_total: "map_res (\<lambda>c. Inr (f c)) cs = Inr (map f cs)"
  by (induction cs) auto

lemma stored_deref: "stored T d b \<Longrightarrow> deref (heap T) d = Inr b"
  by (simp add: stored_def deref_def)

lemma stored_unique: "stored T d b \<Longrightarrow> stored T d b' \<Longrightarrow> b = b'"
  by (simp add: stored_def)

lemma dependencies_objects:
  assumes "table_ok T" and "stored T e a" and "\<forall>i \<in> set (indexes a). i \<ge> -1"
  obtains R ob where "getArrayElementDependencies T e = Inr R"
    and "\<And>d. d \<in> set R \<Longrightarrow> deref (heap T) d = Inr (ob d)"
    and "\<And>d. d \<in> set R \<Longrightarrow> stored T d (ob d)"
    and "set R = {d. \<exists>b. stored T d b \<and> getKey (declarationOf b) = getKey (declarationOf a)
                    \<and> covers (indexes a) (indexes b)}"
proof -
  obtain R where R: "getArrayElementDependencies T e = Inr R"
    "set R = {d. \<exists>b. stored T d b \<and> getKey (declarationOf b) = getKey (declarationOf a)
                    \<and> covers (indexes a) (indexes b)}"
    using dependencies_stored [OF assms] by blast
  moreover have "\<exists>ob. \<forall>d \<in> set R. stored T d (ob d)" using R(2) by (intro bchoice) blast
  ultimately show ?thesis using that stored_deref by blast
qed

lemma children_stored:
  assumes "table_ok T" and "stored T e a" and "\<forall>i \<in> set (indexes a). i \<ge> -1"
  shows "\<exists>R. getArrayElementChildren T e = Inr R
     \<and> set R = {d. \<exists>b. stored T d b \<and> getKey (declarationOf b) = getKey (declarationOf a)
                    \<and> matches (indexes a) (indexes b)}"
proof -
  obtain R ob where R: "getArrayElementDependencies T e = Inr R"
    and d: "\<And>d. d \<in> set R \<Longrightarrow> deref (heap T) d = Inr (ob d)"
    and s: "\<And>d. d \<in> set R \<Longrightarrow> stored T d (ob d)"
    and sR: "set R = {d. \<exists>b. stored T d b \<and> getKey (declarationOf b) = getKey (declarationOf a)
                    \<and> covers (indexes a) (indexes b)}"
    using dependencies_objects [OF assms] by blast
  let ?L = "\<lambda>d. length (indexes (ob d)) \<ge> length (indexes a)"
  have "getArrayElementChildren T e = Inr (filter ?L R)"
    using map_res_objects [OF d, where g = "\<lambda>c o'. Inr (c, o')"]
    by (simp add: getArrayElementChildren_def R stored_deref [OF assms(2)] map_res_total
        filter_map comp_def)
  moreover have "set (filter ?L R) = {d. \<exists>b. stored T d b
        \<and> getKey (declarationOf b) = getKey (declarationOf a) \<and> matches (indexes a) (indexes b)}"
    using s stored_unique [of T] by (fastforce simp: sR matches_covers)
  ultimately show ?thesis by blast
qed

text \<open>
  The children of an element are exactly the recorded entries of the same variable with as
  many indexes, each equal to the index of the element or under an unknown one. A deeper element
  (\<open>tab[1][0]\<close> for \<open>tab[1]\<close>) is never returned, whatever the comment in \<open>AliasTable.hpp\<close> says.
\<close>

lemma getArrayElementChildren_correct:
  assumes "table_ok T" and "stored T e a" and "\<forall>i \<in> set (indexes a). i \<ge> -1"
  shows "\<exists>R. getArrayElementChildren T e = Inr R
     \<and> set R = {d. \<exists>b. stored T d b \<and> getKey (declarationOf b) = getKey (declarationOf a)
                    \<and> matches (indexes a) (indexes b)}"
  using assms by (rule children_stored)

lemma parents_stored_full:
  assumes "table_ok T" and "stored T e a" and "\<forall>i \<in> set (indexes a). i \<ge> -1"
  shows "\<exists>R. getArrayElementParents T e = Inr R
     \<and> set R = (if \<exists>d b. stored T d b \<and> getKey (declarationOf b) = getKey (declarationOf a)
                     \<and> covers (indexes a) (indexes b) \<and> length (indexes b) < length (indexes a)
                then {e} else {})"
proof -
  obtain R ob where R: "getArrayElementDependencies T e = Inr R"
    and d: "\<And>d. d \<in> set R \<Longrightarrow> deref (heap T) d = Inr (ob d)"
    and s: "\<And>d. d \<in> set R \<Longrightarrow> stored T d (ob d)"
    and sR: "set R = {d. \<exists>b. stored T d b \<and> getKey (declarationOf b) = getKey (declarationOf a)
                    \<and> covers (indexes a) (indexes b)}"
    using dependencies_objects [OF assms] by blast
  let ?S = "map (\<lambda>d. length (indexes (ob d)) < length (indexes a)) R"
  have "getArrayElementParents T e = Inr (map (\<lambda>_. e) (filter id ?S))"
    using map_res_objects [OF d, where g = "\<lambda>c o'. Inr (length (indexes o') < length (indexes a))"]
    by (simp add: getArrayElementParents_def R stored_deref [OF assms(2)] map_res_total)
  moreover have "set (map (\<lambda>_. e) (filter id ?S)) =
      (if \<exists>d \<in> set R. length (indexes (ob d)) < length (indexes a) then {e} else {})"
    by auto
  moreover have "(\<exists>d \<in> set R. length (indexes (ob d)) < length (indexes a)) \<longleftrightarrow>
      (\<exists>d b. stored T d b \<and> getKey (declarationOf b) = getKey (declarationOf a)
                     \<and> covers (indexes a) (indexes b) \<and> length (indexes b) < length (indexes a))"
    using s stored_unique [of T] by (fastforce simp: sR)
  ultimately show ?thesis by simp
qed

lemma parents_stored:
  assumes "table_ok T" and "stored T e a" and "\<forall>i \<in> set (indexes a). i \<ge> -1"
  shows "\<exists>R. getArrayElementParents T e = Inr R \<and> set R \<subseteq> {e}"
  using parents_stored_full [OF assms] by (auto split: if_splits)

text \<open>
  \<open>getArrayElementParents\<close> never returns a parent: its result holds \<open>elem\<close> itself, once for each
  recorded entry above it, and nothing when there is none.
\<close>

lemma getArrayElementParents_correct:
  assumes "table_ok T" and "stored T e a" and "\<forall>i \<in> set (indexes a). i \<ge> -1"
  shows "\<exists>R. getArrayElementParents T e = Inr R
     \<and> set R = (if \<exists>d b. stored T d b \<and> getKey (declarationOf b) = getKey (declarationOf a)
                     \<and> covers (indexes a) (indexes b) \<and> length (indexes b) < length (indexes a)
                then {e} else {})"
  using assms by (rule parents_stored_full)

section \<open>Two accesses to one array\<close>

lemma matches_common: "matches p r \<Longrightarrow> matches q r \<Longrightarrow> indexesMatch p q"
  by (fastforce simp: matches_def indexesMatch_iff list_all2_conv_all_nth)

lemma matches_common_one:
  assumes "length p = 1" and "length q = 1"
  shows "indexesMatch p q \<longleftrightarrow> (matches p p \<and> matches q p) \<or> (matches p q \<and> matches q q)"
  using assms by (auto simp: indexesMatch_iff matches_def length_Suc_conv)

text \<open>
  C16: for arrays with one index, the test the dependence analysis uses is exact: two recorded
  elements share a child if and only if their indexes may be equal.
\<close>

theorem one_index_conflicts_exact:
  assumes "table_ok T" and "stored T e a" and "stored T f b"
    and "getKey (declarationOf a) = getKey (declarationOf b)"
    and "length (indexes a) = 1" and "length (indexes b) = 1"
    and "\<forall>i \<in> set (indexes a) \<union> set (indexes b). i \<ge> -1"
  shows "\<exists>R S. getArrayElementChildren T e = Inr R \<and> getArrayElementChildren T f = Inr S
     \<and> (set R \<inter> set S \<noteq> {} \<longleftrightarrow> indexesMatch (indexes a) (indexes b))"
proof -
  have ge: "\<forall>i \<in> set (indexes a). i \<ge> -1" "\<forall>i \<in> set (indexes b). i \<ge> -1" using assms(7) by auto
  obtain R S where R: "getArrayElementChildren T e = Inr R"
    "set R = {d. \<exists>c. stored T d c \<and> getKey (declarationOf c) = getKey (declarationOf a)
                  \<and> matches (indexes a) (indexes c)}"
    and S: "getArrayElementChildren T f = Inr S"
    "set S = {d. \<exists>c. stored T d c \<and> getKey (declarationOf c) = getKey (declarationOf b)
                  \<and> matches (indexes b) (indexes c)}"
    using children_stored [OF assms(1,2) ge(1)] children_stored [OF assms(1,3) ge(2)] by blast
  have "indexesMatch (indexes a) (indexes b)" if d: "d \<in> set R" "d \<in> set S" for d
  proof -
    obtain c where c: "stored T d c" "matches (indexes a) (indexes c)"
      using d(1) unfolding R(2) by blast
    obtain c' where c': "stored T d c'" "matches (indexes b) (indexes c')"
      using d(2) unfolding S(2) by blast
    have "c' = c" using stored_unique [OF c'(1) c(1)] .
    then show ?thesis using matches_common [OF c(2)] c'(2) by simp
  qed
  moreover have "e \<in> set R \<inter> set S \<or> f \<in> set R \<inter> set S" if "indexesMatch (indexes a) (indexes b)"
    unfolding R(2) S(2) using that matches_common_one [OF assms(5,6)] assms(2-4) by auto
  ultimately have "set R \<inter> set S \<noteq> {} \<longleftrightarrow> indexesMatch (indexes a) (indexes b)" by blast
  with R(1) S(1) show ?thesis by simp
qed

definition example_array :: "unit vardecl" where
  "example_array = \<lparr>vd_canonical = 1, vd_name = ''tab'', vd_type = (), vd_loc = \<lparr>loc_offset = 0, loc_file = [], loc_system = False\<rparr>\<rparr>"


text \<open>The properties on the array \<open>v3\<close> of the example table, with \<open>v3[0]\<close> and \<open>v3[i]\<close> recorded.\<close>

definition ex_object :: "addr \<Rightarrow> unit aliasArg" where
  "ex_object e = the (map_of (heap ex_table) e)"

lemma stored_code:
  "stored T e b \<longleftrightarrow> map_of (heap T) e = Some b
     \<and> (case struct_at (tmap T) (getKey (declarationOf b)) (indexes b) of
          None \<Rightarrow> False | Some s \<Rightarrow> e \<in> set (getAllAlias s))"
  by (auto simp: stored_def split: option.splits)

lemma ex_stored:
  "stored ex_table 4 (ex_object 4)" "stored ex_table 5 (ex_object 5)"
  "indexes (ex_object 4) = [0]" "indexes (ex_object 5) = [-1]"
  "getKey (declarationOf (ex_object 4)) = getKey (declarationOf (ex_object 5))"
  unfolding stored_code by code_simp+

lemma getArrayElementChildren_witness:
  "\<exists>R. getArrayElementChildren ex_table 5 = Inr R \<and> 4 \<in> set R"
proof -
  have "\<forall>i \<in> set (indexes (ex_object 5)). i \<ge> -1" by (simp add: ex_stored)
  from getArrayElementChildren_correct [OF table_inv_parts(1) [OF ex_table_inv] ex_stored(2) this]
  obtain R where R: "getArrayElementChildren ex_table 5 = Inr R"
    and set_R: "set R = {d. \<exists>b. stored ex_table d b
      \<and> getKey (declarationOf b) = getKey (declarationOf (ex_object 5)) \<and> matches (indexes (ex_object 5)) (indexes b)}"
    by blast
  have "4 \<in> set R"
    unfolding set_R using ex_stored by (auto simp: matches_def intro!: exI [of _ "ex_object 4"])
  with R show ?thesis by blast
qed

lemma getArrayElementParents_witness:
  "\<exists>R. getArrayElementParents ex_table 4 = Inr R \<and> set R \<subseteq> {4}"
proof -
  have "\<forall>i \<in> set (indexes (ex_object 4)). i \<ge> -1" by (simp add: ex_stored)
  from getArrayElementParents_correct [OF table_inv_parts(1) [OF ex_table_inv] ex_stored(1) this]
  show ?thesis by (auto split: if_splits)
qed

lemma one_index_conflicts_exact_witness:
  "\<exists>R S. getArrayElementChildren ex_table 4 = Inr R \<and> getArrayElementChildren ex_table 5 = Inr S
     \<and> (set R \<inter> set S \<noteq> {} \<longleftrightarrow> indexesMatch [0] [-1])"
  using one_index_conflicts_exact [OF table_inv_parts(1) [OF ex_table_inv] ex_stored(1,2,5)]
  by (simp add: ex_stored)

end
