(* ===== verification/Graph_Node.thy ===== *)
theory Graph_Node
  imports Alias_Arrays
begin

text \<open>
  Instructions and nodes of the task graph (\<open>NodeDependency.hpp\<close>, \<open>Instruction.hpp\<close>,
  \<open>Node.hpp\<close>, \<open>Node.cpp\<close>). A \<open>std::shared_ptr<Node>\<close> is the identifier of the node, a key of the
  node heap; a pointer to an instruction is the instruction itself. The map \<open>next\<close> of a node sends
  a successor to the aliases of the link, in the order of their identifiers.
\<close>

record NodeDependency =
  isRead :: bool
  isWrite :: bool

definition NodeDependency_plus :: "NodeDependency \<Rightarrow> NodeDependency \<Rightarrow> NodeDependency" where
  "NodeDependency_plus l r = \<lparr>isRead = isRead l \<or> isRead r, isWrite = isWrite l \<or> isWrite r\<rparr>"

type_synonym dependencies = "(addr \<times> NodeDependency) list"

datatype 't instruction =
  Instruction
    (instr_stmt: "'t stmt option")
    (instructionString: string)
    (complexInstruction: bool)
    (noFusion: bool)
    (scopedInstructionsNumber: nat)
    (instr_dependencies: dependencies)
    (scopedInstructions: "'t instruction list")
    (curAliases: "(addr \<times> addr) list")

text \<open>The constructor ignores its last argument.\<close>

definition Instruction_new :: "'t stmt option \<Rightarrow> string \<Rightarrow> bool \<Rightarrow> nat \<Rightarrow> 't instruction" where
  "Instruction_new instr instrString isComplex scopedInstrNumber =
     Instruction instr instrString isComplex False 0 [] [] []"

record 't node =
  node_graphId :: nat
  isLooped :: bool
  next_map :: "(nat \<times> dependencies) list"
  prev_set :: "nat list"
  subgraphs :: "nat list"
  node_instruction :: string
  instructionPtr :: "'t instruction list"
  node_dependencies :: dependencies
  inOutDep :: "addr list"
  inDep :: "addr list"

type_synonym 't nodes = "(nat \<times> 't node) list"

definition deref_node :: "'t nodes \<Rightarrow> nat \<Rightarrow> 't node res" where
  "deref_node h n = (case map_of h n of None \<Rightarrow> Inl NullDeref | Some nd \<Rightarrow> Inr nd)"

definition modify_node :: "nat \<Rightarrow> ('t node \<Rightarrow> 't node) \<Rightarrow> 't nodes \<Rightarrow> 't nodes res" where
  "modify_node n f h = bind_res (deref_node h n) (\<lambda>nd. Inr (aput n (f nd) h))"

lemma modify_node_Inr:
  "modify_node n f h = Inr h' \<longleftrightarrow> (\<exists>nd. map_of h n = Some nd \<and> h' = aput n (f nd) h)"
  by (auto simp: modify_node_def deref_node_def split: option.splits)

text \<open>The node \<open>InstructionToGraph\<close> makes for an instruction.\<close>

definition node_new :: "nat \<Rightarrow> bool \<Rightarrow> 't instruction \<Rightarrow> 't node" where
  "node_new gid loop ins =
     \<lparr>node_graphId = gid, isLooped = loop, next_map = [], prev_set = [], subgraphs = [],
      node_instruction = instructionString ins, instructionPtr = [ins],
      node_dependencies = fold (\<lambda>(d, dep). ains d dep) (instr_dependencies ins) [],
      inOutDep = [], inDep = []\<rparr>"

section \<open>Links\<close>

text \<open>The row of the successor after the link, and whether the alias is new in it.\<close>

definition addLink_row :: "bool \<Rightarrow> bool \<Rightarrow> addr \<Rightarrow> dependencies \<Rightarrow> dependencies" where
  "addLink_row r w arg row =
     (case map_of row arg of
        None \<Rightarrow> oput arg \<lparr>isRead = r, isWrite = w\<rparr> row
      | Some d \<Rightarrow> oput arg \<lparr>isRead = isRead d \<or> r, isWrite = isWrite d \<or> w\<rparr> row)"

definition addLink :: "nat \<Rightarrow> nat \<Rightarrow> bool \<Rightarrow> bool \<Rightarrow> addr \<Rightarrow> 't nodes \<Rightarrow> 't nodes res" where
  "addLink curN n r w arg h =
     (if arg = null then Inr h
      else bind_res (deref_node h curN) (\<lambda>cur.
        (let next0 = (case map_of (next_map cur) n of
                        None \<Rightarrow> aput n [] (next_map cur) | Some _ \<Rightarrow> next_map cur);
             row = (case map_of next0 n of None \<Rightarrow> [] | Some row \<Rightarrow> row);
             h1 = aput curN (cur\<lparr>next_map := aput n (addLink_row r w arg row) next0\<rparr>) h in
         if map_of row arg = None
         then modify_node n (\<lambda>nd. nd\<lparr>prev_set := sins curN (prev_set nd)\<rparr>) h1
         else Inr h1)))"

section \<open>The clauses of a node\<close>

text \<open>
  The keys of the dependencies are entries of the alias table: \<open>handleInstructionDeps\<close> fails on
  any other key.
\<close>

definition idx :: "'t heap \<Rightarrow> addr \<Rightarrow> int list" where
  "idx ah a = (case map_of ah a of None \<Rightarrow> [] | Some ob \<Rightarrow> indexes ob)"

text \<open>
  The test of both loops: the alias itself, or, for an element of an array, any alias with
  matching indexes.
\<close>

definition touches :: "'t heap \<Rightarrow> addr \<Rightarrow> addr list \<Rightarrow> bool" where
  "touches ah d keys \<longleftrightarrow>
     d \<in> set keys \<or> (length (idx ah d) > 0 \<and> (\<exists>k \<in> set keys. indexesMatch (idx ah k) (idx ah d)))"

fun anyNextTouches :: "'t heap \<Rightarrow> addr \<Rightarrow> (nat \<times> dependencies) list \<Rightarrow> bool" where
  "anyNextTouches ah d [] = False"
| "anyNextTouches ah d ((n, row) # rest) =
     (if touches ah d (map fst row) then True else anyNextTouches ah d rest)"

fun anyPrevTouches :: "'t heap \<Rightarrow> 't nodes \<Rightarrow> addr \<Rightarrow> nat list \<Rightarrow> bool res" where
  "anyPrevTouches ah h d [] = Inr False"
| "anyPrevTouches ah h d (p # ps) =
     bind_res (deref_node h p) (\<lambda>nd.
       if touches ah d (map fst (node_dependencies nd)) then Inr True else anyPrevTouches ah h d ps)"

fun computeInOutDep_loop :: "'t heap \<Rightarrow> 't nodes \<Rightarrow> 't node \<Rightarrow> dependencies \<Rightarrow> addr list \<Rightarrow> addr list res" where
  "computeInOutDep_loop ah h nd [] acc = Inr acc"
| "computeInOutDep_loop ah h nd ((d, dep) # deps) acc =
     (if \<not> isWrite dep then computeInOutDep_loop ah h nd deps acc
      else if isLooped nd \<or> anyNextTouches ah d (next_map nd)
      then computeInOutDep_loop ah h nd deps (oins d acc)
      else bind_res (anyPrevTouches ah h d (prev_set nd)) (\<lambda>isInOut.
             computeInOutDep_loop ah h nd deps (if isInOut then oins d acc else acc)))"

definition computeInOutDep :: "'t heap \<Rightarrow> nat \<Rightarrow> 't nodes \<Rightarrow> 't nodes res" where
  "computeInOutDep ah n h =
     bind_res (deref_node h n) (\<lambda>nd.
     bind_res (computeInOutDep_loop ah h nd (node_dependencies nd) (inOutDep nd)) (\<lambda>acc.
       Inr (aput n (nd\<lparr>inOutDep := acc\<rparr>) h)))"

fun computeInDep_loop :: "'t heap \<Rightarrow> 't nodes \<Rightarrow> 't node \<Rightarrow> dependencies \<Rightarrow> addr list \<Rightarrow> addr list res" where
  "computeInDep_loop ah h nd [] acc = Inr acc"
| "computeInDep_loop ah h nd ((d, dep) # deps) acc =
     bind_res (anyPrevTouches ah h d (prev_set nd)) (\<lambda>isIn.
       computeInDep_loop ah h nd deps
         (if isIn \<and> d \<notin> set (inOutDep nd) then oins d acc else acc))"

definition computeInDep :: "'t heap \<Rightarrow> nat \<Rightarrow> 't nodes \<Rightarrow> 't nodes res" where
  "computeInDep ah n h =
     bind_res (deref_node h n) (\<lambda>nd.
     bind_res (computeInDep_loop ah h nd (node_dependencies nd) (inDep nd)) (\<lambda>acc.
       Inr (aput n (nd\<lparr>inDep := acc\<rparr>) h)))"

definition computeInOutInDep :: "'t heap \<Rightarrow> nat \<Rightarrow> 't nodes \<Rightarrow> 't nodes res" where
  "computeInOutInDep ah n h = bind_res (computeInOutDep ah n h) (computeInDep ah n)"

section \<open>Properties of links\<close>

definition succ_of :: "'t nodes \<Rightarrow> nat \<Rightarrow> nat list" where
  "succ_of h n = (case map_of h n of None \<Rightarrow> [] | Some nd \<Rightarrow> map fst (next_map nd))"

definition pred_of :: "'t nodes \<Rightarrow> nat \<Rightarrow> nat list" where
  "pred_of h n = (case map_of h n of None \<Rightarrow> [] | Some nd \<Rightarrow> prev_set nd)"

definition row_of :: "'t nodes \<Rightarrow> nat \<Rightarrow> nat \<Rightarrow> dependencies" where
  "row_of h x y = (case map_of h x of None \<Rightarrow> []
     | Some nd \<Rightarrow> (case map_of (next_map nd) y of None \<Rightarrow> [] | Some row \<Rightarrow> row))"

abbreviation edges :: "'t nodes \<Rightarrow> (nat \<times> nat) set" where
  "edges h \<equiv> edges_of (succ_of h)"

text \<open>
  The two directions of the links agree, every link carries an alias, and its aliases are in
  the order of their identifiers.
\<close>

definition graph_inv :: "'t nodes \<Rightarrow> bool" where
  "graph_inv h \<longleftrightarrow>
     (\<forall>x y. y \<in> set (succ_of h x) \<longleftrightarrow> x \<in> set (pred_of h y))
     \<and> (\<forall>x. distinct (succ_of h x) \<and> distinct (pred_of h x))
     \<and> (\<forall>x y. y \<in> set (succ_of h x) \<longrightarrow> row_of h x y \<noteq> [])
     \<and> (\<forall>x y. sorted_wrt (<) (map fst (row_of h x y)))"

lemma addLink_row_map:
  "sorted_wrt (<) (map fst row) \<Longrightarrow> map_of (addLink_row r w arg row) = (map_of row)(arg \<mapsto>
     (case map_of row arg of None \<Rightarrow> \<lparr>isRead = r, isWrite = w\<rparr>
      | Some d \<Rightarrow> \<lparr>isRead = isRead d \<or> r, isWrite = isWrite d \<or> w\<rparr>))"
  by (auto simp: addLink_row_def map_of_oput split: option.splits)

lemma addLink_row_sorted:
  "sorted_wrt (<) (map fst row) \<Longrightarrow> sorted_wrt (<) (map fst (addLink_row r w arg row))"
  by (auto simp: addLink_row_def sorted_oput split: option.splits)

lemma oput_not_Nil [simp]: "oput k v m \<noteq> []"
  by (induction k v m rule: oput.induct) auto

lemma addLink_row_not_Nil [simp]: "addLink_row r w arg row \<noteq> []"
  by (auto simp: addLink_row_def split: option.splits)

lemma aput_id: "map_of m k = Some v \<Longrightarrow> aput k v m = m"
  by (induction k v m rule: aput.induct) (auto split: if_splits)

lemma succ_of_aput: "succ_of (aput n nd h) m = (if m = n then map fst (next_map nd) else succ_of h m)"
  by (simp add: succ_of_def)

lemma pred_of_aput: "pred_of (aput n nd h) m = (if m = n then prev_set nd else pred_of h m)"
  by (simp add: pred_of_def)

lemma row_of_aput:
  "row_of (aput n nd h) m y =
     (if m = n then (case map_of (next_map nd) y of None \<Rightarrow> [] | Some row \<Rightarrow> row) else row_of h m y)"
  by (simp add: row_of_def)

lemmas [edge_simps] = succ_of_aput pred_of_aput row_of_aput

text \<open>The list of links after a link to \<open>y\<close>, and the heap after it.\<close>

definition link_next :: "nat \<Rightarrow> bool \<Rightarrow> bool \<Rightarrow> addr \<Rightarrow> dependencies \<Rightarrow> (nat \<times> dependencies) list \<Rightarrow>
    (nat \<times> dependencies) list" where
  "link_next y r w arg row nm =
     aput y (addLink_row r w arg row) (case map_of nm y of None \<Rightarrow> aput y [] nm | Some _ \<Rightarrow> nm)"

lemma link_next_map [simp]: "map_of (link_next y r w arg row nm) = (map_of nm)(y \<mapsto> addLink_row r w arg row)"
  by (auto simp: link_next_def split: option.splits)

lemma link_next_dom [simp]: "fst ` set (link_next y r w arg row nm) = insert y (fst ` set nm)"
  by (auto simp: link_next_def split: option.splits dest: map_of_in_dom)

lemma link_next_distinct [simp]: "distinct (map fst nm) \<Longrightarrow> distinct (map fst (link_next y r w arg row nm))"
  by (auto simp: link_next_def split: option.splits)

lemma addLink_heap:
  assumes "graph_inv h" and "arg \<noteq> null" and "x \<noteq> y"
    and "map_of h x = Some cur" and "map_of h y = Some nd"
  shows "addLink x y r w arg h = Inr (aput y (nd\<lparr>prev_set := sins x (prev_set nd)\<rparr>)
     (aput x (cur\<lparr>next_map := link_next y r w arg (row_of h x y) (next_map cur)\<rparr>) h))"
proof -
  have row: "row_of h x y = (case map_of (next_map cur) y of None \<Rightarrow> [] | Some row \<Rightarrow> row)"
    using assms(4) by (simp add: row_of_def)
  show ?thesis
  proof (cases "map_of (row_of h x y) arg")
    case None
    with assms row show ?thesis
      by (cases "map_of (next_map cur) y")
        (auto simp: addLink_def deref_node_def modify_node_def Let_def link_next_def)
  next
    case (Some d)
    then have ne: "row_of h x y \<noteq> []" by auto
    then have y: "map_of (next_map cur) y = Some (row_of h x y)" using row by (auto split: option.splits)
    then have "y \<in> set (succ_of h x)" using assms(4) by (force simp: succ_of_def dest: map_of_SomeD)
    then have "x \<in> set (prev_set nd)" using assms(1,5) by (auto simp: graph_inv_def pred_of_def)
    then have "nd\<lparr>prev_set := sins x (prev_set nd)\<rparr> = nd" by (simp add: sins_def)
    with assms(2-5) Some y show ?thesis
      by (simp add: addLink_def deref_node_def Let_def link_next_def aput_id)
  qed
qed

text \<open>The part of a node that links do not change.\<close>

definition node_core :: "'t node \<Rightarrow> 't node" where
  "node_core nd = nd\<lparr>next_map := [], prev_set := []\<rparr>"

lemma node_core_updates [simp]:
  "node_core (nd\<lparr>next_map := x\<rparr>) = node_core nd"
  "node_core (nd\<lparr>prev_set := p\<rparr>) = node_core nd"
  by (simp_all add: node_core_def)

lemma node_core_fields:
  assumes "node_core a = node_core b"
  shows "node_dependencies a = node_dependencies b" "isLooped a = isLooped b"
    "node_graphId a = node_graphId b" "instructionPtr a = instructionPtr b"
    "subgraphs a = subgraphs b" "inOutDep a = inOutDep b" "inDep a = inDep b"
  using assms by (cases a; cases b; simp add: node_core_def)+

definition same_nodes :: "'t nodes \<Rightarrow> 't nodes \<Rightarrow> bool" where
  "same_nodes h h' \<longleftrightarrow> (\<forall>n. map_option node_core (map_of h' n) = map_option node_core (map_of h n))"

lemma same_nodes_refl [simp]: "same_nodes h h"
  by (simp add: same_nodes_def)

lemma same_nodes_trans: "same_nodes h h' \<Longrightarrow> same_nodes h' h'' \<Longrightarrow> same_nodes h h''"
  by (simp add: same_nodes_def)

text \<open>A link between two nodes of the heap succeeds, and adds exactly that edge.\<close>

lemma addLink_effect:
  assumes "graph_inv h" and "arg \<noteq> null" and "x \<noteq> y"
    and "x \<in> dom (map_of h)" and "y \<in> dom (map_of h)"
  shows "\<exists>h'. addLink x y r w arg h = Inr h' \<and> graph_inv h' \<and> dom (map_of h') = dom (map_of h)
     \<and> edges h' = insert (x, y) (edges h)
     \<and> (\<forall>u v. row_of h' u v = (if (u, v) = (x, y) then addLink_row r w arg (row_of h x y) else row_of h u v))
     \<and> same_nodes h h'"
proof -
  obtain cur nd where cur: "map_of h x = Some cur" and nd: "map_of h y = Some nd"
    using assms(4,5) by auto
  let ?nm = "link_next y r w arg (row_of h x y) (next_map cur)"
  let ?h = "aput y (nd\<lparr>prev_set := sins x (prev_set nd)\<rparr>) (aput x (cur\<lparr>next_map := ?nm\<rparr>) h)"
  note r = addLink_heap [OF assms(1-3) cur nd]
  have succ: "succ_of ?h u = (if u = x then map fst ?nm else succ_of h u)" for u
    using assms(3) nd by (auto simp: edge_simps succ_of_def)
  have pred: "pred_of ?h u = (if u = y then sins x (pred_of h y) else pred_of h u)" for u
    using assms(3) cur nd by (auto simp: edge_simps pred_of_def)
  have rows: "row_of ?h u v =
      (if (u, v) = (x, y) then addLink_row r w arg (row_of h x y) else row_of h u v)" for u v
    using assms(3) cur nd by (auto simp: edge_simps row_of_def)
  have set_succ: "set (succ_of ?h u) = (if u = x then insert y (set (succ_of h x)) else set (succ_of h u))" for u
    using succ cur by (simp add: succ_of_def)
  have "graph_inv ?h"
    unfolding graph_inv_def
  proof (intro conjI allI impI)
    fix u v
    show "v \<in> set (succ_of ?h u) \<longleftrightarrow> u \<in> set (pred_of ?h v)"
      using assms(1) by (auto simp: set_succ pred graph_inv_def)
    show "distinct (succ_of ?h u)"
    proof -
      have "distinct (succ_of h u)" "distinct (succ_of h x)"
        using assms(1) unfolding graph_inv_def by blast+
      then show ?thesis using cur unfolding succ by (simp add: succ_of_def)
    qed
    show "distinct (pred_of ?h u)" using assms(1) by (auto simp: pred graph_inv_def)
    show "row_of ?h u v \<noteq> []" if "v \<in> set (succ_of ?h u)"
      using that assms(1) unfolding rows by (auto simp: set_succ graph_inv_def split: if_splits)
    show "sorted_wrt (<) (map fst (row_of ?h u v))"
      using assms(1) unfolding rows by (auto simp: graph_inv_def intro: addLink_row_sorted)
  qed
  moreover have "edges ?h = insert (x, y) (edges h)"
    using set_succ by (auto split: if_splits)
  moreover have "dom (map_of ?h) = dom (map_of h)" using cur nd by auto
  moreover have "same_nodes h ?h" using cur nd by (auto simp: same_nodes_def)
  ultimately show ?thesis using r rows by blast
qed


section \<open>Properties of the clauses\<close>

definition touches_next :: "'t heap \<Rightarrow> 't node \<Rightarrow> addr \<Rightarrow> bool" where
  "touches_next ah nd d \<longleftrightarrow> (\<exists>(m, row) \<in> set (next_map nd). touches ah d (map fst row))"

definition touches_prev :: "'t heap \<Rightarrow> 't nodes \<Rightarrow> 't node \<Rightarrow> addr \<Rightarrow> bool" where
  "touches_prev ah h nd d \<longleftrightarrow> (\<exists>p \<in> set (prev_set nd). \<exists>pn. map_of h p = Some pn
     \<and> touches ah d (map fst (node_dependencies pn)))"

lemma anyNextTouches_iff: "anyNextTouches ah d nm \<longleftrightarrow> (\<exists>(m, row) \<in> set nm. touches ah d (map fst row))"
  by (induction nm) auto

lemma anyPrevTouches_iff:
  assumes "set ps \<subseteq> dom (map_of h)"
  shows "anyPrevTouches ah h d ps = Inr (\<exists>p \<in> set ps. \<exists>pn. map_of h p = Some pn
     \<and> touches ah d (map fst (node_dependencies pn)))"
  using assms by (induction ps) (auto simp: deref_node_def)

text \<open>The writes that are ordered with a neighbour, or with another iteration of the loop.\<close>

definition inOut_spec :: "'t heap \<Rightarrow> 't nodes \<Rightarrow> 't node \<Rightarrow> addr set" where
  "inOut_spec ah h nd = {d. \<exists>dep. (d, dep) \<in> set (node_dependencies nd) \<and> isWrite dep
     \<and> (isLooped nd \<or> touches_next ah nd d \<or> touches_prev ah h nd d)}"

definition in_spec :: "'t heap \<Rightarrow> 't nodes \<Rightarrow> 't node \<Rightarrow> addr set" where
  "in_spec ah h nd = {d. d \<in> fst ` set (node_dependencies nd) \<and> touches_prev ah h nd d}"

lemma computeInOutDep_loop_set:
  assumes "set (prev_set nd) \<subseteq> dom (map_of h)"
  shows "\<exists>acc'. computeInOutDep_loop ah h nd deps acc = Inr acc' \<and> set acc' = set acc \<union>
     {d. \<exists>dep. (d, dep) \<in> set deps \<and> isWrite dep
        \<and> (isLooped nd \<or> touches_next ah nd d \<or> touches_prev ah h nd d)}
     \<and> (sorted_wrt (<) acc \<longrightarrow> sorted_wrt (<) acc')"
proof (induction deps arbitrary: acc)
  case Nil
  then show ?case by simp
next
  case (Cons x deps)
  obtain d dep where x: "x = (d, dep)" by fastforce
  note prevs = anyPrevTouches_iff [OF assms, of ah d, folded touches_prev_def]
  let ?t = "isWrite dep \<and> (isLooped nd \<or> touches_next ah nd d \<or> touches_prev ah h nd d)"
  have step: "computeInOutDep_loop ah h nd (x # deps) acc =
      computeInOutDep_loop ah h nd deps (if ?t then oins d acc else acc)"
    by (simp add: x prevs anyNextTouches_iff touches_next_def)
  from Cons.IH [of "if ?t then oins d acc else acc"] obtain acc' where
    "computeInOutDep_loop ah h nd deps (if ?t then oins d acc else acc) = Inr acc'"
    and "set acc' = set (if ?t then oins d acc else acc) \<union> {d. \<exists>dep. (d, dep) \<in> set deps \<and> isWrite dep
        \<and> (isLooped nd \<or> touches_next ah nd d \<or> touches_prev ah h nd d)}"
    and "sorted_wrt (<) (if ?t then oins d acc else acc) \<longrightarrow> sorted_wrt (<) acc'"
    by blast
  then show ?case unfolding step
    by (intro exI [of _ acc'] conjI) (auto simp: x sorted_oins split: if_splits)
qed

lemma computeInDep_loop_set:
  assumes "set (prev_set nd) \<subseteq> dom (map_of h)"
  shows "\<exists>acc'. computeInDep_loop ah h nd deps acc = Inr acc' \<and> set acc' = set acc \<union>
     {d. d \<in> fst ` set deps \<and> touches_prev ah h nd d \<and> d \<notin> set (inOutDep nd)}
     \<and> (sorted_wrt (<) acc \<longrightarrow> sorted_wrt (<) acc')"
proof (induction deps arbitrary: acc)
  case Nil
  then show ?case by simp
next
  case (Cons x deps)
  obtain d dep where x: "x = (d, dep)" by fastforce
  note prevs = anyPrevTouches_iff [OF assms, of ah d, folded touches_prev_def]
  let ?t = "touches_prev ah h nd d \<and> d \<notin> set (inOutDep nd)"
  have step: "computeInDep_loop ah h nd (x # deps) acc =
      computeInDep_loop ah h nd deps (if ?t then oins d acc else acc)"
    by (simp add: x prevs)
  from Cons.IH [of "if ?t then oins d acc else acc"] obtain acc' where
    "computeInDep_loop ah h nd deps (if ?t then oins d acc else acc) = Inr acc'"
    and "set acc' = set (if ?t then oins d acc else acc) \<union>
        {d. d \<in> fst ` set deps \<and> touches_prev ah h nd d \<and> d \<notin> set (inOutDep nd)}"
    and "sorted_wrt (<) (if ?t then oins d acc else acc) \<longrightarrow> sorted_wrt (<) acc'"
    by blast
  then show ?case unfolding step
    by (intro exI [of _ acc'] conjI) (auto simp: x sorted_oins split: if_splits)
qed

lemma touches_prev_aput:
  assumes "map_of h n = Some nd" and "n \<notin> set (prev_set nd)"
  shows "touches_prev ah (aput n nd' h) nd d \<longleftrightarrow> touches_prev ah h nd d"
  using assms by (auto simp: touches_prev_def)

text \<open>The clauses of a node whose clauses were not computed yet.\<close>

lemma computeInOutInDep_sets:
  assumes "map_of h n = Some nd" and "set (prev_set nd) \<subseteq> dom (map_of h)" and "n \<notin> set (prev_set nd)"
    and "inOutDep nd = []" and "inDep nd = []"
  shows "\<exists>io i. computeInOutInDep ah n h =
       Inr (aput n (nd\<lparr>inOutDep := io, inDep := i\<rparr>) (aput n (nd\<lparr>inOutDep := io\<rparr>) h))
     \<and> set io = inOut_spec ah h nd \<and> set i = in_spec ah h nd - inOut_spec ah h nd
     \<and> sorted_wrt (<) io \<and> sorted_wrt (<) i"
proof -
  obtain io where io: "computeInOutDep_loop ah h nd (node_dependencies nd) [] = Inr io"
    "set io = inOut_spec ah h nd" "sorted_wrt (<) io"
    using computeInOutDep_loop_set [OF assms(2), of ah "node_dependencies nd" "[]"]
    by (auto simp: inOut_spec_def)
  let ?nd = "nd\<lparr>inOutDep := io\<rparr>" and ?h = "aput n (nd\<lparr>inOutDep := io\<rparr>) h"
  have prev: "touches_prev ah ?h ?nd d = touches_prev ah h nd d" for d
    using touches_prev_aput [OF assms(1,3)] by (simp add: touches_prev_def)
  have "set (prev_set ?nd) \<subseteq> dom (map_of ?h)" using assms(2) by auto
  from computeInDep_loop_set [OF this, of ah "node_dependencies nd" "[]"] obtain i where
    i: "computeInDep_loop ah ?h ?nd (node_dependencies nd) [] = Inr i"
      "set i = {d. d \<in> fst ` set (node_dependencies nd) \<and> touches_prev ah ?h ?nd d \<and> d \<notin> set io}"
      "sorted_wrt (<) i"
    by auto
  have r: "computeInOutInDep ah n h = Inr (aput n (?nd\<lparr>inDep := i\<rparr>) ?h)"
    using assms(1,4,5) io(1) i(1)
    by (simp add: computeInOutInDep_def computeInOutDep_def computeInDep_def deref_node_def)
  have "set i = in_spec ah h nd - inOut_spec ah h nd"
    unfolding i(2) io(2) prev in_spec_def by blast
  with r io(2,3) i(3) show ?thesis by (intro exI [of _ io] exI [of _ i]) simp
qed



text \<open>
  A node without predecessors gets no \<open>in\<close> clause at all, and an entry it only reads is not in
  its \<open>inout\<close> clause. A later node that writes such an entry is therefore not ordered after it by
  the clauses, although the graph has the edge.
\<close>

lemma first_reader_has_no_clause:
  assumes "prev_set nd = []"
  shows "in_spec ah h nd = {} \<and>
     inOut_spec ah h nd \<inter> {d. \<forall>dep. (d, dep) \<in> set (node_dependencies nd) \<longrightarrow> \<not> isWrite dep} = {}"
  using assms by (auto simp: in_spec_def inOut_spec_def touches_prev_def)

section \<open>An example\<close>

text \<open>Two nodes: the first writes entry 1 of the example table, the second reads it.\<close>

definition ex_instr :: "bool \<Rightarrow> bool \<Rightarrow> addr \<Rightarrow> unit instruction" where
  "ex_instr r w d = Instruction None [] False False 0 [(d, \<lparr>isRead = r, isWrite = w\<rparr>)] [] []"

definition ex_nodes :: "unit nodes" where
  "ex_nodes = (case addLink 2 3 True False 2
      [(2, node_new 0 False (ex_instr False True 2)), (3, node_new 0 False (ex_instr True False 2))] of
     Inr h \<Rightarrow> h | Inl _ \<Rightarrow> [])"

lemma graph_inv_unlinked:
  assumes "\<forall>(n, nd) \<in> set h. next_map nd = [] \<and> prev_set nd = []"
  shows "graph_inv h"
proof -
  have "succ_of h n = [] \<and> pred_of h n = [] \<and> row_of h n m = []" for n m
    using assms by (auto simp: succ_of_def pred_of_def row_of_def dest!: map_of_SomeD split: option.splits)
  then show ?thesis by (simp add: graph_inv_def)
qed

lemma ex_nodes_inv: "graph_inv ex_nodes"
proof -
  let ?h = "[(2, node_new 0 False (ex_instr False True 2)), (3, node_new 0 False (ex_instr True False 2))]"
  have "graph_inv ?h" by (rule graph_inv_unlinked) (simp add: node_new_def)
  from addLink_effect [OF this, of 2 2 3 True False] show ?thesis
    by (auto simp: ex_nodes_def null_def)
qed

definition ex_node :: "nat \<Rightarrow> unit node" where
  "ex_node n = the (map_of ex_nodes n)"

lemma ex_nodes_facts:
  "map_of ex_nodes 2 = Some (ex_node 2)" "map_of ex_nodes 3 = Some (ex_node 3)"
  "next_map (ex_node 2) = [(3, [(2, \<lparr>isRead = True, isWrite = False\<rparr>)])]"
  "prev_set (ex_node 2) = []" "prev_set (ex_node 3) = [2]"
  "node_dependencies (ex_node 2) = [(2, \<lparr>isRead = False, isWrite = True\<rparr>)]"
  "node_dependencies (ex_node 3) = [(2, \<lparr>isRead = True, isWrite = False\<rparr>)]"
  "inOutDep (ex_node 3) = []" "inDep (ex_node 3) = []"
  by code_simp+



lemma first_reader_has_no_clause_witness:
  "in_spec (heap ex_table) ex_nodes (ex_node 2) = {}"
  using first_reader_has_no_clause [OF ex_nodes_facts(4)] by blast

end
