(* ===== verification/Dependence_Order.thy ===== *)
theory Dependence_Order
  imports Prelude
begin

text \<open>
  The abstract contract of the construction of a task graph: a tracker remembers, for each memory
  element, the last writer and the readers since then, and links every new access to those it
  conflicts with. It is specified here without any of the code's data structures; the theorems say
  that the transitive closure of the links orders every two conflicting accesses, and that no
  other accesses are linked. The locale states what an implementation owes to inherit them.
\<close>

type_synonym 'c access = "nat \<times> 'c set \<times> 'c set"

abbreviation acc_node :: "'c access \<Rightarrow> nat" where
  "acc_node a \<equiv> fst a"

abbreviation acc_reads :: "'c access \<Rightarrow> 'c set" where
  "acc_reads a \<equiv> fst (snd a)"

abbreviation acc_writes :: "'c access \<Rightarrow> 'c set" where
  "acc_writes a \<equiv> snd (snd a)"

text \<open>Two accesses conflict when one of them writes what the other one reads or writes.\<close>

definition conflict :: "'c access \<Rightarrow> 'c access \<Rightarrow> bool" where
  "conflict a b \<longleftrightarrow> acc_writes a \<inter> acc_reads b \<noteq> {} \<or> acc_reads a \<inter> acc_writes b \<noteq> {}
     \<or> acc_writes a \<inter> acc_writes b \<noteq> {}"

record 'c tracker =
  lastWrite :: "'c \<Rightarrow> nat option"
  readersOf :: "'c \<Rightarrow> nat set"
  depEdges :: "(nat \<times> nat) set"

definition track_edges :: "'c access \<Rightarrow> 'c tracker \<Rightarrow> (nat \<times> nat) set" where
  "track_edges a s = {(x, n). n = acc_node a \<and> x \<noteq> n \<and>
     ((\<exists>c \<in> acc_reads a. lastWrite s c = Some x)
      \<or> (\<exists>c \<in> acc_writes a. x \<in> readersOf s c)
      \<or> (\<exists>c \<in> acc_writes a. readersOf s c = {} \<and> lastWrite s c = Some x))}"

definition track :: "'c access \<Rightarrow> 'c tracker \<Rightarrow> 'c tracker" where
  "track a s =
     \<lparr>lastWrite = (\<lambda>c. if c \<in> acc_writes a then Some (acc_node a) else lastWrite s c),
      readersOf = (\<lambda>c. (if c \<in> acc_writes a then {} else readersOf s c)
                       \<union> (if c \<in> acc_reads a then {acc_node a} else {})),
      depEdges = depEdges s \<union> track_edges a s\<rparr>"

definition track_empty :: "(nat \<times> nat) set \<Rightarrow> 'c tracker" where
  "track_empty E = \<lparr>lastWrite = (\<lambda>_. None), readersOf = (\<lambda>_. {}), depEdges = E\<rparr>"

text \<open>What the tracker knows about the accesses it has seen.\<close>

definition tracked :: "'c access list \<Rightarrow> 'c tracker \<Rightarrow> bool" where
  "tracked H s \<longleftrightarrow>
     (\<forall>c. \<forall>a \<in> set H. c \<in> acc_writes a \<longrightarrow>
        (\<exists>w. lastWrite s c = Some w \<and> (acc_node a, w) \<in> (depEdges s)\<^sup>*))
     \<and> (\<forall>c. \<forall>a \<in> set H. c \<in> acc_reads a \<longrightarrow> acc_node a \<in> readersOf s c \<or>
        (\<exists>w. lastWrite s c = Some w \<and> (acc_node a, w) \<in> (depEdges s)\<^sup>*))
     \<and> (\<forall>c r w. r \<in> readersOf s c \<longrightarrow> lastWrite s c = Some w \<longrightarrow> (w, r) \<in> (depEdges s)\<^sup>*)
     \<and> (\<forall>c w. lastWrite s c = Some w \<longrightarrow> (\<exists>a \<in> set H. acc_node a = w \<and> c \<in> acc_writes a))
     \<and> (\<forall>c r. r \<in> readersOf s c \<longrightarrow> (\<exists>a \<in> set H. acc_node a = r \<and> c \<in> acc_reads a))
     \<and> sorted_wrt (\<lambda>a b. conflict a b \<longrightarrow> (acc_node a, acc_node b) \<in> (depEdges s)\<^sup>+) H"

lemma trackedD:
  assumes "tracked H s"
  shows tracked_write: "a \<in> set H \<Longrightarrow> c \<in> acc_writes a \<Longrightarrow>
      \<exists>w. lastWrite s c = Some w \<and> (acc_node a, w) \<in> (depEdges s)\<^sup>*"
    and tracked_read: "a \<in> set H \<Longrightarrow> c \<in> acc_reads a \<Longrightarrow> acc_node a \<in> readersOf s c \<or>
      (\<exists>w. lastWrite s c = Some w \<and> (acc_node a, w) \<in> (depEdges s)\<^sup>*)"
    and tracked_chain: "r \<in> readersOf s c \<Longrightarrow> lastWrite s c = Some w \<Longrightarrow> (w, r) \<in> (depEdges s)\<^sup>*"
    and tracked_lastWrite: "lastWrite s c = Some w \<Longrightarrow> \<exists>a \<in> set H. acc_node a = w \<and> c \<in> acc_writes a"
    and tracked_reader: "r \<in> readersOf s c \<Longrightarrow> \<exists>a \<in> set H. acc_node a = r \<and> c \<in> acc_reads a"
    and tracked_sorted: "sorted_wrt (\<lambda>a b. conflict a b \<longrightarrow> (acc_node a, acc_node b) \<in> (depEdges s)\<^sup>+) H"
  using assms unfolding tracked_def by auto

lemma tracked_empty: "tracked [] (track_empty E)"
  by (simp add: tracked_def track_empty_def)

lemma tracked_more_edges:
  assumes "tracked H s" and "lastWrite s' = lastWrite s" and "readersOf s' = readersOf s"
    and "depEdges s \<subseteq> depEdges s'"
  shows "tracked H s'"
proof -
  have star: "p \<in> (depEdges s)\<^sup>* \<Longrightarrow> p \<in> (depEdges s')\<^sup>*" for p
    using rtrancl_mono [OF assms(4)] by blast
  have plus: "p \<in> (depEdges s)\<^sup>+ \<Longrightarrow> p \<in> (depEdges s')\<^sup>+" for p
    using trancl_mono [OF _ assms(4)] by blast
  have "sorted_wrt (\<lambda>a b. conflict a b \<longrightarrow> (acc_node a, acc_node b) \<in> (depEdges s')\<^sup>+) H"
    by (rule sorted_wrt_mono_rel [of H "\<lambda>a b. conflict a b \<longrightarrow> (acc_node a, acc_node b) \<in> (depEdges s)\<^sup>+"])
      (use assms(1) plus in \<open>auto simp: tracked_def\<close>)
  with assms(1) show ?thesis
    unfolding tracked_def assms(2,3) using star by blast
qed

text \<open>A new access is linked, directly or not, from every earlier access it conflicts with.\<close>

lemma tracked_new_conflict:
  assumes "tracked H s" and "acc_node a \<notin> acc_node ` set H" and "b \<in> set H" and "conflict b a"
  shows "(acc_node b, acc_node a) \<in> (depEdges (track a s))\<^sup>+"
proof -
  let ?E = "depEdges s" and ?E' = "depEdges (track a s)" and ?n = "acc_node a"
  have sub: "?E \<subseteq> ?E'" by (auto simp: track_def)
  have star: "(x, y) \<in> ?E\<^sup>* \<Longrightarrow> (y, ?n) \<in> ?E' \<Longrightarrow> (x, ?n) \<in> ?E'\<^sup>+" for x y
    using rtrancl_mono [OF sub] by (metis rtrancl_into_trancl1 subsetD)
  have lastw: "x \<noteq> ?n" if "lastWrite s c = Some x" for c x
    using tracked_lastWrite [OF assms(1) that] assms(2) by (metis image_eqI)
  have rd: "x \<noteq> ?n" if "x \<in> readersOf s c" for c x
    using tracked_reader [OF assms(1) that] assms(2) by (metis image_eqI)
  have link_read: "(w, ?n) \<in> ?E'" if "c \<in> acc_reads a" "lastWrite s c = Some w" for c w
    using that lastw by (auto simp: track_def track_edges_def)
  have link_reader: "(r, ?n) \<in> ?E'" if "c \<in> acc_writes a" "r \<in> readersOf s c" for c r
    using that rd by (auto simp: track_def track_edges_def)
  have link_write: "(w, ?n) \<in> ?E'\<^sup>+" if c: "c \<in> acc_writes a" "lastWrite s c = Some w" for c w
  proof (cases "readersOf s c = {}")
    case True
    then have "(w, ?n) \<in> ?E'" using c lastw by (auto simp: track_def track_edges_def)
    then show ?thesis by blast
  next
    case False
    then obtain r where r: "r \<in> readersOf s c" by blast
    then have "(w, r) \<in> ?E\<^sup>*" using tracked_chain [OF assms(1)] c(2) by blast
    with link_reader [OF c(1) r] star show ?thesis by blast
  qed
  have via: "(x, ?n) \<in> ?E'\<^sup>+" if "(x, w) \<in> ?E\<^sup>*" "(w, ?n) \<in> ?E'\<^sup>+" for x w
    using that rtrancl_mono [OF sub] by (metis rtrancl_trancl_trancl subsetD)
  from assms(4) consider c where "c \<in> acc_writes b" "c \<in> acc_reads a"
    | c where "c \<in> acc_reads b" "c \<in> acc_writes a" | c where "c \<in> acc_writes b" "c \<in> acc_writes a"
    by (auto simp: conflict_def)
  then show ?thesis
  proof cases
    case 1
    then obtain w where "lastWrite s c = Some w" "(acc_node b, w) \<in> ?E\<^sup>*"
      using tracked_write [OF assms(1,3)] by blast
    with 1 link_read star show ?thesis by blast
  next
    case 2
    then consider "acc_node b \<in> readersOf s c"
      | w where "lastWrite s c = Some w" "(acc_node b, w) \<in> ?E\<^sup>*"
      using tracked_read [OF assms(1,3)] by blast
    then show ?thesis using 2 link_reader link_write via by cases blast+
  next
    case 3
    then obtain w where "lastWrite s c = Some w" "(acc_node b, w) \<in> ?E\<^sup>*"
      using tracked_write [OF assms(1,3)] by blast
    with 3 link_write via show ?thesis by blast
  qed
qed


lemma tracked_track:
  assumes "tracked H s" and "acc_node a \<notin> acc_node ` set H"
  shows "tracked (H @ [a]) (track a s)"
proof -
  let ?E = "depEdges s" and ?s = "track a s" and ?n = "acc_node a"
  have sub: "?E \<subseteq> depEdges ?s" by (auto simp: track_def)
  have star: "(x, y) \<in> ?E\<^sup>* \<Longrightarrow> (x, y) \<in> (depEdges ?s)\<^sup>*" for x y
    using rtrancl_mono [OF sub] by blast
  have new: "(acc_node b, ?n) \<in> (depEdges ?s)\<^sup>+" if "b \<in> set H" "conflict b a" for b
    using tracked_new_conflict [OF assms that] .
  have lw: "lastWrite ?s c = (if c \<in> acc_writes a then Some ?n else lastWrite s c)" for c
    by (simp add: track_def)
  have rd: "readersOf ?s c = (if c \<in> acc_writes a then {} else readersOf s c)
      \<union> (if c \<in> acc_reads a then {?n} else {})" for c
    by (simp add: track_def)
  show ?thesis
    unfolding tracked_def
  proof (intro conjI allI ballI impI)
    fix c b assume "b \<in> set (H @ [a])" "c \<in> acc_writes b"
    then consider "b = a" | "b \<in> set H" "c \<in> acc_writes a" | "b \<in> set H" "c \<notin> acc_writes a" by auto
    then show "\<exists>w. lastWrite ?s c = Some w \<and> (acc_node b, w) \<in> (depEdges ?s)\<^sup>*"
    proof cases
      case 1 then show ?thesis using \<open>c \<in> acc_writes b\<close> by (simp add: lw)
    next
      case 2
      then have "conflict b a" using \<open>c \<in> acc_writes b\<close> by (auto simp: conflict_def)
      with new [OF 2(1)] 2 show ?thesis by (auto simp: lw dest: trancl_into_rtrancl)
    next
      case 3
      then show ?thesis
        using tracked_write [OF assms(1) 3(1) \<open>c \<in> acc_writes b\<close>] star by (auto simp: lw)
    qed
  next
    fix c b assume b: "b \<in> set (H @ [a])" "c \<in> acc_reads b"
    then consider "b = a" | "b \<in> set H" "c \<in> acc_writes a" | "b \<in> set H" "c \<notin> acc_writes a" by auto
    then show "acc_node b \<in> readersOf ?s c \<or>
        (\<exists>w. lastWrite ?s c = Some w \<and> (acc_node b, w) \<in> (depEdges ?s)\<^sup>*)"
    proof cases
      case 1 then show ?thesis using b(2) by (simp add: rd)
    next
      case 2
      then have "conflict b a" using b(2) by (auto simp: conflict_def)
      with new [OF 2(1)] 2 show ?thesis by (auto simp: lw dest: trancl_into_rtrancl)
    next
      case 3
      then show ?thesis using tracked_read [OF assms(1) 3(1) b(2)] star by (auto simp: lw rd)
    qed
  next
    fix c r w assume r: "r \<in> readersOf ?s c" and w: "lastWrite ?s c = Some w"
    show "(w, r) \<in> (depEdges ?s)\<^sup>*"
    proof (cases "c \<in> acc_writes a")
      case True
      with r w show ?thesis by (auto simp: rd lw split: if_splits)
    next
      case False
      then consider "r \<in> readersOf s c" | "r = ?n" "c \<in> acc_reads a"
        using r by (auto simp: rd split: if_splits)
      then show ?thesis
      proof cases
        case 1
        then show ?thesis using False w tracked_chain [OF assms(1)] star by (simp add: lw)
      next
        case 2
        then have "(w, ?n) \<in> depEdges ?s \<or> w = ?n"
          using False w by (auto simp: lw track_def track_edges_def)
        with 2 show ?thesis by auto
      qed
    qed
  next
    fix c w assume "lastWrite ?s c = Some w"
    then show "\<exists>b \<in> set (H @ [a]). acc_node b = w \<and> c \<in> acc_writes b"
      using tracked_lastWrite [OF assms(1)] by (auto simp: lw split: if_splits)
  next
    fix c r assume "r \<in> readersOf ?s c"
    then show "\<exists>b \<in> set (H @ [a]). acc_node b = r \<and> c \<in> acc_reads b"
      using tracked_reader [OF assms(1)] by (auto simp: rd split: if_splits)
  next
    have "sorted_wrt (\<lambda>a b. conflict a b \<longrightarrow> (acc_node a, acc_node b) \<in> (depEdges ?s)\<^sup>+) H"
      by (rule sorted_wrt_mono_rel [OF _ tracked_sorted [OF assms(1)]])
        (use trancl_mono [OF _ sub] in blast)
    then show "sorted_wrt (\<lambda>a b. conflict a b \<longrightarrow> (acc_node a, acc_node b) \<in> (depEdges ?s)\<^sup>+) (H @ [a])"
      using new by (simp add: sorted_wrt_append)
  qed
qed

text \<open>Every link the tracker adds comes from an earlier access that conflicts with the new one.\<close>

lemma track_edges_conflict:
  assumes "tracked H s" and "(x, y) \<in> track_edges a s"
  shows "y = acc_node a \<and> (\<exists>b \<in> set H. acc_node b = x \<and> conflict b a)"
proof -
  from assms(2) have y: "y = acc_node a" and
    "(\<exists>c \<in> acc_reads a. lastWrite s c = Some x) \<or> (\<exists>c \<in> acc_writes a. x \<in> readersOf s c)
      \<or> (\<exists>c \<in> acc_writes a. lastWrite s c = Some x)"
    by (auto simp: track_edges_def)
  then obtain c b where "b \<in> set H" "acc_node b = x"
    "c \<in> acc_writes b \<and> c \<in> acc_reads a \<or> c \<in> acc_reads b \<and> c \<in> acc_writes a
      \<or> c \<in> acc_writes b \<and> c \<in> acc_writes a"
    using tracked_lastWrite [OF assms(1)] tracked_reader [OF assms(1)] by metis
  then show ?thesis using y by (auto simp: conflict_def)
qed

section \<open>What an implementation owes\<close>

text \<open>
  \<open>handle\<close> processes one access on the concrete state, \<open>abs\<close> reads the tracker off it. Between two
  accesses other links may be added (the ones inside a nested graph), which is \<open>grow\<close>.
\<close>

locale dependence_builder =
  fixes abs :: "'s \<Rightarrow> 'c tracker"
    and inv :: "'s \<Rightarrow> bool"
    and acc :: "'a \<Rightarrow> 'c access"
    and ok :: "'a \<Rightarrow> 's \<Rightarrow> bool"
    and handle :: "'a \<Rightarrow> 's \<Rightarrow> 's res"
  assumes handle_track: "inv s \<Longrightarrow> ok a s \<Longrightarrow> \<exists>s'. handle a s = Inr s' \<and> inv s' \<and> abs s' = track (acc a) (abs s)"
begin

lemma handle_tracked:
  assumes "inv s" and "ok a s" and "tracked H (abs s)" and "acc_node (acc a) \<notin> acc_node ` set H"
  shows "\<exists>s'. handle a s = Inr s' \<and> inv s' \<and> tracked (H @ [acc a]) (abs s')
     \<and> depEdges (abs s) \<subseteq> depEdges (abs s')"
  using handle_track [OF assms(1,2)] tracked_track [OF assms(3,4)] by (auto simp: track_def)

lemma grow_tracked:
  assumes "tracked H (abs s)" and "lastWrite (abs s') = lastWrite (abs s)"
    and "readersOf (abs s') = readersOf (abs s)" and "depEdges (abs s) \<subseteq> depEdges (abs s')"
  shows "tracked H (abs s')"
  using tracked_more_edges [OF assms] .

text \<open>Two conflicting accesses of the history are ordered by a path of links.\<close>

lemma conflict_ordered:
  assumes "tracked (H1 @ a # H2 @ b # H3) (abs s)" and "conflict a b"
  shows "(acc_node a, acc_node b) \<in> (depEdges (abs s))\<^sup>+"
  using tracked_sorted [OF assms(1)] assms(2) by (simp add: sorted_wrt_append)

end

end
