(* ===== verification/Graph_Build.thy ===== *)
theory Graph_Build
  imports Graph_Node Dependence_Order
begin

text \<open>
  The construction of the task graph (\<open>handleInstructionDeps\<close> and \<open>InstructionToGraph\<close> of
  \<open>Graph.cpp\<close>), its refinement to the tracker of \<open>Dependence_Order\<close>, and what follows for the graph.
\<close>

record 't build =
  bnodes :: "'t nodes"
  dataUsedInRead :: "(addr \<times> nat list) list"
  dataUsedInWrite :: "(addr \<times> nat) list"

text \<open>The three buffers; the node of an entry of the first two is always the current one.\<close>

record buffers =
  dataReadBuffer :: "(nat \<times> addr) list"
  dataWriteBuffer :: "(nat \<times> addr) list"
  dataReadEraseBuffer :: "addr list"

definition buffers_empty :: buffers where
  "buffers_empty = \<lparr>dataReadBuffer = [], dataWriteBuffer = [], dataReadEraseBuffer = []\<rparr>"

section \<open>handleInstructionDeps\<close>

text \<open>The alias a link carries: the element of the dependence when its indexes are unknown.\<close>

definition link_alias :: "'t aliasTable \<Rightarrow> addr \<Rightarrow> addr \<Rightarrow> addr res" where
  "link_alias T depElem depArrayElem =
     bind_res (deref (heap T) depElem) (\<lambda>a.
       Inr (if hasUnknownIndex a then depElem else depArrayElem))"

definition link_from ::
    "'t aliasTable \<Rightarrow> bool \<Rightarrow> bool \<Rightarrow> nat \<Rightarrow> addr \<Rightarrow> addr \<Rightarrow> nat \<Rightarrow> 't nodes \<Rightarrow> 't nodes res" where
  "link_from T r w node depElem depArrayElem depNode h =
     (if depNode \<noteq> node then
        bind_res (link_alias T depElem depArrayElem) (\<lambda>arg. addLink depNode node r w arg h)
      else Inr h)"

definition read_link ::
    "'t aliasTable \<Rightarrow> nat \<Rightarrow> (addr \<times> nat) list \<Rightarrow> addr \<Rightarrow> addr \<Rightarrow> 't nodes \<Rightarrow> 't nodes res" where
  "read_link T node W depElem depArrayElem h =
     (case map_of W depArrayElem of
        None \<Rightarrow> Inr h
      | Some depNode \<Rightarrow> link_from T True False node depElem depArrayElem depNode h)"

definition write_link ::
    "'t aliasTable \<Rightarrow> nat \<Rightarrow> 't build \<Rightarrow> addr \<Rightarrow> addr \<Rightarrow> 't nodes \<times> buffers \<Rightarrow> ('t nodes \<times> buffers) res" where
  "write_link T node s depElem depArrayElem st =
     (case st of (h, bs) \<Rightarrow>
        (case map_of (dataUsedInRead s) depArrayElem of
           Some readers \<Rightarrow>
             bind_res (fold_res (link_from T False True node depElem depArrayElem) readers h) (\<lambda>h'.
               Inr (h', bs\<lparr>dataReadEraseBuffer := dataReadEraseBuffer bs @ [depArrayElem]\<rparr>))
         | None \<Rightarrow>
             (case map_of (dataUsedInWrite s) depArrayElem of
                Some depNode \<Rightarrow>
                  bind_res (link_from T False True node depElem depArrayElem depNode h) (\<lambda>h'.
                    Inr (h', bs))
              | None \<Rightarrow> Inr (h, bs))))"

text \<open>The body of the loop over the parents.\<close>

definition handleParent ::
    "'t aliasTable \<Rightarrow> nat \<Rightarrow> 't build \<Rightarrow> addr \<Rightarrow> NodeDependency \<Rightarrow> addr \<Rightarrow>
     't nodes \<times> buffers \<Rightarrow> ('t nodes \<times> buffers) res" where
  "handleParent T node s depElem dep depArrayElem st =
     (case st of (h, bs) \<Rightarrow>
        if isRead dep then
          bind_res (read_link T node (dataUsedInWrite s) depElem depArrayElem h) (\<lambda>h'.
            Inr (h', bs\<lparr>dataReadBuffer := dataReadBuffer bs @ [(node, depArrayElem)]\<rparr>))
        else Inr st)"

text \<open>The body of the loop over the children.\<close>

definition handleChild ::
    "'t aliasTable \<Rightarrow> nat \<Rightarrow> 't build \<Rightarrow> addr \<Rightarrow> NodeDependency \<Rightarrow> addr \<Rightarrow>
     't nodes \<times> buffers \<Rightarrow> ('t nodes \<times> buffers) res" where
  "handleChild T node s depElem dep depArrayElem st =
     (case st of (h, bs) \<Rightarrow>
        bind_res (if isRead dep then read_link T node (dataUsedInWrite s) depElem depArrayElem h
                  else Inr h) (\<lambda>h1.
        bind_res (if isWrite dep then write_link T node s depElem depArrayElem (h1, bs)
                  else Inr (h1, bs)) (\<lambda>(h2, bs1).
        (let bs2 = (if isWrite dep
                    then bs1\<lparr>dataWriteBuffer := dataWriteBuffer bs1 @ [(node, depArrayElem)]\<rparr> else bs1);
             bs3 = (if isRead dep
                    then bs2\<lparr>dataReadBuffer := dataReadBuffer bs2 @ [(node, depArrayElem)]\<rparr> else bs2)
         in Inr (h2, bs3)))))"

definition handleDep ::
    "'t aliasTable \<Rightarrow> nat \<Rightarrow> 't build \<Rightarrow> addr \<times> NodeDependency \<Rightarrow>
     't nodes \<times> buffers \<Rightarrow> ('t nodes \<times> buffers) res" where
  "handleDep T node s d st =
     (case d of (depElem, dep) \<Rightarrow>
        bind_res (getArrayElementParents T depElem) (\<lambda>parents.
        bind_res (fold_res (handleParent T node s depElem dep) parents st) (\<lambda>st1.
        bind_res (getArrayElementChildren T depElem) (\<lambda>elems.
          fold_res (handleChild T node s depElem dep) elems st1))))"

definition flush_buffers :: "buffers \<Rightarrow> 't nodes \<Rightarrow> 't build \<Rightarrow> 't build" where
  "flush_buffers bs h s =
     (let R1 = fold adel (dataReadEraseBuffer bs) (dataUsedInRead s);
          R2 = fold (\<lambda>(n, e) R. aput e (sins n (case map_of R e of None \<Rightarrow> [] | Some ns \<Rightarrow> ns)) R)
                 (dataReadBuffer bs) R1;
          W' = fold (\<lambda>(n, e) W. aput e n W) (dataWriteBuffer bs) (dataUsedInWrite s)
      in \<lparr>bnodes = h, dataUsedInRead = R2, dataUsedInWrite = W'\<rparr>)"

definition handleInstructionDeps ::
    "'t aliasTable \<Rightarrow> nat \<times> dependencies \<Rightarrow> 't build \<Rightarrow> 't build res" where
  "handleInstructionDeps T nd s =
     (case nd of (node, deps) \<Rightarrow>
        bind_res (fold_res (handleDep T node s) deps (bnodes s, buffers_empty)) (\<lambda>(h, bs).
          Inr (flush_buffers bs h s)))"

section \<open>InstructionToGraph\<close>

record graph =
  graphId :: nat
  graph_nodes :: "nat list"
  roots :: "nat list"

record 't program_graph =
  pnodes :: "'t nodes"
  graphs :: "(nat \<times> graph) list"
  node_idCounter :: nat
  graph_idCounter :: nat
  readMap :: "(addr \<times> nat list) list"
  writeMap :: "(addr \<times> nat) list"

definition with_maps :: "'t program_graph \<Rightarrow> 't build \<Rightarrow> 't program_graph" where
  "with_maps st s = st\<lparr>pnodes := bnodes s, readMap := dataUsedInRead s, writeMap := dataUsedInWrite s\<rparr>"

definition build_of :: "'t program_graph \<Rightarrow> 't build" where
  "build_of st = \<lparr>bnodes = pnodes st, dataUsedInRead = readMap st, dataUsedInWrite = writeMap st\<rparr>"

definition create_nodes :: "nat \<Rightarrow> bool \<Rightarrow> 't instruction list \<Rightarrow> 't program_graph \<Rightarrow> 't program_graph" where
  "create_nodes gid isLoop ins st =
     st\<lparr>pnodes := fold (\<lambda>(n, i). aput n (node_new gid isLoop i)) (zip [node_idCounter st..<node_idCounter st + length ins] ins) (pnodes st),
        node_idCounter := node_idCounter st + length ins\<rparr>"

lemma size_scoped [termination_simp]:
  "size_list size (scopedInstructions i) < size i"
  by (cases i) simp

lemma size_scoped_Suc: "Suc (size_list size (scopedInstructions i)) \<le> size i + k"
  using size_scoped [of i] by simp

lemma size_list_zip: "size_list (\<lambda>(n, i). size i) (zip ns is) \<le> size_list size is"
proof (induction "is" arbitrary: ns)
  case (Cons i "is")
  show ?case
  proof (cases ns)
    case (Cons n ns')
    with Cons.IH [of ns'] show ?thesis by simp
  qed simp
qed simp

function (sequential) InstructionToGraph ::
    "'t aliasTable \<Rightarrow> 't instruction list \<Rightarrow> bool \<Rightarrow> 't program_graph \<Rightarrow> (nat \<times> 't program_graph) res"
  and InstructionToGraph_loop ::
    "'t aliasTable \<Rightarrow> bool \<Rightarrow> (nat \<times> 't instruction) list \<Rightarrow> 't program_graph \<Rightarrow> 't program_graph res"
  where
  "InstructionToGraph T ins isLoop st =
     (let gid = graph_idCounter st;
          ids = [node_idCounter st..<node_idCounter st + length ins];
          st1 = create_nodes gid isLoop ins (st\<lparr>graph_idCounter := Suc gid\<rparr>) in
      bind_res (InstructionToGraph_loop T isLoop (zip ids ins) st1) (\<lambda>st2.
        Inr (gid, st2\<lparr>graphs := aput gid \<lparr>graphId = gid, graph_nodes = ids,
               roots = filter (\<lambda>n. pred_of (pnodes st2) n = []) ids\<rparr> (graphs st2)\<rparr>)))"
| "InstructionToGraph_loop T isLoop [] st = Inr st"
| "InstructionToGraph_loop T isLoop ((n, i) # rest) st =
     bind_res (handleInstructionDeps T (n, instr_dependencies i) (build_of st)) (\<lambda>s.
       (let st1 = with_maps st s in
        bind_res
          (if complexInstruction i then
             (case instr_stmt i of
                None \<Rightarrow> Inl AssertFailed
              | Some s \<Rightarrow>
                  bind_res
                    (if isForStmt s then
                       bind_res (InstructionToGraph T (scopedInstructions i) True
                                   (st1\<lparr>readMap := [], writeMap := []\<rparr>)) (\<lambda>(g, st2).
                         Inr (g, st2\<lparr>readMap := readMap st1, writeMap := writeMap st1\<rparr>))
                     else InstructionToGraph T (scopedInstructions i) isLoop st1) (\<lambda>(g, st2).
                  bind_res (modify_node n (\<lambda>nd. nd\<lparr>subgraphs := subgraphs nd @ [g]\<rparr>) (pnodes st2)) (\<lambda>h.
                    Inr (st2\<lparr>pnodes := h\<rparr>))))
           else Inr st1)
          (InstructionToGraph_loop T isLoop rest)))"
  by pat_completeness auto
termination
  by (relation "measure (\<lambda>x. case x of Inl (_, ins, _, _) \<Rightarrow> Suc (size_list size ins)
      | Inr (_, _, nis, _) \<Rightarrow> size_list (\<lambda>(n, i). size i) nis)")
    (auto simp: less_Suc_eq_le size_list_zip intro!: size_scoped_Suc)


section \<open>Refinement of the tracker\<close>

text \<open>The elements an access to an entry may touch: the recorded entries under its indexes.\<close>

definition childset :: "'t aliasTable \<Rightarrow> addr \<Rightarrow> addr set" where
  "childset T d = {c. \<exists>a b. stored T d a \<and> stored T c b
     \<and> getKey (declarationOf b) = getKey (declarationOf a) \<and> matches (indexes a) (indexes b)}"

definition dep_ok :: "'t aliasTable \<Rightarrow> addr \<Rightarrow> bool" where
  "dep_ok T d \<longleftrightarrow> (\<exists>a. stored T d a \<and> (\<forall>i \<in> set (indexes a). i \<ge> -1))"

definition access_of :: "'t aliasTable \<Rightarrow> nat \<times> dependencies \<Rightarrow> addr access" where
  "access_of T nd =
     (fst nd, \<Union>(d, dep) \<in> {(d, dep) \<in> set (snd nd). isRead dep}. childset T d,
      \<Union>(d, dep) \<in> {(d, dep) \<in> set (snd nd). isWrite dep}. childset T d)"

definition build_inv :: "'t build \<Rightarrow> bool" where
  "build_inv s \<longleftrightarrow> graph_inv (bnodes s)
     \<and> (\<forall>c w. map_of (dataUsedInWrite s) c = Some w \<longrightarrow> w \<in> dom (map_of (bnodes s)))
     \<and> (\<forall>c rs. map_of (dataUsedInRead s) c = Some rs \<longrightarrow> rs \<noteq> [] \<and> set rs \<subseteq> dom (map_of (bnodes s)))"

definition build_ok :: "'t aliasTable \<Rightarrow> nat \<times> dependencies \<Rightarrow> 't build \<Rightarrow> bool" where
  "build_ok T nd s \<longleftrightarrow> table_ok T \<and> fst nd \<in> dom (map_of (bnodes s)) \<and> (\<forall>(d, dep) \<in> set (snd nd). dep_ok T d)"

definition readers_at :: "(addr \<times> nat list) list \<Rightarrow> addr \<Rightarrow> nat set" where
  "readers_at R c = (case map_of R c of None \<Rightarrow> {} | Some rs \<Rightarrow> set rs)"

definition build_abs :: "'t build \<Rightarrow> addr tracker" where
  "build_abs s = \<lparr>lastWrite = map_of (dataUsedInWrite s), readersOf = readers_at (dataUsedInRead s),
     depEdges = edges (bnodes s)\<rparr>"

definition links_added :: "'t nodes \<Rightarrow> 't nodes \<Rightarrow> (nat \<times> nat) set \<Rightarrow> bool" where
  "links_added h h' S \<longleftrightarrow> graph_inv h' \<and> dom (map_of h') = dom (map_of h) \<and> same_nodes h h'
     \<and> edges h' = edges h \<union> S"

lemma links_added_trans:
  "links_added h h1 S1 \<Longrightarrow> links_added h1 h2 S2 \<Longrightarrow> links_added h h2 (S1 \<union> S2)"
  by (auto simp: links_added_def intro: same_nodes_trans)

lemma links_added_none: "graph_inv h \<Longrightarrow> links_added h h {}"
  by (simp add: links_added_def)

lemma link_from_effect:
  assumes "graph_inv h" and "node \<in> dom (map_of h)" and "depNode \<in> dom (map_of h)"
    and "stored T d a" and "d \<noteq> null" and "c \<noteq> null"
  shows "\<exists>h'. link_from T r w node d c depNode h = Inr h'
     \<and> links_added h h' (if depNode \<noteq> node then {(depNode, node)} else {})"
proof (cases "depNode = node")
  case True
  then show ?thesis using assms(1) by (simp add: link_from_def links_added_none)
next
  case False
  let ?arg = "if hasUnknownIndex a then d else c"
  have "?arg \<noteq> null" using assms(5,6) by simp
  from addLink_effect [OF assms(1) this False assms(3,2), of r w] False show ?thesis
    using stored_deref [OF assms(4)] by (auto simp: link_from_def link_alias_def links_added_def)
qed

lemma link_from_fold_effect:
  assumes "graph_inv h" and "node \<in> dom (map_of h)" and "set rs \<subseteq> dom (map_of h)"
    and "stored T d a" and "d \<noteq> null" and "c \<noteq> null"
  shows "\<exists>h'. fold_res (link_from T r w node d c) rs h = Inr h'
     \<and> links_added h h' {(x, node) | x. x \<in> set rs \<and> x \<noteq> node}"
  using assms
proof (induction rs arbitrary: h)
  case Nil
  then show ?case by (simp add: links_added_none)
next
  case (Cons x rs)
  obtain h1 where h1: "link_from T r w node d c x h = Inr h1"
    and L: "links_added h h1 (if x \<noteq> node then {(x, node)} else {})"
    using link_from_effect [of h node x T d a c r w] Cons.prems by auto
  have h1': "graph_inv h1" "node \<in> dom (map_of h1)" "set rs \<subseteq> dom (map_of h1)"
    using L Cons.prems(2,3) by (simp_all add: links_added_def)
  obtain h2 where "fold_res (link_from T r w node d c) rs h1 = Inr h2"
    and "links_added h1 h2 {(x, node) | x. x \<in> set rs \<and> x \<noteq> node}"
    using Cons.IH [OF h1' Cons.prems(4-6)] by blast
  moreover from links_added_trans [OF L this(2)]
  have "links_added h h2 {(y, node) | y. y \<in> set (x # rs) \<and> y \<noteq> node}"
    by (rule back_subst [of "links_added h h2"]) auto
  ultimately show ?case using h1 by auto
qed

text \<open>What was processed so far, on the heap and in the buffers.\<close>

definition progress :: "'t build \<Rightarrow> nat \<Rightarrow> addr set \<Rightarrow> addr set \<Rightarrow> 't nodes \<times> buffers \<Rightarrow> bool" where
  "progress s node Rd Wr st \<longleftrightarrow>
     links_added (bnodes s) (fst st) (track_edges (node, Rd, Wr) (build_abs s))
     \<and> set (dataReadBuffer (snd st)) = {node} \<times> Rd
     \<and> set (dataWriteBuffer (snd st)) = {node} \<times> Wr
     \<and> set (dataReadEraseBuffer (snd st)) = {c \<in> Wr. map_of (dataUsedInRead s) c \<noteq> None}"

lemma track_edges_Un:
  "track_edges (n, R1 \<union> R2, W1 \<union> W2) s = track_edges (n, R1, W1) s \<union> track_edges (n, R2, W2) s"
  by (auto simp: track_edges_def)

lemma progress_start: "build_inv s \<Longrightarrow> progress s node {} {} (bnodes s, buffers_empty)"
  by (simp add: progress_def buffers_empty_def track_edges_def build_inv_def links_added_none)

lemma progress_heap:
  assumes "progress s node Rd Wr (h, bs)"
  shows "graph_inv h" "dom (map_of h) = dom (map_of (bnodes s))"
  using assms by (simp_all add: progress_def links_added_def)

lemma read_link_effect:
  assumes "build_inv s" and "graph_inv h" and "dom (map_of h) = dom (map_of (bnodes s))"
    and "node \<in> dom (map_of h)" and "stored T d a" and "d \<noteq> null" and "c \<noteq> null"
  shows "\<exists>h'. read_link T node (dataUsedInWrite s) d c h = Inr h'
     \<and> links_added h h' (track_edges (node, {c}, {}) (build_abs s))"
proof (cases "map_of (dataUsedInWrite s) c")
  case None
  then show ?thesis using assms(2) by (simp add: read_link_def track_edges_def build_abs_def links_added_none)
next
  case (Some w)
  then have "w \<in> dom (map_of h)" using assms(1,3) by (simp add: build_inv_def)
  moreover have "track_edges (node, {c}, {}) (build_abs s) = (if w \<noteq> node then {(w, node)} else {})"
    using Some by (auto simp: track_edges_def build_abs_def)
  ultimately show ?thesis
    using link_from_effect [OF assms(2,4) _ assms(5-7), of w True False] Some by (simp add: read_link_def)
qed


lemma handleParent_progress:
  assumes "build_inv s" and "node \<in> dom (map_of (bnodes s))" and "stored T d a" and "d \<noteq> null"
    and "c \<noteq> null" and "progress s node Rd Wr st"
  shows "\<exists>st'. handleParent T node s d dep c st = Inr st'
     \<and> progress s node (Rd \<union> (if isRead dep then {c} else {})) Wr st'"
proof -
  obtain h bs where st: "st = (h, bs)" by (cases st)
  note h = progress_heap [OF assms(6) [unfolded st]]
  show ?thesis
  proof (cases "isRead dep")
    case True
    obtain h1 where h1: "read_link T node (dataUsedInWrite s) d c h = Inr h1"
      and L: "links_added h h1 (track_edges (node, {c}, {}) (build_abs s))"
      using read_link_effect [OF assms(1) h(1,2) _ assms(3-5), of node] assms(2) h(2) by auto
    have "progress s node (Rd \<union> {c}) Wr (h1, bs\<lparr>dataReadBuffer := dataReadBuffer bs @ [(node, c)]\<rparr>)"
      using assms(6) links_added_trans [OF _ L, of "bnodes s"] track_edges_Un [of node Rd "{c}" Wr "{}"]
      by (auto simp: progress_def st)
    then show ?thesis using True h1 st by (simp add: handleParent_def)
  next
    case False
    then show ?thesis using assms(6) by (auto simp: handleParent_def st)
  qed
qed

lemma handleChild_progress:
  assumes "build_inv s" and "node \<in> dom (map_of (bnodes s))" and "stored T d a" and "d \<noteq> null"
    and "c \<noteq> null" and "progress s node Rd Wr st"
  shows "\<exists>st'. handleChild T node s d dep c st = Inr st'
     \<and> progress s node (Rd \<union> (if isRead dep then {c} else {})) (Wr \<union> (if isWrite dep then {c} else {})) st'"
proof -
  obtain h bs where st: "st = (h, bs)" by (cases st)
  note h = progress_heap [OF assms(6) [unfolded st]]
  let ?te = "\<lambda>R W. track_edges (node, R, W) (build_abs s)"
  let ?R = "if isRead dep then {c} else {}" and ?W = "if isWrite dep then {c} else {}"
  have node: "node \<in> dom (map_of h)" using assms(2) h(2) by simp
  obtain h1 where h1: "(if isRead dep then read_link T node (dataUsedInWrite s) d c h else Inr h) = Inr h1"
    and L1: "links_added h h1 (?te ?R {})"
    using read_link_effect [OF assms(1) h node assms(3-5)] links_added_none [OF h(1)]
    by (cases "isRead dep") (auto simp: track_edges_def)
  have h1': "graph_inv h1" "dom (map_of h1) = dom (map_of h)" "node \<in> dom (map_of h1)"
    using L1 node by (simp_all add: links_added_def)
  let ?bs = "if isWrite dep \<and> map_of (dataUsedInRead s) c \<noteq> None
     then bs\<lparr>dataReadEraseBuffer := dataReadEraseBuffer bs @ [c]\<rparr> else bs"
  have "\<exists>h2. (if isWrite dep then write_link T node s d c (h1, bs) else Inr (h1, bs)) = Inr (h2, ?bs) \<and> links_added h1 h2 (?te {} ?W)"
  proof (cases "isWrite dep")
    case False
    then show ?thesis using links_added_none [OF h1'(1)] by (simp add: track_edges_def)
  next
    case True
    show ?thesis
    proof (cases "map_of (dataUsedInRead s) c")
      case (Some rs)
      then have rs: "rs \<noteq> []" "set rs \<subseteq> dom (map_of h1)"
        using assms(1) h(2) h1'(2) by (auto simp: build_inv_def)
      have "?te {} ?W = {(x, node) | x. x \<in> set rs \<and> x \<noteq> node}"
        using True Some rs(1) by (auto simp: track_edges_def build_abs_def readers_at_def)
      then show ?thesis
        using link_from_fold_effect [OF h1'(1,3) rs(2) assms(3-5), of False True] True Some
          by (auto simp: write_link_def)
    next
      case None
      show ?thesis
      proof (cases "map_of (dataUsedInWrite s) c")
        case None2: None
        have "?te {} ?W = {}" using None None2 True by (auto simp: track_edges_def build_abs_def readers_at_def)
        then show ?thesis using links_added_none [OF h1'(1)] True None None2
          by (simp add: write_link_def)
      next
        case (Some w)
        then have "w \<in> dom (map_of h1)" using assms(1) h(2) h1'(2) by (simp add: build_inv_def)
        moreover have "?te {} ?W = (if w \<noteq> node then {(w, node)} else {})"
          using None Some True by (auto simp: track_edges_def build_abs_def readers_at_def)
        ultimately show ?thesis
          using link_from_effect [OF h1'(1,3) _ assms(3-5), of w False True] True None Some
          by (auto simp: write_link_def)
      qed
    qed
  qed
  then obtain h2 where h2: "(if isWrite dep then write_link T node s d c (h1, bs) else Inr (h1, bs)) = Inr (h2, ?bs)" and L2: "links_added h1 h2 (?te {} ?W)" by blast
  let ?bs2 = "if isWrite dep then ?bs\<lparr>dataWriteBuffer := dataWriteBuffer ?bs @ [(node, c)]\<rparr> else ?bs"
  let ?bs3 = "if isRead dep then ?bs2\<lparr>dataReadBuffer := dataReadBuffer ?bs2 @ [(node, c)]\<rparr> else ?bs2"
  have "handleChild T node s d dep c st = Inr (h2, ?bs3)"
    unfolding handleChild_def st prod.case h1 bind_res_simps h2 Let_def ..
  moreover have "links_added (bnodes s) h2 (?te (Rd \<union> ?R) (Wr \<union> ?W))"
    using links_added_trans [OF links_added_trans [OF _ L1] L2, of "bnodes s" "?te Rd Wr"] assms(6)
      track_edges_Un [of node Rd ?R Wr "{}"] track_edges_Un [of node "Rd \<union> ?R" "{}" Wr ?W]
    by (simp add: progress_def st)
  moreover have "set (dataReadBuffer ?bs3) = {node} \<times> (Rd \<union> ?R)"
    and "set (dataWriteBuffer ?bs3) = {node} \<times> (Wr \<union> ?W)"
    and "set (dataReadEraseBuffer ?bs3) = {c \<in> Wr \<union> ?W. map_of (dataUsedInRead s) c \<noteq> None}"
    using assms(6) by (auto simp: progress_def st)
  ultimately show ?thesis unfolding progress_def by (intro exI [of _ "(h2, ?bs3)"]) simp
qed


lemma fold_parents_progress:
  assumes "build_inv s" and "node \<in> dom (map_of (bnodes s))" and "stored T d a" and "d \<noteq> null"
    and "\<forall>c \<in> set cs. c \<noteq> null" and "progress s node Rd Wr st"
  shows "\<exists>st'. fold_res (handleParent T node s d dep) cs st = Inr st'
     \<and> progress s node (Rd \<union> (if isRead dep then set cs else {})) Wr st'"
  using assms(5,6)
proof (induction cs arbitrary: Rd st)
  case Nil
  then show ?case by simp
next
  case (Cons c cs)
  obtain st1 where st1: "handleParent T node s d dep c st = Inr st1"
    "progress s node (Rd \<union> (if isRead dep then {c} else {})) Wr st1"
    using handleParent_progress [OF assms(1-4) _ Cons.prems(2), of c dep] Cons.prems(1) by auto
  have nn: "\<forall>c \<in> set cs. c \<noteq> null" using Cons.prems(1) by simp
  have eq: "(Rd \<union> (if isRead dep then {c} else {})) \<union> (if isRead dep then set cs else {})
      = Rd \<union> (if isRead dep then set (c # cs) else {})" by auto
  from Cons.IH [OF nn st1(2)] st1(1) show ?case unfolding eq by simp
qed

lemma fold_children_progress:
  assumes "build_inv s" and "node \<in> dom (map_of (bnodes s))" and "stored T d a" and "d \<noteq> null"
    and "\<forall>c \<in> set cs. c \<noteq> null" and "progress s node Rd Wr st"
  shows "\<exists>st'. fold_res (handleChild T node s d dep) cs st = Inr st'
     \<and> progress s node (Rd \<union> (if isRead dep then set cs else {}))
         (Wr \<union> (if isWrite dep then set cs else {})) st'"
  using assms(5,6)
proof (induction cs arbitrary: Rd Wr st)
  case Nil
  then show ?case by simp
next
  case (Cons c cs)
  obtain st1 where st1: "handleChild T node s d dep c st = Inr st1"
    "progress s node (Rd \<union> (if isRead dep then {c} else {})) (Wr \<union> (if isWrite dep then {c} else {})) st1"
    using handleChild_progress [OF assms(1-4) _ Cons.prems(2), of c dep] Cons.prems(1) by auto
  have nn: "\<forall>c \<in> set cs. c \<noteq> null" using Cons.prems(1) by simp
  have eq: "(Rd \<union> (if isRead dep then {c} else {})) \<union> (if isRead dep then set cs else {})
      = Rd \<union> (if isRead dep then set (c # cs) else {})"
    "(Wr \<union> (if isWrite dep then {c} else {})) \<union> (if isWrite dep then set cs else {})
      = Wr \<union> (if isWrite dep then set (c # cs) else {})" by auto
  from Cons.IH [OF nn st1(2)] st1(1) show ?case unfolding eq by simp
qed

text \<open>The two queries on a recorded entry.\<close>

lemma matches_refl: "matches p p"
  by (simp add: matches_def list_all2_same)

lemma dep_queries:
  assumes "table_ok T" and "dep_ok T d"
  obtains a P C where "stored T d a" and "getArrayElementParents T d = Inr P" and "set P \<subseteq> {d}"
    and "getArrayElementChildren T d = Inr C" and "set C = childset T d" and "d \<in> set C"
    and "\<forall>c \<in> set C. c \<noteq> null" and "d \<noteq> null"
proof -
  obtain a where a: "stored T d a" "\<forall>i \<in> set (indexes a). i \<ge> -1"
    using assms(2) by (auto simp: dep_ok_def)
  obtain P where P: "getArrayElementParents T d = Inr P" "set P \<subseteq> {d}"
    using parents_stored [OF assms(1) a] by blast
  obtain C where C: "getArrayElementChildren T d = Inr C"
    and sC: "set C = {c. \<exists>b. stored T c b \<and> getKey (declarationOf b) = getKey (declarationOf a)
        \<and> matches (indexes a) (indexes b)}"
    using children_stored [OF assms(1) a] by blast
  have "set C = childset T d"
    unfolding sC childset_def using a(1) stored_unique by blast
  moreover have "d \<in> set C" unfolding sC using a(1) matches_refl by blast
  moreover have "\<forall>c \<in> set C. c \<noteq> null" unfolding sC using stored_not_null [OF assms(1)] by blast
  ultimately show ?thesis using that a(1) P C stored_not_null [OF assms(1) a(1)] by blast
qed

lemma handleDep_progress:
  assumes "build_inv s" and "node \<in> dom (map_of (bnodes s))" and "table_ok T" and "dep_ok T d"
    and "progress s node Rd Wr st"
  shows "\<exists>st'. handleDep T node s (d, dep) st = Inr st'
     \<and> progress s node (Rd \<union> (if isRead dep then childset T d else {}))
         (Wr \<union> (if isWrite dep then childset T d else {})) st'"
proof -
  obtain a P C where a: "stored T d a" and P: "getArrayElementParents T d = Inr P" "set P \<subseteq> {d}"
    and C: "getArrayElementChildren T d = Inr C" "set C = childset T d" "d \<in> set C"
      "\<forall>c \<in> set C. c \<noteq> null" and d: "d \<noteq> null"
    using dep_queries [OF assms(3,4)] .
  have Pnn: "\<forall>c \<in> set P. c \<noteq> null" using P(2) d by auto
  obtain st1 where st1: "fold_res (handleParent T node s d dep) P st = Inr st1"
    "progress s node (Rd \<union> (if isRead dep then set P else {})) Wr st1"
    using fold_parents_progress [OF assms(1,2) a d Pnn assms(5)] by blast
  obtain st2 where st2: "fold_res (handleChild T node s d dep) C st1 = Inr st2"
    "progress s node (Rd \<union> (if isRead dep then set P else {}) \<union> (if isRead dep then set C else {}))
         (Wr \<union> (if isWrite dep then set C else {})) st2"
    using fold_children_progress [OF assms(1,2) a d C(4) st1(2)] by blast
  have eq: "Rd \<union> (if isRead dep then set P else {}) \<union> (if isRead dep then childset T d else {})
      = Rd \<union> (if isRead dep then childset T d else {})"
    using P(2) C(2,3) by auto
  have "progress s node (Rd \<union> (if isRead dep then childset T d else {}))
         (Wr \<union> (if isWrite dep then childset T d else {})) st2"
    using st2(2) unfolding C(2) eq .
  then show ?thesis using P(1) C(1) st1(1) st2(1) by (simp add: handleDep_def)
qed


lemma fold_deps_progress:
  assumes "build_inv s" and "node \<in> dom (map_of (bnodes s))" and "table_ok T"
    and "\<forall>(d, dep) \<in> set deps. dep_ok T d" and "progress s node Rd Wr st"
  shows "\<exists>st'. fold_res (handleDep T node s) deps st = Inr st'
     \<and> progress s node (Rd \<union> acc_reads (access_of T (node, deps))) (Wr \<union> acc_writes (access_of T (node, deps))) st'"
  using assms(4,5)
proof (induction deps arbitrary: Rd Wr st)
  case Nil
  then show ?case by (simp add: access_of_def)
next
  case (Cons x deps)
  obtain d dep where x: "x = (d, dep)" by fastforce
  obtain st1 where st1: "handleDep T node s (d, dep) st = Inr st1"
    "progress s node (Rd \<union> (if isRead dep then childset T d else {}))
         (Wr \<union> (if isWrite dep then childset T d else {})) st1"
    using handleDep_progress [OF assms(1-3) _ Cons.prems(2), of d dep] Cons.prems(1) x by auto
  have ok: "\<forall>(d, dep) \<in> set deps. dep_ok T d" using Cons.prems(1) by simp
  have eq: "Rd \<union> (if isRead dep then childset T d else {}) \<union> acc_reads (access_of T (node, deps))
      = Rd \<union> acc_reads (access_of T (node, x # deps))"
    "Wr \<union> (if isWrite dep then childset T d else {}) \<union> acc_writes (access_of T (node, deps))
      = Wr \<union> acc_writes (access_of T (node, x # deps))"
    by (auto simp: access_of_def x)
  from Cons.IH [OF ok st1(2)] st1(1) show ?case unfolding eq x by simp
qed

subsection \<open>The flush of the buffers\<close>

lemma fold_adel_map: "map_of (fold adel es R) c = (if c \<in> set es then None else map_of R c)"
  by (induction es arbitrary: R) auto

lemma fold_read_flush:
  "map_of (fold (\<lambda>(n, e) R. aput e (sins n (case map_of R e of None \<Rightarrow> [] | Some ns \<Rightarrow> ns)) R) xs R) c =
     (if c \<in> snd ` set xs then Some (fold (\<lambda>(n, e) ns. if e = c then sins n ns else ns) xs
         (case map_of R c of None \<Rightarrow> [] | Some ns \<Rightarrow> ns)) else map_of R c)"
proof (induction xs arbitrary: R)
  case Nil
  then show ?case by simp
next
  case (Cons x xs)
  obtain n e where x: "x = (n, e)" by fastforce
  have none: "fold (\<lambda>(n, e) ns. if e = c then sins n ns else ns) xs ns = ns" if "c \<notin> snd ` set xs" for ns
    using that by (induction xs arbitrary: ns) auto
  show ?case using none by (auto simp: Cons.IH x)
qed

lemma fold_sins_set:
  "set (fold (\<lambda>(n, e) ns. if e = c then sins n ns else ns) xs ns) = set ns \<union> {n. (n, c) \<in> set xs}"
  by (induction xs arbitrary: ns) (auto split: if_splits)

lemma fold_write_flush:
  assumes "set xs = {n} \<times> W"
  shows "map_of (fold (\<lambda>(n, e) W. aput e n W) xs M) c = (if c \<in> W then Some n else map_of M c)"
proof -
  have "map_of (fold (\<lambda>(n, e) W. aput e n W) xs M) c = (if c \<in> snd ` set xs then Some n else map_of M c)"
    if "fst ` set xs \<subseteq> {n}" for xs
    using that by (induction xs arbitrary: M) auto
  then show ?thesis using assms by (auto simp: image_iff)
qed

lemma flush_buffers_abs:
  assumes "progress s node Rd Wr (h, bs)"
  shows "build_abs (flush_buffers bs h s) = track (node, Rd, Wr) (build_abs s)"
proof -
  have R: "set (dataReadBuffer bs) = {node} \<times> Rd" and W: "set (dataWriteBuffer bs) = {node} \<times> Wr"
    and E: "set (dataReadEraseBuffer bs) = {c \<in> Wr. map_of (dataUsedInRead s) c \<noteq> None}"
    and L: "edges h = edges (bnodes s) \<union> track_edges (node, Rd, Wr) (build_abs s)"
    using assms by (simp_all add: progress_def links_added_def)
  have snd_R: "snd ` ({node} \<times> Rd) = Rd" by (force simp: image_iff)
  let ?R1 = "fold adel (dataReadEraseBuffer bs) (dataUsedInRead s)"
  have R1: "map_of ?R1 c = (if c \<in> Wr then None else map_of (dataUsedInRead s) c)" for c
    by (auto simp: fold_adel_map E)
  have "readers_at (dataUsedInRead (flush_buffers bs h s)) c
      = (if c \<in> Wr then {} else readers_at (dataUsedInRead s) c) \<union> (if c \<in> Rd then {node} else {})" for c
  proof -
    have m: "map_of (dataUsedInRead (flush_buffers bs h s)) c =
        (if c \<in> Rd then Some (fold (\<lambda>(n, e) ns. if e = c then sins n ns else ns) (dataReadBuffer bs)
           (case map_of ?R1 c of None \<Rightarrow> [] | Some ns \<Rightarrow> ns)) else map_of ?R1 c)"
      unfolding flush_buffers_def Let_def build.select_convs fold_read_flush R snd_R ..
    have "set (case map_of ?R1 c of None \<Rightarrow> [] | Some ns \<Rightarrow> ns)
        = (if c \<in> Wr then {} else readers_at (dataUsedInRead s) c)"
      unfolding R1 readers_at_def by (cases "map_of (dataUsedInRead s) c") simp_all
    then show ?thesis
      unfolding readers_at_def [of "dataUsedInRead (flush_buffers bs h s)"] m
      by (simp add: fold_sins_set R R1 readers_at_def)
  qed
  moreover have "map_of (dataUsedInWrite (flush_buffers bs h s)) c
      = (if c \<in> Wr then Some node else map_of (dataUsedInWrite s) c)" for c
    using fold_write_flush [OF W] by (simp add: flush_buffers_def Let_def)
  ultimately show ?thesis
    using L by (auto simp: build_abs_def track_def fun_eq_iff flush_buffers_def Let_def)
qed

lemma flush_buffers_inv:
  assumes "build_inv s" and "node \<in> dom (map_of (bnodes s))" and "progress s node Rd Wr (h, bs)"
  shows "build_inv (flush_buffers bs h s)"
proof -
  let ?s = "flush_buffers bs h s"
  note h = progress_heap [OF assms(3)]
  have bn: "bnodes ?s = h" by (simp add: flush_buffers_def Let_def)
  have R: "set (dataReadBuffer bs) = {node} \<times> Rd" and W: "set (dataWriteBuffer bs) = {node} \<times> Wr"
    using assms(3) by (simp_all add: progress_def)
  have "rs \<noteq> [] \<and> set rs \<subseteq> dom (map_of (bnodes s))" if "map_of (dataUsedInRead ?s) c = Some rs" for c rs
  proof -
    let ?R1 = "fold adel (dataReadEraseBuffer bs) (dataUsedInRead s)"
    have old: "ns \<noteq> [] \<and> set ns \<subseteq> dom (map_of (bnodes s))" if "map_of ?R1 c = Some ns" for ns
      using that assms(1) by (auto simp: fold_adel_map build_inv_def split: if_splits)
    let ?ns = "case map_of ?R1 c of None \<Rightarrow> [] | Some ns \<Rightarrow> ns"
    have "rs = (if c \<in> Rd then fold (\<lambda>(n, e) ns. if e = c then sins n ns else ns) (dataReadBuffer bs) ?ns else rs)"
      and "c \<notin> Rd \<longrightarrow> map_of ?R1 c = Some rs"
      using that by (auto simp: flush_buffers_def Let_def fold_read_flush R image_iff split: if_splits)
    moreover have "set ?ns \<subseteq> dom (map_of (bnodes s))" using old by (cases "map_of ?R1 c") simp_all
    ultimately show ?thesis
      using old fold_sins_set [of c "dataReadBuffer bs" ?ns] assms(2) R
      by (cases "c \<in> Rd") auto
  qed
  moreover have "w \<in> dom (map_of (bnodes s))" if "map_of (dataUsedInWrite ?s) c = Some w" for c w
    using that fold_write_flush [OF W, of "dataUsedInWrite s" c] assms(1,2)
    by (auto simp: flush_buffers_def Let_def build_inv_def split: if_splits)
  ultimately show ?thesis using h bn by (simp add: build_inv_def)
qed

lemma handleInstructionDeps_track:
  assumes "build_inv s" and "build_ok T nd s"
  shows "\<exists>s'. handleInstructionDeps T nd s = Inr s' \<and> build_inv s'
     \<and> build_abs s' = track (access_of T nd) (build_abs s)
     \<and> dom (map_of (bnodes s')) = dom (map_of (bnodes s)) \<and> same_nodes (bnodes s) (bnodes s')"
proof -
  obtain node deps where nd: "nd = (node, deps)" by fastforce
  have node: "node \<in> dom (map_of (bnodes s))" and ok: "table_ok T" "\<forall>(d, dep) \<in> set deps. dep_ok T d"
    using assms(2) nd by (auto simp: build_ok_def)
  obtain h bs where run: "fold_res (handleDep T node s) deps (bnodes s, buffers_empty) = Inr (h, bs)"
    and P: "progress s node (acc_reads (access_of T nd)) (acc_writes (access_of T nd)) (h, bs)"
    using fold_deps_progress [OF assms(1) node ok progress_start [OF assms(1)]] nd by auto
  have "handleInstructionDeps T nd s = Inr (flush_buffers bs h s)"
    by (simp add: handleInstructionDeps_def nd run)
  moreover have "access_of T nd = (node, acc_reads (access_of T nd), acc_writes (access_of T nd))"
    by (simp add: access_of_def nd)
  moreover have "bnodes (flush_buffers bs h s) = h" by (simp add: flush_buffers_def Let_def)
  moreover have "same_nodes (bnodes s) h" using P by (simp add: progress_def links_added_def)
  ultimately show ?thesis
    using flush_buffers_abs [OF P] flush_buffers_inv [OF assms(1) node P] progress_heap(2) [OF P] by auto
qed

interpretation task_graph: dependence_builder build_abs build_inv "access_of T" "build_ok T" "handleInstructionDeps T"
  for T :: "'t aliasTable"
  by unfold_locales (use handleInstructionDeps_track in blast)

end
