(* ===== verification/Graph_Order.thy ===== *)
theory Graph_Order
  imports Graph_Build
begin

text \<open>
  What \<open>InstructionToGraph\<close> guarantees for a whole function body: it returns for every list of
  well-formed instructions, its graph orders every two conflicting instructions, links only
  conflicting ones and has no cycle.
\<close>

section \<open>The order of processing\<close>

definition before :: "'a list \<Rightarrow> ('a \<times> 'a) set" where
  "before xs = {(x, y). \<exists>us vs ws. xs = us @ x # vs @ y # ws}"

lemma before_append1: "before xs \<subseteq> before (xs @ ys)"
  by (fastforce simp: before_def)

lemma before_append2: "before ys \<subseteq> before (xs @ ys)"
proof (clarsimp simp: before_def)
  fix x y us vs ws
  show "\<exists>us' vs' ws'. xs @ us @ x # vs @ y # ws = us' @ x # vs' @ y # ws'"
    by (intro exI [of _ "xs @ us"] exI [of _ vs] exI [of _ ws]) simp
qed

lemma before_new: "x \<in> set xs \<Longrightarrow> (x, y) \<in> before (xs @ [y])"
  by (fastforce simp: before_def dest!: split_list)

lemma before_map: "(x, y) \<in> before xs \<Longrightarrow> (f x, f y) \<in> before (map f xs)"
  by (fastforce simp: before_def)

lemma before_acyclic:
  assumes "distinct xs" and "r \<subseteq> before xs"
  shows "acyclic r"
proof -
  define pos where "pos x = (THE i. i < length xs \<and> xs ! i = x)" for x
  have pos: "pos (xs ! i) = i" if "i < length xs" for i
    unfolding pos_def using that assms(1) by (auto simp: nth_eq_iff_index_eq)
  have "pos x < pos y" if "(x, y) \<in> r" for x y
  proof -
    have "(x, y) \<in> before xs" using that assms(2) by blast
    then obtain us vs ws where xs: "xs = us @ x # vs @ y # ws" unfolding before_def by blast
    have "pos x = length us" using pos [of "length us"] by (simp add: xs)
    moreover have "pos y = length us + Suc (length vs)"
      using pos [of "length us + Suc (length vs)"] by (simp add: xs nth_append)
    ultimately show ?thesis by simp
  qed
  then have "r \<subseteq> measure pos" by auto
  then show ?thesis by (meson acyclic_subset wf_acyclic wf_measure)
qed

text \<open>The pairs of conflicting accesses in their order, as pairs of nodes.\<close>

definition conflicts :: "'c access list \<Rightarrow> (nat \<times> nat) set" where
  "conflicts as = {(acc_node a, acc_node b) | a b. (a, b) \<in> before as \<and> conflict a b}"

lemma conflicts_append: "conflicts xs \<subseteq> conflicts (xs @ ys)"
  using before_append1 [of xs ys] unfolding conflicts_def by blast

lemma conflicts_sorted:
  "sorted_wrt (\<lambda>a b. conflict a b \<longrightarrow> (acc_node a, acc_node b) \<in> E) as \<Longrightarrow> conflicts as \<subseteq> E"
  by (auto simp: conflicts_def before_def sorted_wrt_append)

lemma conflicts_before: "conflicts as \<subseteq> before (map fst as)"
  by (auto simp: conflicts_def dest: before_map [of _ _ _ fst])

section \<open>The trace of a list of instructions\<close>

text \<open>
  The accesses in the order in which \<open>InstructionToGraph\<close> processes them: the main trace, one
  trace for each loop body, which starts from empty maps, and the next free node.
\<close>

type_synonym trace = "(nat \<times> dependencies) list"

definition starts_loop :: "'t instruction \<Rightarrow> bool" where
  "starts_loop i = (case instr_stmt i of None \<Rightarrow> False | Some s \<Rightarrow> isForStmt s)"

function (sequential) trace_of :: "'t instruction list \<Rightarrow> nat \<Rightarrow> trace \<times> trace list \<times> nat"
  and trace_loop :: "(nat \<times> 't instruction) list \<Rightarrow> nat \<Rightarrow> trace \<times> trace list \<times> nat"
  where
  "trace_of ins k = trace_loop (zip [k..<k + length ins] ins) (k + length ins)"
| "trace_loop [] k = ([], [], k)"
| "trace_loop ((n, i) # rest) k =
     (case (if complexInstruction i then trace_of (scopedInstructions i) k else ([], [], k)) of
        (sub, subloops, k1) \<Rightarrow>
        (case trace_loop rest k1 of (main, loops, k2) \<Rightarrow>
           if complexInstruction i \<and> starts_loop i
           then ((n, instr_dependencies i) # main, sub # subloops @ loops, k2)
           else ((n, instr_dependencies i) # sub @ main, subloops @ loops, k2)))"
  by pat_completeness auto
termination
  by (relation "measure (\<lambda>x. case x of Inl (ins, _) \<Rightarrow> Suc (size_list size ins)
      | Inr (nis, _) \<Rightarrow> size_list (\<lambda>(n, i). size i) nis)")
    (auto simp: less_Suc_eq_le size_list_zip intro!: size_scoped_Suc)

text \<open>Every dependence is a recorded entry, and every complex instruction has its statement.\<close>

fun instr_wf :: "'t aliasTable \<Rightarrow> 't instruction \<Rightarrow> bool" where
  "instr_wf T (Instruction s str c nf k deps scoped al) \<longleftrightarrow>
     (\<forall>(d, dep) \<in> set deps. dep_ok T d)
     \<and> (c \<longrightarrow> s \<noteq> None \<and> (\<forall>i \<in> set scoped. instr_wf T i))"

lemma instr_wf_iff:
  "instr_wf T i \<longleftrightarrow> (\<forall>(d, dep) \<in> set (instr_dependencies i). dep_ok T d)
     \<and> (complexInstruction i \<longrightarrow> instr_stmt i \<noteq> None \<and> (\<forall>j \<in> set (scopedInstructions i). instr_wf T j))"
  by (cases i) auto

section \<open>Invariant of the construction\<close>

definition pg_inv :: "'t program_graph \<Rightarrow> bool" where
  "pg_inv st \<longleftrightarrow> build_inv (build_of st) \<and> (\<forall>n \<in> dom (map_of (pnodes st)). n < node_idCounter st)"

lemma bnodes_build_of [simp]: "bnodes (build_of st) = pnodes st"
  by (simp add: build_of_def)

lemma build_abs_build_of:
  "build_abs (build_of st) = \<lparr>lastWrite = map_of (writeMap st), readersOf = readers_at (readMap st),
     depEdges = edges (pnodes st)\<rparr>"
  by (simp add: build_abs_def build_of_def)

lemma fold_create:
  "map_of (fold (\<lambda>(n, i). aput n (f i)) (zip [k..<k + length ins] ins) h) m =
     (if k \<le> m \<and> m < k + length ins then Some (f (ins ! (m - k))) else map_of h m)"
proof (induction ins arbitrary: k h)
  case Nil
  then show ?case by auto
next
  case (Cons i ins)
  have "[k..<k + length (i # ins)] = k # [Suc k..<Suc k + length ins]"
    using upt_conv_Cons [of k "k + Suc (length ins)"] by simp
  with Cons [of "Suc k" "aput k (f i) h"] show ?case
    by (auto simp: nth_Cons' split: if_splits)
qed

lemma create_nodes_links:
  assumes "pg_inv st"
  shows "succ_of (pnodes (create_nodes gid l ins st)) n = succ_of (pnodes st) n"
    "pred_of (pnodes (create_nodes gid l ins st)) n = pred_of (pnodes st) n"
    "row_of (pnodes (create_nodes gid l ins st)) n m = row_of (pnodes st) n m"
proof -
  have "map_of (pnodes st) n = None" if "node_idCounter st \<le> n"
    using assms that by (force simp: pg_inv_def dom_def)
  then show "succ_of (pnodes (create_nodes gid l ins st)) n = succ_of (pnodes st) n"
    "pred_of (pnodes (create_nodes gid l ins st)) n = pred_of (pnodes st) n"
    "row_of (pnodes (create_nodes gid l ins st)) n m = row_of (pnodes st) n m"
    by (auto simp: succ_of_def pred_of_def row_of_def create_nodes_def fold_create node_new_def)
qed

lemma create_nodes_inv:
  assumes "pg_inv st"
  shows "pg_inv (create_nodes gid l ins st)"
    "dom (map_of (pnodes (create_nodes gid l ins st))) = dom (map_of (pnodes st))
       \<union> {node_idCounter st..<node_idCounter st + length ins}"
    "build_abs (build_of (create_nodes gid l ins st)) = build_abs (build_of st)"
    "node_idCounter (create_nodes gid l ins st) = node_idCounter st + length ins"
proof -
  note links = create_nodes_links [OF assms, of gid l ins]
  let ?st = "create_nodes gid l ins st"
  show dom: "dom (map_of (pnodes ?st)) = dom (map_of (pnodes st)) \<union> {node_idCounter st..<node_idCounter st + length ins}"
    by (auto simp: create_nodes_def fold_create dom_def)
  show cnt: "node_idCounter ?st = node_idCounter st + length ins" by (simp add: create_nodes_def)
  have maps: "readMap ?st = readMap st" "writeMap ?st = writeMap st" by (simp_all add: create_nodes_def)
  have "edges (pnodes ?st) = edges (pnodes st)" using links(1) by (auto simp: edges_of_def)
  then show "build_abs (build_of ?st) = build_abs (build_of st)"
    by (simp add: build_abs_build_of maps)
  have "graph_inv (pnodes ?st)"
    using assms links by (simp add: graph_inv_def pg_inv_def build_inv_def)
  then have "build_inv (build_of ?st)"
    using assms unfolding build_inv_def pg_inv_def build_of_def build.select_convs dom maps by blast
  moreover have "n < node_idCounter st + length ins" if "n \<in> dom (map_of (pnodes ?st))" for n
  proof -
    from that consider "n \<in> dom (map_of (pnodes st))" | "n \<in> {node_idCounter st..<node_idCounter st + length ins}"
      unfolding dom by blast
    then show ?thesis
    proof cases
      case 1
      then have "n < node_idCounter st" using assms unfolding pg_inv_def by blast
      then show ?thesis by simp
    qed simp
  qed
  ultimately show "pg_inv ?st" unfolding pg_inv_def cnt by blast
qed


section \<open>The main induction\<close>

text \<open>An order that more links keep.\<close>

definition ordered :: "'c access list \<Rightarrow> (nat \<times> nat) set \<Rightarrow> bool" where
  "ordered as E \<longleftrightarrow> sorted_wrt (\<lambda>a b. conflict a b \<longrightarrow> (acc_node a, acc_node b) \<in> E\<^sup>+) as"

lemma ordered_mono: "ordered as E \<Longrightarrow> E \<subseteq> E' \<Longrightarrow> ordered as E'"
  unfolding ordered_def using trancl_mono
  by (elim sorted_wrt_mono_rel [rotated]) blast

abbreviation pedges :: "'t program_graph \<Rightarrow> (nat \<times> nat) set" where
  "pedges st \<equiv> edges (pnodes st)"

abbreviation accs :: "'t aliasTable \<Rightarrow> trace \<Rightarrow> addr access list" where
  "accs T t \<equiv> map (access_of T) t"

text \<open>
  What holds after processing: \<open>H\<close> are the accesses before that share the maps, \<open>main\<close> and \<open>loops\<close>
  the traces processed.
\<close>

definition built :: "'t aliasTable \<Rightarrow> addr access list \<Rightarrow> trace \<times> trace list \<times> nat \<Rightarrow>
    't program_graph \<Rightarrow> 't program_graph \<Rightarrow> bool" where
  "built T H tr st st' \<longleftrightarrow> (case tr of (main, loops, k) \<Rightarrow>
     pg_inv st' \<and> node_idCounter st' = k \<and> node_idCounter st \<le> k
     \<and> dom (map_of (pnodes st)) \<subseteq> dom (map_of (pnodes st'))
     \<and> tracked (H @ accs T main) (build_abs (build_of st'))
     \<and> (\<forall>t \<in> set loops. ordered (accs T t) (pedges st'))
     \<and> pedges st \<subseteq> pedges st'
     \<and> pedges st' \<subseteq> pedges st \<union> conflicts (H @ accs T main) \<union> (\<Union>t \<in> set loops. conflicts (accs T t)))"

definition trace_nodes :: "trace \<times> trace list \<times> nat \<Rightarrow> nat list" where
  "trace_nodes tr = (case tr of (main, loops, k) \<Rightarrow> map fst main @ concat (map (map fst) loops))"

lemma distinct_interleave:
  assumes "distinct (A @ B)" and "distinct (C @ D)" and "set (A @ B) \<inter> set (C @ D) = {}"
    and "n \<notin> set (A @ B)" and "n \<notin> set (C @ D)"
  shows "distinct (n # C @ A @ B @ D)" and "distinct (n # (A @ C) @ B @ D)"
  using assms by auto

text \<open>The nodes of a trace are new and distinct.\<close>

lemma trace_fresh:
  fixes ins :: "'t instruction list" and nis :: "(nat \<times> 't instruction) list"
  shows "distinct (trace_nodes (trace_of ins k))
      \<and> set (trace_nodes (trace_of ins k)) \<subseteq> {k..<snd (snd (trace_of ins k))} \<and> k \<le> snd (snd (trace_of ins k))"
    and "distinct (map fst nis) \<Longrightarrow> set (map fst nis) \<subseteq> {..<k} \<Longrightarrow>
      distinct (trace_nodes (trace_loop nis k))
      \<and> set (trace_nodes (trace_loop nis k)) \<subseteq> set (map fst nis) \<union> {k..<snd (snd (trace_loop nis k))}
      \<and> k \<le> snd (snd (trace_loop nis k))"
proof (induction ins k and nis k rule: trace_of_trace_loop.induct)
  case (1 ins k)
  have "distinct (map fst (zip [k..<k + length ins] ins))"
    and "set (map fst (zip [k..<k + length ins] ins)) = {k..<k + length ins}"
    by simp_all
  with "1.IH" show ?case by fastforce
next
  case (2 k)
  then show ?case by (simp add: trace_nodes_def)
next
  case (3 n i rest k)
  obtain sub subloops k1 where sub: "(if complexInstruction i then trace_of (scopedInstructions i) k else ([], [], k))
      = (sub, subloops, k1)" by (metis prod_cases3)
  obtain main loops k2 where main: "trace_loop rest k1 = (main, loops, k2)" by (metis prod_cases3)
  have "distinct (trace_nodes (sub, subloops, k1)) \<and> set (trace_nodes (sub, subloops, k1)) \<subseteq> {k..<k1} \<and> k \<le> k1"
  proof (cases "complexInstruction i")
    case True
    with sub have "trace_of (scopedInstructions i) k = (sub, subloops, k1)" by (simp del: trace_of.simps)
    with "3.IH"(1) [OF True] show ?thesis by (simp del: trace_of.simps)
  next
    case False
    with sub show ?thesis by (auto simp: trace_nodes_def)
  qed
  then have s: "distinct (trace_nodes (sub, subloops, k1))"
    "set (trace_nodes (sub, subloops, k1)) \<subseteq> {k..<k1}" "k \<le> k1" by blast+
  have "set (map fst rest) \<subseteq> {..<k1}" using "3.prems"(2) s(3) by auto
  with "3.IH"(2) [OF sub [symmetric] refl] "3.prems"(1) main
  have m: "distinct (trace_nodes (main, loops, k2))"
    "set (trace_nodes (main, loops, k2)) \<subseteq> set (map fst rest) \<union> {k1..<k2}" "k1 \<le> k2"
    by simp_all
  have rest: "set (map fst rest) \<subseteq> {..<k}" "n < k" "n \<notin> set (map fst rest)" using "3.prems" by simp_all
  define S M where "S = trace_nodes (sub, subloops, k1)" and "M = trace_nodes (main, loops, k2)"
  have SM: "distinct S" "set S \<subseteq> {k..<k1}" "distinct M" "set M \<subseteq> set (map fst rest) \<union> {k1..<k2}"
    using s m by (simp_all add: S_def M_def)
  have "set M \<subseteq> {..<k} \<union> {k1..<k2}" using SM(4) rest(1) by blast
  moreover have "{k..<k1} \<inter> ({..<k} \<union> {k1..<k2}) = {}" by auto
  ultimately have disj: "set S \<inter> set M = {}" using SM(2) by blast
  have "n \<notin> {k..<k1}" "n \<notin> {k1..<k2}" using rest(2) s(3) by auto
  then have n: "n \<notin> set S" "n \<notin> set M" using SM(2,4) rest(3) by blast+
  define A B C D where "A = map fst sub" and "B = concat (map (map fst) subloops)"
    and "C = map fst main" and "D = concat (map (map fst) loops)"
  have res: "trace_nodes (trace_loop ((n, i) # rest) k) \<in> {n # C @ A @ B @ D, n # (A @ C) @ B @ D}"
    and cnt: "snd (snd (trace_loop ((n, i) # rest) k)) = k2"
    unfolding trace_loop.simps sub by (simp_all add: trace_nodes_def main A_def B_def C_def D_def)
  have S: "S = A @ B" and M: "M = C @ D"
    by (simp_all add: S_def M_def trace_nodes_def A_def B_def C_def D_def)
  have "distinct (trace_nodes (trace_loop ((n, i) # rest) k))"
    using res distinct_interleave [of A B C D n] SM(1,3) disj n
    unfolding S M by (metis insertE singletonD)
  moreover have "set (n # C @ A @ B @ D) = insert n (set S \<union> set M)"
    "set (n # (A @ C) @ B @ D) = insert n (set S \<union> set M)"
    unfolding S M by auto
  then have "set (trace_nodes (trace_loop ((n, i) # rest) k)) = insert n (set S \<union> set M)"
    using res by (metis insertE singletonD)
  moreover have "{k..<k1} \<union> {k1..<k2} \<subseteq> {k..<k2}" using s(3) m(3) by auto
  ultimately show ?case using SM(2,4) s(3) m(3) unfolding cnt by auto
qed


lemma build_inv_grow:
  assumes "build_inv (build_of st)" and "graph_inv h" and "dom (map_of (pnodes st)) \<subseteq> dom (map_of h)"
    and "pnodes st' = h" and "readMap st' = readMap st" and "writeMap st' = writeMap st"
  shows "build_inv (build_of st')"
  using assms(1-3) unfolding build_inv_def build_of_def build.select_convs assms(4-6) by blast

lemma built_append:
  assumes "built T H (m1, l1, k1) st st1" and "built T (H @ accs T m1) (m2, l2, k2) st1 st2"
  shows "built T H (m1 @ m2, l1 @ l2, k2) st st2"
proof -
  have c: "conflicts (H @ accs T m1) \<subseteq> conflicts (H @ accs T (m1 @ m2))"
    using conflicts_append [of "H @ accs T m1" "accs T m2"] by simp
  have a: "node_idCounter st1 = k1" "node_idCounter st \<le> k1" "dom (map_of (pnodes st)) \<subseteq> dom (map_of (pnodes st1))"
    "\<forall>t \<in> set l1. ordered (accs T t) (pedges st1)" "pedges st \<subseteq> pedges st1"
    "pedges st1 \<subseteq> pedges st \<union> conflicts (H @ accs T m1) \<union> (\<Union>t \<in> set l1. conflicts (accs T t))"
    using assms(1) by (simp_all add: built_def)
  have b: "pg_inv st2" "node_idCounter st2 = k2" "node_idCounter st1 \<le> k2"
    "dom (map_of (pnodes st1)) \<subseteq> dom (map_of (pnodes st2))"
    "tracked (H @ accs T (m1 @ m2)) (build_abs (build_of st2))"
    "\<forall>t \<in> set l2. ordered (accs T t) (pedges st2)" "pedges st1 \<subseteq> pedges st2"
    "pedges st2 \<subseteq> pedges st1 \<union> conflicts (H @ accs T (m1 @ m2)) \<union> (\<Union>t \<in> set l2. conflicts (accs T t))"
    using assms(2) by (simp_all add: built_def)
  have "\<forall>t \<in> set (l1 @ l2). ordered (accs T t) (pedges st2)"
    using a(4) b(6) ordered_mono [OF _ b(7)] by auto
  moreover have "pedges st2 \<subseteq> pedges st \<union> conflicts (H @ accs T (m1 @ m2))
      \<union> (\<Union>t \<in> set (l1 @ l2). conflicts (accs T t))"
    using a(6) b(8) c by (simp only: set_append UN_Un) blast
  moreover have "pedges st \<subseteq> pedges st2" using a(5) b(7) by (rule subset_trans)
  moreover have "dom (map_of (pnodes st)) \<subseteq> dom (map_of (pnodes st2))" using a(3) b(4) by (rule subset_trans)
  ultimately show ?thesis using a(1,2) b(1-3,5) unfolding built_def by simp
qed

lemma built_step:
  assumes "pg_inv st" and "table_ok T" and "n \<in> dom (map_of (pnodes st))"
    and "\<forall>(d, dep) \<in> set deps. dep_ok T d" and "tracked H (build_abs (build_of st))"
    and "n \<notin> acc_node ` set H"
  shows "\<exists>s. handleInstructionDeps T (n, deps) (build_of st) = Inr s
     \<and> built T H ([(n, deps)], [], node_idCounter st) st (with_maps st s)"
proof -
  let ?a = "access_of T (n, deps)"
  have inv: "build_inv (build_of st)" using assms(1) by (simp add: pg_inv_def)
  have "build_ok T (n, deps) (build_of st)" using assms(2-4) by (simp add: build_ok_def)
  then obtain s where s: "handleInstructionDeps T (n, deps) (build_of st) = Inr s"
    and i: "build_inv s" and abs: "build_abs s = track ?a (build_abs (build_of st))"
    and dom: "dom (map_of (bnodes s)) = dom (map_of (pnodes st))"
    using handleInstructionDeps_track [OF inv] by fastforce
  have node: "acc_node ?a = n" by (simp add: access_of_def)
  have bo: "build_of (with_maps st s) = s" by (simp add: with_maps_def build_of_def)
  have "tracked (H @ [?a]) (build_abs s)"
    unfolding abs using tracked_track [OF assms(5)] assms(6) by (simp add: node)
  moreover have E: "edges (bnodes s) = pedges st \<union> track_edges ?a (build_abs (build_of st))"
    using arg_cong [OF abs, of depEdges] by (simp add: build_abs_def track_def)
  moreover have "track_edges ?a (build_abs (build_of st)) \<subseteq> conflicts (H @ [?a])"
  proof (clarify)
    fix x y assume "(x, y) \<in> track_edges ?a (build_abs (build_of st))"
    then obtain b where "b \<in> set H" "acc_node b = x" "conflict b ?a" "y = acc_node ?a"
      using track_edges_conflict [OF assms(5)] by blast
    then show "(x, y) \<in> conflicts (H @ [?a])"
      using before_new [of b H ?a] unfolding conflicts_def by blast
  qed
  moreover have "pg_inv (with_maps st s)"
    using assms(1) i dom bo by (simp add: pg_inv_def with_maps_def)
  ultimately have "built T H ([(n, deps)], [], node_idCounter st) st (with_maps st s)"
    using dom unfolding built_def prod.case bo by (auto simp: with_maps_def)
  with s show ?thesis by blast
qed

text \<open>Attaching the nested graph to its node changes no link.\<close>

lemma attach_subgraph:
  assumes "pg_inv st" and "n \<in> dom (map_of (pnodes st))"
  shows "\<exists>h. modify_node n (\<lambda>nd. nd\<lparr>subgraphs := subgraphs nd @ [g]\<rparr>) (pnodes st) = Inr h
     \<and> pg_inv (st\<lparr>pnodes := h\<rparr>) \<and> dom (map_of h) = dom (map_of (pnodes st))
     \<and> build_abs (build_of (st\<lparr>pnodes := h\<rparr>)) = build_abs (build_of st) \<and> edges h = pedges st"
proof -
  obtain nd where nd: "map_of (pnodes st) n = Some nd" using assms(2) by auto
  let ?h = "aput n (nd\<lparr>subgraphs := subgraphs nd @ [g]\<rparr>) (pnodes st)"
  have "succ_of ?h m = succ_of (pnodes st) m" "pred_of ?h m = pred_of (pnodes st) m"
    "row_of ?h m l = row_of (pnodes st) m l" for m l
    using nd by (auto simp: succ_of_def pred_of_def row_of_def)
  note links = this
  have dom: "dom (map_of ?h) = dom (map_of (pnodes st))" using nd by auto
  have E: "edges ?h = pedges st" using links(1) by (auto simp: edges_of_def)
  have gi: "graph_inv ?h" using assms(1) links by (simp add: graph_inv_def pg_inv_def build_inv_def)
  have bi: "build_inv (build_of st)" using assms(1) by (simp add: pg_inv_def)
  have sub: "dom (map_of (pnodes st)) \<subseteq> dom (map_of ?h)" unfolding dom ..
  have "build_inv (build_of (st\<lparr>pnodes := ?h\<rparr>))"
    by (rule build_inv_grow [OF bi gi sub]) simp_all
  then have "pg_inv (st\<lparr>pnodes := ?h\<rparr>)" using assms by (auto simp: pg_inv_def)
  then show ?thesis
    using nd dom E by (intro exI [of _ ?h]) (simp add: modify_node_def deref_node_def build_abs_build_of)
qed

lemma built_attach:
  assumes "built T H tr st0 st" and "n \<in> dom (map_of (pnodes st))"
  shows "\<exists>h. modify_node n (\<lambda>nd. nd\<lparr>subgraphs := subgraphs nd @ [g]\<rparr>) (pnodes st) = Inr h
     \<and> built T H tr st0 (st\<lparr>pnodes := h\<rparr>)"
proof -
  have "pg_inv st" using assms(1) by (simp add: built_def split: prod.splits)
  from attach_subgraph [OF this assms(2)] obtain h where
    h: "modify_node n (\<lambda>nd. nd\<lparr>subgraphs := subgraphs nd @ [g]\<rparr>) (pnodes st) = Inr h"
    "pg_inv (st\<lparr>pnodes := h\<rparr>)" "dom (map_of h) = dom (map_of (pnodes st))"
    "build_abs (build_of (st\<lparr>pnodes := h\<rparr>)) = build_abs (build_of st)" "edges h = pedges st" by blast
  with assms(1) have "built T H tr st0 (st\<lparr>pnodes := h\<rparr>)"
    unfolding built_def by (simp split: prod.splits)
  with h(1) show ?thesis by blast
qed

text \<open>The body of a loop is a graph of its own: its accesses are not compared with the others.\<close>

lemma built_loop_body:
  assumes "tracked H (build_abs (build_of st))" and "pg_inv st"
    and "built T [] (sub, subloops, k) (st\<lparr>readMap := [], writeMap := []\<rparr>) st2"
  shows "built T H ([], sub # subloops, k) st (st2\<lparr>readMap := readMap st, writeMap := writeMap st\<rparr>)"
proof -
  let ?st = "st2\<lparr>readMap := readMap st, writeMap := writeMap st\<rparr>"
  have b: "pg_inv st2" "node_idCounter st2 = k" "node_idCounter st \<le> k"
    "dom (map_of (pnodes st)) \<subseteq> dom (map_of (pnodes st2))"
    "tracked (accs T sub) (build_abs (build_of st2))"
    "\<forall>t \<in> set subloops. ordered (accs T t) (pedges st2)" "pedges st \<subseteq> pedges st2"
    "pedges st2 \<subseteq> pedges st \<union> conflicts (accs T sub) \<union> (\<Union>t \<in> set subloops. conflicts (accs T t))"
    using assms(3) by (simp_all add: built_def)
  have "tracked H (build_abs (build_of ?st))"
    by (rule tracked_more_edges [OF assms(1)]) (use b(7) in \<open>simp_all add: build_abs_build_of\<close>)
  moreover have "ordered (accs T sub) (pedges st2)"
    using tracked_sorted [OF b(5)] by (simp add: ordered_def build_abs_build_of)
  moreover have "build_inv (build_of ?st)"
  proof (rule build_inv_grow)
    show "build_inv (build_of st)" using assms(2) by (simp add: pg_inv_def)
    show "graph_inv (pnodes st2)" using b(1) by (simp add: pg_inv_def build_inv_def)
    show "dom (map_of (pnodes st)) \<subseteq> dom (map_of (pnodes st2))" by (rule b(4))
  qed simp_all
  then have "pg_inv ?st" using b(1) by (simp add: pg_inv_def)
  ultimately show ?thesis
    using b unfolding built_def prod.case
    by (intro conjI) (simp, simp, simp, simp, simp, simp, simp, simp, blast)
qed


definition ready :: "'t aliasTable \<Rightarrow> addr access list \<Rightarrow> 't program_graph \<Rightarrow> bool" where
  "ready T H st \<longleftrightarrow> pg_inv st \<and> table_ok T \<and> tracked H (build_abs (build_of st))
     \<and> acc_node ` set H \<subseteq> {..<node_idCounter st}"

lemma built_ready:
  assumes "ready T H st" and "built T H (m, l, k) st st'"
    and "fst ` set m \<subseteq> {..<k}"
  shows "ready T (H @ accs T m) st'"
proof -
  have "acc_node ` set (accs T m) = fst ` set m" by (force simp: access_of_def image_iff)
  moreover have "acc_node ` set H \<subseteq> {..<k}" using assms(1,2) by (auto simp: ready_def built_def)
  ultimately show ?thesis using assms by (simp add: ready_def built_def image_Un)
qed

lemma trace_of_fresh:
  assumes "trace_of ins k = (m, l, k')"
  shows "fst ` set m \<subseteq> {k..<k'}" and "k \<le> k'"
  using trace_fresh(1) [of ins k] unfolding assms by (simp_all add: trace_nodes_def)

lemma readers_at_Nil [simp]: "readers_at [] = (\<lambda>_. {})"
  by (simp add: readers_at_def fun_eq_iff)

lemma loop_state_ready: "ready T H st \<Longrightarrow> ready T [] (st\<lparr>readMap := [], writeMap := []\<rparr>)"
  using tracked_empty [of "pedges st"]
  by (simp add: ready_def pg_inv_def build_inv_def build_of_def build_abs_def track_empty_def)

text \<open>The two halves of one step: the dependences of the instruction, then its nested graph.\<close>

lemma step_deps:
  assumes "ready T H st" and "n \<in> dom (map_of (pnodes st))" and "n \<notin> acc_node ` set H" and "instr_wf T i"
  shows "\<exists>s. handleInstructionDeps T (n, instr_dependencies i) (build_of st) = Inr s
     \<and> built T H ([(n, instr_dependencies i)], [], node_idCounter st) st (with_maps st s)
     \<and> ready T (H @ accs T [(n, instr_dependencies i)]) (with_maps st s)"
proof -
  have r: "pg_inv st" "table_ok T" "tracked H (build_abs (build_of st))"
    using assms(1) unfolding ready_def by blast+
  have w: "\<forall>(d, dep) \<in> set (instr_dependencies i). dep_ok T d" using assms(4) unfolding instr_wf_iff [of T i] by blast
  obtain s where s: "handleInstructionDeps T (n, instr_dependencies i) (build_of st) = Inr s"
    and B: "built T H ([(n, instr_dependencies i)], [], node_idCounter st) st (with_maps st s)"
    using built_step [OF r(1,2) assms(2) w r(3) assms(3)] by blast
  have "n < node_idCounter st" using r(1) assms(2) unfolding pg_inv_def by blast
  then have "ready T (H @ accs T [(n, instr_dependencies i)]) (with_maps st s)"
    by (intro built_ready [OF assms(1) B]) simp
  with s B show ?thesis by blast
qed

lemma step_scoped:
  assumes "ready T H st" and "instr_stmt i = Some x" and "n \<in> dom (map_of (pnodes st))"
    and "trace_of (scopedInstructions i) (node_idCounter st) = (sub, subloops, k)"
    and "isForStmt x \<Longrightarrow> \<exists>g st'. InstructionToGraph T (scopedInstructions i) True (st\<lparr>readMap := [], writeMap := []\<rparr>) = Inr (g, st')
        \<and> built T [] (sub, subloops, k) (st\<lparr>readMap := [], writeMap := []\<rparr>) st'"
    and "\<not> isForStmt x \<Longrightarrow> \<exists>g st'. InstructionToGraph T (scopedInstructions i) l st = Inr (g, st')
        \<and> built T H (sub, subloops, k) st st'"
  shows "\<exists>st4. bind_res
                    (if isForStmt x then
                       bind_res (InstructionToGraph T (scopedInstructions i) True
                                   (st\<lparr>readMap := [], writeMap := []\<rparr>)) (\<lambda>(g, st2).
                         Inr (g, st2\<lparr>readMap := readMap st, writeMap := writeMap st\<rparr>))
                     else InstructionToGraph T (scopedInstructions i) l st) (\<lambda>(g, st2).
                  bind_res (modify_node n (\<lambda>nd. nd\<lparr>subgraphs := subgraphs nd @ [g]\<rparr>) (pnodes st2)) (\<lambda>h.
                    Inr (st2\<lparr>pnodes := h\<rparr>))) = Inr st4
     \<and> built T H (if isForStmt x then ([], sub # subloops, k) else (sub, subloops, k)) st st4"
proof -
  let ?tr = "if isForStmt x then ([], sub # subloops, k) else (sub, subloops, k)"
  have r: "pg_inv st" "tracked H (build_abs (build_of st))" using assms(1) unfolding ready_def by blast+
  obtain g st2 where run: "(if isForStmt x then
                       bind_res (InstructionToGraph T (scopedInstructions i) True
                                   (st\<lparr>readMap := [], writeMap := []\<rparr>)) (\<lambda>(g, st2).
                         Inr (g, st2\<lparr>readMap := readMap st, writeMap := writeMap st\<rparr>))
                     else InstructionToGraph T (scopedInstructions i) l st) = Inr (g, st2)"
    and B: "built T H ?tr st st2"
  proof (cases "isForStmt x")
    case True
    with assms(5) obtain g st' where
      g: "InstructionToGraph T (scopedInstructions i) True (st\<lparr>readMap := [], writeMap := []\<rparr>) = Inr (g, st')"
      and b: "built T [] (sub, subloops, k) (st\<lparr>readMap := [], writeMap := []\<rparr>) st'" by blast
    show ?thesis
    proof (rule that)
      show "built T H ?tr st (st'\<lparr>readMap := readMap st, writeMap := writeMap st\<rparr>)"
        using built_loop_body [OF r(2,1) b] True by simp
    qed (use True g in \<open>simp del: InstructionToGraph.simps\<close>)
  next
    case False
    with assms(6) obtain g st' where
      "InstructionToGraph T (scopedInstructions i) l st = Inr (g, st')" "built T H (sub, subloops, k) st st'" by blast
    with False that show ?thesis by (simp del: InstructionToGraph.simps)
  qed
  have "dom (map_of (pnodes st)) \<subseteq> dom (map_of (pnodes st2))"
    using B unfolding built_def by (simp split: if_splits)
  with assms(3) have "n \<in> dom (map_of (pnodes st2))" by blast
  from built_attach [OF B this] obtain h where
    "modify_node n (\<lambda>nd. nd\<lparr>subgraphs := subgraphs nd @ [g]\<rparr>) (pnodes st2) = Inr h"
    "built T H ?tr st (st2\<lparr>pnodes := h\<rparr>)" by blast
  then show ?thesis unfolding run by (intro exI [of _ "st2\<lparr>pnodes := h\<rparr>"]) simp
qed

text \<open>\<open>InstructionToGraph\<close> returns, and processes exactly the trace.\<close>

lemma InstructionToGraph_built:
  fixes ins :: "'t instruction list"
  shows "ready T H st \<Longrightarrow> \<forall>i \<in> set ins. instr_wf T i \<Longrightarrow>
      \<exists>g st'. InstructionToGraph T ins isLoop st = Inr (g, st')
        \<and> built T H (trace_of ins (node_idCounter st)) st st'"
    and "ready T H st \<Longrightarrow> \<forall>i \<in> set (map snd nis). instr_wf T i \<Longrightarrow> distinct (map fst nis) \<Longrightarrow>
      set (map fst nis) \<subseteq> dom (map_of (pnodes st)) \<Longrightarrow> acc_node ` set H \<inter> set (map fst nis) = {} \<Longrightarrow>
      \<exists>st'. InstructionToGraph_loop T isLoop nis st = Inr st'
        \<and> built T H (trace_loop nis (node_idCounter st)) st st'"
proof (induction T ins isLoop st and T isLoop nis st arbitrary: H and H
    rule: InstructionToGraph_InstructionToGraph_loop.induct)
  case (1 T ins isLoop st)
  let ?k = "node_idCounter st"
  let ?st0 = "st\<lparr>graph_idCounter := Suc (graph_idCounter st)\<rparr>"
  let ?ids = "[?k..<?k + length ins]"
  let ?st1 = "create_nodes (graph_idCounter st) isLoop ins ?st0"
  have bo: "build_of ?st0 = build_of st" by (simp add: build_of_def)
  have inv0: "pg_inv ?st0" using "1.prems"(1) by (simp add: ready_def pg_inv_def bo)
  note c = create_nodes_inv [OF inv0, of "graph_idCounter st" isLoop ins]
  have H: "acc_node ` set H \<subseteq> {..<?k}" using "1.prems"(1) by (simp add: ready_def)
  have r1: "ready T H ?st1"
    using "1.prems"(1) c H by (auto simp: ready_def bo)
  have fst: "map fst (zip ?ids ins) = ?ids" and snd: "map snd (zip ?ids ins) = ins" by simp_all
  have "acc_node ` set H \<inter> set ?ids = {}" using H by auto
  then obtain st2 where st2: "InstructionToGraph_loop T isLoop (zip ?ids ins) ?st1 = Inr st2"
    and b: "built T H (trace_loop (zip ?ids ins) (node_idCounter ?st1)) ?st1 st2"
    using "1.IH" [OF refl refl refl r1] "1.prems"(2) c(2) unfolding fst snd by auto
  have "node_idCounter ?st1 = ?k + length ins" using c(4) by simp
  then have tr: "trace_loop (zip ?ids ins) (node_idCounter ?st1) = trace_of ins ?k" by simp
  have E: "pedges ?st1 = pedges st"
    using arg_cong [OF c(3), of depEdges] by (simp add: build_abs_build_of)
  let ?st3 = "st2\<lparr>graphs := aput (graph_idCounter st) \<lparr>graphId = graph_idCounter st, graph_nodes = ?ids,
               roots = filter (\<lambda>n. pred_of (pnodes st2) n = []) ?ids\<rparr> (graphs st2)\<rparr>"
  have bo3: "build_of ?st3 = build_of st2" by (simp add: build_of_def)
  then have pg: "pg_inv ?st3 = pg_inv st2" by (simp add: pg_inv_def)
  obtain m l k where t: "trace_of ins ?k = (m, l, k)" by (metis prod_cases3)
  have "dom (map_of (pnodes ?st1)) \<subseteq> dom (map_of (pnodes st2))" and "node_idCounter ?st1 \<le> k"
    using b unfolding tr t by (simp_all add: built_def)
  then have d: "dom (map_of (pnodes st)) \<subseteq> dom (map_of (pnodes st2))" "?k \<le> k"
    unfolding c(2) c(4) by simp_all
  have "built T H (m, l, k) st ?st3"
    using b d unfolding tr t built_def prod.case E bo3 pg by simp
  then have "built T H (trace_of ins ?k) st ?st3" unfolding t .
  moreover have "InstructionToGraph T ins isLoop st = Inr (graph_idCounter st, ?st3)"
    unfolding InstructionToGraph.simps Let_def st2 bind_res_simps ..
  ultimately show ?case by blast
next
  case (2 T isLoop st)
  then show ?case by (simp add: built_def ready_def)
next
  case (3 T isLoop n i rest st)
  let ?k = "node_idCounter st" and ?d = "instr_dependencies i"
  have wf: "instr_wf T i" "\<forall>i \<in> set (map snd rest). instr_wf T i" using "3.prems"(2) by simp_all
  have n: "n \<in> dom (map_of (pnodes st))" "n \<notin> acc_node ` set H" "n \<notin> set (map fst rest)"
    using "3.prems"(3-5) by auto
  obtain s where s: "handleInstructionDeps T (n, ?d) (build_of st) = Inr s"
    and B1: "built T H ([(n, ?d)], [], ?k) st (with_maps st s)"
    and r1: "ready T (H @ accs T [(n, ?d)]) (with_maps st s)"
    using step_deps [OF "3.prems"(1) n(1,2) wf(1)] by blast
  define st1 and H1 where "st1 = with_maps st s" and "H1 = H @ accs T [(n, ?d)]"
  have r1': "ready T H1 st1" and B1': "built T H ([(n, ?d)], [], ?k) st st1"
    using r1 B1 by (simp_all only: st1_def H1_def)
  have k1: "node_idCounter st1 = ?k" by (simp add: st1_def with_maps_def)
  have sub_dom: "dom (map_of (pnodes st)) \<subseteq> dom (map_of (pnodes st1))"
    using B1' unfolding built_def prod.case by blast
  obtain sub subloops k1 where sub: "(if complexInstruction i then trace_of (scopedInstructions i) ?k else ([], [], ?k))
      = (sub, subloops, k1)" by (metis prod_cases3)
  define loop where "loop \<longleftrightarrow> complexInstruction i \<and> starts_loop i"
  let ?tr = "if loop then ([], sub # subloops, k1) else (sub, subloops, k1)"
  obtain st4 where run: "(if complexInstruction i then
             (case instr_stmt i of
                None \<Rightarrow> Inl AssertFailed
              | Some s \<Rightarrow>
                  bind_res
                    (if isForStmt s then
                       bind_res (InstructionToGraph T (scopedInstructions i) True
                                   (st1\<lparr>readMap := [], writeMap := []\<rparr>)) (\<lambda>(g, st2).
                         Inr (g, st2\<lparr>readMap := readMap st1, writeMap := writeMap st1\<rparr>))
                     else InstructionToGraph T (scopedInstructions i) isLoop st1) (\<lambda>(g, st2).
                  bind_res (modify_node n (\<lambda>nd. nd\<lparr>subgraphs := subgraphs nd @ [g]\<rparr>) (pnodes st2)) (\<lambda>h.
                    Inr (st2\<lparr>pnodes := h\<rparr>))))
           else Inr st1) = Inr st4" and B4: "built T H1 ?tr st1 st4"
  proof (cases "complexInstruction i")
    case True
    then obtain x where x: "instr_stmt i = Some x" and w: "\<forall>j \<in> set (scopedInstructions i). instr_wf T j"
      using wf(1) unfolding instr_wf_iff [of T i] by blast
    have loop: "loop = isForStmt x" using True x by (simp add: loop_def starts_loop_def)
    have t: "trace_of (scopedInstructions i) (node_idCounter st1) = (sub, subloops, k1)"
      using sub True by (simp only: k1 if_True)
    have kc: "node_idCounter (st1\<lparr>readMap := [], writeMap := []\<rparr>) = node_idCounter st1" by simp
    note ih1 = "3.IH"(1) [OF st1_def True x _ loop_state_ready [OF r1'] w, unfolded kc t]
    note ih2 = "3.IH"(2) [OF st1_def True x _ r1' w, unfolded t]
    have nd: "n \<in> dom (map_of (pnodes st1))" using n(1) sub_dom by blast
    from step_scoped [OF r1' x nd t ih1 ih2] that show ?thesis
      unfolding loop x option.case by (simp only: True if_True) blast
  next
    case False
    then have "built T H1 ?tr st1 st1"
      using sub r1' k1 by (auto simp: loop_def built_def ready_def H1_def)
    with False that show ?thesis by simp
  qed
  obtain m1 l1 where tr: "?tr = (m1, l1, k1)" by (cases loop) simp_all
  have sub_nodes: "fst ` set sub \<subseteq> {?k..<k1}"
  proof (cases "complexInstruction i")
    case True
    then show ?thesis using sub trace_of_fresh(1) [of "scopedInstructions i" ?k] by (simp del: trace_of.simps)
  next
    case False
    then show ?thesis using sub by simp
  qed
  then have m1: "fst ` set m1 \<subseteq> {?k..<k1}" using tr by (cases loop) auto
  then have "fst ` set m1 \<subseteq> {..<k1}" by auto
  then have r4: "ready T (H1 @ accs T m1) st4" using built_ready [OF r1'] B4 unfolding tr by blast
  have dom4: "dom (map_of (pnodes st)) \<subseteq> dom (map_of (pnodes st4))" and k4: "node_idCounter st4 = k1"
    using B4 sub_dom unfolding tr built_def prod.case by blast+
  have fresh: "set (map fst rest) \<inter> {?k..<k1} = {}"
  proof -
    have "set (map fst rest) \<subseteq> {..<?k}"
      using "3.prems"(1,4) unfolding ready_def pg_inv_def by force
    then show ?thesis by auto
  qed
  have nodes: "acc_node ` set (accs T t) = fst ` set t" for t by (force simp: access_of_def image_iff)
  have disj: "acc_node ` set (H1 @ accs T m1) \<inter> set (map fst rest) = {}"
  proof -
    have "acc_node ` set (H1 @ accs T m1) = acc_node ` set H \<union> {n} \<union> fst ` set m1"
      unfolding H1_def set_append image_Un nodes by simp
    moreover have "fst ` set m1 \<inter> set (map fst rest) = {}" using m1 fresh by blast
    moreover have "acc_node ` set H \<inter> set (map fst rest) = {}" using "3.prems"(5) by auto
    ultimately show ?thesis using n(3) by blast
  qed
  have dist: "distinct (map fst rest)" using "3.prems"(3) by simp
  have "set (map fst rest) \<subseteq> dom (map_of (pnodes st))" using "3.prems"(4) by simp
  then have sub4: "set (map fst rest) \<subseteq> dom (map_of (pnodes st4))" using dom4 by (rule subset_trans)
  obtain st5 where run5: "InstructionToGraph_loop T isLoop rest st4 = Inr st5"
    and B5: "built T (H1 @ accs T m1) (trace_loop rest k1) st4 st5"
    using "3.IH"(3) [OF st1_def r4 wf(2) dist sub4 disj] unfolding k4 by blast
  obtain m2 l2 k2 where t2: "trace_loop rest k1 = (m2, l2, k2)" by (metis prod_cases3)
  have "built T H1 (m1 @ m2, l1 @ l2, k2) st1 st5"
    using built_append B4 B5 unfolding tr t2 by blast
  then have "built T H ([(n, ?d)] @ (m1 @ m2), [] @ (l1 @ l2), k2) st st5"
    using built_append [OF B1'] unfolding H1_def by blast
  moreover have "trace_loop ((n, i) # rest) ?k = ([(n, ?d)] @ (m1 @ m2), [] @ (l1 @ l2), k2)"
    unfolding trace_loop.simps sub prod.case t2 using tr by (cases loop) (auto simp: loop_def)
  ultimately have "built T H (trace_loop ((n, i) # rest) ?k) st st5" by simp
  moreover have "InstructionToGraph_loop T isLoop ((n, i) # rest) st = Inr st5"
    unfolding InstructionToGraph_loop.simps s bind_res_simps Let_def st1_def [symmetric] run run5 ..
  ultimately show ?case by blast
qed

section \<open>All the functions of a file\<close>

text \<open>Every function starts with empty maps; the counters of nodes and graphs are shared.\<close>

definition program_empty :: "'t program_graph" where
  "program_empty = \<lparr>pnodes = [], graphs = [], node_idCounter = 0, graph_idCounter = 0, readMap = [], writeMap = []\<rparr>"

fun generateGraph :: "'t aliasTable \<Rightarrow> 't instruction list list \<Rightarrow> 't program_graph \<Rightarrow> (nat list \<times> 't program_graph) res" where
  "generateGraph T [] st = Inr ([], st)"
| "generateGraph T (f # fs) st =
     bind_res (InstructionToGraph T f False (st\<lparr>readMap := [], writeMap := []\<rparr>)) (\<lambda>(g, st1).
     bind_res (generateGraph T fs st1) (\<lambda>(gs, st2). Inr (g # gs, st2)))"

text \<open>The traces of all the functions and their loop bodies, and the nodes in the order of processing.\<close>

fun program_traces :: "'t instruction list list \<Rightarrow> nat \<Rightarrow> trace list" where
  "program_traces [] k = []"
| "program_traces (f # fs) k = (case trace_of f k of (m, l, k') \<Rightarrow> m # l @ program_traces fs k')"

lemma conflicts_in_concat:
  assumes "t \<in> set ts"
  shows "conflicts (accs T t) \<subseteq> before (concat (map (map fst) ts))"
proof -
  obtain us vs where ts: "ts = us @ t # vs" using split_list [OF assms] by blast
  have "map fst (accs T t) = map fst t" unfolding map_map by (rule map_cong) (simp_all add: access_of_def)
  then have "conflicts (accs T t) \<subseteq> before (map fst t)" using conflicts_before [of "accs T t"] by (simp only:)
  then have "conflicts (accs T t) \<subseteq> before (map fst t @ concat (map (map fst) vs))"
    using before_append1 by blast
  then have "conflicts (accs T t) \<subseteq> before (concat (map (map fst) us) @ map fst t @ concat (map (map fst) vs))"
    using before_append2 by blast
  then show ?thesis by (simp add: ts)
qed

lemma program_traces_fresh:
  "distinct (concat (map (map fst) (program_traces fs k)))
   \<and> (\<forall>n \<in> set (concat (map (map fst) (program_traces fs k))). k \<le> n)"
proof (induction fs arbitrary: k)
  case Nil
  then show ?case by simp
next
  case (Cons f fs)
  obtain m l k' where t: "trace_of f k = (m, l, k')" by (metis prod_cases3)
  have f: "distinct (map fst m @ concat (map (map fst) l))"
    "set (map fst m @ concat (map (map fst) l)) \<subseteq> {k..<k'}" "k \<le> k'"
    using trace_fresh(1) [of f k] unfolding t by (simp_all add: trace_nodes_def)
  let ?A = "map fst m @ concat (map (map fst) l)" and ?B = "concat (map (map fst) (program_traces fs k'))"
  have "distinct ?B" and B: "\<forall>n \<in> set ?B. k' \<le> n" using Cons.IH [of k'] by blast+
  moreover have "set ?A \<inter> set ?B = {}" using f(2) B by fastforce
  ultimately have "distinct (?A @ ?B)" using f(1) by (simp only: distinct_append)
  moreover have "\<forall>n \<in> set (?A @ ?B). k \<le> n" using f(2,3) B by fastforce
  moreover have "concat (map (map fst) (program_traces (f # fs) k)) = ?A @ ?B"
    by (simp add: t del: trace_of.simps)
  ultimately show ?case by (simp only:)
qed

lemma ready_start: "pg_inv st \<Longrightarrow> table_ok T \<Longrightarrow> ready T [] (st\<lparr>readMap := [], writeMap := []\<rparr>)"
  using tracked_empty [of "pedges st"]
  by (simp add: ready_def pg_inv_def build_inv_def build_of_def build_abs_def track_empty_def)

lemma program_empty_inv: "pg_inv program_empty"
  by (simp add: pg_inv_def build_inv_def build_of_def program_empty_def graph_inv_def
      succ_of_def pred_of_def row_of_def)

lemma generateGraph_built:
  assumes "table_ok T" and "pg_inv st" and "\<forall>f \<in> set fs. \<forall>i \<in> set f. instr_wf T i"
  shows "\<exists>gs st'. generateGraph T fs st = Inr (gs, st') \<and> length gs = length fs \<and> pg_inv st'
     \<and> pedges st \<subseteq> pedges st'
     \<and> (\<forall>t \<in> set (program_traces fs (node_idCounter st)). ordered (accs T t) (pedges st'))
     \<and> pedges st' \<subseteq> pedges st \<union> (\<Union>t \<in> set (program_traces fs (node_idCounter st)). conflicts (accs T t))"
  using assms(2,3)
proof (induction fs arbitrary: st)
  case Nil
  then show ?case by simp
next
  case (Cons f fs)
  let ?st = "st\<lparr>readMap := [], writeMap := []\<rparr>"
  have wf: "\<forall>i \<in> set f. instr_wf T i" "\<forall>f \<in> set fs. \<forall>i \<in> set f. instr_wf T i" using Cons.prems(2) by simp_all
  obtain g st1 where run: "InstructionToGraph T f False ?st = Inr (g, st1)"
    and b: "built T [] (trace_of f (node_idCounter ?st)) ?st st1"
    using InstructionToGraph_built(1) [OF ready_start [OF Cons.prems(1) assms(1)] wf(1)] by blast
  obtain m l k where t: "trace_of f (node_idCounter st) = (m, l, k)" by (metis prod_cases3)
  have b1: "pg_inv st1" "node_idCounter st1 = k" "tracked (accs T m) (build_abs (build_of st1))"
    "\<forall>t \<in> set l. ordered (accs T t) (pedges st1)" "pedges st \<subseteq> pedges st1"
    "pedges st1 \<subseteq> pedges st \<union> conflicts (accs T m) \<union> (\<Union>t \<in> set l. conflicts (accs T t))"
    using b t by (simp_all add: built_def del: trace_of.simps)
  have om: "ordered (accs T m) (pedges st1)"
    using tracked_sorted [OF b1(3)] by (simp add: ordered_def build_abs_build_of)
  obtain gs st2 where run2: "generateGraph T fs st1 = Inr (gs, st2)" and len: "length gs = length fs"
    and i2: "pg_inv st2" and sub2: "pedges st1 \<subseteq> pedges st2"
    and o2: "\<forall>t \<in> set (program_traces fs k). ordered (accs T t) (pedges st2)"
    and e2: "pedges st2 \<subseteq> pedges st1 \<union> (\<Union>t \<in> set (program_traces fs k). conflicts (accs T t))"
    using Cons.IH [OF b1(1) wf(2)] unfolding b1(2) by blast
  have tr: "program_traces (f # fs) (node_idCounter st) = m # l @ program_traces fs k"
    by (simp add: t del: trace_of.simps)
  have "\<forall>t \<in> set (m # l @ program_traces fs k). ordered (accs T t) (pedges st2)"
    using om b1(4) o2 ordered_mono [OF _ sub2] by auto
  moreover have "pedges st2 \<subseteq> pedges st \<union> (\<Union>t \<in> set (m # l @ program_traces fs k). conflicts (accs T t))"
    using b1(6) e2 by (simp only: set_simps set_append) blast
  moreover have "pedges st \<subseteq> pedges st2" using b1(5) sub2 by (rule subset_trans)
  moreover have "generateGraph T (f # fs) st = Inr (g # gs, st2)"
    by (simp add: run run2 del: InstructionToGraph.simps)
  ultimately show ?case using len i2 unfolding tr by (intro exI [of _ "g # gs"] exI [of _ st2]) simp
qed

lemma pedges_empty: "pedges program_empty = {}"
  by (auto simp: program_empty_def edges_of_def succ_of_def)

text \<open>
  C2: for every file whose dependences are recorded entries, the construction of the graphs returns,
  one graph per function. Two instructions of a function (or of a loop body) of which one writes an
  entry the other reads or writes are linked by a path from the first to the second.
\<close>

theorem generateGraph_orders_conflicts:
  assumes "table_ok T" and "\<forall>f \<in> set fs. \<forall>i \<in> set f. instr_wf T i"
  shows "\<exists>gs st. generateGraph T fs program_empty = Inr (gs, st) \<and> length gs = length fs
     \<and> (\<forall>t \<in> set (program_traces fs 0). sorted_wrt
          (\<lambda>a b. conflict a b \<longrightarrow> (acc_node a, acc_node b) \<in> (edges (pnodes st))\<^sup>+) (map (access_of T) t))"
  using generateGraph_built [OF assms(1) program_empty_inv assms(2)]
  by (auto simp: ordered_def program_empty_def)

lemma generateGraph_edges:
  assumes "table_ok T" and "\<forall>f \<in> set fs. \<forall>i \<in> set f. instr_wf T i"
    and "generateGraph T fs program_empty = Inr (gs, st)"
  shows "edges (pnodes st) \<subseteq> (\<Union>t \<in> set (program_traces fs 0). conflicts (map (access_of T) t))"
    and "acyclic (edges (pnodes st))" and "graph_inv (pnodes st)"
proof -
  have E: "pedges st \<subseteq> (\<Union>t \<in> set (program_traces fs 0). conflicts (accs T t))" and i: "pg_inv st"
    using generateGraph_built [OF assms(1) program_empty_inv assms(2)] assms(3) pedges_empty
    by (auto simp: program_empty_def)
  have "pedges st \<subseteq> before (concat (map (map fst) (program_traces fs 0)))"
    using E conflicts_in_concat by blast
  then have "acyclic (pedges st)" using program_traces_fresh [of fs 0] before_acyclic by blast
  then show "acyclic (pedges st)" .
  show "edges (pnodes st) \<subseteq> (\<Union>t \<in> set (program_traces fs 0). conflicts (map (access_of T) t))" by (rule E)
  show "graph_inv (pnodes st)" using i by (simp add: pg_inv_def build_inv_def)
qed

text \<open>
  C4: the graphs have no other edges: every edge goes from an instruction to a later one of the
  same trace that conflicts with it, and the graph of the file has no cycle.
\<close>

theorem generateGraph_edges_acyclic:
  assumes "table_ok T" and "\<forall>f \<in> set fs. \<forall>i \<in> set f. instr_wf T i"
    and "generateGraph T fs program_empty = Inr (gs, st)"
  shows "edges (pnodes st) \<subseteq> (\<Union>t \<in> set (program_traces fs 0). conflicts (map (access_of T) t))
     \<and> acyclic (edges (pnodes st)) \<and> graph_inv (pnodes st)"
  using generateGraph_edges [OF assms] by blast

text \<open>A function that writes \<open>v3[0]\<close>, reads it, and has a loop whose body writes \<open>v3[i]\<close>.\<close>

definition ex_loc :: srcloc where
  "ex_loc = \<lparr>loc_offset = 0, loc_file = [], loc_system = False\<rparr>"

definition ex_file :: "unit instruction list list" where
  "ex_file =
     [[ex_instr False True 4, ex_instr True False 4,
       Instruction (Some (ForStmt 9 ex_loc None None None (CompoundStmt 10 ex_loc []))) [] True False 0
         [(5, \<lparr>isRead = True, isWrite = True\<rparr>)] [ex_instr False True 5, ex_instr True False 4] []]]"

lemma ex_dep_ok: "dep_ok ex_table 4" "dep_ok ex_table 5"
  using ex_stored by (fastforce simp: dep_ok_def)+

lemma ex_file_wf: "\<forall>f \<in> set ex_file. \<forall>i \<in> set f. instr_wf ex_table i"
  by (simp add: ex_file_def ex_instr_def ex_dep_ok)

lemma generateGraph_orders_conflicts_witness:
  "\<exists>gs st. generateGraph ex_table ex_file program_empty = Inr (gs, st) \<and> length gs = length ex_file
     \<and> (\<forall>t \<in> set (program_traces ex_file 0). sorted_wrt
          (\<lambda>a b. conflict a b \<longrightarrow> (acc_node a, acc_node b) \<in> (edges (pnodes st))\<^sup>+) (map (access_of ex_table) t))"
  by (rule generateGraph_orders_conflicts [OF table_inv_parts(1) [OF ex_table_inv] ex_file_wf])

definition ex_program :: "unit program_graph" where
  "ex_program = (case generateGraph ex_table ex_file program_empty of Inr (_, st) \<Rightarrow> st | Inl _ \<Rightarrow> program_empty)"

lemma ex_program: "generateGraph ex_table ex_file program_empty = Inr ([0], ex_program)"
  and ex_program_edges: "succ_of (pnodes ex_program) 0 = [1, 2]" "succ_of (pnodes ex_program) 1 = [2]"
    "succ_of (pnodes ex_program) 3 = [4]"
  by code_simp+

lemma ex_program_ok: "graph_inv (pnodes ex_program)" "acyclic (edges (pnodes ex_program))"
  using generateGraph_edges [OF table_inv_parts(1) [OF ex_table_inv] ex_file_wf ex_program] by blast+

lemma generateGraph_edges_acyclic_witness:
  "acyclic (edges (pnodes ex_program)) \<and> (0, 2) \<in> edges (pnodes ex_program)"
  using generateGraph_edges_acyclic [OF table_inv_parts(1) [OF ex_table_inv] ex_file_wf ex_program]
    ex_program_edges
  by (simp add: edges_of_def)

end
