(* ===== verification/Graph_Reduce.thy ===== *)
theory Graph_Reduce
  imports Graph_Order
begin

text \<open>
  The removal of the links that longer paths imply (\<open>transitiveReduction\<close> of \<open>Graph.cpp\<close>): the
  paths of the graph stay the same, and no link that another path implies is left.
\<close>

section \<open>transitiveReduction\<close>

lemma succ_of_outside: "n \<notin> fst ` set h \<Longrightarrow> succ_of h n = []"
  by (auto simp: succ_of_def dest: map_of_in_dom split: option.splits)

text \<open>The loop over the stack \<open>toVisit\<close>, on the shared set \<open>visited\<close>.\<close>

function visit_loop :: "'t nodes \<Rightarrow> nat list \<Rightarrow> nat list \<Rightarrow> nat list" where
  "visit_loop h [] visited = visited"
| "visit_loop h (curNode # toVisit) visited =
     (if curNode \<in> set visited then visit_loop h toVisit visited
      else visit_loop h (rev (succ_of h curNode) @ toVisit) (sins curNode visited))"
  by pat_completeness auto

termination
proof (relation "measures [\<lambda>(h, st, vis). card (fst ` set h - set vis), \<lambda>(h, st, vis). length st]")
  fix h :: "'t nodes" and cur :: nat and st vis
  assume new: "cur \<notin> set vis"
  show "((h, rev (succ_of h cur) @ st, sins cur vis), h, cur # st, vis)
      \<in> measures [\<lambda>(h, st, vis). card (fst ` set h - set vis), \<lambda>(h, st, vis). length st]"
  proof (cases "cur \<in> fst ` set h")
    case True
    then have "fst ` set h - set (sins cur vis) \<subset> fst ` set h - set vis" using new by auto
    then have "card (fst ` set h - set (sins cur vis)) < card (fst ` set h - set vis)"
      by (simp add: psubset_card_mono)
    then show ?thesis by simp
  next
    case False
    then have "fst ` set h - set (sins cur vis) = fst ` set h - set vis" by auto
    with succ_of_outside [OF False] show ?thesis by simp
  qed
qed simp_all

text \<open>\<open>node->next.erase(m); m->prev.erase(node)\<close>.\<close>

definition unlink :: "nat \<Rightarrow> nat \<Rightarrow> 't nodes \<Rightarrow> 't nodes res" where
  "unlink n m h =
     bind_res (modify_node n (\<lambda>nd. nd\<lparr>next_map := adel m (next_map nd)\<rparr>) h)
       (modify_node m (\<lambda>nd. nd\<lparr>prev_set := sdel n (prev_set nd)\<rparr>))"

definition reduce_node :: "nat \<Rightarrow> 't nodes \<Rightarrow> 't nodes res" where
  "reduce_node n h =
     bind_res (deref_node h n) (\<lambda>nd.
       (let visited = fold (\<lambda>m. visit_loop h (rev (succ_of h m))) (map fst (next_map nd)) [];
            toRemove = filter (\<lambda>m. m \<in> set visited) (map fst (next_map nd))
        in fold_res (unlink n) toRemove h))"

definition transitiveReduction :: "nat list \<Rightarrow> 't nodes \<Rightarrow> 't nodes res" where
  "transitiveReduction ns h = fold_res reduce_node ns h"

section \<open>Reduction of a relation\<close>

lemma path_avoids:
  assumes "(z, y) \<in> E\<^sup>*" and "(z, x) \<notin> E\<^sup>*" and "E - {x} \<times> UNIV \<subseteq> E'"
  shows "(z, y) \<in> E'\<^sup>*"
  using assms
proof (induction rule: rtrancl_induct)
  case (step u v)
  then have "u \<noteq> x" by blast
  then have "(u, v) \<in> E'" using step by blast
  with step show ?case by (auto intro: rtrancl_into_rtrancl)
qed simp

text \<open>Removing from one node the links that go to what its successors reach keeps all paths.\<close>

lemma reduce_paths:
  assumes "finite E" and "acyclic E"
  shows "(E - {x} \<times> (E\<^sup>+ `` (E `` {x})))\<^sup>+ = E\<^sup>+" (is "?E'\<^sup>+ = _")
proof
  show "?E'\<^sup>+ \<subseteq> E\<^sup>+" by (rule trancl_mono_subset) blast
next
  have cyc: "(u, u) \<notin> E\<^sup>+" for u using assms(2) by (simp add: acyclic_def)
  have link: "(u, v) \<in> ?E'\<^sup>+" if uv: "(u, v) \<in> E" for u v
  proof (cases "(u, v) \<in> ?E'")
    case True
    then show ?thesis by blast
  next
    case False
    then have u: "u = x" using uv by blast
    let ?S = "{z. (x, z) \<in> E \<and> (z, v) \<in> E\<^sup>*}"
    have "wf (E\<^sup>+)" using assms finite_acyclic_wf wf_trancl by blast
    moreover have "v \<in> ?S" using uv u by blast
    ultimately obtain z where z: "z \<in> ?S" and min: "\<And>w. (w, z) \<in> E\<^sup>+ \<Longrightarrow> w \<notin> ?S"
      by (rule wfE_min) blast
    have "z \<notin> E\<^sup>+ `` (E `` {x})"
    proof
      assume "z \<in> E\<^sup>+ `` (E `` {x})"
      then obtain w where w: "(x, w) \<in> E" "(w, z) \<in> E\<^sup>+" by blast
      then have "(w, v) \<in> E\<^sup>*" using z by (auto intro: trancl_into_rtrancl rtrancl_trans)
      then show False using min w by blast
    qed
    then have xz: "(x, z) \<in> ?E'" using z by blast
    have "(z, x) \<notin> E\<^sup>*" using z cyc by (blast intro: rtrancl_into_trancl2)
    then have "(z, v) \<in> ?E'\<^sup>*" using z path_avoids [of z v E x ?E'] by blast
    with xz u show ?thesis by (blast intro: rtrancl_into_trancl2)
  qed
  show "E\<^sup>+ \<subseteq> ?E'\<^sup>+"
  proof (rule subrelI)
    fix u v assume "(u, v) \<in> E\<^sup>+"
    then show "(u, v) \<in> ?E'\<^sup>+"
      by (induction rule: trancl_induct) (blast intro: link trancl_trans)+
  qed
qed

section \<open>Live nodes\<close>

text \<open>
  The nodes of the graphs, \<open>L\<close>. Fusion leaves nodes in memory that are in no graph any more and
  whose links are stale; no live node points to them.
\<close>

definition live_inv :: "nat set \<Rightarrow> 't nodes \<Rightarrow> bool" where
  "live_inv L h \<longleftrightarrow> L \<subseteq> dom (map_of h)
     \<and> (\<forall>x \<in> L. set (succ_of h x) \<subseteq> L \<and> set (pred_of h x) \<subseteq> L)
     \<and> (\<forall>x \<in> L. \<forall>y \<in> L. y \<in> set (succ_of h x) \<longleftrightarrow> x \<in> set (pred_of h y))
     \<and> (\<forall>x \<in> L. distinct (succ_of h x) \<and> distinct (pred_of h x))"

definition live_edges :: "nat set \<Rightarrow> 't nodes \<Rightarrow> (nat \<times> nat) set" where
  "live_edges L h = {(x, y). x \<in> L \<and> y \<in> set (succ_of h x)}"

lemma succ_dom: "y \<in> set (succ_of h x) \<Longrightarrow> x \<in> dom (map_of h)"
  by (cases "map_of h x") (simp_all add: succ_of_def domIff)

lemma pred_dom: "x \<in> set (pred_of h y) \<Longrightarrow> y \<in> dom (map_of h)"
  by (cases "map_of h y") (simp_all add: pred_of_def domIff)

lemma graph_inv_live:
  assumes "graph_inv h"
  shows "live_inv (dom (map_of h)) h" and "live_edges (dom (map_of h)) h = edges h"
proof -
  have i: "y \<in> set (succ_of h x) \<longleftrightarrow> x \<in> set (pred_of h y)" "distinct (succ_of h x)" "distinct (pred_of h x)" for x y
    using assms unfolding graph_inv_def by blast+
  have "set (succ_of h x) \<subseteq> dom (map_of h)" "set (pred_of h x) \<subseteq> dom (map_of h)" for x
    using i(1) succ_dom pred_dom by (meson subsetI)+
  then show "live_inv (dom (map_of h)) h" unfolding live_inv_def using i by blast
  show "live_edges (dom (map_of h)) h = edges h" unfolding live_edges_def edges_of_def using succ_dom by blast
qed

lemma finite_live_edges: "live_inv L h \<Longrightarrow> finite (live_edges L h)"
proof -
  assume l: "live_inv L h"
  then have "finite L" using finite_dom_map_of [of h] by (auto simp: live_inv_def intro: finite_subset)
  moreover have "live_edges L h \<subseteq> L \<times> L" using l by (auto simp: live_edges_def live_inv_def)
  ultimately show ?thesis by (blast intro: finite_subset)
qed

text \<open>The search follows live links only.\<close>

interpretation visit: worklist "succ_of h" "visit_loop h" "fst ` set h"
  for h :: "'t nodes"
  by unfold_locales (auto dest: succ_of_outside)

lemma live_reach:
  assumes "live_inv L h" and "x \<in> L"
  shows "(edges h)\<^sup>* `` {x} = (live_edges L h)\<^sup>* `` {x} \<and> (edges h)\<^sup>* `` {x} \<subseteq> L"
proof -
  have "(x, y) \<in> (live_edges L h)\<^sup>* \<and> y \<in> L" if "(x, y) \<in> (edges h)\<^sup>*" for y
    using that
  proof (induction rule: rtrancl_induct)
    case (step y z)
    then have "(y, z) \<in> live_edges L h" by (simp add: live_edges_def)
    with step show ?case using assms(1) by (auto simp: live_inv_def intro: rtrancl_into_rtrancl)
  qed (use assms(2) in simp)
  moreover have "(live_edges L h)\<^sup>* \<subseteq> (edges h)\<^sup>*"
    by (rule rtrancl_mono) (auto simp: live_edges_def)
  ultimately show ?thesis by blast
qed

lemma visited_set:
  "edges h `` set vis \<subseteq> set vis \<Longrightarrow>
   set (fold (\<lambda>m. visit_loop h (rev (succ_of h m))) ms vis) = set vis \<union> (edges h)\<^sup>+ `` set ms"
proof (induction ms arbitrary: vis)
  case Nil
  then show ?case by simp
next
  case (Cons m ms)
  let ?vis = "visit_loop h (rev (succ_of h m)) vis"
  have s: "set ?vis = set vis \<union> (edges h)\<^sup>+ `` {m}"
  proof -
    have "(edges h)\<^sup>* `` set (succ_of h m) = (edges h)\<^sup>+ `` {m}"
      by (auto simp: trancl_unfold_left) 
    then show ?thesis using visit.run_reachable [OF Cons.prems] by simp
  qed
  moreover have "edges h `` set ?vis \<subseteq> set ?vis"
    using Cons.prems unfolding s by (auto intro: trancl_into_trancl)
  ultimately show ?case using Cons.IH [of ?vis] by auto
qed

section \<open>Effect of the removal\<close>

text \<open>What removing links from \<open>h\<close> keeps: the live invariant, the nodes, the aliases of the links that stay.\<close>

definition thinned :: "nat set \<Rightarrow> 't nodes \<Rightarrow> 't nodes \<Rightarrow> bool" where
  "thinned L h h' \<longleftrightarrow> live_inv L h' \<and> same_nodes h h' \<and> dom (map_of h') = dom (map_of h)
     \<and> live_edges L h' \<subseteq> live_edges L h
     \<and> (\<forall>(x, y) \<in> live_edges L h'. row_of h' x y = row_of h x y)"

lemma thinned_refl: "live_inv L h \<Longrightarrow> thinned L h h"
  by (auto simp: thinned_def)

lemma thinned_trans:
  assumes "thinned L h h'" and "thinned L h' h''"
  shows "thinned L h h''"
proof -
  have "same_nodes h h''" using assms same_nodes_trans unfolding thinned_def by blast
  moreover have "live_edges L h'' \<subseteq> live_edges L h" using assms unfolding thinned_def by blast
  moreover have "row_of h'' x y = row_of h x y" if "(x, y) \<in> live_edges L h''" for x y
    using assms that unfolding thinned_def by fastforce
  ultimately show ?thesis using assms unfolding thinned_def by auto
qed

lemma map_fst_adel: "map fst (adel k m) = sdel k (map fst m)"
  by (induction m) (auto simp: adel_def sdel_def)

lemma unlink_thins:
  assumes "live_inv L h" and "(x, y) \<in> live_edges L h" and "x \<noteq> y"
  shows "\<exists>h'. unlink x y h = Inr h' \<and> thinned L h h' \<and> live_edges L h' = live_edges L h - {(x, y)}"
proof -
  have xy: "x \<in> L" "y \<in> L" using assms(1,2) by (auto simp: live_edges_def live_inv_def)
  then obtain nx ny where nx: "map_of h x = Some nx" and ny: "map_of h y = Some ny"
    using assms(1) unfolding live_inv_def by (meson domD subsetD)
  let ?h = "aput y (ny\<lparr>prev_set := sdel x (prev_set ny)\<rparr>) (aput x (nx\<lparr>next_map := adel y (next_map nx)\<rparr>) h)"
  have run: "unlink x y h = Inr ?h"
    using assms(3) nx ny by (simp add: unlink_def modify_node_def deref_node_def)
  have succ: "succ_of ?h u = (if u = x then sdel y (succ_of h x) else succ_of h u)" for u
    using assms(3) nx ny by (auto simp: edge_simps succ_of_def map_fst_adel)
  have pred: "pred_of ?h u = (if u = y then sdel x (pred_of h y) else pred_of h u)" for u
    using assms(3) nx ny by (auto simp: edge_simps pred_of_def)
  have rows: "row_of ?h u v = row_of h u v" if "(u, v) \<noteq> (x, y)" for u v
    using assms(3) that nx ny by (auto simp: edge_simps row_of_def)
  have dom: "dom (map_of ?h) = dom (map_of h)" using nx ny by auto
  have same: "same_nodes h ?h" using nx ny by (auto simp: same_nodes_def)
  have E: "live_edges L ?h = live_edges L h - {(x, y)}" by (auto simp: live_edges_def succ split: if_splits)
  have "live_inv L ?h"
    using assms(1) unfolding live_inv_def dom succ pred by (auto simp: xy)
  then have "thinned L h ?h" using dom same E rows by (auto simp: thinned_def)
  with run E show ?thesis by blast
qed

lemma unlink_all:
  assumes "live_inv L h" and "\<forall>y \<in> set ys. (x, y) \<in> live_edges L h \<and> x \<noteq> y" and "distinct ys"
  shows "\<exists>h'. fold_res (unlink x) ys h = Inr h' \<and> thinned L h h'
     \<and> live_edges L h' = live_edges L h - {x} \<times> set ys"
  using assms
proof (induction ys arbitrary: h)
  case Nil
  then show ?case by (simp add: thinned_refl)
next
  case (Cons y ys)
  obtain h1 where h1: "unlink x y h = Inr h1" "thinned L h h1" "live_edges L h1 = live_edges L h - {(x, y)}"
    using unlink_thins [OF Cons.prems(1)] Cons.prems(2) by force
  have "live_inv L h1" using h1(2) by (simp add: thinned_def)
  moreover have "\<forall>z \<in> set ys. (x, z) \<in> live_edges L h1 \<and> x \<noteq> z" using Cons.prems(2,3) unfolding h1(3) by auto
  ultimately obtain h2 where "fold_res (unlink x) ys h1 = Inr h2" "thinned L h1 h2"
    "live_edges L h2 = live_edges L h1 - {x} \<times> set ys"
    using Cons.IH [of h1] Cons.prems(3) by auto
  then show ?case using h1 thinned_trans by (intro exI [of _ h2]) auto
qed

lemma live_trancl:
  assumes "live_inv L h" and "x \<in> L"
  shows "(edges h)\<^sup>+ `` {x} = (live_edges L h)\<^sup>+ `` {x}"
proof -
  have "(x, y) \<in> live_edges L h" if "(x, y) \<in> edges h" for y using that assms(2) by (simp add: live_edges_def)
  moreover have "live_edges L h \<subseteq> edges h" by (auto simp: live_edges_def)
  moreover have "(y, z) \<in> (live_edges L h)\<^sup>*" if "(x, y) \<in> edges h" "(y, z) \<in> (edges h)\<^sup>*" for y z
  proof -
    have "y \<in> L" using that(1) assms by (auto simp: live_inv_def)
    then show ?thesis using live_reach [OF assms(1)] that(2) by blast
  qed
  ultimately have "(x, z) \<in> (edges h)\<^sup>+ \<longleftrightarrow> (x, z) \<in> (live_edges L h)\<^sup>+" for z
    unfolding trancl_unfold_left using rtrancl_mono [of "live_edges L h" "edges h"] by blast
  then show ?thesis by blast
qed

lemma reduce_node_effect:
  assumes "live_inv L h" and "acyclic (live_edges L h)" and "x \<in> L"
  shows "\<exists>h'. reduce_node x h = Inr h' \<and> thinned L h h'
     \<and> live_edges L h' = live_edges L h - {x} \<times> ((live_edges L h)\<^sup>+ `` (live_edges L h `` {x}))"
proof -
  let ?E = "live_edges L h"
  obtain nd where nd: "map_of h x = Some nd" using assms(1,3) unfolding live_inv_def by blast
  let ?ms = "map fst (next_map nd)"
  have ms: "?ms = succ_of h x" using nd by (simp add: succ_of_def)
  let ?vis = "fold (\<lambda>m. visit_loop h (rev (succ_of h m))) ?ms []"
  have V: "set ?vis = ?E\<^sup>+ `` (?E `` {x})"
  proof -
    have "set ?vis = (edges h)\<^sup>+ `` set ?ms" using visited_set [of h "[]" ?ms] by simp
    also have "set ?ms = ?E `` {x}" using assms(3) unfolding ms by (auto simp: live_edges_def)
    also have "(edges h)\<^sup>+ `` (?E `` {x}) = ?E\<^sup>+ `` (?E `` {x})"
    proof -
      have "?E `` {x} \<subseteq> L" using assms(1,3) by (auto simp: live_edges_def live_inv_def)
      then show ?thesis using live_trancl [OF assms(1)] by blast
    qed
    finally show ?thesis .
  qed
  let ?rm = "filter (\<lambda>m. m \<in> set ?vis) ?ms"
  have "\<forall>y \<in> set ?rm. (x, y) \<in> ?E \<and> x \<noteq> y"
  proof -
    have "(x, x) \<notin> ?E" using assms(2) by (auto simp: acyclic_def)
    then show ?thesis using assms(3) unfolding ms by (auto simp: live_edges_def)
  qed
  moreover have "distinct ?rm" using assms(1,3) unfolding ms by (simp add: live_inv_def)
  ultimately obtain h' where "fold_res (unlink x) ?rm h = Inr h'" "thinned L h h'"
    "live_edges L h' = ?E - {x} \<times> set ?rm"
    using unlink_all [OF assms(1)] by blast
  moreover have "?E - {x} \<times> set ?rm = ?E - {x} \<times> (?E\<^sup>+ `` (?E `` {x}))"
    using V unfolding ms by (auto simp: live_edges_def)
  moreover have "reduce_node x h = fold_res (unlink x) ?rm h"
    by (simp add: reduce_node_def deref_node_def nd Let_def)
  ultimately show ?thesis by simp
qed

text \<open>The loop over the nodes.\<close>

definition not_implied :: "(nat \<times> nat) set \<Rightarrow> nat \<Rightarrow> bool" where
  "not_implied E x \<longleftrightarrow> (\<forall>y. (x, y) \<in> E \<longrightarrow> (x, y) \<notin> E O E\<^sup>+)"

lemma transitiveReduction_effect:
  assumes "live_inv L h" and "acyclic (live_edges L h)" and "set ns \<subseteq> L"
  shows "\<exists>h'. transitiveReduction ns h = Inr h' \<and> thinned L h h'
     \<and> (live_edges L h')\<^sup>+ = (live_edges L h)\<^sup>+ \<and> (\<forall>x \<in> set ns. not_implied (live_edges L h') x)"
  using assms
proof (induction ns arbitrary: h)
  case Nil
  then show ?case by (simp add: transitiveReduction_def thinned_refl)
next
  case (Cons x ns)
  let ?E = "live_edges L h"
  obtain h1 where h1: "reduce_node x h = Inr h1" "thinned L h h1"
    and E1: "live_edges L h1 = ?E - {x} \<times> (?E\<^sup>+ `` (?E `` {x}))"
    using reduce_node_effect [OF Cons.prems(1,2)] Cons.prems(3) by force
  have T1: "(live_edges L h1)\<^sup>+ = ?E\<^sup>+"
    unfolding E1 by (rule reduce_paths [OF finite_live_edges [OF Cons.prems(1)] Cons.prems(2)])
  have "acyclic (live_edges L h1)" using Cons.prems(2) unfolding acyclic_def T1 .
  then obtain h2 where h2: "transitiveReduction ns h1 = Inr h2" "thinned L h1 h2"
    "(live_edges L h2)\<^sup>+ = (live_edges L h1)\<^sup>+" "\<forall>x \<in> set ns. not_implied (live_edges L h2) x"
    using Cons.IH [of h1] Cons.prems(3) h1(2) by (auto simp: thinned_def)
  have sub: "live_edges L h2 \<subseteq> live_edges L h1" using h2(2) by (simp add: thinned_def)
  have "not_implied (live_edges L h2) x"
    unfolding not_implied_def
  proof (intro allI impI notI)
    fix y assume xy: "(x, y) \<in> live_edges L h2" and "(x, y) \<in> live_edges L h2 O (live_edges L h2)\<^sup>+"
    then obtain z where "(x, z) \<in> live_edges L h2" "(z, y) \<in> (live_edges L h2)\<^sup>+" by (elim relcompE) simp
    then have "(x, z) \<in> ?E" "(z, y) \<in> ?E\<^sup>+" using sub E1 unfolding h2(3) T1 by blast+
    then have "(x, y) \<notin> live_edges L h1" unfolding E1 by blast
    then show False using xy sub by blast
  qed
  then show ?case
    using h1 h2 T1 thinned_trans [OF h1(2) h2(2)]
    by (intro exI [of _ h2]) (simp add: transitiveReduction_def)
qed

text \<open>
  C6: on a graph without cycles, the transitive reduction returns; the same pairs of nodes are
  linked by a path afterwards, only links are removed, a link that stays keeps its aliases, and of
  the nodes given no link is left that a path through another successor implies.
\<close>

theorem transitiveReduction_correct:
  assumes "graph_inv h" and "acyclic (edges h)" and "set ns \<subseteq> dom (map_of h)"
  shows "\<exists>h'. transitiveReduction ns h = Inr h' \<and> (edges h')\<^sup>+ = (edges h)\<^sup>+ \<and> edges h' \<subseteq> edges h
     \<and> (\<forall>(x, y) \<in> edges h'. row_of h' x y = row_of h x y)
     \<and> (\<forall>x \<in> set ns. \<forall>y. (x, y) \<in> edges h' \<longrightarrow> (x, y) \<notin> edges h' O (edges h')\<^sup>+)"
proof -
  let ?L = "dom (map_of h)"
  note l = graph_inv_live [OF assms(1)]
  obtain h' where h': "transitiveReduction ns h = Inr h'" "thinned ?L h h'"
    "(live_edges ?L h')\<^sup>+ = (live_edges ?L h)\<^sup>+" "\<forall>x \<in> set ns. not_implied (live_edges ?L h') x"
    using transitiveReduction_effect [OF l(1)] l(2) assms(2,3) by force
  have "live_edges ?L h' = edges h'"
    using h'(2) succ_dom [of _ h'] unfolding thinned_def live_edges_def edges_of_def by blast
  with h' l(2) show ?thesis
    unfolding thinned_def not_implied_def by (intro exI [of _ h']) (simp only: simp_thms, blast)
qed

text \<open>In the example the link from the write to the loop is implied by the read between them.\<close>

lemma transitiveReduction_correct_witness:
  "\<exists>h'. transitiveReduction [0, 1, 2] (pnodes ex_program) = Inr h' \<and> (edges h')\<^sup>+ = (edges (pnodes ex_program))\<^sup>+
     \<and> (0, 2) \<in> edges (pnodes ex_program) \<and> (0, 2) \<notin> edges h'"
proof -
  have g: "graph_inv (pnodes ex_program)" "acyclic (edges (pnodes ex_program))"
    using ex_program_ok by blast+
  have "list_all (\<lambda>n. map_of (pnodes ex_program) n \<noteq> None) [0, 1, 2]" by code_simp
  then have "set [0, 1, 2] \<subseteq> dom (map_of (pnodes ex_program))" by auto
  from transitiveReduction_correct [OF g this] obtain h' where
    h': "transitiveReduction [0, 1, 2] (pnodes ex_program) = Inr h'" "(edges h')\<^sup>+ = (edges (pnodes ex_program))\<^sup>+"
    by blast
  have "(0, 2) \<in> edges (pnodes ex_program)" using ex_program_edges by simp
  moreover have "case transitiveReduction [0, 1, 2] (pnodes ex_program) of Inl e \<Rightarrow> False
      | Inr h \<Rightarrow> 2 \<notin> set (succ_of h 0)" by code_simp
  ultimately show ?thesis using h' by simp
qed

end
