(* ===== verification/Fusion_Order.thy ===== *)
theory Fusion_Order
  imports Prelude
begin

text \<open>
  Fusing the nodes of an acyclic graph, without the code: a node of the fused graph stands for a
  chain of the original nodes. \<open>chains E0 L0 E L B\<close> says that the graph \<open>E\<close> on the nodes \<open>L\<close>, in which
  \<open>z\<close> stands for the list \<open>B z\<close>, orders all that the original graph \<open>E0\<close> on \<open>L0\<close> orders and has no
  order that contradicts it.
\<close>

definition chains :: "('a \<times> 'a) set \<Rightarrow> 'a set \<Rightarrow> ('a \<times> 'a) set \<Rightarrow> 'a set \<Rightarrow> ('a \<Rightarrow> 'a list) \<Rightarrow> bool" where
  "chains E0 L0 E L B \<longleftrightarrow>
     (\<forall>z \<in> L. B z \<noteq> [] \<and> set (B z) \<subseteq> L0 \<and> sorted_wrt (\<lambda>x y. (x, y) \<in> E0\<^sup>+) (B z))
     \<and> (\<forall>z z'. (z, z') \<in> E \<longrightarrow> (last (B z), hd (B z')) \<in> E0\<^sup>+)
     \<and> (\<forall>x \<in> L0. \<exists>z \<in> L. x \<in> set (B z))
     \<and> (\<forall>z \<in> L. \<forall>z' \<in> L. z \<noteq> z' \<longrightarrow> set (B z) \<inter> set (B z') = {})
     \<and> (\<forall>z \<in> L. \<forall>z' \<in> L. z \<noteq> z' \<longrightarrow> (\<forall>x \<in> set (B z). \<forall>y \<in> set (B z'). (x, y) \<in> E0\<^sup>+ \<longrightarrow> (z, z') \<in> E\<^sup>+))"

lemma chainsD:
  assumes "chains E0 L0 E L B"
  shows "z \<in> L \<Longrightarrow> B z \<noteq> []" "z \<in> L \<Longrightarrow> set (B z) \<subseteq> L0"
    "z \<in> L \<Longrightarrow> sorted_wrt (\<lambda>x y. (x, y) \<in> E0\<^sup>+) (B z)"
    "(z, z') \<in> E \<Longrightarrow> (last (B z), hd (B z')) \<in> E0\<^sup>+"
    "x \<in> L0 \<Longrightarrow> \<exists>z \<in> L. x \<in> set (B z)"
    "z \<in> L \<Longrightarrow> z' \<in> L \<Longrightarrow> z \<noteq> z' \<Longrightarrow> set (B z) \<inter> set (B z') = {}"
    "z \<in> L \<Longrightarrow> z' \<in> L \<Longrightarrow> z \<noteq> z' \<Longrightarrow> x \<in> set (B z) \<Longrightarrow> y \<in> set (B z') \<Longrightarrow> (x, y) \<in> E0\<^sup>+ \<Longrightarrow> (z, z') \<in> E\<^sup>+"
proof -
  have c: "\<forall>z \<in> L. B z \<noteq> [] \<and> set (B z) \<subseteq> L0 \<and> sorted_wrt (\<lambda>x y. (x, y) \<in> E0\<^sup>+) (B z)"
    "\<forall>z z'. (z, z') \<in> E \<longrightarrow> (last (B z), hd (B z')) \<in> E0\<^sup>+"
    "\<forall>x \<in> L0. \<exists>z \<in> L. x \<in> set (B z)"
    "\<forall>z \<in> L. \<forall>z' \<in> L. z \<noteq> z' \<longrightarrow> set (B z) \<inter> set (B z') = {}"
    "\<forall>z \<in> L. \<forall>z' \<in> L. z \<noteq> z' \<longrightarrow> (\<forall>x \<in> set (B z). \<forall>y \<in> set (B z'). (x, y) \<in> E0\<^sup>+ \<longrightarrow> (z, z') \<in> E\<^sup>+)"
    using assms unfolding chains_def by - (elim conjE, assumption)+
  show "z \<in> L \<Longrightarrow> B z \<noteq> []" "z \<in> L \<Longrightarrow> set (B z) \<subseteq> L0"
    "z \<in> L \<Longrightarrow> sorted_wrt (\<lambda>x y. (x, y) \<in> E0\<^sup>+) (B z)" using c(1) by simp_all
  show "(z, z') \<in> E \<Longrightarrow> (last (B z), hd (B z')) \<in> E0\<^sup>+" using c(2) by simp
  show "x \<in> L0 \<Longrightarrow> \<exists>z \<in> L. x \<in> set (B z)" using c(3) by simp
  show "z \<in> L \<Longrightarrow> z' \<in> L \<Longrightarrow> z \<noteq> z' \<Longrightarrow> set (B z) \<inter> set (B z') = {}" using c(4) by simp
  show "z \<in> L \<Longrightarrow> z' \<in> L \<Longrightarrow> z \<noteq> z' \<Longrightarrow> x \<in> set (B z) \<Longrightarrow> y \<in> set (B z') \<Longrightarrow> (x, y) \<in> E0\<^sup>+ \<Longrightarrow> (z, z') \<in> E\<^sup>+"
    using c(5) by blast
qed

lemma chains_start: "E \<subseteq> L \<times> L \<Longrightarrow> chains E L E L (\<lambda>x. [x])"
  by (auto simp: chains_def)

lemma chains_thin:
  assumes "chains E0 L0 E L B" and "E' \<subseteq> E" and "E'\<^sup>+ = E\<^sup>+"
  shows "chains E0 L0 E' L B"
proof -
  have "\<forall>z z'. (z, z') \<in> E' \<longrightarrow> (last (B z), hd (B z')) \<in> E0\<^sup>+"
    using chainsD(4) [OF assms(1)] assms(2) by blast
  then show ?thesis using assms(1) unfolding chains_def assms(3) by (elim conjE, intro conjI)
qed

lemma sorted_hd_last:
  assumes "sorted_wrt (\<lambda>x y. (x, y) \<in> r\<^sup>+) xs" and "xs \<noteq> []"
  shows "(hd xs, last xs) \<in> r\<^sup>*"
  using assms by (cases xs) (auto intro: trancl_into_rtrancl)

lemma chains_heads:
  assumes "chains E0 L0 E L B" and "E \<subseteq> L \<times> L" and "(z, z') \<in> E\<^sup>+"
  shows "(hd (B z), hd (B z')) \<in> E0\<^sup>+"
  using assms(3)
proof (induction rule: trancl_induct)
  case (base y)
  then have "(hd (B z), last (B z)) \<in> E0\<^sup>*" using chainsD(1,3) [OF assms(1)] assms(2) sorted_hd_last by blast
  then show ?case using chainsD(4) [OF assms(1) base] by (rule rtrancl_trancl_trancl)
next
  case (step y w)
  then have "(hd (B y), last (B y)) \<in> E0\<^sup>*" using chainsD(1,3) [OF assms(1)] assms(2) sorted_hd_last by blast
  then have "(hd (B y), hd (B w)) \<in> E0\<^sup>+" using chainsD(4) [OF assms(1) step(2)] by (rule rtrancl_trancl_trancl)
  with step.IH show ?case by (rule trancl_trans)
qed

lemma chains_acyclic:
  assumes "chains E0 L0 E L B" and "E \<subseteq> L \<times> L" and "acyclic E0"
  shows "acyclic E"
  using chains_heads [OF assms(1,2)] assms(3) unfolding acyclic_def by blast

text \<open>Fusion of a node with its only successor, of which it is the only predecessor.\<close>

definition fused_edges :: "'a \<Rightarrow> 'a \<Rightarrow> ('a \<times> 'a) set \<Rightarrow> ('a \<times> 'a) set" where
  "fused_edges n1 n2 E = {n1} \<times> E `` {n2} \<union> {(x, y) \<in> E. x \<noteq> n1 \<and> x \<noteq> n2}"

lemma fused_path:
  assumes "E `` {n1} = {n2}" and "\<forall>x. (x, n2) \<in> E \<longrightarrow> x = n1" and "n1 \<noteq> n2" and "(u, v) \<in> E\<^sup>*"
  shows "(if u = n2 then n1 else u, if v = n2 then n1 else v) \<in> (fused_edges n1 n2 E)\<^sup>*"
  using assms(4)
proof (induction rule: rtrancl_induct)
  case (step y z)
  have "(if y = n2 then n1 else y, if z = n2 then n1 else z) \<in> (fused_edges n1 n2 E)\<^sup>*"
  proof (cases "z = n2")
    case True
    then have "y = n1" using step(2) assms(2) by blast
    then show ?thesis using True assms(3) by simp
  next
    case False
    then have "y \<noteq> n1" using step(2) assms(1) by blast
    then have "(if y = n2 then n1 else y, z) \<in> fused_edges n1 n2 E"
      using step(2) by (auto simp: fused_edges_def)
    then show ?thesis using False by auto
  qed
  with step.IH show ?case by (rule rtrancl_trans)
qed simp

lemma chains_fuse:
  assumes "chains E0 L0 E L B" and "E \<subseteq> L \<times> L"
    and "E `` {n1} = {n2}" and "\<forall>x. (x, n2) \<in> E \<longrightarrow> x = n1" and "n1 \<noteq> n2"
  shows "chains E0 L0 (fused_edges n1 n2 E) (L - {n2}) (B(n1 := B n1 @ B n2))"
proof -
  let ?E = "fused_edges n1 n2 E" and ?L = "L - {n2}" and ?B = "B(n1 := B n1 @ B n2)"
  note c = chainsD [OF assms(1)]
  have edge: "(n1, n2) \<in> E" using assms(3) by blast
  then have L: "n1 \<in> L" "n2 \<in> L" using assms(2) by blast+
  have ne: "B n1 \<noteq> []" "B n2 \<noteq> []" using c(1) L by blast+
  have link: "(x, y) \<in> E0\<^sup>+" if "x \<in> set (B n1)" "y \<in> set (B n2)" for x y
  proof -
    have "(x, last (B n1)) \<in> E0\<^sup>*"
      using that(1) ne(1) c(3) [OF L(1)] by (cases "B n1" rule: rev_cases) (auto simp: sorted_wrt_append)
    moreover have "(hd (B n2), y) \<in> E0\<^sup>*" using that(2) c(3) [OF L(2)] by (cases "B n2") auto
    ultimately show ?thesis using c(4) [OF edge] by (meson rtrancl_trancl_trancl trancl_rtrancl_trancl)
  qed
  have origin: "\<exists>u \<in> L. x \<in> set (B u) \<and> z = (if u = n2 then n1 else u)" if "z \<in> ?L" "x \<in> set (?B z)" for z x
    using that L by (cases "z = n1") auto
  show ?thesis
    unfolding chains_def
  proof (intro conjI ballI allI impI)
    fix z assume z: "z \<in> ?L"
    show "?B z \<noteq> []" using z c(1) ne by auto
    show "set (?B z) \<subseteq> L0" using z c(2) L by auto
    show "sorted_wrt (\<lambda>x y. (x, y) \<in> E0\<^sup>+) (?B z)"
      using z c(3) L link by (auto simp: sorted_wrt_append)
  next
    fix z z' assume e: "(z, z') \<in> ?E"
    then obtain u where u: "(u, z') \<in> E" "z = n1 \<and> u = n2 \<or> z = u \<and> u \<noteq> n1 \<and> u \<noteq> n2"
      by (auto simp: fused_edges_def)
    then have "last (?B z) = last (B u)" using ne(2) by auto
    moreover have "hd (?B z') = hd (B z')" using ne(1) by simp
    ultimately show "(last (?B z), hd (?B z')) \<in> E0\<^sup>+" using c(4) [OF u(1)] by (simp only:)
  next
    fix x assume "x \<in> L0"
    then obtain u where "u \<in> L" "x \<in> set (B u)" using c(5) by blast
    then show "\<exists>z \<in> ?L. x \<in> set (?B z)"
      using L assms(5) by (intro bexI [of _ "if u = n2 then n1 else u"]) auto
  next
    fix z z' assume z: "z \<in> ?L" "z' \<in> ?L" "z \<noteq> z'"
    have disj: "set (B u) \<inter> set (B v) = {}" if "u \<in> L" "v \<in> L" "u \<noteq> v" for u v
      using c(6) that by blast
    show "set (?B z) \<inter> set (?B z') = {}"
    proof (rule equals0I)
      fix x assume "x \<in> set (?B z) \<inter> set (?B z')"
      then have x: "x \<in> set (?B z)" "x \<in> set (?B z')" by blast+
      obtain u where "u \<in> L" "x \<in> set (B u)" "z = (if u = n2 then n1 else u)"
        using origin [OF z(1) x(1)] by blast
      moreover obtain v where "v \<in> L" "x \<in> set (B v)" "z' = (if v = n2 then n1 else v)"
        using origin [OF z(2) x(2)] by blast
      ultimately show False using disj [of u v] z(3) by (cases "u = v") auto
    qed
  next
    fix z z' x y assume z: "z \<in> ?L" "z' \<in> ?L" "z \<noteq> z'" and x: "x \<in> set (?B z)" and y: "y \<in> set (?B z')"
      and xy: "(x, y) \<in> E0\<^sup>+"
    obtain u where u: "u \<in> L" "x \<in> set (B u)" "z = (if u = n2 then n1 else u)"
      using origin [OF z(1) x] by blast
    obtain v where v: "v \<in> L" "y \<in> set (B v)" "z' = (if v = n2 then n1 else v)"
      using origin [OF z(2) y] by blast
    from u v have "u \<noteq> v" using z(3) by auto
    then have "(u, v) \<in> E\<^sup>+" using c(7) [OF u(1) v(1) _ u(2) v(2) xy] by simp
    then have "(u, v) \<in> E\<^sup>*" by (rule trancl_into_rtrancl)
    then have "(z, z') \<in> ?E\<^sup>*" unfolding u(3) v(3) by (rule fused_path [OF assms(3-5)])
    then show "(z, z') \<in> ?E\<^sup>+" using z(3) by (simp add: rtrancl_eq_or_trancl)
  qed
qed

text \<open>What a reader of the fused graph gets: two nodes the original graph orders are in one chain in that order, or in two nodes with a path.\<close>

lemma chains_order:
  assumes "chains E0 L0 E L B" and "acyclic E0" and "(x, y) \<in> E0\<^sup>+" and "x \<in> L0" and "y \<in> L0"
  shows "\<exists>z \<in> L. \<exists>z' \<in> L. x \<in> set (B z) \<and> y \<in> set (B z')
     \<and> ((z, z') \<in> E\<^sup>+ \<or> z = z' \<and> (\<exists>us vs ws. B z = us @ x # vs @ y # ws))"
proof -
  note c = chainsD [OF assms(1)]
  obtain z z' where z: "z \<in> L" "z' \<in> L" "x \<in> set (B z)" "y \<in> set (B z')" using c(5) assms(4,5) by blast
  show ?thesis
  proof (cases "z = z'")
    case False
    then have "(z, z') \<in> E\<^sup>+" using c(7) z assms(3) by blast
    with z show ?thesis by blast
  next
    case True
    obtain us ws where s: "B z = us @ x # ws" using z(3) split_list by fastforce
    have "y \<notin> set us"
    proof
      assume "y \<in> set us"
      then have "(y, x) \<in> E0\<^sup>+" using c(3) [OF z(1)] unfolding s by (auto simp: sorted_wrt_append)
      then have "(x, x) \<in> E0\<^sup>+" using assms(3) by (rule trancl_trans [rotated])
      then show False using assms(2) by (simp add: acyclic_def)
    qed
    moreover have "y \<noteq> x" using assms(2,3) by (auto simp: acyclic_def)
    ultimately have "y \<in> set ws" using z(4) True s by auto
    then obtain vs ws' where "ws = vs @ y # ws'" using split_list by fastforce
    with s True z show ?thesis by blast
  qed
qed

end
