(* ===== verification/Graph_Fusion.thy ===== *)
theory Graph_Fusion
  imports Graph_Reduce Fusion_Order
begin

text \<open>
  The fusion of tasks and the optimisation of the graph (\<open>fuseNodes\<close> of \<open>Graph.hpp\<close>,
  \<open>hasCommonArrayElement\<close>, \<open>nodesFusion\<close>, \<open>nodesComputeInOut\<close> and \<open>optimizeGraph\<close> of
  \<open>Graph.cpp\<close>). The loops over the nodes of one graph terminate by the number of its nodes; the
  descent into nested graphs has a bound on the depth, \<open>OutOfFuel\<close> when it is reached.
\<close>

declare bind_res_cong [fundef_cong]

section \<open>fuseNodes\<close>

definition fuse_deps :: "dependencies \<Rightarrow> dependencies \<Rightarrow> dependencies" where
  "fuse_deps d1 d2 =
     fold (\<lambda>(d, dep) m. case map_of m d of
         None \<Rightarrow> ains d dep m
       | Some old \<Rightarrow> aput d (NodeDependency_plus old dep) m) d2 d1"

definition fuseNodes :: "nat \<Rightarrow> nat \<Rightarrow> 't nodes \<times> nat list \<Rightarrow> ('t nodes \<times> nat list) res" where
  "fuseNodes n1 n2 st =
     (case st of (h, ns) \<Rightarrow>
        bind_res (deref_node h n2) (\<lambda>b.
        bind_res (modify_node n1 (\<lambda>a. a\<lparr>next_map := next_map b\<rparr>) h) (\<lambda>h1.
        bind_res (fold_res (\<lambda>m. modify_node m (\<lambda>nd. nd\<lparr>prev_set := sins n1 (sdel n2 (prev_set nd))\<rparr>))
            (map fst (next_map b)) h1) (\<lambda>h2.
        bind_res (modify_node n1 (\<lambda>a.
            a\<lparr>node_dependencies := fuse_deps (node_dependencies a) (node_dependencies b),
              instructionPtr := instructionPtr a @ instructionPtr b,
              subgraphs := subgraphs a @ subgraphs b,
              node_instruction := node_instruction a @ [CHR 0x0A] @ node_instruction b\<rparr>) h2) (\<lambda>h3.
        if n2 \<in> set ns then Inr (h3, remove1 n2 ns) else Inl UndefinedAccess)))))"

section \<open>hasCommonArrayElement\<close>

text \<open>
  The two loops with their flags \<open>result\<close> and \<open>hasArrayUnknownElements\<close>: over the aliases of the
  links of the first node, and over its dependencies.
\<close>

fun common_deps :: "'t heap \<Rightarrow> addr \<Rightarrow> addr list \<Rightarrow> bool \<times> bool \<Rightarrow> bool \<times> bool" where
  "common_deps ah alias1 [] st = st"
| "common_deps ah alias1 (alias2 # deps) (result, hasArrayUnknownElements) =
     (let (result1, has1) =
        (if indexesMatch (idx ah alias1) (idx ah alias2)
         then (if \<not> hasArrayUnknownElements then (False, True) else (result, hasArrayUnknownElements))
         else (result, hasArrayUnknownElements))
      in common_deps ah alias1 deps (if alias1 = alias2 then True else result1, has1))"

definition hasCommonArrayElement :: "'t heap \<Rightarrow> 't node \<Rightarrow> bool" where
  "hasCommonArrayElement ah n1 =
     fst (fold (\<lambda>(m, row). fold (\<lambda>(alias1, dep). common_deps ah alias1 (map fst (node_dependencies n1))) row)
            (next_map n1) (True, False))"

section \<open>nodesFusion\<close>

text \<open>The condition of the fusion loop: the node to fuse with, if there is one.\<close>

definition fusionCandidate :: "'t heap \<Rightarrow> 't nodes \<Rightarrow> nat \<Rightarrow> nat option res" where
  "fusionCandidate ah h n =
     bind_res (deref_node h n) (\<lambda>nd.
       (case next_map nd of
          [(m, row)] \<Rightarrow>
            bind_res (deref_node h m) (\<lambda>nextNode.
              if length (prev_set nextNode) = 1 \<and> node_graphId nextNode = node_graphId nd then
                (case instructionPtr nextNode of
                   [] \<Rightarrow> Inl UndefinedAccess
                 | ins # rest \<Rightarrow>
                     Inr (if \<not> (rest = [] \<and> complexInstruction ins \<or> noFusion ins) \<and> hasCommonArrayElement ah nd
                          then Some m else None))
              else Inr None)
        | _ \<Rightarrow> Inr None))"

lemma fuseNodes_length: "fuseNodes n1 n2 (h, ns) = Inr (h', ns') \<Longrightarrow> length ns' < length ns"
  using length_pos_if_in_set [of n2 ns]
  by (auto simp: fuseNodes_def res_simps length_remove1 split: if_splits)

function fuseLoop :: "'t heap \<Rightarrow> nat \<Rightarrow> 't nodes \<times> nat list \<Rightarrow> ('t nodes \<times> nat list) res" where
  "fuseLoop ah n (h, ns) =
     bind_res (fusionCandidate ah h n) (\<lambda>c.
       (case c of
          None \<Rightarrow> Inr (h, ns)
        | Some m \<Rightarrow> bind_res (fuseNodes n m (h, ns)) (fuseLoop ah n)))"
  by pat_completeness auto
termination
  by (relation "measure (\<lambda>(ah, n, h, ns). length ns)") (auto dest: fuseNodes_length)

declare fuseLoop.simps [simp del]

lemma fuseLoop_length: "fuseLoop ah n (h, ns) = Inr (h', ns') \<Longrightarrow> length ns' \<le> length ns"
proof (induction ah n "(h, ns)" arbitrary: h ns rule: fuseLoop.induct)
  case (1 ah n h ns)
  from 1(2) obtain c where c: "fusionCandidate ah h n = Inr c" by (auto simp: fuseLoop.simps res_simps)
  show ?case
  proof (cases c)
    case None
    with 1(2) c show ?thesis by (simp add: fuseLoop.simps)
  next
    case (Some m)
    with 1(2) c obtain h1 ns1 where f: "fuseNodes n m (h, ns) = Inr (h1, ns1)" "fuseLoop ah n (h1, ns1) = Inr (h', ns')"
      by (auto simp: fuseLoop.simps res_simps)
    with 1(1) [OF c Some f(1)] fuseNodes_length [OF f(1)] show ?thesis by simp
  qed
qed

definition set_graph_nodes :: "nat \<Rightarrow> nat list \<Rightarrow> 't program_graph \<Rightarrow> 't program_graph" where
  "set_graph_nodes g ns st =
     (case map_of (graphs st) g of
        None \<Rightarrow> st
      | Some gr \<Rightarrow> st\<lparr>graphs := aput g (gr\<lparr>graph_nodes := ns\<rparr>) (graphs st)\<rparr>)"

text \<open>The loop over the indexes of the nodes; \<open>opt\<close> optimises a nested graph.\<close>

function (sequential) nodesFusion_loop ::
    "(nat \<Rightarrow> 't program_graph \<Rightarrow> 't program_graph res) \<Rightarrow> 't heap \<Rightarrow> nat \<Rightarrow> nat \<Rightarrow> nat list \<Rightarrow>
     't program_graph \<Rightarrow> 't program_graph res" where
  "nodesFusion_loop opt ah g i ns st =
     (if i < length ns then
        bind_res (deref_node (pnodes st) (ns ! i)) (\<lambda>nd.
          if length (instructionPtr nd) = 1 \<and> complexInstruction (hd (instructionPtr nd)) then
            bind_res (fold_res opt (subgraphs nd) st) (nodesFusion_loop opt ah g (Suc i) ns)
          else
            bind_res (fuseLoop ah (ns ! i) (pnodes st, ns)) (\<lambda>(h, ns').
              nodesFusion_loop opt ah g (Suc i) ns' (set_graph_nodes g ns' (st\<lparr>pnodes := h\<rparr>))))
      else Inr st)"
  by pat_completeness auto
termination
  by (relation "measure (\<lambda>(opt, ah, g, i, ns, st). length ns - i)") (auto dest: fuseLoop_length)

declare nodesFusion_loop.simps [simp del]

definition nodesFusion ::
    "(nat \<Rightarrow> 't program_graph \<Rightarrow> 't program_graph res) \<Rightarrow> 't heap \<Rightarrow> nat \<Rightarrow> 't program_graph \<Rightarrow> 't program_graph res" where
  "nodesFusion opt ah g st =
     (case map_of (graphs st) g of
        None \<Rightarrow> Inl NullDeref
      | Some gr \<Rightarrow> nodesFusion_loop opt ah g 0 (graph_nodes gr) st)"

section \<open>nodesComputeInOut and optimizeGraph\<close>

primrec nodesComputeInOut :: "nat \<Rightarrow> 't heap \<Rightarrow> (nat \<times> graph) list \<Rightarrow> nat \<Rightarrow> 't nodes \<Rightarrow> 't nodes res" where
  "nodesComputeInOut 0 ah gs g h = Inl OutOfFuel"
| "nodesComputeInOut (Suc fuel) ah gs g h =
     (case map_of gs g of
        None \<Rightarrow> Inl NullDeref
      | Some gr \<Rightarrow>
          fold_res (\<lambda>n h. bind_res (computeInOutInDep ah n h) (\<lambda>h1.
            bind_res (deref_node h1 n) (\<lambda>nd. fold_res (nodesComputeInOut fuel ah gs) (subgraphs nd) h1)))
            (graph_nodes gr) h)"

primrec optimizeGraph :: "nat \<Rightarrow> 't heap \<Rightarrow> nat \<Rightarrow> 't program_graph \<Rightarrow> 't program_graph res" where
  "optimizeGraph 0 ah g st = Inl OutOfFuel"
| "optimizeGraph (Suc fuel) ah g st =
     (case map_of (graphs st) g of
        None \<Rightarrow> Inl NullDeref
      | Some gr \<Rightarrow>
          bind_res (transitiveReduction (graph_nodes gr) (pnodes st)) (\<lambda>h.
          bind_res (nodesFusion (optimizeGraph fuel ah) ah g (st\<lparr>pnodes := h\<rparr>)) (\<lambda>st1.
          bind_res (nodesComputeInOut (Suc fuel) ah (graphs st1) g (pnodes st1)) (\<lambda>h1.
            Inr (st1\<lparr>pnodes := h1\<rparr>)))))"

section \<open>The test on array elements\<close>

lemma common_deps_result:
  "common_deps ah a ds (r, k) =
     (a \<in> set ds \<or> r \<and> (k \<or> (\<forall>d \<in> set ds. \<not> indexesMatch (idx ah a) (idx ah d))),
      k \<or> (\<exists>d \<in> set ds. indexesMatch (idx ah a) (idx ah d)))"
  by (induction ds arbitrary: r k) auto

definition link_aliases :: "'t node \<Rightarrow> addr set" where
  "link_aliases nd = (\<Union>(m, row) \<in> set (next_map nd). fst ` set row)"

lemma common_row:
  "fold (\<lambda>(a, dep). common_deps ah a ds) row (r, k) =
     ((\<exists>a \<in> fst ` set row. a \<in> set ds) \<or> r \<and> (k \<or> (\<forall>a \<in> fst ` set row. \<forall>d \<in> set ds. \<not> indexesMatch (idx ah a) (idx ah d))),
      k \<or> (\<exists>a \<in> fst ` set row. \<exists>d \<in> set ds. indexesMatch (idx ah a) (idx ah d)))"
proof (induction row arbitrary: r k)
  case (Cons x row)
  obtain a dep where x: "x = (a, dep)" by fastforce
  have self: "a \<in> set ds \<Longrightarrow> \<exists>d \<in> set ds. indexesMatch (idx ah a) (idx ah d)" by force
  show ?case using self by (auto simp: x Cons.IH common_deps_result)
qed simp

lemma common_rows:
  "fold (\<lambda>(m, row). fold (\<lambda>(a, dep). common_deps ah a ds) row) rows (r, k) =
     ((\<exists>a \<in> (\<Union>(m, row) \<in> set rows. fst ` set row). a \<in> set ds)
        \<or> r \<and> (k \<or> (\<forall>a \<in> (\<Union>(m, row) \<in> set rows. fst ` set row). \<forall>d \<in> set ds. \<not> indexesMatch (idx ah a) (idx ah d))),
      k \<or> (\<exists>a \<in> (\<Union>(m, row) \<in> set rows. fst ` set row). \<exists>d \<in> set ds. indexesMatch (idx ah a) (idx ah d)))"
proof (induction rows arbitrary: r k)
  case (Cons x rows)
  obtain m row where x: "x = (m, row)" by fastforce
  have self: "a \<in> set ds \<Longrightarrow> \<exists>d \<in> set ds. indexesMatch (idx ah a) (idx ah d)" for a by force
  show ?case using self by (simp add: x Cons.IH common_row) blast
qed simp

text \<open>
  The two flags of the loops compute a condition that does not depend on the order in which the
  hash maps are traversed: two nodes may be fused if an alias of the link is itself a dependency of
  the first node, or if no alias of the link matches the indexes of any of its dependencies.
\<close>

lemma hasCommonArrayElement_iff:
  "hasCommonArrayElement ah nd \<longleftrightarrow>
     link_aliases nd \<inter> fst ` set (node_dependencies nd) \<noteq> {}
     \<or> \<not> (\<exists>a \<in> link_aliases nd. \<exists>d \<in> fst ` set (node_dependencies nd). indexesMatch (idx ah a) (idx ah d))"
  unfolding hasCommonArrayElement_def common_rows link_aliases_def [symmetric] fst_conv set_map by blast

lemma hasCommonArrayElement_iff_witness:
  "hasCommonArrayElement (heap ex_table) (ex_node 2) \<and> link_aliases (ex_node 2) = {2}"
proof -
  have "link_aliases (ex_node 2) = {2}" by (simp add: link_aliases_def ex_nodes_facts)
  then show ?thesis using hasCommonArrayElement_iff [of "heap ex_table" "ex_node 2"] by (simp add: ex_nodes_facts)
qed

section \<open>Effect of a fusion\<close>

lemma fold_modify:
  assumes "distinct ms" and "set ms \<subseteq> dom (map_of h)"
  shows "\<exists>h'. fold_res (\<lambda>m. modify_node m f) ms h = Inr h'
     \<and> (\<forall>m. map_of h' m = (if m \<in> set ms then map_option f (map_of h m) else map_of h m))"
  using assms
proof (induction ms arbitrary: h)
  case (Cons m ms)
  obtain nd where nd: "map_of h m = Some nd" using Cons.prems(2) by auto
  have "set ms \<subseteq> dom (map_of (aput m (f nd) h))" using Cons.prems(2) by auto
  then obtain h' where "fold_res (\<lambda>m. modify_node m f) ms (aput m (f nd) h) = Inr h'"
    "\<forall>k. map_of h' k = (if k \<in> set ms then map_option f (map_of (aput m (f nd) h) k) else map_of (aput m (f nd) h) k)"
    using Cons.IH Cons.prems(1) by (metis distinct.simps(2))
  moreover have "modify_node m f h = Inr (aput m (f nd) h)" using nd by (simp add: modify_node_def deref_node_def)
  ultimately show ?case using nd Cons.prems(1) by (intro exI [of _ h']) auto
qed simp

text \<open>The node after the fusion of \<open>a\<close> with \<open>b\<close>.\<close>

definition fused :: "'t node \<Rightarrow> 't node \<Rightarrow> 't node" where
  "fused a b = a\<lparr>next_map := next_map b, node_dependencies := fuse_deps (node_dependencies a) (node_dependencies b),
     instructionPtr := instructionPtr a @ instructionPtr b, subgraphs := subgraphs a @ subgraphs b,
     node_instruction := node_instruction a @ [CHR 0x0A] @ node_instruction b\<rparr>"

lemma fuseNodes_map:
  assumes "live_inv L h" and "n1 \<in> L" and "n2 \<in> L" and "n1 \<noteq> n2" and "n1 \<notin> set (succ_of h n2)"
    and "map_of h n1 = Some a" and "map_of h n2 = Some b" and "n2 \<in> set ns"
  shows "\<exists>h'. fuseNodes n1 n2 (h, ns) = Inr (h', remove1 n2 ns)
     \<and> (\<forall>m. map_of h' m =
          (if m = n1 then Some (fused a b)
           else if m \<in> set (succ_of h n2) then map_option (\<lambda>nd. nd\<lparr>prev_set := sins n1 (sdel n2 (prev_set nd))\<rparr>) (map_of h m)
           else map_of h m))"
proof -
  let ?ms = "map fst (next_map b)" and ?f = "\<lambda>nd. nd\<lparr>prev_set := sins n1 (sdel n2 (prev_set nd))\<rparr>"
  let ?h1 = "aput n1 (a\<lparr>next_map := next_map b\<rparr>) h"
  have ms: "?ms = succ_of h n2" using assms(7) by (simp add: succ_of_def)
  have "distinct ?ms" "set ?ms \<subseteq> dom (map_of ?h1)"
    using assms(1,3) unfolding ms live_inv_def by auto
  from fold_modify [OF this, of ?f] obtain h2 where
    h2: "fold_res (\<lambda>m. modify_node m ?f) ?ms ?h1 = Inr h2"
    and m2: "\<forall>m. map_of h2 m = (if m \<in> set ?ms then map_option ?f (map_of ?h1 m) else map_of ?h1 m)" by blast
  have n1: "map_of h2 n1 = Some (a\<lparr>next_map := next_map b\<rparr>)" using m2 assms(5) by (simp add: ms)
  let ?h3 = "aput n1 (fused a b) h2"
  have "fuseNodes n1 n2 (h, ns) = Inr (?h3, remove1 n2 ns)"
    using assms(6-8) h2 n1 by (simp add: fuseNodes_def deref_node_def modify_node_def fused_def)
  moreover have "\<forall>m. map_of ?h3 m = (if m = n1 then Some (fused a b)
      else if m \<in> set (succ_of h n2) then map_option ?f (map_of h m) else map_of h m)"
    using m2 by (simp add: ms)
  ultimately show ?thesis by blast
qed

lemma fuseNodes_effect:
  assumes "live_inv L h" and "n1 \<in> L" and "acyclic (live_edges L h)"
    and "succ_of h n1 = [n2]" and "pred_of h n2 = [n1]" and "n2 \<in> set ns"
  obtains h' a b where "fuseNodes n1 n2 (h, ns) = Inr (h', remove1 n2 ns)"
    and "map_of h n1 = Some a" and "map_of h n2 = Some b" and "n2 \<in> L" and "n1 \<noteq> n2"
    and "live_inv (L - {n2}) h'" and "live_edges (L - {n2}) h' = fused_edges n1 n2 (live_edges L h)"
    and "map_of h' n1 = Some (fused a b)"
    and "\<And>m. m \<noteq> n1 \<Longrightarrow> map_option node_core (map_of h' m) = map_option node_core (map_of h m)"
    and "dom (map_of h') = dom (map_of h)"
proof -
  have LD: "L \<subseteq> dom (map_of h)" using assms(1) unfolding live_inv_def by blast
  have LE: "set (succ_of h x) \<subseteq> L" "set (pred_of h x) \<subseteq> L" "distinct (succ_of h x)" "distinct (pred_of h x)" if "x \<in> L" for x
    using assms(1) that unfolding live_inv_def by blast+
  have link: "y \<in> set (succ_of h x) \<longleftrightarrow> x \<in> set (pred_of h y)" if "x \<in> L" "y \<in> L" for x y
    using assms(1) that unfolding live_inv_def by blast
  have n2: "n2 \<in> L" using LE(1) [OF assms(2)] assms(4) by simp
  have cyc: "(u, u) \<notin> (live_edges L h)\<^sup>+" for u using assms(3) by (simp add: acyclic_def)
  have e: "(n1, n2) \<in> live_edges L h" using assms(2,4) by (simp add: live_edges_def)
  then have ne: "n1 \<noteq> n2" using cyc [of n1] by auto
  have n1': "n1 \<notin> set (succ_of h n2)"
    using e cyc [of n1] n2 by (auto simp: live_edges_def intro: trancl_trans)
  have n2': "n2 \<notin> set (succ_of h n2)"
  proof
    assume "n2 \<in> set (succ_of h n2)"
    then have "(n2, n2) \<in> live_edges L h" using n2 by (simp add: live_edges_def)
    then show False using cyc by blast
  qed
  obtain a b where ab: "map_of h n1 = Some a" "map_of h n2 = Some b" using LD assms(2) n2 by blast
  from fuseNodes_map [OF assms(1,2) n2 ne n1' ab assms(6)] obtain h' where
    run: "fuseNodes n1 n2 (h, ns) = Inr (h', remove1 n2 ns)"
    and m: "\<forall>m. map_of h' m =
          (if m = n1 then Some (fused a b)
           else if m \<in> set (succ_of h n2) then map_option (\<lambda>nd. nd\<lparr>prev_set := sins n1 (sdel n2 (prev_set nd))\<rparr>) (map_of h m)
           else map_of h m)" by blast
  have succ: "succ_of h' u = (if u = n1 then succ_of h n2 else succ_of h u)" for u
    using m ab by (simp add: succ_of_def fused_def split: option.splits)
  have pred: "pred_of h' u = (if u \<in> set (succ_of h n2) then sins n1 (sdel n2 (pred_of h u)) else pred_of h u)" if "u \<in> L" for u
  proof -
    have "map_of h u \<noteq> None" using LD that by auto
    then show ?thesis using m ab n1' by (auto simp: pred_of_def fused_def)
  qed
  have E: "live_edges (L - {n2}) h' = fused_edges n1 n2 (live_edges L h)"
    using assms(2) n2 ne n2' by (auto simp: live_edges_def fused_edges_def succ assms(4) split: if_splits)
  have dom: "dom (map_of h') = dom (map_of h)"
    using m ab by (auto simp: dom_def split: if_splits)
  have only1: "x = n1" if "x \<in> L" "n2 \<in> set (succ_of h x)" for x
    using link [OF that(1) n2] that(2) by (simp add: assms(5))
  have only2: "x = n1" if "x \<in> L" "x \<in> set (pred_of h n2)" for x using that by (simp add: assms(5))
  have pred2: "n2 \<in> set (pred_of h y) \<longleftrightarrow> y \<in> set (succ_of h n2)" if "y \<in> L" for y using link [OF n2 that] by blast
  have "live_inv (L - {n2}) h'"
    unfolding live_inv_def
  proof (intro conjI ballI)
    show "L - {n2} \<subseteq> dom (map_of h')" using LD dom by blast
    fix x assume x: "x \<in> L - {n2}"
    then have xL: "x \<in> L" "x \<noteq> n2" by blast+
    show "set (succ_of h' x) \<subseteq> L - {n2}"
      using LE(1) [OF xL(1)] LE(1) [OF n2] only1 [OF xL(1)] n2' by (auto simp: succ)
    show "set (pred_of h' x) \<subseteq> L - {n2}"
      using LE(2) [OF xL(1)] assms(2) ne pred2 [OF xL(1)] by (auto simp: pred [OF xL(1)] split: if_splits)
    show "distinct (succ_of h' x)" using LE(3) n2 xL by (simp add: succ)
    show "distinct (pred_of h' x)" using LE(4) [OF xL(1)] by (simp add: pred [OF xL(1)])
    fix y assume y: "y \<in> L - {n2}"
    then have yL: "y \<in> L" "y \<noteq> n2" by blast+
    show "(y \<in> set (succ_of h' x)) = (x \<in> set (pred_of h' y))"
    proof (cases "x = n1")
      case True
      have "n1 \<notin> set (pred_of h y)" using link [OF assms(2) yL(1)] yL(2) assms(4) by simp
      then show ?thesis using True by (simp add: succ pred [OF yL(1)])
    next
      case False
      then show ?thesis using link [OF xL(1) yL(1)] xL(2) by (simp add: succ pred [OF yL(1)])
    qed
  qed
  moreover have "map_option node_core (map_of h' u) = map_option node_core (map_of h u)" if "u \<noteq> n1" for u
    using m that by (simp add: option.map_comp comp_def)
  moreover have "map_of h' n1 = Some (fused a b)" using m by simp
  ultimately show ?thesis using that run ab n2 ne E dom by blast
qed

end
