(* ===== verification/Graph_Optimize.thy ===== *)
theory Graph_Optimize
  imports Graph_Fusion
begin

text \<open>
  The optimisation of a graph with its nested graphs keeps the order of the instructions: an
  invariant of the nodes and graphs in memory, the simulation of the original graph by the fused
  one (\<open>Fusion_Order\<close>), and their preservation by every step of \<open>optimizeGraph\<close>.
\<close>

section \<open>Invariant\<close>

definition attr :: "'t node \<Rightarrow> nat \<times> 't instruction list \<times> nat list" where
  "attr nd = (node_graphId nd, instructionPtr nd, subgraphs nd)"

text \<open>
  The graphs list live nodes of their own, once each; every node has an instruction, is listed by its
  graph, and has nested graphs with greater identifiers.
\<close>

definition listed :: "nat set \<Rightarrow> (nat \<times> graph) list \<Rightarrow> 't nodes \<Rightarrow> bool" where
  "listed L gs h \<longleftrightarrow>
     (\<forall>g gr. map_of gs g = Some gr \<longrightarrow> distinct (graph_nodes gr) \<and> set (graph_nodes gr) \<subseteq> L)
     \<and> (\<forall>g gr n nd. map_of gs g = Some gr \<longrightarrow> n \<in> set (graph_nodes gr) \<longrightarrow> map_of h n = Some nd \<longrightarrow> node_graphId nd = g)
     \<and> (\<forall>n nd gr. n \<in> L \<longrightarrow> map_of h n = Some nd \<longrightarrow> map_of gs (node_graphId nd) = Some gr \<longrightarrow> n \<in> set (graph_nodes gr))
     \<and> (\<forall>n nd. n \<in> L \<longrightarrow> map_of h n = Some nd \<longrightarrow> instructionPtr nd \<noteq> []
         \<and> (\<forall>s \<in> set (subgraphs nd). node_graphId nd < s \<and> map_of gs s \<noteq> None))"

lemma listedD:
  assumes "listed L gs h"
  shows "map_of gs g = Some gr \<Longrightarrow> distinct (graph_nodes gr)"
    "map_of gs g = Some gr \<Longrightarrow> set (graph_nodes gr) \<subseteq> L"
    "map_of gs g = Some gr \<Longrightarrow> n \<in> set (graph_nodes gr) \<Longrightarrow> map_of h n = Some nd \<Longrightarrow> node_graphId nd = g"
    "n \<in> L \<Longrightarrow> map_of h n = Some nd \<Longrightarrow> map_of gs (node_graphId nd) = Some gr \<Longrightarrow> n \<in> set (graph_nodes gr)"
    "n \<in> L \<Longrightarrow> map_of h n = Some nd \<Longrightarrow> instructionPtr nd \<noteq> []"
    "n \<in> L \<Longrightarrow> map_of h n = Some nd \<Longrightarrow> s \<in> set (subgraphs nd) \<Longrightarrow> node_graphId nd < s"
    "n \<in> L \<Longrightarrow> map_of h n = Some nd \<Longrightarrow> s \<in> set (subgraphs nd) \<Longrightarrow> map_of gs s \<noteq> None"
proof -
  have l: "\<forall>g gr. map_of gs g = Some gr \<longrightarrow> distinct (graph_nodes gr) \<and> set (graph_nodes gr) \<subseteq> L"
    "\<forall>g gr n nd. map_of gs g = Some gr \<longrightarrow> n \<in> set (graph_nodes gr) \<longrightarrow> map_of h n = Some nd \<longrightarrow> node_graphId nd = g"
    "\<forall>n nd gr. n \<in> L \<longrightarrow> map_of h n = Some nd \<longrightarrow> map_of gs (node_graphId nd) = Some gr \<longrightarrow> n \<in> set (graph_nodes gr)"
    "\<forall>n nd. n \<in> L \<longrightarrow> map_of h n = Some nd \<longrightarrow> instructionPtr nd \<noteq> []
         \<and> (\<forall>s \<in> set (subgraphs nd). node_graphId nd < s \<and> map_of gs s \<noteq> None)"
    using assms unfolding listed_def by - (elim conjE, assumption)+
  show "map_of gs g = Some gr \<Longrightarrow> distinct (graph_nodes gr)"
    "map_of gs g = Some gr \<Longrightarrow> set (graph_nodes gr) \<subseteq> L" using l(1) by blast+
  show "map_of gs g = Some gr \<Longrightarrow> n \<in> set (graph_nodes gr) \<Longrightarrow> map_of h n = Some nd \<Longrightarrow> node_graphId nd = g"
    using l(2) by blast
  show "n \<in> L \<Longrightarrow> map_of h n = Some nd \<Longrightarrow> map_of gs (node_graphId nd) = Some gr \<Longrightarrow> n \<in> set (graph_nodes gr)"
    using l(3) by blast
  show "n \<in> L \<Longrightarrow> map_of h n = Some nd \<Longrightarrow> instructionPtr nd \<noteq> []"
    "n \<in> L \<Longrightarrow> map_of h n = Some nd \<Longrightarrow> s \<in> set (subgraphs nd) \<Longrightarrow> node_graphId nd < s"
    "n \<in> L \<Longrightarrow> map_of h n = Some nd \<Longrightarrow> s \<in> set (subgraphs nd) \<Longrightarrow> map_of gs s \<noteq> None" using l(4) by blast+
qed

lemma listedI:
  assumes "\<And>g gr. map_of gs g = Some gr \<Longrightarrow> distinct (graph_nodes gr) \<and> set (graph_nodes gr) \<subseteq> L"
    and "\<And>g gr n nd. map_of gs g = Some gr \<Longrightarrow> n \<in> set (graph_nodes gr) \<Longrightarrow> map_of h n = Some nd \<Longrightarrow> node_graphId nd = g"
    and "\<And>n nd gr. n \<in> L \<Longrightarrow> map_of h n = Some nd \<Longrightarrow> map_of gs (node_graphId nd) = Some gr \<Longrightarrow> n \<in> set (graph_nodes gr)"
    and "\<And>n nd. n \<in> L \<Longrightarrow> map_of h n = Some nd \<Longrightarrow> instructionPtr nd \<noteq> []"
    and "\<And>n nd s. n \<in> L \<Longrightarrow> map_of h n = Some nd \<Longrightarrow> s \<in> set (subgraphs nd) \<Longrightarrow> node_graphId nd < s \<and> map_of gs s \<noteq> None"
  shows "listed L gs h"
  unfolding listed_def using assms by blast

definition opt_inv :: "nat set \<Rightarrow> 't program_graph \<Rightarrow> bool" where
  "opt_inv L st \<longleftrightarrow> live_inv L (pnodes st) \<and> listed L (graphs st) (pnodes st)"

text \<open>The instructions of a node, and the simulation of the original nodes \<open>L0\<close> of the heap \<open>h0\<close>.\<close>

definition instrs_at :: "'t nodes \<Rightarrow> nat \<Rightarrow> 't instruction list" where
  "instrs_at h n = (case map_of h n of None \<Rightarrow> [] | Some nd \<Rightarrow> instructionPtr nd)"

definition simulates :: "'t nodes \<Rightarrow> nat set \<Rightarrow> 't nodes \<Rightarrow> nat set \<Rightarrow> (nat \<Rightarrow> nat list) \<Rightarrow> bool" where
  "simulates h0 L0 h L B \<longleftrightarrow> chains (live_edges L0 h0) L0 (live_edges L h) L B
     \<and> (\<forall>z \<in> L. instrs_at h z = concat (map (instrs_at h0) (B z)))"

lemma live_edges_within: "live_inv L h \<Longrightarrow> live_edges L h \<subseteq> L \<times> L"
  unfolding live_edges_def live_inv_def by auto

lemma simulates_start: "live_inv L h \<Longrightarrow> simulates h L h L (\<lambda>x. [x])"
  using chains_start [OF live_edges_within] by (auto simp: simulates_def)

section \<open>Steps that keep the nodes\<close>

definition same_attrs :: "nat set \<Rightarrow> 't nodes \<Rightarrow> 't nodes \<Rightarrow> bool" where
  "same_attrs L h h' \<longleftrightarrow> (\<forall>n \<in> L. map_option attr (map_of h' n) = map_option attr (map_of h n))"

lemma same_attrsD:
  assumes "same_attrs L h h'" and "n \<in> L" and "map_of h' n = Some nd'"
  obtains nd where "map_of h n = Some nd" and "node_graphId nd' = node_graphId nd"
    and "instructionPtr nd' = instructionPtr nd" and "subgraphs nd' = subgraphs nd"
proof -
  have "map_option attr (map_of h' n) = map_option attr (map_of h n)"
    using assms(1,2) unfolding same_attrs_def by (rule bspec)
  then show ?thesis using that assms(3) by (cases "map_of h n") (auto simp: attr_def)
qed

lemma listed_same_attrs:
  assumes "listed L gs h" and "same_attrs L h h'"
  shows "listed L gs h'"
proof (rule listedI)
  fix g gr assume g: "map_of gs g = Some gr"
  then show "distinct (graph_nodes gr) \<and> set (graph_nodes gr) \<subseteq> L" using listedD(1,2) [OF assms(1)] by blast
  fix n nd assume n: "n \<in> set (graph_nodes gr)" and nd: "map_of h' n = Some nd"
  then have nL: "n \<in> L" using listedD(2) [OF assms(1) g] by blast
  show "node_graphId nd = g"
    by (rule same_attrsD [OF assms(2) nL nd]) (use listedD(3) [OF assms(1) g n] in simp)
next
  fix n nd gr assume n: "n \<in> L" and nd: "map_of h' n = Some nd" and g: "map_of gs (node_graphId nd) = Some gr"
  show "n \<in> set (graph_nodes gr)"
    by (rule same_attrsD [OF assms(2) n nd]) (use listedD(4) [OF assms(1) n] g in simp)
next
  fix n nd assume n: "n \<in> L" and nd: "map_of h' n = Some nd"
  show "instructionPtr nd \<noteq> []"
    by (rule same_attrsD [OF assms(2) n nd]) (use listedD(5) [OF assms(1) n] in simp)
  fix s assume s: "s \<in> set (subgraphs nd)"
  show "node_graphId nd < s \<and> map_of gs s \<noteq> None"
    by (rule same_attrsD [OF assms(2) n nd]) (use listedD(6,7) [OF assms(1) n] s in simp)
qed

lemma instrs_same_attrs:
  assumes "same_attrs L h h'" and "n \<in> L"
  shows "instrs_at h' n = instrs_at h n"
proof -
  have "map_option attr (map_of h' n) = map_option attr (map_of h n)" using assms by (simp add: same_attrs_def)
  then show ?thesis unfolding instrs_at_def attr_def by (cases "map_of h' n"; cases "map_of h n") simp_all
qed

lemma same_nodes_attrs:
  assumes "\<And>n. n \<in> L \<Longrightarrow> map_option node_core (map_of h' n) = map_option node_core (map_of h n)"
  shows "same_attrs L h h'"
  unfolding same_attrs_def
proof
  fix n assume "n \<in> L"
  note eq = assms [OF this]
  show "map_option attr (map_of h' n) = map_option attr (map_of h n)"
  proof (cases "map_of h' n")
    case None
    then show ?thesis using eq by simp
  next
    case (Some a)
    then obtain b where b: "map_of h n = Some b" and c: "node_core a = node_core b"
      using eq by (cases "map_of h n") auto
    show ?thesis by (simp add: Some b attr_def node_core_fields(3-5) [OF c])
  qed
qed

lemma step_thin:
  assumes "opt_inv L st" and "simulates h0 L0 (pnodes st) L B"
    and "live_inv L h" and "same_attrs L (pnodes st) h"
    and "live_edges L h \<subseteq> live_edges L (pnodes st)" and "(live_edges L h)\<^sup>+ = (live_edges L (pnodes st))\<^sup>+"
  shows "opt_inv L (st\<lparr>pnodes := h\<rparr>)" and "simulates h0 L0 h L B"
proof -
  show "opt_inv L (st\<lparr>pnodes := h\<rparr>)"
    using assms(1,3) listed_same_attrs [OF _ assms(4)] by (simp add: opt_inv_def)
  show "simulates h0 L0 h L B"
    using assms(2) chains_thin [OF _ assms(5,6)] instrs_same_attrs [OF assms(4)] by (simp add: simulates_def)
qed

lemma step_reduce:
  assumes "opt_inv L st" and "simulates h0 L0 (pnodes st) L B" and "acyclic (live_edges L0 h0)" and "set ns \<subseteq> L"
  shows "\<exists>h. transitiveReduction ns (pnodes st) = Inr h \<and> opt_inv L (st\<lparr>pnodes := h\<rparr>) \<and> simulates h0 L0 h L B"
proof -
  have l: "live_inv L (pnodes st)" using assms(1) by (simp add: opt_inv_def)
  have c: "chains (live_edges L0 h0) L0 (live_edges L (pnodes st)) L B" using assms(2) by (simp add: simulates_def)
  have "acyclic (live_edges L (pnodes st))" by (rule chains_acyclic [OF c live_edges_within [OF l] assms(3)])
  from transitiveReduction_effect [OF l this assms(4)] obtain h where
    h: "transitiveReduction ns (pnodes st) = Inr h" "thinned L (pnodes st) h"
      "(live_edges L h)\<^sup>+ = (live_edges L (pnodes st))\<^sup>+" by blast
  have t: "live_inv L h" "same_nodes (pnodes st) h" "live_edges L h \<subseteq> live_edges L (pnodes st)"
    using h(2) unfolding thinned_def by blast+
  have "same_attrs L (pnodes st) h" by (rule same_nodes_attrs) (use t(2) in \<open>simp add: same_nodes_def\<close>)
  from step_thin [OF assms(1,2) t(1) this t(3) h(3)] h(1) show ?thesis by blast
qed

section \<open>The fusion loop\<close>

lemma fusionCandidate_total:
  assumes "opt_inv L st" and "n \<in> L"
  shows "\<exists>c. fusionCandidate ah (pnodes st) n = Inr c \<and> (\<forall>m. c = Some m \<longrightarrow>
     succ_of (pnodes st) n = [m] \<and> pred_of (pnodes st) m = [n] \<and> m \<in> L
     \<and> (\<exists>a b. map_of (pnodes st) n = Some a \<and> map_of (pnodes st) m = Some b \<and> node_graphId b = node_graphId a))"
proof -
  let ?h = "pnodes st"
  have l: "live_inv L ?h" and li: "listed L (graphs st) ?h" using assms(1) by (simp_all add: opt_inv_def)
  have LD: "L \<subseteq> dom (map_of ?h)" "set (succ_of ?h n) \<subseteq> L"
    and link: "\<And>y. y \<in> L \<Longrightarrow> y \<in> set (succ_of ?h n) \<Longrightarrow> n \<in> set (pred_of ?h y)"
    using l assms(2) unfolding live_inv_def by blast+
  obtain nd where nd: "map_of ?h n = Some nd" using LD(1) assms(2) by blast
  show ?thesis
  proof (cases "\<exists>m row. next_map nd = [(m, row)]")
    case False
    then have "fusionCandidate ah ?h n = Inr None"
      by (auto simp: fusionCandidate_def deref_node_def nd split: list.splits)
    then show ?thesis by simp
  next
    case True
    then obtain m row where nm: "next_map nd = [(m, row)]" by blast
    have succ: "succ_of ?h n = [m]" using nd nm by (simp add: succ_of_def)
    then have mL: "m \<in> L" using LD(2) by simp
    then obtain nx where nx: "map_of ?h m = Some nx" using LD(1) by blast
    obtain ins rest where ip: "instructionPtr nx = ins # rest"
      using listedD(5) [OF li mL nx] by (cases "instructionPtr nx") auto
    have np: "n \<in> set (prev_set nx)" using link [OF mL] succ nx by (simp add: pred_of_def)
    have one: "length (prev_set nx) = 1 \<Longrightarrow> pred_of ?h m = [n]"
      using np nx by (cases "prev_set nx") (simp_all add: pred_of_def)
    have "fusionCandidate ah ?h n =
        (if length (prev_set nx) = 1 \<and> node_graphId nx = node_graphId nd
         then Inr (if \<not> (rest = [] \<and> complexInstruction ins \<or> noFusion ins) \<and> hasCommonArrayElement ah nd then Some m else None)
         else Inr None)"
      by (simp add: fusionCandidate_def deref_node_def nd nm nx ip)
    then show ?thesis using succ one mL nd nx by auto
  qed
qed

lemma fused_fields [simp]:
  "node_graphId (fused a b) = node_graphId a" "instructionPtr (fused a b) = instructionPtr a @ instructionPtr b"
  "subgraphs (fused a b) = subgraphs a @ subgraphs b" "next_map (fused a b) = next_map b"
  "node_dependencies (fused a b) = fuse_deps (node_dependencies a) (node_dependencies b)"
  by (simp_all add: fused_def)

lemma listed_fuse:
  assumes "listed L gs h" and "map_of gs g = Some gr" and "n1 \<in> set (graph_nodes gr)" and "n2 \<in> set (graph_nodes gr)"
    and "map_of h n1 = Some a" and "map_of h n2 = Some b" and "n1 \<noteq> n2"
    and h': "map_of h' n1 = Some (fused a b)"
      "\<And>m. m \<noteq> n1 \<Longrightarrow> map_option node_core (map_of h' m) = map_option node_core (map_of h m)"
  shows "listed (L - {n2}) (aput g (gr\<lparr>graph_nodes := remove1 n2 (graph_nodes gr)\<rparr>) gs) h'"
proof -
  let ?ns = "remove1 n2 (graph_nodes gr)" and ?gs = "aput g (gr\<lparr>graph_nodes := remove1 n2 (graph_nodes gr)\<rparr>) gs"
  note l = listedD [OF assms(1)]
  have ns: "set ?ns = set (graph_nodes gr) - {n2}" "distinct ?ns" using l(1) [OF assms(2)] by simp_all
  have ids: "node_graphId a = g" "node_graphId b = g" using l(3) [OF assms(2)] assms(3-6) by blast+
  have nL: "n1 \<in> L" "n2 \<in> L" using l(2) [OF assms(2)] assms(3,4) by blast+
  have attr': "same_attrs (L - {n1}) h h'" by (rule same_nodes_attrs) (use h'(2) in blast)
  have look: "map_of ?gs g' = Some gr' \<Longrightarrow> g' \<noteq> g \<Longrightarrow> map_of gs g' = Some gr'" for g' gr' by simp
  have some: "map_of gs s \<noteq> None \<Longrightarrow> map_of ?gs s \<noteq> None" for s by simp
  have old: "\<exists>nd. map_of h n = Some nd \<and> node_graphId nd' = node_graphId nd \<and> instructionPtr nd' = instructionPtr nd
      \<and> subgraphs nd' = subgraphs nd" if "n \<in> L" "n \<noteq> n1" "map_of h' n = Some nd'" for n nd'
  proof -
    have "n \<in> L - {n1}" using that by blast
    then show ?thesis by (rule same_attrsD [OF attr' _ that(3)]) blast
  qed
  show ?thesis
  proof (rule listedI)
    fix g' gr' assume g': "map_of ?gs g' = Some gr'"
    show "distinct (graph_nodes gr') \<and> set (graph_nodes gr') \<subseteq> L - {n2}"
    proof (cases "g' = g")
      case True
      then show ?thesis using g' ns l(2) [OF assms(2)] by auto
    next
      case False
      note g'' = look [OF g' False]
      have "n2 \<notin> set (graph_nodes gr')" using l(3) [OF g'' _ assms(6)] ids(2) False by blast
      then show ?thesis using l(1,2) [OF g''] by blast
    qed
    fix n nd assume n: "n \<in> set (graph_nodes gr')" and nd: "map_of h' n = Some nd"
    obtain gr0 where gr0: "map_of gs g' = Some gr0" "n \<in> set (graph_nodes gr0)"
    proof (cases "g' = g")
      case True
      then have "gr' = gr\<lparr>graph_nodes := ?ns\<rparr>" using g' by simp
      then have "n \<in> set (graph_nodes gr)" using n ns(1) by simp
      then show ?thesis using that assms(2) True by simp
    next
      case False
      then show ?thesis using that look [OF g'] n by simp
    qed
    show "node_graphId nd = g'"
    proof (cases "n = n1")
      case True
      then have "nd = fused a b" using nd h'(1) by simp
      then show ?thesis using l(3) [OF gr0 [unfolded True] assms(5)] by simp
    next
      case False
      have "n \<in> L" using l(2) [OF gr0(1)] gr0(2) by blast
      then show ?thesis using old [OF _ False nd] l(3) [OF gr0] by auto
    qed
  next
    fix n nd gr' assume n: "n \<in> L - {n2}" and nd: "map_of h' n = Some nd" and g': "map_of ?gs (node_graphId nd) = Some gr'"
    obtain nd0 where nd0: "map_of h n = Some nd0" "node_graphId nd = node_graphId nd0"
    proof (cases "n = n1")
      case True
      then have "nd = fused a b" using nd h'(1) by simp
      then show ?thesis using that [of a] True assms(5) by simp
    next
      case False
      then show ?thesis using that old [OF _ False nd] n by blast
    qed
    show "n \<in> set (graph_nodes gr')"
    proof (cases "node_graphId nd = g")
      case True
      then have "n \<in> set (graph_nodes gr)" using l(4) [of n nd0] n nd0 assms(2) by simp
      moreover have "gr' = gr\<lparr>graph_nodes := ?ns\<rparr>" using g' True by simp
      ultimately show ?thesis using n ns(1) by simp
    next
      case False
      then show ?thesis using l(4) [of n nd0] n nd0 g' by simp
    qed
  next
    fix n nd assume n: "n \<in> L - {n2}" and nd: "map_of h' n = Some nd"
    show "instructionPtr nd \<noteq> []"
    proof (cases "n = n1")
      case True
      then have "nd = fused a b" using nd h'(1) by simp
      then show ?thesis using l(5) [OF nL(1) assms(5)] by simp
    next
      case False
      then obtain nd0 where "map_of h n = Some nd0" "instructionPtr nd = instructionPtr nd0"
        using old [OF _ False nd] n by blast
      then show ?thesis using l(5) [of n nd0] n by simp
    qed
    fix s assume s: "s \<in> set (subgraphs nd)"
    show "node_graphId nd < s \<and> map_of ?gs s \<noteq> None"
    proof (cases "n = n1")
      case True
      then have "nd = fused a b" using nd h'(1) by simp
      then have "s \<in> set (subgraphs a) \<union> set (subgraphs b)" and "node_graphId nd = g"
        using s ids by simp_all
      then have "g < s \<and> map_of gs s \<noteq> None"
        using l(6,7) [OF nL(1) assms(5), of s] l(6,7) [OF nL(2) assms(6), of s] ids by auto
      then show ?thesis using some [of s] \<open>node_graphId nd = g\<close> by simp
    next
      case False
      then obtain nd0 where "map_of h n = Some nd0" "node_graphId nd = node_graphId nd0" "subgraphs nd = subgraphs nd0"
        using old [OF _ False nd] n by blast
      then show ?thesis using l(6,7) [of n nd0 s] n s some by simp
    qed
  qed
qed

lemma step_fuse:
  assumes "opt_inv L st" and "simulates h0 L0 (pnodes st) L B" and "acyclic (live_edges L0 h0)"
    and "map_of (graphs st) g = Some gr" and "n \<in> set (graph_nodes gr)"
    and "fusionCandidate ah (pnodes st) n = Inr (Some m)"
  shows "\<exists>h ns. fuseNodes n m (pnodes st, graph_nodes gr) = Inr (h, ns)
     \<and> ns = remove1 m (graph_nodes gr) \<and> n \<noteq> m
     \<and> opt_inv (L - {m}) (set_graph_nodes g ns (st\<lparr>pnodes := h\<rparr>))
     \<and> simulates h0 L0 h (L - {m}) (B(n := B n @ B m))"
proof -
  let ?h = "pnodes st"
  have l: "live_inv L ?h" and li: "listed L (graphs st) ?h" using assms(1) by (simp_all add: opt_inv_def)
  have c: "chains (live_edges L0 h0) L0 (live_edges L ?h) L B"
    and ip: "\<forall>z \<in> L. instrs_at ?h z = concat (map (instrs_at h0) (B z))"
    using assms(2) by (simp_all add: simulates_def)
  note E = live_edges_within [OF l]
  have ac: "acyclic (live_edges L ?h)" by (rule chains_acyclic [OF c E assms(3)])
  have nL: "n \<in> L" using listedD(2) [OF li assms(4)] assms(5) by blast
  obtain a b where succ: "succ_of ?h n = [m]" and pred: "pred_of ?h m = [n]" and mL: "m \<in> L"
    and ab: "map_of ?h n = Some a" "map_of ?h m = Some b" "node_graphId b = node_graphId a"
    using fusionCandidate_total [OF assms(1) nL, of ah] assms(6) by auto
  have "node_graphId a = g" using listedD(3) [OF li assms(4,5) ab(1)] .
  then have m: "m \<in> set (graph_nodes gr)" using listedD(4) [OF li mL ab(2)] ab(3) assms(4) by simp
  obtain h a' b' where run: "fuseNodes n m (?h, graph_nodes gr) = Inr (h, remove1 m (graph_nodes gr))"
    and ab': "map_of ?h n = Some a'" "map_of ?h m = Some b'" and nm: "n \<noteq> m"
    and l': "live_inv (L - {m}) h" and E': "live_edges (L - {m}) h = fused_edges n m (live_edges L ?h)"
    and f: "map_of h n = Some (fused a' b')"
    and core: "\<And>k. k \<noteq> n \<Longrightarrow> map_option node_core (map_of h k) = map_option node_core (map_of ?h k)"
    using fuseNodes_effect [OF l nL ac succ pred m] by metis
  have eq: "a' = a" "b' = b" using ab ab' by simp_all
  have "listed (L - {m}) (aput g (gr\<lparr>graph_nodes := remove1 m (graph_nodes gr)\<rparr>) (graphs st)) h"
    by (rule listed_fuse [OF li assms(4,5) m ab' nm f core])
  then have inv: "opt_inv (L - {m}) (set_graph_nodes g (remove1 m (graph_nodes gr)) (st\<lparr>pnodes := h\<rparr>))"
    using l' assms(4) by (simp add: opt_inv_def set_graph_nodes_def)
  have "live_edges L ?h `` {n} = {m}" using nL succ by (auto simp: live_edges_def)
  moreover have "\<forall>x. (x, m) \<in> live_edges L ?h \<longrightarrow> x = n"
  proof (intro allI impI)
    fix x assume "(x, m) \<in> live_edges L ?h"
    then have "x \<in> set (pred_of ?h m)" using l mL unfolding live_edges_def live_inv_def by blast
    then show "x = n" by (simp add: pred)
  qed
  ultimately have "chains (live_edges L0 h0) L0 (live_edges (L - {m}) h) (L - {m}) (B(n := B n @ B m))"
    unfolding E' using chains_fuse [OF c E _ _ nm] by blast
  moreover have "instrs_at h z = concat (map (instrs_at h0) ((B(n := B n @ B m)) z))" if z: "z \<in> L - {m}" for z
  proof (cases "z = n")
    case True
    have "instrs_at h n = instrs_at ?h n @ instrs_at ?h m" by (simp add: instrs_at_def f ab' eq ab)
    then show ?thesis using ip nL mL True by simp
  next
    case False
    have "same_attrs (L - {n}) ?h h" by (rule same_nodes_attrs) (use core in blast)
    then have "instrs_at h z = instrs_at ?h z" using z False by (intro instrs_same_attrs) auto
    then show ?thesis using ip z False by simp
  qed
  ultimately have "simulates h0 L0 h (L - {m}) (B(n := B n @ B m))" by (simp add: simulates_def)
  with run inv nm show ?thesis by blast
qed

lemma set_graph_nodes_simps [simp]:
  "pnodes (set_graph_nodes g ns st) = pnodes st"
  "dom (map_of (graphs (set_graph_nodes g ns st))) = dom (map_of (graphs st))"
  "g' \<noteq> g \<Longrightarrow> map_of (graphs (set_graph_nodes g ns st)) g' = map_of (graphs st) g'"
  "map_of (graphs st) g = Some gr \<Longrightarrow>
     map_of (graphs (set_graph_nodes g ns st)) g = Some (gr\<lparr>graph_nodes := ns\<rparr>)"
  by (auto simp: set_graph_nodes_def split: option.splits)

lemma aput_twice: "aput k v (aput k w m) = aput k v m"
  by (induction k w m rule: aput.induct) auto

lemma fuseLoop_effect:
  assumes "opt_inv L st" and "simulates h0 L0 (pnodes st) L B" and "acyclic (live_edges L0 h0)"
    and "map_of (graphs st) g = Some gr" and "n \<in> set (graph_nodes gr)"
  shows "\<exists>h ns L' B'. fuseLoop ah n (pnodes st, graph_nodes gr) = Inr (h, ns) \<and> L' \<subseteq> L
     \<and> opt_inv L' (set_graph_nodes g ns (st\<lparr>pnodes := h\<rparr>)) \<and> simulates h0 L0 h L' B'"
  using assms(1,2,4,5)
proof (induction "length (graph_nodes gr)" arbitrary: L st B gr rule: less_induct)
  case less
  have nL: "n \<in> L" using less.prems listedD(2) unfolding opt_inv_def by blast
  obtain c where c: "fusionCandidate ah (pnodes st) n = Inr c"
    using fusionCandidate_total [OF less.prems(1) nL] by blast
  show ?case
  proof (cases c)
    case None
    have "set_graph_nodes g (graph_nodes gr) (st\<lparr>pnodes := pnodes st\<rparr>) = st"
      using less.prems(3) by (simp add: set_graph_nodes_def aput_id)
    then show ?thesis using less.prems c None
      by (intro exI [of _ "pnodes st"] exI [of _ "graph_nodes gr"] exI [of _ L] exI [of _ B])
        (simp add: fuseLoop.simps)
  next
    case (Some m)
    from step_fuse [OF less.prems(1,2) assms(3) less.prems(3,4) c [unfolded Some]]
    obtain h1 where f: "fuseNodes n m (pnodes st, graph_nodes gr) = Inr (h1, remove1 m (graph_nodes gr))"
      and nm: "n \<noteq> m" and i1: "opt_inv (L - {m}) (set_graph_nodes g (remove1 m (graph_nodes gr)) (st\<lparr>pnodes := h1\<rparr>))"
      and s1: "simulates h0 L0 h1 (L - {m}) (B(n := B n @ B m))" by blast
    let ?ns = "remove1 m (graph_nodes gr)" and ?gr = "gr\<lparr>graph_nodes := remove1 m (graph_nodes gr)\<rparr>"
    let ?st = "set_graph_nodes g ?ns (st\<lparr>pnodes := h1\<rparr>)"
    have gr1: "map_of (graphs ?st) g = Some ?gr" using less.prems(3) by simp
    have shorter: "length (graph_nodes ?gr) < length (graph_nodes gr)"
      using fuseNodes_length [OF f] by simp
    have sim: "simulates h0 L0 (pnodes ?st) (L - {m}) (B(n := B n @ B m))" using s1 by simp
    have mem: "n \<in> set (graph_nodes ?gr)" using less.prems(4) nm by simp
    from less.hyps [OF shorter i1 sim gr1 mem] obtain h ns L' B' where
      r: "fuseLoop ah n (h1, ?ns) = Inr (h, ns)" "L' \<subseteq> L - {m}"
        "opt_inv L' (set_graph_nodes g ns (?st\<lparr>pnodes := h\<rparr>))" "simulates h0 L0 h L' B'"
      by auto
    have "set_graph_nodes g ns (?st\<lparr>pnodes := h\<rparr>) = set_graph_nodes g ns (st\<lparr>pnodes := h\<rparr>)"
      using less.prems(3) by (simp add: set_graph_nodes_def aput_twice)
    moreover have "fuseLoop ah n (pnodes st, graph_nodes gr) = Inr (h, ns)"
      using c Some f r(1) by (simp add: fuseLoop.simps [of ah n "pnodes st"])
    ultimately show ?thesis using r(2-4) by (metis Diff_subset subset_trans)
  qed
qed

section \<open>The descent into nested graphs\<close>

text \<open>What optimising the graph \<open>g\<close> leaves alone: the set of graphs, and those with smaller identifiers.\<close>

definition keeps :: "nat \<Rightarrow> 't program_graph \<Rightarrow> 't program_graph \<Rightarrow> bool" where
  "keeps g st st' \<longleftrightarrow> dom (map_of (graphs st')) = dom (map_of (graphs st))
     \<and> (\<forall>k < g. map_of (graphs st') k = map_of (graphs st) k)"

lemma keeps_refl: "keeps g st st"
  by (simp add: keeps_def)

lemma keeps_trans: "keeps g st st' \<Longrightarrow> keeps g st' st'' \<Longrightarrow> keeps g st st''"
  by (simp add: keeps_def)

lemma keeps_less: "keeps s st st' \<Longrightarrow> g \<le> s \<Longrightarrow> keeps g st st'"
  by (simp add: keeps_def)

text \<open>A step on the graph \<open>g\<close> that returns, keeps the invariant and simulates.\<close>

definition advances :: "'t nodes \<Rightarrow> nat set \<Rightarrow> nat \<Rightarrow> nat set \<Rightarrow> 't program_graph \<Rightarrow> 't program_graph res \<Rightarrow> bool" where
  "advances h0 L0 g L st r \<longleftrightarrow> (\<exists>st' L' B'. r = Inr st' \<and> L' \<subseteq> L \<and> opt_inv L' st'
     \<and> simulates h0 L0 (pnodes st') L' B' \<and> keeps g st st')"

definition good_opt :: "'t nodes \<Rightarrow> nat set \<Rightarrow> nat \<Rightarrow> nat \<Rightarrow> (nat \<Rightarrow> 't program_graph \<Rightarrow> 't program_graph res) \<Rightarrow> bool" where
  "good_opt h0 L0 X g opt \<longleftrightarrow> (\<forall>s L st B. g \<le> s \<longrightarrow> opt_inv L st \<longrightarrow> simulates h0 L0 (pnodes st) L B \<longrightarrow>
     s \<in> dom (map_of (graphs st)) \<longrightarrow> dom (map_of (graphs st)) \<subseteq> {..<X} \<longrightarrow> advances h0 L0 s L st (opt s st))"

lemma fold_opt_advances:
  assumes "good_opt h0 L0 X (g) opt" and "opt_inv L st" and "simulates h0 L0 (pnodes st) L B"
    and "\<forall>s \<in> set ss. g \<le> s \<and> s \<in> dom (map_of (graphs st))" and "dom (map_of (graphs st)) \<subseteq> {..<X}"
  shows "advances h0 L0 (g) L st (fold_res opt ss st)"
  using assms(2-5)
proof (induction ss arbitrary: L st B)
  case Nil
  then show ?case unfolding advances_def by (auto simp: keeps_refl)
next
  case (Cons s ss)
  have gs: "g \<le> s" "s \<in> dom (map_of (graphs st))" using Cons.prems(3) by simp_all
  have "advances h0 L0 s L st (opt s st)"
    using assms(1) Cons.prems(1,2,4) gs unfolding good_opt_def by blast
  then obtain st1 L1 B1 where 1: "opt s st = Inr st1" "L1 \<subseteq> L" "opt_inv L1 st1"
    "simulates h0 L0 (pnodes st1) L1 B1" "keeps s st st1" unfolding advances_def by blast
  have dom: "dom (map_of (graphs st1)) = dom (map_of (graphs st))" using 1(5) by (simp add: keeps_def)
  have "advances h0 L0 (g) L1 st1 (fold_res opt ss st1)"
    using Cons.IH [OF 1(3,4)] Cons.prems(3,4) dom by simp
  then obtain st2 L2 B2 where 2: "fold_res opt ss st1 = Inr st2" "L2 \<subseteq> L1" "opt_inv L2 st2"
    "simulates h0 L0 (pnodes st2) L2 B2" "keeps (g) st1 st2" unfolding advances_def by blast
  have "keeps (g) st st2" using keeps_trans [OF keeps_less [OF 1(5) gs(1)] 2(5)] .
  then show ?case unfolding advances_def using 1(1,2) 2(1-4)
    by (intro exI [of _ st2] exI [of _ L2] exI [of _ B2]) auto
qed

lemma keeps_set_graph_nodes: "keeps g st (set_graph_nodes g ns (st\<lparr>pnodes := h\<rparr>))"
  by (simp add: keeps_def)

lemma nodesFusion_loop_advances:
  assumes "good_opt h0 L0 X (Suc g) opt" and "acyclic (live_edges L0 h0)"
    and "opt_inv L st" and "simulates h0 L0 (pnodes st) L B"
    and "map_of (graphs st) g = Some gr" and "dom (map_of (graphs st)) \<subseteq> {..<X}"
  shows "advances h0 L0 g L st (nodesFusion_loop opt ah g i (graph_nodes gr) st)"
  using assms(3-6)
proof (induction "length (graph_nodes gr) - i" arbitrary: i gr L st B rule: less_induct)
  case less
  show ?case
  proof (cases "i < length (graph_nodes gr)")
    case False
    then show ?thesis using less.prems unfolding advances_def
      by (auto simp: nodesFusion_loop.simps [of opt ah g i] keeps_refl)
  next
    case True
    let ?n = "graph_nodes gr ! i"
    have l: "live_inv L (pnodes st)" and li: "listed L (graphs st) (pnodes st)"
      using less.prems(1) by (simp_all add: opt_inv_def)
    have n: "?n \<in> set (graph_nodes gr)" using True by simp
    then have nL: "?n \<in> L" using listedD(2) [OF li less.prems(3)] by blast
    then obtain nd where nd: "map_of (pnodes st) ?n = Some nd" using l unfolding live_inv_def by blast
    have gid: "node_graphId nd = g" using listedD(3) [OF li less.prems(3) n nd] .
    show ?thesis
    proof (cases "length (instructionPtr nd) = 1 \<and> complexInstruction (hd (instructionPtr nd))")
      case complex: True
      have "\<forall>s \<in> set (subgraphs nd). g < s \<and> s \<in> dom (map_of (graphs st))"
        using listedD(6,7) [OF li nL nd] gid by blast
      then have "\<forall>s \<in> set (subgraphs nd). Suc g \<le> s \<and> s \<in> dom (map_of (graphs st))" by auto
      from fold_opt_advances [OF assms(1) less.prems(1,2) this less.prems(4)]
      obtain st1 L1 B1 where 1: "fold_res opt (subgraphs nd) st = Inr st1" "L1 \<subseteq> L" "opt_inv L1 st1"
        "simulates h0 L0 (pnodes st1) L1 B1" "keeps (Suc g) st st1" unfolding advances_def by blast
      have g1: "map_of (graphs st1) g = Some gr" and d1: "dom (map_of (graphs st1)) \<subseteq> {..<X}"
        using 1(5) less.prems(3,4) by (simp_all add: keeps_def)
      have "length (graph_nodes gr) - Suc i < length (graph_nodes gr) - i" using True by simp
      from less.hyps [OF this 1(3,4) g1 d1]
      have "advances h0 L0 g L1 st1 (nodesFusion_loop opt ah g (Suc i) (graph_nodes gr) st1)" .
      moreover have "nodesFusion_loop opt ah g i (graph_nodes gr) st
          = nodesFusion_loop opt ah g (Suc i) (graph_nodes gr) st1"
        using True complex nd 1(1) by (simp add: nodesFusion_loop.simps [of opt ah g i] deref_node_def)
      ultimately show ?thesis using 1(2) keeps_trans [OF keeps_less [OF 1(5)]]
        unfolding advances_def by (metis le_SucI order_refl subset_trans)
    next
      case simple: False
      from fuseLoop_effect [OF less.prems(1,2) assms(2) less.prems(3) n, of ah]
      obtain h ns L1 B1 where f: "fuseLoop ah ?n (pnodes st, graph_nodes gr) = Inr (h, ns)" "L1 \<subseteq> L"
        "opt_inv L1 (set_graph_nodes g ns (st\<lparr>pnodes := h\<rparr>))" "simulates h0 L0 h L1 B1" by blast
      let ?st = "set_graph_nodes g ns (st\<lparr>pnodes := h\<rparr>)" and ?gr = "gr\<lparr>graph_nodes := ns\<rparr>"
      have g1: "map_of (graphs ?st) g = Some ?gr" using less.prems(3) by simp
      have d1: "dom (map_of (graphs ?st)) \<subseteq> {..<X}" using less.prems(4) by simp
      have s1: "simulates h0 L0 (pnodes ?st) L1 B1" using f(4) by simp
      have "length (graph_nodes ?gr) - Suc i < length (graph_nodes gr) - i"
        using True fuseLoop_length [OF f(1)] by simp
      from less.hyps [OF this f(3) s1 g1 d1]
      have "advances h0 L0 g L1 ?st (nodesFusion_loop opt ah g (Suc i) ns ?st)" by simp
      moreover have "nodesFusion_loop opt ah g i (graph_nodes gr) st = nodesFusion_loop opt ah g (Suc i) ns ?st"
        using True simple nd f(1) by (auto simp: nodesFusion_loop.simps [of opt ah g i] deref_node_def)
      ultimately show ?thesis using f(2) keeps_trans [OF keeps_set_graph_nodes]
        unfolding advances_def by (metis subset_trans)
    qed
  qed
qed

section \<open>The clauses\<close>

definition clauses_only :: "'t nodes \<Rightarrow> 't nodes \<Rightarrow> bool" where
  "clauses_only h h' \<longleftrightarrow> (\<forall>n. map_option (\<lambda>nd. nd\<lparr>inOutDep := [], inDep := []\<rparr>) (map_of h' n)
     = map_option (\<lambda>nd. nd\<lparr>inOutDep := [], inDep := []\<rparr>) (map_of h n))"

lemma clauses_only_refl: "clauses_only h h"
  by (simp add: clauses_only_def)

lemma clauses_only_trans: "clauses_only h h' \<Longrightarrow> clauses_only h' h'' \<Longrightarrow> clauses_only h h''"
  by (simp add: clauses_only_def)

lemma clauses_only_fields:
  assumes "clauses_only h h'"
  shows "succ_of h' n = succ_of h n" "pred_of h' n = pred_of h n" "dom (map_of h') = dom (map_of h)"
    "map_option attr (map_of h' n) = map_option attr (map_of h n)"
proof -
  have eq: "map_option (\<lambda>nd. nd\<lparr>inOutDep := [], inDep := []\<rparr>) (map_of h' n)
      = map_option (\<lambda>nd. nd\<lparr>inOutDep := [], inDep := []\<rparr>) (map_of h n)" for n
    using assms by (simp add: clauses_only_def)
  have fields: "next_map a = next_map b \<and> prev_set a = prev_set b \<and> attr a = attr b"
    if "(a::'t node)\<lparr>inOutDep := [], inDep := []\<rparr> = b\<lparr>inOutDep := [], inDep := []\<rparr>" for a b
    using that by (cases a; cases b) (simp add: attr_def)
  have cases: "map_of h' n = None \<and> map_of h n = None \<or>
      (\<exists>a b. map_of h' n = Some a \<and> map_of h n = Some b \<and> next_map a = next_map b \<and> prev_set a = prev_set b \<and> attr a = attr b)" for n
    using eq [of n] fields by (cases "map_of h' n"; cases "map_of h n") auto
  show "succ_of h' n = succ_of h n" "pred_of h' n = pred_of h n"
    "map_option attr (map_of h' n) = map_option attr (map_of h n)"
    using cases [of n] by (auto simp: succ_of_def pred_of_def)
  show "dom (map_of h') = dom (map_of h)" using cases by (auto simp: dom_def) (metis option.distinct(1))+
qed

lemma clauses_only_live:
  assumes "clauses_only h h'"
  shows "live_inv L h' = live_inv L h" and "live_edges L h' = live_edges L h" and "same_attrs L h h'"
  using clauses_only_fields [OF assms] by (simp_all add: live_inv_def live_edges_def same_attrs_def)

lemma computeInOutInDep_returns:
  assumes "live_inv L h" and "n \<in> L"
  shows "\<exists>h'. computeInOutInDep ah n h = Inr h' \<and> clauses_only h h'"
proof -
  obtain nd where nd: "map_of h n = Some nd" using assms unfolding live_inv_def by blast
  have "set (pred_of h n) \<subseteq> dom (map_of h)" using assms unfolding live_inv_def by blast
  then have p: "set (prev_set nd) \<subseteq> dom (map_of h)" by (simp add: pred_of_def nd)
  obtain io where io: "computeInOutDep_loop ah h nd (node_dependencies nd) (inOutDep nd) = Inr io"
    using computeInOutDep_loop_set [OF p] by blast
  let ?h = "aput n (nd\<lparr>inOutDep := io\<rparr>) h"
  have "set (prev_set (nd\<lparr>inOutDep := io\<rparr>)) \<subseteq> dom (map_of ?h)" using p by auto
  from computeInDep_loop_set [OF this] obtain i where
    i: "computeInDep_loop ah ?h (nd\<lparr>inOutDep := io\<rparr>) (node_dependencies nd) (inDep nd) = Inr i" by blast
  have "computeInOutInDep ah n h = Inr (aput n (nd\<lparr>inOutDep := io, inDep := i\<rparr>) ?h)"
    using nd io i by (simp add: computeInOutInDep_def computeInOutDep_def computeInDep_def deref_node_def)
  moreover have "clauses_only h (aput n (nd\<lparr>inOutDep := io, inDep := i\<rparr>) ?h)"
    using nd by (simp add: clauses_only_def)
  ultimately show ?thesis by blast
qed

lemma fold_res_total:
  assumes "\<And>x s. x \<in> set xs \<Longrightarrow> P s \<Longrightarrow> \<exists>t. f x s = Inr t \<and> P t" and "P s"
  shows "\<exists>t. fold_res f xs s = Inr t \<and> P t"
  using assms
proof (induction xs arbitrary: s)
  case (Cons x xs)
  obtain t where t: "f x s = Inr t" "P t" using Cons.prems(1) [of x s] Cons.prems(2) by auto
  from Cons.IH [OF _ t(2)] Cons.prems(1) t(1) show ?case by simp
qed simp

lemma nodesComputeInOut_returns:
  assumes "live_inv L h" and "listed L gs h" and "g \<in> dom (map_of gs)"
    and "dom (map_of gs) \<subseteq> {..<X}" and "X \<le> g + fuel"
  shows "\<exists>h'. nodesComputeInOut fuel ah gs g h = Inr h' \<and> clauses_only h h'"
  using assms(1-3,5)
proof (induction fuel arbitrary: g h)
  case 0
  then show ?case using assms(4) by auto
next
  case (Suc fuel)
  obtain gr where gr: "map_of gs g = Some gr" using Suc.prems(3) by blast
  let ?step = "\<lambda>n h. bind_res (computeInOutInDep ah n h) (\<lambda>h1.
            bind_res (deref_node h1 n) (\<lambda>nd. fold_res (nodesComputeInOut fuel ah gs) (subgraphs nd) h1))"
  have "\<exists>t. fold_res ?step (graph_nodes gr) h = Inr t \<and> clauses_only h t"
  proof (rule fold_res_total)
    fix n h1 assume n: "n \<in> set (graph_nodes gr)" and h1: "clauses_only h h1"
    have nL: "n \<in> L" using listedD(2) [OF Suc.prems(2) gr] n by blast
    note l1 = Suc.prems(1) [folded clauses_only_live(1) [OF h1]]
    obtain h2 where h2: "computeInOutInDep ah n h1 = Inr h2" "clauses_only h1 h2"
      using computeInOutInDep_returns [OF l1 nL] by blast
    have c2: "clauses_only h h2" using clauses_only_trans [OF h1 h2(2)] .
    have l2: "live_inv L h2" and li2: "listed L gs h2"
      using Suc.prems(1) clauses_only_live(1) [OF c2] listed_same_attrs [OF Suc.prems(2) clauses_only_live(3) [OF c2]] by simp_all
    obtain nd where nd: "map_of h2 n = Some nd" using l2 nL unfolding live_inv_def by blast
    have gid: "node_graphId nd = g" using listedD(3) [OF li2 gr n nd] .
    have "\<exists>t. fold_res (nodesComputeInOut fuel ah gs) (subgraphs nd) h2 = Inr t \<and> clauses_only h2 t"
    proof (rule fold_res_total)
      fix s h3 assume s: "s \<in> set (subgraphs nd)" and h3: "clauses_only h2 h3"
      have l3: "live_inv L h3" and li3: "listed L gs h3"
        using l2 clauses_only_live(1) [OF h3] listed_same_attrs [OF li2 clauses_only_live(3) [OF h3]] by simp_all
      have "g < s" "s \<in> dom (map_of gs)" using listedD(6,7) [OF li2 nL nd s] gid by auto
      with Suc.IH [OF l3 li3, of s] Suc.prems(4) clauses_only_trans [OF h3]
      show "\<exists>t. nodesComputeInOut fuel ah gs s h3 = Inr t \<and> clauses_only h2 t" by auto
    qed (rule clauses_only_refl)
    then show "\<exists>t. ?step n h1 = Inr t \<and> clauses_only h t"
      using h2 nd clauses_only_trans [OF c2] by (auto simp: deref_node_def)
  qed (rule clauses_only_refl)
  with gr show ?case by simp
qed

section \<open>optimizeGraph\<close>

lemma optimizeGraph_advances:
  assumes "acyclic (live_edges L0 h0)" and "opt_inv L st" and "simulates h0 L0 (pnodes st) L B"
    and "g \<in> dom (map_of (graphs st))" and "dom (map_of (graphs st)) \<subseteq> {..<X}" and "X \<le> g + fuel"
  shows "advances h0 L0 g L st (optimizeGraph fuel ah g st)"
  using assms(2-6)
proof (induction fuel arbitrary: g L st B)
  case 0
  then show ?case by auto
next
  case (Suc fuel)
  obtain gr where gr: "map_of (graphs st) g = Some gr" using Suc.prems(3) by blast
  have "set (graph_nodes gr) \<subseteq> L" using Suc.prems(1) listedD(2) gr unfolding opt_inv_def by blast
  from step_reduce [OF Suc.prems(1,2) assms(1) this] obtain h where
    h: "transitiveReduction (graph_nodes gr) (pnodes st) = Inr h" "opt_inv L (st\<lparr>pnodes := h\<rparr>)"
      "simulates h0 L0 h L B" by blast
  let ?st = "st\<lparr>pnodes := h\<rparr>"
  have opt: "good_opt h0 L0 X (Suc g) (optimizeGraph fuel ah)"
    unfolding good_opt_def using Suc.IH Suc.prems(5) by simp
  have s1: "simulates h0 L0 (pnodes ?st) L B" and g1: "map_of (graphs ?st) g = Some gr"
    and d1: "dom (map_of (graphs ?st)) \<subseteq> {..<X}" using h(3) gr Suc.prems(4) by simp_all
  have "advances h0 L0 g L ?st (nodesFusion (optimizeGraph fuel ah) ah g ?st)"
    using nodesFusion_loop_advances [OF opt assms(1) h(2) s1 g1 d1, of ah 0] gr by (simp add: nodesFusion_def)
  then obtain st1 L1 B1 where 1: "nodesFusion (optimizeGraph fuel ah) ah g ?st = Inr st1" "L1 \<subseteq> L"
    "opt_inv L1 st1" "simulates h0 L0 (pnodes st1) L1 B1" "keeps g ?st st1" unfolding advances_def by blast
  have l1: "live_inv L1 (pnodes st1)" "listed L1 (graphs st1) (pnodes st1)" using 1(3) by (simp_all add: opt_inv_def)
  have d: "dom (map_of (graphs st1)) = dom (map_of (graphs st))" using 1(5) by (simp add: keeps_def)
  obtain h1 where c: "nodesComputeInOut (Suc fuel) ah (graphs st1) g (pnodes st1) = Inr h1" "clauses_only (pnodes st1) h1"
    using nodesComputeInOut_returns [OF l1, of g X "Suc fuel" ah] Suc.prems(3-5) d by auto
  note cl = clauses_only_live [OF c(2), of L1]
  have "opt_inv L1 (st1\<lparr>pnodes := h1\<rparr>)" and "simulates h0 L0 h1 L1 B1"
    using step_thin [OF 1(3,4) _ cl(3)] cl(1,2) l1(1) by simp_all
  moreover have "keeps g st (st1\<lparr>pnodes := h1\<rparr>)" using 1(5) by (simp add: keeps_def)
  moreover have "optimizeGraph (Suc fuel) ah g st = Inr (st1\<lparr>pnodes := h1\<rparr>)"
    using gr h(1) 1(1) c(1) by (simp del: nodesComputeInOut.simps)
  ultimately show ?case using 1(2) unfolding advances_def
    by (intro exI [of _ "st1\<lparr>pnodes := h1\<rparr>"] exI [of _ L1] exI [of _ B1]) simp
qed

end
