(* ===== verification/Graph_Program.thy ===== *)
theory Graph_Program
  imports Graph_Optimize
begin

text \<open>
  The graphs of a whole file: what \<open>generateGraph\<close> builds satisfies the invariant of the
  optimisation, so that the optimised graphs keep the order of every two conflicting instructions.
\<close>

section \<open>Links change no node\<close>

lemma modify_node_same:
  assumes "modify_node n f h = Inr h'" and "\<And>nd. node_core (f nd) = node_core nd"
  shows "same_nodes h h'"
  using assms by (auto simp: modify_node_Inr same_nodes_def)

lemma addLink_same:
  assumes "addLink x y r w arg h = Inr h'"
  shows "same_nodes h h'"
proof (cases "arg = null")
  case True
  then show ?thesis using assms by (simp add: addLink_def)
next
  case False
  then obtain cur where cur: "map_of h x = Some cur"
    using assms by (auto simp: addLink_def deref_node_def split: option.splits)
  define next0 where "next0 = (case map_of (next_map cur) y of None \<Rightarrow> aput y [] (next_map cur) | Some _ \<Rightarrow> next_map cur)"
  define row where "row = (case map_of next0 y of None \<Rightarrow> [] | Some row \<Rightarrow> row)"
  define h1 where "h1 = aput x (cur\<lparr>next_map := aput y (addLink_row r w arg row) next0\<rparr>) h"
  have s: "same_nodes h h1" using cur by (simp add: same_nodes_def h1_def)
  have run: "(if map_of row arg = None then modify_node y (\<lambda>nd. nd\<lparr>prev_set := sins x (prev_set nd)\<rparr>) h1 else Inr h1) = Inr h'"
    using assms False cur unfolding addLink_def deref_node_def Let_def
    by (simp only: option.case bind_res_simps if_False next0_def [symmetric] row_def [symmetric] h1_def [symmetric])
  show ?thesis
  proof (cases "map_of row arg = None")
    case True
    then have "modify_node y (\<lambda>nd. nd\<lparr>prev_set := sins x (prev_set nd)\<rparr>) h1 = Inr h'" using run by (simp only: if_True simp_thms)
    then have "same_nodes h1 h'" by (rule modify_node_same) simp
    with s show ?thesis by (rule same_nodes_trans)
  next
    case False
    then show ?thesis using run s by (simp only: if_False sum.inject)
  qed
qed

lemma link_from_same: "link_from T r w n d c m h = Inr h' \<Longrightarrow> same_nodes h h'"
  by (auto simp: link_from_def res_simps dest: addLink_same split: if_splits)

lemma read_link_same: "read_link T n W d c h = Inr h' \<Longrightarrow> same_nodes h h'"
  by (auto simp: read_link_def dest: link_from_same split: option.splits)

lemma write_link_same: "write_link T n s d c (h, bs) = Inr (h', bs') \<Longrightarrow> same_nodes h h'"
proof (cases "map_of (dataUsedInRead s) c")
  case None
  assume "write_link T n s d c (h, bs) = Inr (h', bs')"
  with None show ?thesis
    by (auto simp: write_link_def res_simps dest: link_from_same split: option.splits)
next
  case (Some readers)
  assume "write_link T n s d c (h, bs) = Inr (h', bs')"
  with Some have "fold_res (link_from T False True n d c) readers h = Inr h'"
    by (auto simp: write_link_def res_simps)
  then show ?thesis
    by (rule fold_res_invariant [where P = "same_nodes h"]) (auto dest: link_from_same intro: same_nodes_trans)
qed

lemma handleParent_same: "handleParent T n s d dep c (h, bs) = Inr (h', bs') \<Longrightarrow> same_nodes h h'"
  by (auto simp: handleParent_def res_simps dest: read_link_same split: if_splits)

lemma handleChild_same:
  assumes "handleChild T n s d dep c (h, bs) = Inr (h', bs')"
  shows "same_nodes h h'"
proof -
  obtain h1 where h1: "(if isRead dep then read_link T n (dataUsedInWrite s) d c h else Inr h) = Inr h1"
    and r: "bind_res (if isWrite dep then write_link T n s d c (h1, bs) else Inr (h1, bs)) (\<lambda>(h2, bs1).
        (let bs2 = (if isWrite dep
                    then bs1\<lparr>dataWriteBuffer := dataWriteBuffer bs1 @ [(n, c)]\<rparr> else bs1);
             bs3 = (if isRead dep
                    then bs2\<lparr>dataReadBuffer := dataReadBuffer bs2 @ [(n, c)]\<rparr> else bs2)
         in Inr (h2, bs3))) = Inr (h', bs')"
    using assms unfolding handleChild_def prod.case bind_res_Inr by blast
  have s1: "same_nodes h h1" using h1 by (auto dest: read_link_same split: if_splits)
  have "same_nodes h1 h'" using r by (auto simp: res_simps Let_def dest: write_link_same split: if_splits)
  with s1 show ?thesis by (rule same_nodes_trans)
qed

lemma fold_pair_same:
  assumes "fold_res f xs (h, bs) = Inr (h', bs')"
    and "\<And>x h bs h' bs'. f x (h, bs) = Inr (h', bs') \<Longrightarrow> same_nodes h h'"
  shows "same_nodes h h'"
proof -
  have "same_nodes h (fst (h', bs'))"
  proof (rule fold_res_invariant [OF assms(1), of "\<lambda>s. same_nodes h (fst s)"])
    fix x s t assume s: "same_nodes h (fst s)" and "f x s = Inr t"
    then have "same_nodes (fst s) (fst t)" using assms(2) [of x "fst s" "snd s" "fst t" "snd t"] by simp
    with s show "same_nodes h (fst t)" by (rule same_nodes_trans)
  qed simp
  then show ?thesis by simp
qed

lemma handleDep_same:
  assumes "handleDep T n s x (h, bs) = Inr (h', bs')"
  shows "same_nodes h h'"
proof -
  obtain d dep where x: "x = (d, dep)" by fastforce
  obtain ps st1 cs where 1: "fold_res (handleParent T n s d dep) ps (h, bs) = Inr st1"
    and 2: "fold_res (handleChild T n s d dep) cs st1 = Inr (h', bs')"
    using assms unfolding handleDep_def x prod.case bind_res_Inr by blast
  obtain h1 bs1 where st1: "st1 = (h1, bs1)" by fastforce
  have "same_nodes h h1" by (rule fold_pair_same [OF 1 [unfolded st1]]) (rule handleParent_same)
  moreover have "same_nodes h1 h'" by (rule fold_pair_same [OF 2 [unfolded st1]]) (rule handleChild_same)
  ultimately show ?thesis by (rule same_nodes_trans)
qed

lemma handleInstructionDeps_same:
  assumes "handleInstructionDeps T (n, deps) s = Inr s'"
  shows "same_nodes (bnodes s) (bnodes s')"
proof -
  obtain h bs where 1: "fold_res (handleDep T n s) deps (bnodes s, buffers_empty) = Inr (h, bs)"
    and s': "s' = flush_buffers bs h s"
    using assms by (auto simp: handleInstructionDeps_def res_simps)
  have "same_nodes (bnodes s) h" by (rule fold_pair_same [OF 1]) (rule handleDep_same)
  then show ?thesis by (simp add: s' flush_buffers_def Let_def)
qed

section \<open>The graphs that are built\<close>

definition built_graphs :: "'t program_graph \<Rightarrow> bool" where
  "built_graphs st \<longleftrightarrow> listed (dom (map_of (pnodes st))) (graphs st) (pnodes st)
     \<and> (\<forall>n nd. map_of (pnodes st) n = Some nd \<longrightarrow> n < node_idCounter st \<and> node_graphId nd < graph_idCounter st)
     \<and> dom (map_of (graphs st)) \<subseteq> {..<graph_idCounter st}"

definition grows :: "'t program_graph \<Rightarrow> 't program_graph \<Rightarrow> bool" where
  "grows st st' \<longleftrightarrow> node_idCounter st \<le> node_idCounter st' \<and> graph_idCounter st \<le> graph_idCounter st'
     \<and> (\<forall>n nd. map_of (pnodes st) n = Some nd \<longrightarrow> (\<exists>nd'. map_of (pnodes st') n = Some nd' \<and> node_graphId nd' = node_graphId nd))
     \<and> (\<forall>n nd. map_of (pnodes st') n = Some nd \<longrightarrow> map_of (pnodes st) n = None \<longrightarrow> graph_idCounter st \<le> node_graphId nd)
     \<and> (\<forall>g < graph_idCounter st. map_of (graphs st') g = map_of (graphs st) g)"

lemma grows_refl: "grows st st"
  by (simp add: grows_def)

lemma grows_trans:
  assumes "grows a b" and "grows b c"
  shows "grows a c"
proof -
  have 1: "\<exists>nd'. map_of (pnodes c) n = Some nd' \<and> node_graphId nd' = node_graphId nd"
    if "map_of (pnodes a) n = Some nd" for n nd
    using assms that unfolding grows_def by fastforce
  have 2: "graph_idCounter a \<le> node_graphId nd" if c: "map_of (pnodes c) n = Some nd" and a: "map_of (pnodes a) n = None" for n nd
  proof (cases "map_of (pnodes b) n")
    case None
    then have "graph_idCounter b \<le> node_graphId nd" using assms(2) c unfolding grows_def by blast
    then show ?thesis using assms(1) by (simp add: grows_def)
  next
    case (Some nb)
    then have "graph_idCounter a \<le> node_graphId nb" using assms(1) a unfolding grows_def by blast
    moreover have "node_graphId nd = node_graphId nb" using assms(2) Some c unfolding grows_def by fastforce
    ultimately show ?thesis by simp
  qed
  have "map_of (graphs c) g = map_of (graphs a) g" if "g < graph_idCounter a" for g
  proof -
    have "g < graph_idCounter b" using that assms(1) by (simp add: grows_def)
    then show ?thesis using that assms by (simp add: grows_def)
  qed
  then show ?thesis using assms 1 2 unfolding grows_def by auto
qed

text \<open>Steps that only change links, clauses and maps.\<close>

lemma built_graphs_same:
  assumes "built_graphs st" and "same_nodes (pnodes st) (pnodes st')" and "graphs st' = graphs st"
    and "node_idCounter st' = node_idCounter st" and "graph_idCounter st' = graph_idCounter st"
  shows "built_graphs st'" and "grows st st'"
proof -
  have s: "map_option node_core (map_of (pnodes st') n) = map_option node_core (map_of (pnodes st) n)" for n
    using assms(2) by (simp add: same_nodes_def)
  then have a: "same_attrs UNIV (pnodes st) (pnodes st')" by (intro same_nodes_attrs)
  have none: "map_of (pnodes st') n = None \<longleftrightarrow> map_of (pnodes st) n = None" for n
    using s [of n] by (cases "map_of (pnodes st') n"; cases "map_of (pnodes st) n") auto
  then have dom: "dom (map_of (pnodes st')) = dom (map_of (pnodes st))" by (simp add: dom_def)
  have old: "\<exists>nd. map_of (pnodes st) n = Some nd \<and> node_graphId nd' = node_graphId nd"
    if "map_of (pnodes st') n = Some nd'" for n nd'
    by (rule same_attrsD [OF a _ that]) auto
  have "same_attrs (dom (map_of (pnodes st))) (pnodes st) (pnodes st')" using a by (simp add: same_attrs_def)
  then have "listed (dom (map_of (pnodes st))) (graphs st) (pnodes st')"
    using assms(1) listed_same_attrs unfolding built_graphs_def by blast
  moreover have "n < node_idCounter st \<and> node_graphId nd < graph_idCounter st" if "map_of (pnodes st') n = Some nd" for n nd
    using old [OF that] assms(1) unfolding built_graphs_def by auto
  ultimately show "built_graphs st'" using assms(1,3-5) by (simp add: built_graphs_def dom)
  have "\<exists>nd'. map_of (pnodes st') n = Some nd' \<and> node_graphId nd' = node_graphId nd"
    if nd: "map_of (pnodes st) n = Some nd" for n nd
  proof -
    obtain nd' where nd': "map_of (pnodes st') n = Some nd'" using nd none [of n] by auto
    then show ?thesis using old [OF nd'] nd by auto
  qed
  moreover have "map_of (pnodes st') n \<noteq> Some nd" if "map_of (pnodes st) n = None" for n nd
    using none [of n] that by simp
  ultimately show "grows st st'" using assms(3-5) unfolding grows_def by (intro conjI allI impI) (simp, simp, blast, metis, simp)
qed

lemma built_graphs_create:
  assumes "built_graphs st"
  shows "built_graphs (create_nodes (graph_idCounter st) l ins (st\<lparr>graph_idCounter := Suc (graph_idCounter st)\<rparr>))"
    and "grows st (create_nodes (graph_idCounter st) l ins (st\<lparr>graph_idCounter := Suc (graph_idCounter st)\<rparr>))"
proof -
  let ?g = "graph_idCounter st" and ?k = "node_idCounter st"
  let ?st = "create_nodes ?g l ins (st\<lparr>graph_idCounter := Suc ?g\<rparr>)"
  have b: "listed (dom (map_of (pnodes st))) (graphs st) (pnodes st)"
    "\<And>n nd. map_of (pnodes st) n = Some nd \<Longrightarrow> n < ?k \<and> node_graphId nd < ?g" "dom (map_of (graphs st)) \<subseteq> {..<?g}"
    using assms unfolding built_graphs_def by blast+
  have N: "map_of (pnodes ?st) n = (if ?k \<le> n \<and> n < ?k + length ins then Some (node_new ?g l (ins ! (n - ?k)))
      else map_of (pnodes st) n)" for n
    by (simp add: create_nodes_def fold_create)
  have simps: "graphs ?st = graphs st" "node_idCounter ?st = ?k + length ins" "graph_idCounter ?st = Suc ?g"
    by (simp_all add: create_nodes_def)
  have split: "map_of (pnodes st) n = Some nd \<or> (?k \<le> n \<and> n < ?k + length ins \<and> nd = node_new ?g l (ins ! (n - ?k)))"
    if "map_of (pnodes ?st) n = Some nd" for n nd
    using that unfolding N by (auto split: if_splits)
  have new: "node_graphId (node_new ?g l (ins ! i)) = ?g" "instructionPtr (node_new ?g l (ins ! i)) = [ins ! i]"
    "subgraphs (node_new ?g l (ins ! i)) = []" for i
    by (simp_all add: node_new_def)
  have sub: "dom (map_of (pnodes st)) \<subseteq> dom (map_of (pnodes ?st))" using N by (auto simp: dom_def)
  have "listed (dom (map_of (pnodes ?st))) (graphs st) (pnodes ?st)"
  proof (rule listedI)
    fix g gr assume g: "map_of (graphs st) g = Some gr"
    show "distinct (graph_nodes gr) \<and> set (graph_nodes gr) \<subseteq> dom (map_of (pnodes ?st))"
      using listedD(1,2) [OF b(1) g] sub by blast
    fix n nd assume n: "n \<in> set (graph_nodes gr)" and nd: "map_of (pnodes ?st) n = Some nd"
    obtain nd0 where nd0: "map_of (pnodes st) n = Some nd0" using listedD(2) [OF b(1) g] n by blast
    then have "map_of (pnodes ?st) n = Some nd0" using N b(2) [OF nd0] by simp
    then show "node_graphId nd = g" using listedD(3) [OF b(1) g n nd0] nd by simp
  next
    fix n nd gr assume nd: "map_of (pnodes ?st) n = Some nd" and g: "map_of (graphs st) (node_graphId nd) = Some gr"
    have "node_graphId nd < ?g" using b(3) g by blast
    then have "nd \<noteq> node_new ?g l (ins ! (n - ?k))" using new(1) [of "n - ?k"] by (metis less_irrefl)
    then have "map_of (pnodes st) n = Some nd" using split [OF nd] by blast
    then show "n \<in> set (graph_nodes gr)" using listedD(4) [OF b(1) _ _ g] by blast
  next
    fix n nd assume nd: "map_of (pnodes ?st) n = Some nd"
    show "instructionPtr nd \<noteq> []" using split [OF nd] new(2) listedD(5) [OF b(1)] by auto
    fix s assume s: "s \<in> set (subgraphs nd)"
    then have "map_of (pnodes st) n = Some nd" using split [OF nd] new(3) by auto
    then show "node_graphId nd < s \<and> map_of (graphs st) s \<noteq> None" using listedD(6,7) [OF b(1) _ _ s] by blast
  qed
  moreover have "n < ?k + length ins \<and> node_graphId nd < Suc ?g" if "map_of (pnodes ?st) n = Some nd" for n nd
    using split [OF that] b(2) [of n nd] new(1) by auto
  ultimately show "built_graphs ?st" using b(3) unfolding built_graphs_def simps by auto
  have "map_of (pnodes ?st) n = Some nd" if "map_of (pnodes st) n = Some nd" for n nd
    using that b(2) [OF that] by (simp add: N)
  moreover have "?g \<le> node_graphId nd" if "map_of (pnodes ?st) n = Some nd" "map_of (pnodes st) n = None" for n nd
    using split [OF that(1)] that(2) new(1) by auto
  ultimately show "grows st ?st" unfolding grows_def simps by auto
qed

lemma built_graphs_add:
  assumes "built_graphs st" and "g < graph_idCounter st" and "map_of (graphs st) g = None" and "distinct ids"
    and "\<And>n. n \<in> set ids \<Longrightarrow> \<exists>nd. map_of (pnodes st) n = Some nd \<and> node_graphId nd = g"
    and "\<And>n nd. map_of (pnodes st) n = Some nd \<Longrightarrow> node_graphId nd = g \<Longrightarrow> n \<in> set ids"
    and "graph_nodes gr = ids"
  shows "built_graphs (st\<lparr>graphs := aput g gr (graphs st)\<rparr>)"
proof -
  have b: "listed (dom (map_of (pnodes st))) (graphs st) (pnodes st)"
    "\<And>n nd. map_of (pnodes st) n = Some nd \<Longrightarrow> n < node_idCounter st \<and> node_graphId nd < graph_idCounter st"
    "dom (map_of (graphs st)) \<subseteq> {..<graph_idCounter st}"
    using assms(1) unfolding built_graphs_def by blast+
  have other: "map_of (graphs st) k = Some gr'" if "map_of (aput g gr (graphs st)) k = Some gr'" "k \<noteq> g" for k gr'
    using that by simp
  have here: "gr' = gr" if "map_of (aput g gr (graphs st)) g = Some gr'" for gr' using that by simp
  have "listed (dom (map_of (pnodes st))) (aput g gr (graphs st)) (pnodes st)"
  proof (rule listedI)
    fix k gr' assume k: "map_of (aput g gr (graphs st)) k = Some gr'"
    show "distinct (graph_nodes gr') \<and> set (graph_nodes gr') \<subseteq> dom (map_of (pnodes st))"
    proof (cases "k = g")
      case True
      then show ?thesis using here k assms(4,5,7) by auto
    next
      case False
      then show ?thesis using listedD(1,2) [OF b(1) other [OF k]] by blast
    qed
    fix n nd assume n: "n \<in> set (graph_nodes gr')" and nd: "map_of (pnodes st) n = Some nd"
    show "node_graphId nd = k"
    proof (cases "k = g")
      case True
      then show ?thesis using here k n nd assms(5) [of n] assms(7) by auto
    next
      case False
      then show ?thesis using listedD(3) [OF b(1) other [OF k] n nd] by blast
    qed
  next
    fix n nd gr' assume nD: "n \<in> dom (map_of (pnodes st))" and nd: "map_of (pnodes st) n = Some nd"
      and k: "map_of (aput g gr (graphs st)) (node_graphId nd) = Some gr'"
    show "n \<in> set (graph_nodes gr')"
    proof (cases "node_graphId nd = g")
      case True
      then show ?thesis using here k assms(6) [OF nd] assms(7) by auto
    next
      case False
      then show ?thesis using listedD(4) [OF b(1) nD nd other [OF k]] by blast
    qed
  next
    fix n nd assume nD: "n \<in> dom (map_of (pnodes st))" and nd: "map_of (pnodes st) n = Some nd"
    show "instructionPtr nd \<noteq> []" using listedD(5) [OF b(1) nD nd] .
    fix s assume s: "s \<in> set (subgraphs nd)"
    show "node_graphId nd < s \<and> map_of (aput g gr (graphs st)) s \<noteq> None"
      using listedD(6,7) [OF b(1) nD nd s] by simp
  qed
  then show ?thesis using b(2,3) assms(2) unfolding built_graphs_def by simp
qed

lemma built_graphs_attach:
  assumes "built_graphs st" and "modify_node n (\<lambda>nd. nd\<lparr>subgraphs := subgraphs nd @ [g]\<rparr>) (pnodes st) = Inr h"
    and "map_of (graphs st) g \<noteq> None" and "\<And>nd. map_of (pnodes st) n = Some nd \<Longrightarrow> node_graphId nd < g"
  shows "built_graphs (st\<lparr>pnodes := h\<rparr>)" and "grows st (st\<lparr>pnodes := h\<rparr>)"
proof -
  obtain nd where nd: "map_of (pnodes st) n = Some nd" and h: "h = aput n (nd\<lparr>subgraphs := subgraphs nd @ [g]\<rparr>) (pnodes st)"
    using assms(2) by (auto simp: modify_node_Inr)
  have b: "listed (dom (map_of (pnodes st))) (graphs st) (pnodes st)"
    "\<And>n nd. map_of (pnodes st) n = Some nd \<Longrightarrow> n < node_idCounter st \<and> node_graphId nd < graph_idCounter st"
    "dom (map_of (graphs st)) \<subseteq> {..<graph_idCounter st}"
    using assms(1) unfolding built_graphs_def by blast+
  have dom: "dom (map_of h) = dom (map_of (pnodes st))" using nd h by auto
  have old: "\<exists>m. map_of (pnodes st) k = Some m \<and> node_graphId m' = node_graphId m \<and> instructionPtr m' = instructionPtr m
      \<and> set (subgraphs m') \<subseteq> set (subgraphs m) \<union> (if k = n then {g} else {})" if "map_of h k = Some m'" for k m'
    using that nd h by (auto split: if_splits)
  have "listed (dom (map_of h)) (graphs st) h"
  proof (rule listedI)
    fix k gr assume k: "map_of (graphs st) k = Some gr"
    show "distinct (graph_nodes gr) \<and> set (graph_nodes gr) \<subseteq> dom (map_of h)"
      using listedD(1,2) [OF b(1) k] unfolding dom by blast
    fix i m' assume i: "i \<in> set (graph_nodes gr)" and m': "map_of h i = Some m'"
    show "node_graphId m' = k" using old [OF m'] listedD(3) [OF b(1) k i] by auto
  next
    fix i m' gr assume m': "map_of h i = Some m'" and k: "map_of (graphs st) (node_graphId m') = Some gr"
    obtain m where m: "map_of (pnodes st) i = Some m" "node_graphId m' = node_graphId m" using old [OF m'] by blast
    then have "i \<in> dom (map_of (pnodes st))" by blast
    then show "i \<in> set (graph_nodes gr)" using listedD(4) [OF b(1) _ m(1)] k m(2) by simp
  next
    fix i m' assume m': "map_of h i = Some m'"
    obtain m where m: "map_of (pnodes st) i = Some m" "node_graphId m' = node_graphId m" "instructionPtr m' = instructionPtr m"
      "set (subgraphs m') \<subseteq> set (subgraphs m) \<union> (if i = n then {g} else {})" using old [OF m'] by blast
    have iD: "i \<in> dom (map_of (pnodes st))" using m(1) by blast
    show "instructionPtr m' \<noteq> []" using listedD(5) [OF b(1) iD m(1)] m(3) by simp
    fix s assume "s \<in> set (subgraphs m')"
    then consider "s \<in> set (subgraphs m)" | "i = n" "s = g" using m(4) by (auto split: if_splits)
    then show "node_graphId m' < s \<and> map_of (graphs st) s \<noteq> None"
    proof cases
      case 1
      then show ?thesis using listedD(6,7) [OF b(1) iD m(1)] m(2) by simp
    next
      case 2
      then show ?thesis using assms(3,4) m(1,2) by simp
    qed
  qed
  moreover have "k < node_idCounter st \<and> node_graphId m' < graph_idCounter st" if "map_of h k = Some m'" for k m'
    using old [OF that] b(2) by auto
  ultimately show "built_graphs (st\<lparr>pnodes := h\<rparr>)" using b(3) by (simp add: built_graphs_def)
  show "grows st (st\<lparr>pnodes := h\<rparr>)" using nd h by (auto simp: grows_def)
qed

lemma maps_only:
  assumes "built_graphs st" and "pnodes st' = pnodes st" and "graphs st' = graphs st"
    and "node_idCounter st' = node_idCounter st" and "graph_idCounter st' = graph_idCounter st"
  shows "built_graphs st'" and "grows st st'"
  using built_graphs_same [OF assms(1) _ assms(3-5)] assms(2) by simp_all

lemma InstructionToGraph_graphs:
  fixes ins :: "'t instruction list" and nis :: "(nat \<times> 't instruction) list"
  shows "InstructionToGraph T ins l st = Inr (g, st') \<Longrightarrow> built_graphs st \<Longrightarrow>
      built_graphs st' \<and> grows st st' \<and> graph_idCounter st \<le> g \<and> map_of (graphs st') g \<noteq> None"
    and "InstructionToGraph_loop T l nis st = Inr st' \<Longrightarrow> built_graphs st \<Longrightarrow>
      set (map fst nis) \<subseteq> dom (map_of (pnodes st)) \<Longrightarrow> built_graphs st' \<and> grows st st'"
proof (induction T ins l st and T l nis st arbitrary: g st' and st'
    rule: InstructionToGraph_InstructionToGraph_loop.induct)
  case (1 T ins l st)
  let ?g = "graph_idCounter st" and ?k = "node_idCounter st"
  let ?ids = "[?k..<?k + length ins]"
  let ?st1 = "create_nodes ?g l ins (st\<lparr>graph_idCounter := Suc ?g\<rparr>)"
  note c = built_graphs_create [OF "1.prems"(2), of l ins]
  obtain st2 where run: "InstructionToGraph_loop T l (zip ?ids ins) ?st1 = Inr st2" and g: "g = ?g"
    and st': "st' = st2\<lparr>graphs := aput ?g \<lparr>graphId = ?g, graph_nodes = ?ids,
               roots = filter (\<lambda>n. pred_of (pnodes st2) n = []) ?ids\<rparr> (graphs st2)\<rparr>"
    using "1.prems"(1) by (auto simp: Let_def res_simps)
  have N1: "map_of (pnodes ?st1) n = (if ?k \<le> n \<and> n < ?k + length ins then Some (node_new ?g l (ins ! (n - ?k)))
      else map_of (pnodes st) n)" for n by (simp add: create_nodes_def fold_create)
  have "set (map fst (zip ?ids ins)) \<subseteq> dom (map_of (pnodes ?st1))"
    using N1 by (auto dest!: set_zip_leftD)
  then have 2: "built_graphs st2" "grows ?st1 st2" using "1.IH" [OF refl refl refl run c(1)] by blast+
  have cnt: "graph_idCounter ?st1 = Suc ?g" "graphs ?st1 = graphs st" by (simp_all add: create_nodes_def)
  have none: "map_of (graphs st2) ?g = None"
  proof -
    have "?g \<notin> dom (map_of (graphs st))" using "1.prems"(2) unfolding built_graphs_def by auto
    then have "map_of (graphs ?st1) ?g = None" unfolding cnt by (simp add: domIff)
    moreover have "?g < graph_idCounter ?st1" by (simp add: cnt)
    ultimately show ?thesis using 2(2) unfolding grows_def by metis
  qed
  have in_ids: "\<exists>nd. map_of (pnodes st2) n = Some nd \<and> node_graphId nd = ?g" if "n \<in> set ?ids" for n
  proof -
    have "map_of (pnodes ?st1) n = Some (node_new ?g l (ins ! (n - ?k)))" using that unfolding N1 by simp
    then obtain nd where "map_of (pnodes st2) n = Some nd" "node_graphId nd = node_graphId (node_new ?g l (ins ! (n - ?k)))"
      using 2(2) unfolding grows_def by blast
    then show ?thesis by (simp add: node_new_def)
  qed
  have only_ids: "n \<in> set ?ids" if nd: "map_of (pnodes st2) n = Some nd" "node_graphId nd = ?g" for n nd
  proof (rule ccontr)
    assume "n \<notin> set ?ids"
    then have eq: "map_of (pnodes ?st1) n = map_of (pnodes st) n" unfolding N1 by auto
    show False
    proof (cases "map_of (pnodes st) n")
      case None
      then have "Suc ?g \<le> node_graphId nd" using 2(2) nd(1) eq unfolding grows_def cnt by metis
      then show False using nd(2) by simp
    next
      case (Some nd0)
      then obtain nd1 where "map_of (pnodes st2) n = Some nd1" "node_graphId nd1 = node_graphId nd0"
        using 2(2) eq unfolding grows_def by metis
      then have "node_graphId nd0 = ?g" using nd by simp
      moreover have "node_graphId nd0 < ?g" using "1.prems"(2) Some unfolding built_graphs_def by blast
      ultimately show False by simp
    qed
  qed
  have lt: "?g < graph_idCounter st2" using 2(2) cnt(1) unfolding grows_def by simp
  have "built_graphs st'"
    unfolding st' by (rule built_graphs_add [OF 2(1) lt none distinct_upt in_ids only_ids]) simp_all
  moreover have "grows st st2" using c(2) 2(2) by (rule grows_trans)
  then have "grows st st'" unfolding st' grows_def by auto
  ultimately show ?case using g by (simp add: st')
next
  case (2 T l st)
  then show ?case by (simp add: grows_refl)
next
  case (3 T l n i rest st)
  obtain s where s: "handleInstructionDeps T (n, instr_dependencies i) (build_of st) = Inr s"
    using "3.prems"(1) by (auto simp: res_simps)
  define st1 where "st1 = with_maps st s"
  have "same_nodes (pnodes st) (pnodes st1)"
    using handleInstructionDeps_same [OF s] by (simp add: st1_def with_maps_def)
  note 1 = built_graphs_same [OF "3.prems"(2) this]
  have 1: "built_graphs st1" "grows st st1" using 1 by (simp_all add: st1_def with_maps_def)
  let ?r = "if complexInstruction i then
             (case instr_stmt i of
                None \<Rightarrow> Inl AssertFailed
              | Some s \<Rightarrow>
                  bind_res
                    (if isForStmt s then
                       bind_res (InstructionToGraph T (scopedInstructions i) True
                                   (st1\<lparr>readMap := [], writeMap := []\<rparr>)) (\<lambda>(g, st2).
                         Inr (g, st2\<lparr>readMap := readMap st1, writeMap := writeMap st1\<rparr>))
                     else InstructionToGraph T (scopedInstructions i) l st1) (\<lambda>(g, st2).
                  bind_res (modify_node n (\<lambda>nd. nd\<lparr>subgraphs := subgraphs nd @ [g]\<rparr>) (pnodes st2)) (\<lambda>h.
                    Inr (st2\<lparr>pnodes := h\<rparr>))))
           else Inr st1"
  have "bind_res ?r (InstructionToGraph_loop T l rest) = Inr st'"
    using "3.prems"(1) unfolding InstructionToGraph_loop.simps s bind_res_simps Let_def st1_def .
  then obtain st4 where r: "?r = Inr st4" and rest: "InstructionToGraph_loop T l rest st4 = Inr st'"
    unfolding bind_res_Inr by blast
  have "built_graphs st4 \<and> grows st1 st4"
  proof (cases "complexInstruction i")
    case False
    then show ?thesis using r 1 grows_refl by auto
  next
    case True
    then obtain x where x: "instr_stmt i = Some x" using r by (auto split: option.splits)
    let ?q = "if isForStmt x then
                       bind_res (InstructionToGraph T (scopedInstructions i) True
                                   (st1\<lparr>readMap := [], writeMap := []\<rparr>)) (\<lambda>(g, st2).
                         Inr (g, st2\<lparr>readMap := readMap st1, writeMap := writeMap st1\<rparr>))
                     else InstructionToGraph T (scopedInstructions i) l st1"
    have "bind_res ?q (\<lambda>(g, st2). bind_res (modify_node n (\<lambda>nd. nd\<lparr>subgraphs := subgraphs nd @ [g]\<rparr>) (pnodes st2)) (\<lambda>h.
                    Inr (st2\<lparr>pnodes := h\<rparr>))) = Inr st4"
      using r unfolding x option.case by (simp only: True if_True)
    then obtain gq where q': "?q = Inr gq" and "(\<lambda>(g, st2). bind_res (modify_node n (\<lambda>nd. nd\<lparr>subgraphs := subgraphs nd @ [g]\<rparr>) (pnodes st2)) (\<lambda>h.
                    Inr (st2\<lparr>pnodes := h\<rparr>))) gq = Inr st4" unfolding bind_res_Inr [of ?q] by blast
    then obtain g st2 h where q: "?q = Inr (g, st2)"
      and h: "modify_node n (\<lambda>nd. nd\<lparr>subgraphs := subgraphs nd @ [g]\<rparr>) (pnodes st2) = Inr h"
      and st4: "st4 = st2\<lparr>pnodes := h\<rparr>"
      by (cases gq) (simp only: prod.case bind_res_Inr sum.inject, blast)
    have 2: "built_graphs st2 \<and> grows st1 st2 \<and> graph_idCounter st1 \<le> g \<and> map_of (graphs st2) g \<noteq> None"
    proof (cases "isForStmt x")
      case False
      then show ?thesis using "3.IH"(2) [OF st1_def True x False _ 1(1)] q by (simp del: InstructionToGraph.simps)
    next
      case loop: True
      let ?st1 = "st1\<lparr>readMap := [], writeMap := []\<rparr>"
      have m: "built_graphs ?st1" "grows st1 ?st1" using maps_only [OF 1(1), of ?st1] by simp_all
      obtain st3 where st3: "InstructionToGraph T (scopedInstructions i) True ?st1 = Inr (g, st3)"
        and st2: "st2 = st3\<lparr>readMap := readMap st1, writeMap := writeMap st1\<rparr>"
        using q by (auto simp: loop res_simps simp del: InstructionToGraph.simps)
      have 3: "built_graphs st3" "grows ?st1 st3" "graph_idCounter st1 \<le> g" "map_of (graphs st3) g \<noteq> None"
        using "3.IH"(1) [OF st1_def True x loop st3 m(1)] by simp_all
      have "built_graphs st2" "grows st3 st2" using maps_only [OF 3(1), of st2] by (simp_all add: st2)
      then show ?thesis using 3 m(2) grows_trans by (metis st2 program_graph.simps(2) program_graph.surjective program_graph.update_convs(5,6) program_graph.select_convs(2))
    qed
    have nd1: "\<exists>nd1. map_of (pnodes st1) n = Some nd1"
      using "3.prems"(3) 1(2) unfolding grows_def by fastforce
    have "node_graphId nd < g" if nd: "map_of (pnodes st2) n = Some nd" for nd
    proof -
      obtain nd1 where nd1: "map_of (pnodes st1) n = Some nd1" using nd1 by blast
      then obtain nd2 where "map_of (pnodes st2) n = Some nd2" "node_graphId nd2 = node_graphId nd1"
        using 2 unfolding grows_def by blast
      moreover have "node_graphId nd1 < graph_idCounter st1" using 1(1) nd1 unfolding built_graphs_def by blast
      ultimately show ?thesis using nd 2 by auto
    qed
    from built_graphs_attach [OF _ h _ this] 2 have "built_graphs st4" "grows st2 st4" unfolding st4 by blast+
    then show ?thesis using 2 grows_trans by blast
  qed
  note 4 = this
  have "set (map fst rest) \<subseteq> dom (map_of (pnodes st4))"
  proof -
    have "grows st st4" using 1(2) 4 grows_trans by blast
    then have "dom (map_of (pnodes st)) \<subseteq> dom (map_of (pnodes st4))" unfolding grows_def by blast
    moreover have "set (map fst rest) \<subseteq> dom (map_of (pnodes st))" using "3.prems"(3) by simp
    ultimately show ?thesis by (rule subset_trans [rotated])
  qed
  with "3.IH"(3) [OF st1_def rest] 4 show ?case using 1(2) grows_trans by blast
qed

lemma generateGraph_graphs:
  "generateGraph T fs st = Inr (gs, st') \<Longrightarrow> built_graphs st \<Longrightarrow>
     built_graphs st' \<and> grows st st' \<and> set gs \<subseteq> dom (map_of (graphs st'))"
proof (induction fs arbitrary: gs st)
  case Nil
  then show ?case by (simp add: grows_refl)
next
  case (Cons f fs)
  let ?st = "st\<lparr>readMap := [], writeMap := []\<rparr>"
  obtain g st1 gs' where 1: "InstructionToGraph T f False ?st = Inr (g, st1)"
    and 2: "generateGraph T fs st1 = Inr (gs', st')" and gs: "gs = g # gs'"
    using Cons.prems(1) by (auto simp: res_simps simp del: InstructionToGraph.simps)
  have m: "built_graphs ?st" "grows st ?st" using maps_only [OF Cons.prems(2), of ?st] by simp_all
  have b1: "built_graphs st1" "grows ?st st1" "map_of (graphs st1) g \<noteq> None"
    using InstructionToGraph_graphs(1) [OF 1 m(1)] by blast+
  have b2: "built_graphs st'" "grows st1 st'" "set gs' \<subseteq> dom (map_of (graphs st'))"
    using Cons.IH [OF 2 b1(1)] by blast+
  have "g < graph_idCounter st1" using b1(1,3) unfolding built_graphs_def by blast
  then have "map_of (graphs st') g \<noteq> None" using b2(2) b1(3) by (simp add: grows_def)
  then have "set gs \<subseteq> dom (map_of (graphs st'))" using b2(3) gs by auto
  moreover have "grows st st'" using grows_trans [OF grows_trans [OF m(2) b1(2)] b2(2)] .
  ultimately show ?case using b2(1) by blast
qed

lemma built_graphs_empty: "built_graphs program_empty"
  by (simp add: built_graphs_def program_empty_def listed_def)

lemma generateGraph_opt_inv:
  assumes "table_ok T" and "\<forall>f \<in> set fs. \<forall>i \<in> set f. instr_wf T i"
    and "generateGraph T fs program_empty = Inr (gs, st)"
  shows "opt_inv (dom (map_of (pnodes st))) st"
    and "live_edges (dom (map_of (pnodes st))) (pnodes st) = edges (pnodes st)"
  using graph_inv_live [OF generateGraph_edges(3) [OF assms]] generateGraph_graphs [OF assms(3) built_graphs_empty]
  by (simp_all add: opt_inv_def built_graphs_def)

section \<open>All the passes over the graphs\<close>

definition optimizeAll :: "nat \<Rightarrow> 't heap \<Rightarrow> nat list \<Rightarrow> 't program_graph \<Rightarrow> 't program_graph res" where
  "optimizeAll fuel ah gs st = fold_res (optimizeGraph fuel ah) gs st"

lemma optimizeAll_advances:
  assumes "opt_inv L st" and "acyclic (live_edges L (pnodes st))" and "set gs \<subseteq> dom (map_of (graphs st))"
    and "dom (map_of (graphs st)) \<subseteq> {..<X}" and "X \<le> fuel"
  shows "advances (pnodes st) L 0 L st (optimizeAll fuel ah gs st)"
proof -
  have "good_opt (pnodes st) L X 0 (optimizeGraph fuel ah)"
    unfolding good_opt_def using optimizeGraph_advances [OF assms(2)] assms(5) by simp
  moreover have "simulates (pnodes st) L (pnodes st) L (\<lambda>x. [x])"
    by (rule simulates_start) (use assms(1) in \<open>simp add: opt_inv_def\<close>)
  ultimately show ?thesis unfolding optimizeAll_def
    using fold_opt_advances assms(1,3,4) by blast
qed

text \<open>The order two nodes have after fusion, \<open>B\<close> giving the original nodes a task stands for.\<close>

definition task_order :: "nat set \<Rightarrow> (nat \<times> nat) set \<Rightarrow> (nat \<Rightarrow> nat list) \<Rightarrow> nat \<Rightarrow> nat \<Rightarrow> bool" where
  "task_order L E B x y \<longleftrightarrow> (\<exists>z \<in> L. \<exists>z' \<in> L. x \<in> set (B z) \<and> y \<in> set (B z')
     \<and> ((z, z') \<in> E\<^sup>+ \<or> z = z' \<and> (\<exists>us vs ws. B z = us @ x # vs @ y # ws)))"

lemma trancl_in_dom:
  assumes "live_inv L h" and "(x, y) \<in> (live_edges L h)\<^sup>+"
  shows "x \<in> L" and "y \<in> L"
  using trancl_subset_Sigma [OF live_edges_within [OF assms(1)]] assms(2) by blast+

text \<open>
  The optimisation of all the graphs of a file returns, and its tasks keep the order of the
  instructions. Every node of the graphs as they were generated is in exactly one task, whose
  instructions are those of its nodes in sequence; two conflicting instructions of a trace are in one
  task, the earlier first, or in two tasks with a path from the first to the second; the tasks have
  no cycle. The bound on the nesting suffices when it is the number of graphs.
\<close>

lemma optimizeAll_keeps_order:
  assumes "table_ok T" and "\<forall>f \<in> set fs. \<forall>i \<in> set f. instr_wf T i"
    and "generateGraph T fs program_empty = Inr (gs, st)" and "graph_idCounter st \<le> fuel"
  shows "\<exists>st' L B. optimizeAll fuel (heap T) gs st = Inr st'
     \<and> (\<forall>t \<in> set (program_traces fs 0). sorted_wrt (\<lambda>a b. conflict a b \<longrightarrow>
          task_order L (live_edges L (pnodes st')) B (acc_node a) (acc_node b)) (map (access_of T) t))
     \<and> acyclic (live_edges L (pnodes st'))
     \<and> (\<forall>n \<in> dom (map_of (pnodes st)). \<exists>!z. z \<in> L \<and> n \<in> set (B z))
     \<and> (\<forall>z \<in> L. instrs_at (pnodes st') z = concat (map (instrs_at (pnodes st)) (B z)))"
proof -
  let ?L = "dom (map_of (pnodes st))"
  note o = generateGraph_opt_inv [OF assms(1-3)]
  have l: "live_inv ?L (pnodes st)" using o(1) by (simp add: opt_inv_def)
  have ac: "acyclic (live_edges ?L (pnodes st))" using generateGraph_edges(2) [OF assms(1-3)] o(2) by simp
  have g: "set gs \<subseteq> dom (map_of (graphs st))" "dom (map_of (graphs st)) \<subseteq> {..<graph_idCounter st}"
    using generateGraph_graphs [OF assms(3) built_graphs_empty] by (auto simp: built_graphs_def)
  from optimizeAll_advances [OF o(1) ac g assms(4), of "heap T"] obtain st' L B where
    run: "optimizeAll fuel (heap T) gs st = Inr st'" and i': "opt_inv L st'"
    and s: "simulates (pnodes st) ?L (pnodes st') L B" unfolding advances_def by blast
  let ?E = "live_edges L (pnodes st')"
  have c: "chains (live_edges ?L (pnodes st)) ?L ?E L B" using s by (simp add: simulates_def)
  have l': "live_inv L (pnodes st')" using i' by (simp add: opt_inv_def)
  have order: "task_order L ?E B x y" if xy: "(x, y) \<in> (edges (pnodes st))\<^sup>+" for x y
  proof -
    have t: "(x, y) \<in> (live_edges ?L (pnodes st))\<^sup>+" using xy o(2) by simp
    show ?thesis unfolding task_order_def by (rule chains_order [OF c ac t trancl_in_dom [OF l t]])
  qed
  have "sorted_wrt (\<lambda>a b. conflict a b \<longrightarrow> task_order L ?E B (acc_node a) (acc_node b)) (map (access_of T) t)"
    if t: "t \<in> set (program_traces fs 0)" for t
  proof -
    have "ordered (accs T t) (pedges st)"
      using generateGraph_built [OF assms(1) program_empty_inv assms(2)] assms(3) t by (auto simp: program_empty_def)
    then show ?thesis unfolding ordered_def
      by (rule sorted_wrt_mono_rel [rotated]) (use order in blast)
  qed
  moreover have "acyclic ?E" by (rule chains_acyclic [OF c live_edges_within [OF l'] ac])
  moreover have "\<exists>!z. z \<in> L \<and> n \<in> set (B z)" if "n \<in> ?L" for n
    using chainsD(5) [OF c that] chainsD(6) [OF c] by blast
  moreover have "\<forall>z \<in> L. instrs_at (pnodes st') z = concat (map (instrs_at (pnodes st)) (B z))"
    using s by (simp add: simulates_def)
  ultimately show ?thesis using run by blast
qed

section \<open>Examples\<close>

lemma optimizeAll_keeps_order_witness:
  "\<exists>st' L. optimizeAll 5 (heap ex_table) [0] ex_program = Inr st' \<and> acyclic (live_edges L (pnodes st'))
     \<and> L \<noteq> {}"
proof -
  have fuel: "graph_idCounter ex_program \<le> 5" by code_simp
  have n: "map_of (pnodes ex_program) 0 \<noteq> None" by code_simp
  from optimizeAll_keeps_order [OF table_inv_parts(1) [OF ex_table_inv] ex_file_wf ex_program fuel]
  obtain st' L B where "optimizeAll 5 (heap ex_table) [0] ex_program = Inr st'"
    "acyclic (live_edges L (pnodes st'))"
    and one: "\<forall>n \<in> dom (map_of (pnodes ex_program)). \<exists>!z. z \<in> L \<and> n \<in> set (B z)" by blast
  moreover have "L \<noteq> {}" using one n by blast
  ultimately show ?thesis by blast
qed

definition ex_node_at :: "nat \<Rightarrow> 't program_graph \<Rightarrow> nat list \<times> addr list \<times> addr list" where
  "ex_node_at n st = (case map_of (pnodes st) n of None \<Rightarrow> ([], [], [])
     | Some nd \<Rightarrow> (map fst (next_map nd), inDep nd, inOutDep nd))"


end
