(* ===== verification/Order_Manager.thy ===== *)
theory Order_Manager
  imports Graph_Optimize
begin

text \<open>
  The order of the statements and their groups (\<open>InstructionsOrderManager.hpp\<close> and \<open>.cpp\<close>, and the
  functions of \<open>Graph.cpp\<close> that move statements after the fusion of tasks). The object of a
  \<open>std::shared_ptr<StmtOrder>\<close> is in a heap, the pointer is its key. A \<open>const Stmt *\<close> is the statement;
  pointers are compared by the address \<open>sid\<close>, locations by their offset.

  The comparator \<open>SmallerBeginLocation\<close> of a group uses \<open>\<le>\<close>, which is no strict order; two statements
  at one location are never equivalent for it, and the search of \<open>std::set\<close> puts the new one first.
\<close>

type_synonym 't group = "('t stmt \<times> nat option) list"

record 't stmtOrder =
  ordLooped :: bool
  groupCounter :: nat
  instructionLinks :: "(nat \<times> nat) list"
  instructionGroups :: "(nat \<times> 't group) list"
  nodesGroup :: "(nat \<times> nat) list"

type_synonym 't orders = "(nat \<times> 't stmtOrder) list"

definition StmtOrder_new :: "bool \<Rightarrow> 't stmtOrder" where
  "StmtOrder_new l = \<lparr>ordLooped = l, groupCounter = 0, instructionLinks = [], instructionGroups = [], nodesGroup = []\<rparr>"

definition deref_order :: "'t orders \<Rightarrow> nat \<Rightarrow> 't stmtOrder res" where
  "deref_order oh ord = (case map_of oh ord of None \<Rightarrow> Inl NullDeref | Some so \<Rightarrow> Inr so)"

definition begins :: "'t stmt \<Rightarrow> nat" where
  "begins s = loc_offset (getBeginLoc s)"

fun group_insert :: "'t stmt \<times> nat option \<Rightarrow> 't group \<Rightarrow> 't group" where
  "group_insert x [] = [x]"
| "group_insert x (y # ys) =
     (if begins (fst x) \<le> begins (fst y) then x # y # ys else y # group_insert x ys)"

section \<open>Operations\<close>

text \<open>A fresh object of the heap: its key is the number of objects made so far.\<close>

definition new_order :: "bool \<Rightarrow> 't orders \<Rightarrow> nat \<times> 't orders" where
  "new_order l oh = (let n = Suc (fold max (map fst oh) 0) in (n, aput n (StmtOrder_new l) oh))"

definition addInstructionToManager :: "nat \<Rightarrow> 't stmt \<Rightarrow> 't orders \<Rightarrow> 't orders res" where
  "addInstructionToManager ord key oh =
     bind_res (deref_order oh ord) (\<lambda>so.
       (let links = ains (sid key) (groupCounter so) (instructionLinks so);
            groups = ains (groupCounter so) [] (instructionGroups so);
            (sub, oh1) =
              (if isForStmt key then (case new_order True oh of (n, h) \<Rightarrow> (Some n, h))
               else if isIfStmt key \<or> isCompoundStmt key then (case new_order False oh of (n, h) \<Rightarrow> (Some n, h))
               else (None, oh)) in
        (case map_of groups (groupCounter so) of
           None \<Rightarrow> Inl OutOfRange
         | Some gr \<Rightarrow>
             Inr (aput ord (so\<lparr>instructionLinks := links,
                 instructionGroups := aput (groupCounter so) (group_insert (key, sub) gr) groups,
                 groupCounter := Suc (groupCounter so)\<rparr>) oh1))))"

definition addNodeToGroup :: "'t nodes \<Rightarrow> nat \<Rightarrow> 't stmtOrder \<Rightarrow> 't stmtOrder res" where
  "addNodeToGroup h n so =
     bind_res (deref_node h n) (\<lambda>nd.
       (case instructionPtr nd of
          [] \<Rightarrow> Inr so
        | ins # _ \<Rightarrow>
            (case instr_stmt ins of
               None \<Rightarrow> Inl AssertFailed
             | Some st \<Rightarrow>
                 (case map_of (instructionLinks so) (sid st) of
                    None \<Rightarrow> Inl AssertFailed
                  | Some g \<Rightarrow> Inr (so\<lparr>nodesGroup := ains g n (nodesGroup so)\<rparr>)))))"

definition getSubStmtOrder :: "'t stmtOrder \<Rightarrow> 't stmt \<Rightarrow> nat option res" where
  "getSubStmtOrder so key =
     (case map_of (instructionLinks so) (sid key) of
        None \<Rightarrow> Inl AssertFailed
      | Some g \<Rightarrow>
          (case map_of (instructionGroups so) g of
             None \<Rightarrow> Inl AssertFailed
           | Some gr \<Rightarrow>
               Inr (case find (\<lambda>x. sid (fst x) = sid key) gr of None \<Rightarrow> None | Some x \<Rightarrow> snd x)))"

definition getNode :: "'t stmtOrder \<Rightarrow> 't stmt \<Rightarrow> nat option" where
  "getNode so key =
     (case map_of (instructionLinks so) (sid key) of
        None \<Rightarrow> None
      | Some g \<Rightarrow> map_of (nodesGroup so) g)"

text \<open>The loop that copies a group into another: the groups and the links change together.\<close>

definition copy_group :: "nat \<Rightarrow> 't group \<Rightarrow> 't group \<times> (nat \<times> nat) list \<Rightarrow> ('t group \<times> (nat \<times> nat) list) res" where
  "copy_group groupNumberNew old st =
     fold_res (\<lambda>x (gr, links).
       if map_of links (sid (fst x)) = None then Inl OutOfRange
       else Inr (group_insert x gr, aput (sid (fst x)) groupNumberNew links)) old st"

definition moveInstruction :: "'t stmt option \<Rightarrow> 't stmt option \<Rightarrow> 't stmtOrder \<Rightarrow> 't stmtOrder res" where
  "moveInstruction key1 key2 so =
     (case (key1, key2) of
        (Some k1, Some k2) \<Rightarrow>
          (let (key, newKey) = (if begins k1 > begins k2 then (k2, k1) else (k1, k2)) in
           (case (map_of (instructionLinks so) (sid key), map_of (instructionLinks so) (sid newKey)) of
              (None, None) \<Rightarrow> Inl AssertFailed
            | (Some groupNumberOld, Some groupNumberNew) \<Rightarrow>
                (case (map_of (instructionGroups so) groupNumberOld, map_of (instructionGroups so) groupNumberNew) of
                   (Some instructionGroup, Some instructionGroupNew) \<Rightarrow>
                     bind_res (copy_group groupNumberNew instructionGroup (instructionGroupNew, instructionLinks so)) (\<lambda>(gr, links).
                       Inr (so\<lparr>instructionLinks := links,
                         instructionGroups := adel groupNumberOld (aput groupNumberNew gr (instructionGroups so))\<rparr>))
                 | _ \<Rightarrow> Inl AssertFailed)
            | _ \<Rightarrow> Inr so))
      | _ \<Rightarrow> Inr so)"

definition same_stmt :: "'t stmt option \<Rightarrow> 't stmt option \<Rightarrow> bool" where
  "same_stmt a b \<longleftrightarrow> map_option sid a = map_option sid b"

text \<open>The statement that is the furthest in the code.\<close>

fun furthest :: "'t stmt option \<Rightarrow> 't stmt option list \<Rightarrow> 't stmt option res" where
  "furthest key [] = Inr key"
| "furthest key (instr # rest) =
     (if same_stmt instr key then furthest key rest
      else (case (key, instr) of
              (Some k, Some i) \<Rightarrow> furthest (if begins k < begins i then instr else key) rest
            | _ \<Rightarrow> Inl NullDeref))"

definition fuseInstructions :: "'t stmt option list \<Rightarrow> 't stmtOrder \<Rightarrow> 't stmtOrder res" where
  "fuseInstructions vect so =
     (if length vect < 2 then Inr so
      else bind_res (furthest (hd vect) vect) (\<lambda>key.
        fold_res (\<lambda>instr so. if same_stmt instr key then Inr so else moveInstruction key instr so) vect so))"

section \<open>Following the tasks\<close>

text \<open>The statement of the \<open>i\<close>-th complex instruction.\<close>

definition complex_stmts :: "'t instruction list \<Rightarrow> 't stmt option list" where
  "complex_stmts ins = map instr_stmt (filter complexInstruction ins)"

text \<open>
  \<open>updateInstructionOrderNode\<close>: the statements of the node are put in one group; each nested graph
  is applied to the order of the complex instruction with its number; the node is recorded. The bound
  counts the nesting of the graphs.
\<close>

primrec updateInstructionOrderFromGraph ::
    "nat \<Rightarrow> 't program_graph \<Rightarrow> nat \<Rightarrow> nat \<Rightarrow> 't orders \<Rightarrow> 't orders res" where
  "updateInstructionOrderFromGraph 0 st g ord oh = Inl OutOfFuel"
| "updateInstructionOrderFromGraph (Suc fuel) st g ord oh =
     (case map_of (graphs st) g of
        None \<Rightarrow> Inl NullDeref
      | Some gr \<Rightarrow>
          fold_res (\<lambda>n oh.
            bind_res (deref_node (pnodes st) n) (\<lambda>nd.
            bind_res (deref_order oh ord) (\<lambda>so.
            bind_res (fuseInstructions (map instr_stmt (instructionPtr nd)) so) (\<lambda>so1.
            bind_res (fold_res (\<lambda>(sub, c) oh.
                (case c of
                   None \<Rightarrow> Inl NullDeref
                 | Some s \<Rightarrow>
                     bind_res (deref_order oh ord) (\<lambda>so2.
                     bind_res (getSubStmtOrder so2 s) (\<lambda>subOrder.
                       (case subOrder of
                          None \<Rightarrow> Inl AssertFailed
                        | Some so' \<Rightarrow> updateInstructionOrderFromGraph fuel st sub so' oh)))))
                (zip (subgraphs nd) (complex_stmts (instructionPtr nd))) (aput ord so1 oh)) (\<lambda>oh1.
            bind_res (deref_order oh1 ord) (\<lambda>so3.
            bind_res (addNodeToGroup (pnodes st) n so3) (\<lambda>so4.
              Inr (aput ord so4 oh1))))))))
            (graph_nodes gr) oh)"

section \<open>Invariant\<close>

text \<open>
  The groups and the links agree, no group is empty or lists a statement twice, the statements of a
  group are in the order of the code, and the counter is fresh.
\<close>

definition group_ok :: "'t stmtOrder \<Rightarrow> nat \<Rightarrow> 't group \<Rightarrow> bool" where
  "group_ok so g gr \<longleftrightarrow> gr \<noteq> [] \<and> sorted (map (begins \<circ> fst) gr) \<and> distinct (map (sid \<circ> fst) gr)
     \<and> g < groupCounter so \<and> (\<forall>x \<in> set gr. map_of (instructionLinks so) (sid (fst x)) = Some g)"

definition order_inv :: "'t stmtOrder \<Rightarrow> bool" where
  "order_inv so \<longleftrightarrow> (\<forall>g gr. map_of (instructionGroups so) g = Some gr \<longrightarrow> group_ok so g gr)
     \<and> (\<forall>k g. map_of (instructionLinks so) k = Some g \<longrightarrow>
          (\<exists>gr. map_of (instructionGroups so) g = Some gr \<and> k \<in> (sid \<circ> fst) ` set gr))"

lemma order_invD:
  assumes "order_inv so"
  shows "map_of (instructionGroups so) g = Some gr \<Longrightarrow> group_ok so g gr"
    "map_of (instructionLinks so) k = Some g \<Longrightarrow>
       \<exists>gr. map_of (instructionGroups so) g = Some gr \<and> k \<in> (sid \<circ> fst) ` set gr"
  using assms unfolding order_inv_def by blast+

lemma order_inv_new: "order_inv (StmtOrder_new l)"
  by (simp add: order_inv_def StmtOrder_new_def)

text \<open>The statements in the group of a statement.\<close>

definition members :: "'t stmtOrder \<Rightarrow> nat \<Rightarrow> ('t stmt \<times> nat option) set" where
  "members so k = (case map_of (instructionLinks so) k of None \<Rightarrow> {}
     | Some g \<Rightarrow> (case map_of (instructionGroups so) g of None \<Rightarrow> {} | Some gr \<Rightarrow> set gr))"

lemma set_group_insert [simp]: "set (group_insert x gr) = insert x (set gr)"
  by (induction gr) auto

lemma sorted_group_insert:
  "sorted (map (begins \<circ> fst) gr) \<Longrightarrow> sorted (map (begins \<circ> fst) (group_insert x gr))"
  by (induction gr) auto

lemma distinct_group_insert:
  "distinct (map (sid \<circ> fst) gr) \<Longrightarrow> sid (fst x) \<notin> (sid \<circ> fst) ` set gr \<Longrightarrow>
     distinct (map (sid \<circ> fst) (group_insert x gr))"
  by (induction gr) auto

text \<open>
  C27: a statement that is new in the order gets a group of its own; the groups of the other
  statements are unchanged and the invariant is kept.
\<close>

theorem addInstructionToManager_correct:
  assumes "map_of oh ord = Some so" and "order_inv so" and "map_of (instructionLinks so) (sid key) = None"
  shows "\<exists>oh' so' sub. addInstructionToManager ord key oh = Inr oh' \<and> map_of oh' ord = Some so' \<and> order_inv so'
     \<and> members so' (sid key) = {(key, sub)} \<and> (\<forall>k. k \<noteq> sid key \<longrightarrow> members so' k = members so k)
     \<and> (sub \<noteq> None \<longleftrightarrow> isForStmt key \<or> isIfStmt key \<or> isCompoundStmt key)"
proof -
  let ?c = "groupCounter so"
  have fresh: "map_of (instructionGroups so) ?c = None"
    using order_invD(1) [OF assms(2), of ?c] by (cases "map_of (instructionGroups so) ?c") (auto simp: group_ok_def)
  define sub oh1 where "sub = (if isForStmt key \<or> isIfStmt key \<or> isCompoundStmt key then Some (fst (new_order (isForStmt key) oh)) else None)"
    and "oh1 = (if isForStmt key \<or> isIfStmt key \<or> isCompoundStmt key then snd (new_order (isForStmt key) oh) else oh)"
  have pick: "(if isForStmt key then (case new_order True oh of (n, h) \<Rightarrow> (Some n, h))
       else if isIfStmt key \<or> isCompoundStmt key then (case new_order False oh of (n, h) \<Rightarrow> (Some n, h))
       else (None, oh)) = (sub, oh1)"
    by (auto simp: sub_def oh1_def split: prod.splits)
  let ?so = "so\<lparr>instructionLinks := ains (sid key) ?c (instructionLinks so),
      instructionGroups := aput ?c (group_insert (key, sub) []) (ains ?c [] (instructionGroups so)), groupCounter := Suc ?c\<rparr>"
  have run: "addInstructionToManager ord key oh = Inr (aput ord ?so oh1)"
    unfolding addInstructionToManager_def deref_order_def assms(1) option.case bind_res_simps pick Let_def prod.case
    using fresh by simp
  have links: "map_of (instructionLinks ?so) = (map_of (instructionLinks so))(sid key \<mapsto> ?c)"
    using assms(3) by simp
  have groups: "map_of (instructionGroups ?so) = (map_of (instructionGroups so))(?c \<mapsto> [(key, sub)])"
    using fresh by simp
  have old: "g < ?c" if "map_of (instructionLinks so) k = Some g" for k g
    using order_invD [OF assms(2)] that unfolding group_ok_def by blast
  have "order_inv ?so"
    unfolding order_inv_def
  proof (intro conjI allI impI)
    fix g gr assume g: "map_of (instructionGroups ?so) g = Some gr"
    show "group_ok ?so g gr"
    proof (cases "g = ?c")
      case True
      then have "gr = [(key, sub)]" using g unfolding groups by simp
      then show ?thesis using True links unfolding group_ok_def by simp
    next
      case False
      then have "map_of (instructionGroups so) g = Some gr" using g unfolding groups by simp
      note o = order_invD(1) [OF assms(2) this, unfolded group_ok_def]
      then have "\<forall>x \<in> set gr. sid (fst x) \<noteq> sid key" using assms(3) by force
      then show ?thesis using o unfolding group_ok_def links by simp
    qed
  next
    fix k g assume k: "map_of (instructionLinks ?so) k = Some g"
    show "\<exists>gr. map_of (instructionGroups ?so) g = Some gr \<and> k \<in> (sid \<circ> fst) ` set gr"
    proof (cases "k = sid key")
      case True
      then show ?thesis using k unfolding links groups by auto
    next
      case False
      then have k': "map_of (instructionLinks so) k = Some g" using k unfolding links by simp
      then show ?thesis using order_invD(2) [OF assms(2) k'] old [OF k'] unfolding groups by auto
    qed
  qed
  moreover have "members ?so (sid key) = {(key, sub)}" unfolding members_def links groups by simp
  moreover have "members ?so k = members so k" if "k \<noteq> sid key" for k
  proof (cases "map_of (instructionLinks so) k")
    case None
    then show ?thesis using that unfolding members_def links by simp
  next
    case (Some g)
    then have "g \<noteq> ?c" using old by blast
    then show ?thesis using that Some unfolding members_def links groups by simp
  qed
  ultimately show ?thesis using run by (intro exI [of _ "aput ord ?so oh1"] exI [of _ ?so] exI [of _ sub]) (simp add: sub_def)
qed

section \<open>Moving a group\<close>

lemma copy_group_result:
  assumes "\<forall>x \<in> set old. map_of links (sid (fst x)) \<noteq> None"
  shows "\<exists>gr' links'. copy_group g old (gr, links) = Inr (gr', links')
     \<and> set gr' = set old \<union> set gr
     \<and> (sorted (map (begins \<circ> fst) gr) \<longrightarrow> sorted (map (begins \<circ> fst) gr'))
     \<and> (distinct (map (sid \<circ> fst) (old @ gr)) \<longrightarrow> distinct (map (sid \<circ> fst) gr'))
     \<and> map_of links' = (\<lambda>k. if k \<in> (sid \<circ> fst) ` set old then Some g else map_of links k)"
  using assms
proof (induction old arbitrary: gr links)
  case Nil
  then show ?case by (simp add: copy_group_def)
next
  case (Cons x old)
  let ?gr = "group_insert x gr" and ?links = "aput (sid (fst x)) g links"
  have "\<forall>x \<in> set old. map_of ?links (sid (fst x)) \<noteq> None" using Cons.prems by simp
  from Cons.IH [OF this, of ?gr] obtain gr' links' where
    r: "copy_group g old (?gr, ?links) = Inr (gr', links')" "set gr' = set old \<union> set ?gr"
      "sorted (map (begins \<circ> fst) ?gr) \<longrightarrow> sorted (map (begins \<circ> fst) gr')"
      "distinct (map (sid \<circ> fst) (old @ ?gr)) \<longrightarrow> distinct (map (sid \<circ> fst) gr')"
      "map_of links' = (\<lambda>k. if k \<in> (sid \<circ> fst) ` set old then Some g else map_of ?links k)" by blast
  have "copy_group g (x # old) (gr, links) = Inr (gr', links')"
    using r(1) Cons.prems by (simp add: copy_group_def)
  moreover have "set gr' = set (x # old) \<union> set gr" using r(2) by simp
  moreover have "sorted (map (begins \<circ> fst) gr) \<longrightarrow> sorted (map (begins \<circ> fst) gr')"
    using r(3) sorted_group_insert [of gr x] by blast
  moreover have "distinct (map (sid \<circ> fst) ((x # old) @ gr)) \<longrightarrow> distinct (map (sid \<circ> fst) gr')"
  proof
    assume d: "distinct (map (sid \<circ> fst) ((x # old) @ gr))"
    then have "distinct (map (sid \<circ> fst) (old @ ?gr))" using distinct_group_insert [of gr x] by auto
    with r(4) show "distinct (map (sid \<circ> fst) gr')" by blast
  qed
  moreover have "map_of links' = (\<lambda>k. if k \<in> (sid \<circ> fst) ` set (x # old) then Some g else map_of links k)"
    unfolding r(5) by (auto simp: fun_eq_iff)
  ultimately show ?case by blast
qed

lemma members_link:
  assumes "order_inv so" and "map_of (instructionLinks so) k = Some g"
  shows "\<exists>gr. map_of (instructionGroups so) g = Some gr \<and> members so k = set gr \<and> k \<in> (sid \<circ> fst) ` set gr"
  using order_invD(2) [OF assms] assms(2) by (auto simp: members_def)

lemma members_iff:
  assumes "order_inv so" and "map_of (instructionLinks so) k = Some g"
  shows "j \<in> (sid \<circ> fst) ` members so k \<longleftrightarrow> map_of (instructionLinks so) j = Some g"
proof -
  obtain gr where gr: "map_of (instructionGroups so) g = Some gr" "members so k = set gr"
    using members_link [OF assms] by blast
  have ok: "group_ok so g gr" using order_invD(1) [OF assms(1) gr(1)] .
  show ?thesis
  proof
    assume "j \<in> (sid \<circ> fst) ` members so k"
    then show "map_of (instructionLinks so) j = Some g" using ok gr(2) by (auto simp: group_ok_def)
  next
    assume "map_of (instructionLinks so) j = Some g"
    from members_link [OF assms(1) this] gr show "j \<in> (sid \<circ> fst) ` members so k" by auto
  qed
qed

text \<open>Moving between two groups merges them and leaves the others alone.\<close>

lemma moveInstruction_merges:
  assumes "order_inv so" and "map_of (instructionLinks so) (sid k1) = Some g1"
    and "map_of (instructionLinks so) (sid k2) = Some g2" and "g1 \<noteq> g2"
  shows "\<exists>so'. moveInstruction (Some k1) (Some k2) so = Inr so' \<and> order_inv so'
     \<and> dom (map_of (instructionLinks so')) = dom (map_of (instructionLinks so))
     \<and> map_of (instructionLinks so') (sid k1) = Some (if begins k1 > begins k2 then g1 else g2)
     \<and> (\<forall>k. map_of (instructionLinks so) k \<notin> {Some g1, Some g2} \<longrightarrow>
          map_of (instructionLinks so') k = map_of (instructionLinks so) k)
     \<and> (\<forall>k. members so' k = (if map_of (instructionLinks so) k \<in> {Some g1, Some g2}
          then members so (sid k1) \<union> members so (sid k2) else members so k))"
proof -
  define key newKey gold gnew where "key = (if begins k1 > begins k2 then k2 else k1)"
    and "newKey = (if begins k1 > begins k2 then k1 else k2)"
    and "gold = (if begins k1 > begins k2 then g2 else g1)" and "gnew = (if begins k1 > begins k2 then g1 else g2)"
  have pick: "(if begins k1 > begins k2 then (k2, k1) else (k1, k2)) = (key, newKey)"
    by (simp add: key_def newKey_def)
  have links: "map_of (instructionLinks so) (sid key) = Some gold" "map_of (instructionLinks so) (sid newKey) = Some gnew"
    and ne: "gold \<noteq> gnew" and both: "{Some g1, Some g2} = {Some gold, Some gnew}"
    using assms(2-4) by (auto simp: key_def newKey_def gold_def gnew_def)
  have union: "members so (sid k1) \<union> members so (sid k2) = members so (sid key) \<union> members so (sid newKey)"
    by (auto simp: key_def newKey_def)
  obtain old new where old: "map_of (instructionGroups so) gold = Some old" "members so (sid key) = set old"
    and new: "map_of (instructionGroups so) gnew = Some new" "members so (sid newKey) = set new"
    using members_link [OF assms(1) links(1)] members_link [OF assms(1) links(2)] by blast
  have oko: "group_ok so gold old" and okn: "group_ok so gnew new"
    using order_invD(1) [OF assms(1)] old(1) new(1) by blast+
  have "\<forall>x \<in> set old. map_of (instructionLinks so) (sid (fst x)) \<noteq> None" using oko by (simp add: group_ok_def)
  from copy_group_result [OF this, of gnew new] obtain gr' links' where
    c: "copy_group gnew old (new, instructionLinks so) = Inr (gr', links')" and sgr: "set gr' = set old \<union> set new"
    and srt: "sorted (map (begins \<circ> fst) new) \<longrightarrow> sorted (map (begins \<circ> fst) gr')"
    and dst: "distinct (map (sid \<circ> fst) (old @ new)) \<longrightarrow> distinct (map (sid \<circ> fst) gr')"
    and lk: "map_of links' = (\<lambda>k. if k \<in> (sid \<circ> fst) ` set old then Some gnew else map_of (instructionLinks so) k)" by blast
  let ?so = "so\<lparr>instructionLinks := links', instructionGroups := adel gold (aput gnew gr' (instructionGroups so))\<rparr>"
  have run: "moveInstruction (Some k1) (Some k2) so = Inr ?so"
    unfolding moveInstruction_def prod.case option.case pick Let_def links old(1) new(1) c bind_res_simps ..
  have in_old: "k \<in> (sid \<circ> fst) ` set old \<longleftrightarrow> map_of (instructionLinks so) k = Some gold" for k
    using members_iff [OF assms(1) links(1)] old(2) by simp
  have in_new: "k \<in> (sid \<circ> fst) ` set new \<longleftrightarrow> map_of (instructionLinks so) k = Some gnew" for k
    using members_iff [OF assms(1) links(2)] new(2) by simp
  have G: "map_of (instructionGroups ?so) g = (if g = gold then None else if g = gnew then Some gr' else map_of (instructionGroups so) g)" for g
    by simp
  have Lk: "map_of (instructionLinks ?so) k = (if map_of (instructionLinks so) k = Some gold then Some gnew else map_of (instructionLinks so) k)" for k
    by (simp add: lk in_old del: comp_apply)
  have cnt: "groupCounter ?so = groupCounter so" by simp
  have ids: "(sid \<circ> fst) ` set gr' = (sid \<circ> fst) ` set old \<union> (sid \<circ> fst) ` set new" unfolding sgr by (rule image_Un)
  have "group_ok ?so gnew gr'"
  proof -
    have "gr' \<noteq> []" using sgr oko by (auto simp: group_ok_def)
    moreover have "(sid \<circ> fst) ` set old \<inter> (sid \<circ> fst) ` set new = {}"
      unfolding disjoint_iff in_old in_new using ne by simp
    then have "distinct (map (sid \<circ> fst) (old @ new))"
      using oko okn unfolding group_ok_def by (simp only: map_append distinct_append set_map simp_thms)
    moreover have "map_of (instructionLinks ?so) (sid (fst x)) = Some gnew" if "x \<in> set gr'" for x
    proof -
      have "sid (fst x) \<in> (sid \<circ> fst) ` set gr'" using that by force
      then show ?thesis unfolding Lk ids using in_old in_new by auto
    qed
    ultimately show ?thesis using srt dst okn unfolding group_ok_def cnt by blast
  qed
  then have "order_inv ?so"
    unfolding order_inv_def
  proof (intro conjI allI impI)
    fix g gr assume g: "map_of (instructionGroups ?so) g = Some gr"
    show "group_ok ?so g gr"
    proof (cases "g = gnew")
      case True
      then show ?thesis using g ne \<open>group_ok ?so gnew gr'\<close> unfolding G by (simp split: if_splits)
    next
      case False
      then have g': "map_of (instructionGroups so) g = Some gr" "g \<noteq> gold" using g unfolding G by (auto split: if_splits)
      then show ?thesis using order_invD(1) [OF assms(1) g'(1)] unfolding group_ok_def cnt Lk by simp
    qed
  next
    fix k g assume k: "map_of (instructionLinks ?so) k = Some g"
    show "\<exists>gr. map_of (instructionGroups ?so) g = Some gr \<and> k \<in> (sid \<circ> fst) ` set gr"
    proof (cases "map_of (instructionLinks so) k \<in> {Some gold, Some gnew}")
      case True
      then have "g = gnew" using k unfolding Lk by (auto split: if_splits)
      moreover have "k \<in> (sid \<circ> fst) ` set gr'" using True in_old in_new unfolding ids by blast
      ultimately show ?thesis using ne unfolding G by simp
    next
      case False
      then have k': "map_of (instructionLinks so) k = Some g" "g \<noteq> gold" "g \<noteq> gnew" using k unfolding Lk by auto
      then show ?thesis using order_invD(2) [OF assms(1) k'(1)] unfolding G by simp
    qed
  qed
  moreover have "members ?so k = (if map_of (instructionLinks so) k \<in> {Some gold, Some gnew} then set old \<union> set new else members so k)" for k
  proof (cases "map_of (instructionLinks so) k \<in> {Some gold, Some gnew}")
    case True
    then have "map_of (instructionLinks ?so) k = Some gnew" unfolding Lk by auto
    then show ?thesis using True ne sgr unfolding members_def G by simp
  next
    case False
    then have "map_of (instructionLinks ?so) k = map_of (instructionLinks so) k" unfolding Lk by auto
    moreover have "map_of (instructionGroups ?so) g = map_of (instructionGroups so) g"
      if "map_of (instructionLinks so) k = Some g" for g using that False unfolding G by auto
    ultimately show ?thesis using False unfolding members_def by (cases "map_of (instructionLinks so) k") simp_all
  qed
  moreover have "dom (map_of (instructionLinks ?so)) = dom (map_of (instructionLinks so))"
    unfolding dom_def Lk by auto
  moreover have "map_of (instructionLinks ?so) (sid k1) = Some (if begins k1 > begins k2 then g1 else g2)"
    unfolding Lk using assms(2) by (auto simp: gold_def gnew_def)
  moreover have "map_of (instructionLinks ?so) k = map_of (instructionLinks so) k"
    if "map_of (instructionLinks so) k \<notin> {Some gold, Some gnew}" for k using that unfolding Lk by auto
  ultimately show ?thesis using run unfolding both union old(2) new(2) by blast
qed

section \<open>Fusing the groups of a task\<close>

lemma furthest_total:
  assumes "inj_on sid (insert k0 (set ss))"
  shows "\<exists>k. furthest (Some k0) (map Some ss) = Inr (Some k) \<and> k \<in> insert k0 (set ss)
     \<and> (\<forall>s \<in> insert k0 (set ss). begins s \<le> begins k)"
  using assms
proof (induction ss arbitrary: k0)
  case Nil
  then show ?case by simp
next
  case (Cons s ss)
  define k1 where "k1 = (if begins k0 < begins s then s else k0)"
  have inj: "inj_on sid (insert k1 (set ss))"
    by (rule inj_on_subset [OF Cons.prems]) (auto simp: k1_def)
  have eq: "sid s = sid k0 \<Longrightarrow> s = k0" by (rule inj_onD [OF Cons.prems]) simp_all
  have step: "furthest (Some k0) (map Some (s # ss)) = furthest (Some k1) (map Some ss)"
  proof (cases "sid s = sid k0")
    case True
    then show ?thesis using eq [OF True] by (simp add: same_stmt_def k1_def)
  next
    case False
    then show ?thesis by (simp add: same_stmt_def k1_def)
  qed
  obtain k where run: "furthest (Some k1) (map Some ss) = Inr (Some k)" and k: "k \<in> insert k1 (set ss)"
    "\<forall>s \<in> insert k1 (set ss). begins s \<le> begins k" using Cons.IH [OF inj] by blast
  have "k \<in> insert k0 (set (s # ss))" using k(1) by (auto simp: k1_def split: if_splits)
  moreover have "\<forall>t \<in> insert k0 (set (s # ss)). begins t \<le> begins k"
    using k(2) by (auto simp: k1_def split: if_splits)
  ultimately show ?case unfolding step run by (intro exI [of _ k] conjI) simp_all
qed

text \<open>What holds when the groups of the statements \<open>Q\<close> were merged into the one of \<open>k\<close>.\<close>

definition merged :: "'t stmtOrder \<Rightarrow> 't stmt set \<Rightarrow> 't stmt \<Rightarrow> 't stmtOrder \<Rightarrow> bool" where
  "merged so Q k so' \<longleftrightarrow> order_inv so' \<and> dom (map_of (instructionLinks so')) = dom (map_of (instructionLinks so))
     \<and> (\<forall>j. members so' j = (if \<exists>q \<in> Q. map_of (instructionLinks so) j = map_of (instructionLinks so) (sid q)
          then \<Union>q \<in> Q. members so (sid q) else members so j))
     \<and> (\<forall>j. (\<forall>q \<in> Q. map_of (instructionLinks so) j \<noteq> map_of (instructionLinks so) (sid q)) \<longrightarrow>
          map_of (instructionLinks so') j = map_of (instructionLinks so) j)
     \<and> (\<exists>m \<in> Q. begins m = begins k \<and> map_of (instructionLinks so') (sid k) = map_of (instructionLinks so) (sid m))"

lemma merged_step:
  assumes "order_inv so" and "merged so Q k so1" and "k \<in> Q" and "begins i \<le> begins k"
    and "\<forall>q \<in> insert i Q. map_of (instructionLinks so) (sid q) \<noteq> None"
    and "\<forall>q \<in> Q. map_of (instructionLinks so) (sid i) \<noteq> map_of (instructionLinks so) (sid q)"
  shows "\<exists>so2. moveInstruction (Some k) (Some i) so1 = Inr so2 \<and> merged so (insert i Q) k so2"
proof -
  let ?l = "map_of (instructionLinks so)" and ?l1 = "map_of (instructionLinks so1)"
  have o1: "order_inv so1" and d1: "dom ?l1 = dom ?l"
    using assms(2) by (simp_all add: merged_def)
  have m1: "members so1 j = (if \<exists>q \<in> Q. ?l j = ?l (sid q) then \<Union>q \<in> Q. members so (sid q) else members so j)" for j
    using assms(2) by (simp add: merged_def)
  have same1: "(\<And>q. q \<in> Q \<Longrightarrow> ?l j \<noteq> ?l (sid q)) \<Longrightarrow> ?l1 j = ?l j" for j
    using assms(2) by (simp add: merged_def)
  obtain m where m: "m \<in> Q" "begins m = begins k" "?l1 (sid k) = ?l (sid m)" using assms(2) unfolding merged_def by blast
  obtain a where a: "?l1 (sid k) = Some a" using m(1,3) assms(5) by auto
  have "sid i \<in> dom ?l1" unfolding d1 using assms(5) by blast
  then obtain b where b: "?l1 (sid i) = Some b" by blast
  have link: "j \<in> (sid \<circ> fst) ` members so (sid q) \<longleftrightarrow> ?l j = ?l (sid q)" if "q \<in> insert i Q" for q j
  proof -
    obtain g where "?l (sid q) = Some g" using assms(5) \<open>q \<in> insert i Q\<close> by auto
    then show ?thesis using members_iff [OF assms(1)] by simp
  qed
  have mk: "members so1 (sid k) = (\<Union>q \<in> Q. members so (sid q))" unfolding m1 using assms(3) by auto
  have mi: "members so1 (sid i) = members so (sid i)" unfolding m1 using assms(6) by auto
  have A: "?l1 j = Some a \<longleftrightarrow> (\<exists>q \<in> Q. ?l j = ?l (sid q))" for j
  proof -
    have "?l1 j = Some a \<longleftrightarrow> j \<in> (\<Union>q \<in> Q. (sid \<circ> fst) ` members so (sid q))"
      unfolding members_iff [OF o1 a, symmetric] mk image_UN ..
    also have "\<dots> \<longleftrightarrow> (\<exists>q \<in> Q. ?l j = ?l (sid q))" using link by blast
    finally show ?thesis .
  qed
  have Bi: "?l1 j = Some b \<longleftrightarrow> ?l j = ?l (sid i)" for j
    unfolding members_iff [OF o1 b, symmetric] mi by (rule link) simp
  have "a \<noteq> b" using A [of "sid i"] b assms(6) by auto
  from moveInstruction_merges [OF o1 a b this] obtain so2 where
    r: "moveInstruction (Some k) (Some i) so1 = Inr so2" "order_inv so2" "dom (map_of (instructionLinks so2)) = dom ?l1"
      "map_of (instructionLinks so2) (sid k) = Some (if begins k > begins i then a else b)"
      "\<forall>j. ?l1 j \<notin> {Some a, Some b} \<longrightarrow> map_of (instructionLinks so2) j = ?l1 j"
      "\<forall>j. members so2 j = (if ?l1 j \<in> {Some a, Some b} then members so1 (sid k) \<union> members so1 (sid i) else members so1 j)"
    by blast
  have "members so2 j = (if \<exists>q \<in> insert i Q. ?l j = ?l (sid q) then \<Union>q \<in> insert i Q. members so (sid q) else members so j)" for j
  proof -
    have "?l1 j \<in> {Some a, Some b} \<longleftrightarrow> (\<exists>q \<in> insert i Q. ?l j = ?l (sid q))" using A Bi by auto
    then show ?thesis using r(6) mk mi m1 [of j] by auto
  qed
  moreover have "\<exists>m \<in> insert i Q. begins m = begins k \<and> map_of (instructionLinks so2) (sid k) = ?l (sid m)"
  proof (cases "begins k > begins i")
    case True
    then show ?thesis using m a r(4) by auto
  next
    case False
    moreover have "?l (sid i) = Some b"
    proof -
      have "?l1 (sid i) = ?l (sid i)" using same1 assms(6) by blast
      then show ?thesis using b by simp
    qed
    ultimately show ?thesis using assms(4) r(4) by (intro bexI [of _ i]) auto
  qed
  moreover have "map_of (instructionLinks so2) j = ?l j" if "\<forall>q \<in> insert i Q. ?l j \<noteq> ?l (sid q)" for j
  proof -
    have "?l1 j \<notin> {Some a, Some b}" using that A Bi by auto
    then show ?thesis using r(5) same1 that by simp
  qed
  ultimately show ?thesis using r(1-3) d1 unfolding merged_def by blast
qed

lemma merged_fold:
  assumes "order_inv so" and "\<forall>s \<in> set ss. map_of (instructionLinks so) (sid s) \<noteq> None"
    and "inj_on (\<lambda>s. map_of (instructionLinks so) (sid s)) (set ss)" and "k \<in> set ss"
    and "\<forall>s \<in> set ss. begins s \<le> begins k" and "set rest \<subseteq> set ss" and "Q \<subseteq> set ss" and "k \<in> Q"
    and "merged so Q k so1" and "distinct rest" and "set rest \<inter> Q \<subseteq> {k}"
  shows "\<exists>so2. fold_res (\<lambda>instr so. if same_stmt instr (Some k) then Inr so else moveInstruction (Some k) instr so)
       (map Some rest) so1 = Inr so2 \<and> merged so (Q \<union> set rest) k so2"
  using assms(6-11)
proof (induction rest arbitrary: Q so1)
  case Nil
  then show ?case by simp
next
  case (Cons i rest)
  have inj: "sid i = sid q \<Longrightarrow> i = q" if "q \<in> set ss" for q
    using assms(3) that Cons.prems(1) unfolding inj_on_def by (metis list.set_intros(1) subsetD)
  show ?case
  proof (cases "i = k")
    case True
    have "\<exists>so2. fold_res (\<lambda>instr so. if same_stmt instr (Some k) then Inr so else moveInstruction (Some k) instr so)
       (map Some rest) so1 = Inr so2 \<and> merged so (Q \<union> set rest) k so2"
      using Cons.IH [OF _ Cons.prems(2-4)] Cons.prems(1,5,6) by auto
    moreover have "Q \<union> set (i # rest) = Q \<union> set rest" using True Cons.prems(3) by auto
    ultimately show ?thesis using True by (simp add: same_stmt_def)
  next
    case False
    have iss: "i \<in> set ss" and iQ: "i \<notin> Q" using Cons.prems(1,6) False by auto
    have ns: "\<not> same_stmt (Some i) (Some k)" using inj [OF assms(4)] False by (auto simp: same_stmt_def)
    have "\<forall>q \<in> Q. map_of (instructionLinks so) (sid i) \<noteq> map_of (instructionLinks so) (sid q)"
    proof
      fix q assume "q \<in> Q"
      then have "q \<in> set ss" "i \<noteq> q" using Cons.prems(2) iQ by blast+
      then show "map_of (instructionLinks so) (sid i) \<noteq> map_of (instructionLinks so) (sid q)"
        using inj_onD [OF assms(3) _ iss] by blast
    qed
    moreover have "\<forall>q \<in> insert i Q. map_of (instructionLinks so) (sid q) \<noteq> None" using assms(2) iss Cons.prems(2) by blast
    ultimately obtain so2 where so2: "moveInstruction (Some k) (Some i) so1 = Inr so2" "merged so (insert i Q) k so2"
      using merged_step [OF assms(1) Cons.prems(4,3)] assms(5) iss by blast
    have "\<exists>so3. fold_res (\<lambda>instr so. if same_stmt instr (Some k) then Inr so else moveInstruction (Some k) instr so)
       (map Some rest) so2 = Inr so3 \<and> merged so (insert i Q \<union> set rest) k so3"
      using Cons.IH [OF _ _ _ so2(2)] Cons.prems iss by auto
    then show ?thesis using so2(1) ns by simp
  qed
qed

text \<open>
  C18: fusing the statements of a task, each in a group of its own, puts the members of all their
  groups in one group, in the order of the code, at the place of a statement that is the furthest in
  the code; the groups of all other statements are unchanged and the invariant is kept.
\<close>

theorem fuseInstructions_correct:
  assumes "order_inv so" and "2 \<le> length ss" and "\<forall>s \<in> set ss. map_of (instructionLinks so) (sid s) \<noteq> None"
    and "distinct (map (\<lambda>s. map_of (instructionLinks so) (sid s)) ss)"
  shows "\<exists>so' m. fuseInstructions (map Some ss) so = Inr so' \<and> order_inv so'
     \<and> m \<in> set ss \<and> (\<forall>s \<in> set ss. begins s \<le> begins m)
     \<and> (\<forall>s \<in> set ss. map_of (instructionLinks so') (sid s) = map_of (instructionLinks so) (sid m)
          \<and> members so' (sid s) = (\<Union>t \<in> set ss. members so (sid t)))
     \<and> (\<forall>j. (\<forall>s \<in> set ss. map_of (instructionLinks so) j \<noteq> map_of (instructionLinks so) (sid s)) \<longrightarrow>
          members so' j = members so j)"
proof -
  let ?l = "map_of (instructionLinks so)"
  have inj: "inj_on (\<lambda>s. ?l (sid s)) (set ss)" and d: "distinct ss" using assms(4) by (simp_all add: distinct_map)
  obtain s0 where s0: "s0 \<in> set ss" "hd (map Some ss) = Some s0" using assms(2) by (cases ss) auto
  have "insert s0 (set ss) = set ss" using s0 by blast
  moreover have "inj_on sid (set ss)" using inj unfolding inj_on_def by metis
  ultimately obtain k where k: "furthest (Some s0) (map Some ss) = Inr (Some k)" "k \<in> set ss" "\<forall>s \<in> set ss. begins s \<le> begins k"
    using furthest_total [of s0 ss] by metis
  have start: "merged so {k} k so" using assms(1) k(2) unfolding merged_def members_def by simp
  from merged_fold [OF assms(1,3) inj k(2,3) order_refl _ _ start d] k(2) obtain so' where
    f: "fold_res (\<lambda>instr so. if same_stmt instr (Some k) then Inr so else moveInstruction (Some k) instr so) (map Some ss) so = Inr so'"
    and M: "merged so ({k} \<union> set ss) k so'" by auto
  have ks: "{k} \<union> set ss = set ss" using k(2) by blast
  note M = M [unfolded ks merged_def]
  obtain m where m: "m \<in> set ss" "begins m = begins k" "map_of (instructionLinks so') (sid k) = ?l (sid m)" using M by blast
  have mem: "members so' (sid s) = (\<Union>t \<in> set ss. members so (sid t))" if "s \<in> set ss" for s
    using M that by auto
  have lk: "map_of (instructionLinks so') (sid s) = ?l (sid m)" if s: "s \<in> set ss" for s
  proof -
    obtain g where g: "?l (sid m) = Some g" using assms(3) m(1) by auto
    have o': "order_inv so'" using M by blast
    have "sid s \<in> (sid \<circ> fst) ` members so' (sid k)"
    proof -
      obtain gs where gs: "?l (sid s) = Some gs" using assms(3) s by auto
      have "sid s \<in> (sid \<circ> fst) ` members so (sid s)" using members_iff [OF assms(1) gs] gs by simp
      then show ?thesis unfolding mem [OF k(2)] image_UN using s by blast
    qed
    then show ?thesis using members_iff [OF o' m(3) [unfolded g]] g by simp
  qed
  have run: "fuseInstructions (map Some ss) so = Inr so'"
    using assms(2) by (simp add: fuseInstructions_def s0(2) k(1) f)
  show ?thesis
    using run M m(1,2) k(3) mem lk by (intro exI [of _ so'] exI [of _ m]) simp
qed

section \<open>Examples\<close>

definition ex_stmt :: "nat \<Rightarrow> unit stmt" where
  "ex_stmt n = OtherStmt n \<lparr>loc_offset = 10 * n, loc_file = [], loc_system = False\<rparr> []"

definition ex_orders :: "unit orders" where
  "ex_orders = (case fold_res (addInstructionToManager 7) [ex_stmt 2, ex_stmt 3, ex_stmt 4] [(7, StmtOrder_new False)] of
     Inr oh \<Rightarrow> oh | Inl _ \<Rightarrow> [])"

definition ex_order :: "unit stmtOrder" where
  "ex_order = the (map_of ex_orders 7)"

lemma ex_order_eq: "map_of ex_orders 7 = Some ex_order"
  "instructionLinks ex_order = [(2, 0), (3, 1), (4, 2)]" "groupCounter ex_order = 3"
  "instructionGroups ex_order = [(0, [(ex_stmt 2, None)]), (1, [(ex_stmt 3, None)]), (2, [(ex_stmt 4, None)])]"
  by code_simp+

lemma ex_order_inv: "order_inv ex_order"
  unfolding order_inv_def ex_order_eq group_ok_def by (auto simp: ex_stmt_def split: if_splits)

lemma addInstructionToManager_correct_witness:
  "\<exists>oh' so' sub. addInstructionToManager 7 (ex_stmt 5) ex_orders = Inr oh' \<and> map_of oh' 7 = Some so'
     \<and> order_inv so' \<and> members so' 5 = {(ex_stmt 5, sub)}"
proof -
  have sid: "sid (ex_stmt 5) = 5" by (simp add: ex_stmt_def)
  have "map_of (instructionLinks ex_order) (sid (ex_stmt 5)) = None" by (simp add: ex_order_eq sid)
  from addInstructionToManager_correct [OF ex_order_eq(1) ex_order_inv this] obtain oh' so' sub where
    "addInstructionToManager 7 (ex_stmt 5) ex_orders = Inr oh'" "map_of oh' 7 = Some so'" "order_inv so'"
    "members so' (sid (ex_stmt 5)) = {(ex_stmt 5, sub)}"
    by (elim exE conjE) (rule that; assumption)
  then show ?thesis unfolding sid by (intro exI conjI)
qed

lemma fuseInstructions_correct_witness:
  "\<exists>so'. fuseInstructions [Some (ex_stmt 4), Some (ex_stmt 2)] ex_order = Inr so' \<and> order_inv so'
     \<and> members so' 2 = {(ex_stmt 2, None), (ex_stmt 4, None)} \<and> members so' 3 = members ex_order 3"
proof -
  let ?ss = "[ex_stmt 4, ex_stmt 2]"
  have sid: "sid (ex_stmt n) = n" for n by (simp add: ex_stmt_def)
  have linked: "\<forall>s \<in> set ?ss. map_of (instructionLinks ex_order) (sid s) \<noteq> None"
    and dist: "distinct (map (\<lambda>s. map_of (instructionLinks ex_order) (sid s)) ?ss)"
    by (simp_all add: ex_order_eq sid)
  have mem: "members ex_order 2 = {(ex_stmt 2, None)}" "members ex_order 4 = {(ex_stmt 4, None)}"
    by (simp_all add: members_def ex_order_eq)
  have "2 \<le> length ?ss" by simp
  from fuseInstructions_correct [OF ex_order_inv this linked dist] obtain so' m where
    r: "fuseInstructions (map Some ?ss) ex_order = Inr so'" "order_inv so'"
    and m': "\<forall>s \<in> set ?ss. map_of (instructionLinks so') (sid s) = map_of (instructionLinks ex_order) (sid (m :: unit stmt))
          \<and> members so' (sid s) = (\<Union>t \<in> set ?ss. members ex_order (sid t))"
    and o: "\<forall>j. (\<forall>s \<in> set ?ss. map_of (instructionLinks ex_order) j \<noteq> map_of (instructionLinks ex_order) (sid s)) \<longrightarrow>
          members so' j = members ex_order j"
    by (elim exE conjE) (rule that; assumption)
  have m: "\<forall>s \<in> set ?ss. members so' (sid s) = (\<Union>t \<in> set ?ss. members ex_order (sid t))" using m' by blast
  have "members so' (sid (ex_stmt 2)) = (\<Union>t \<in> set ?ss. members ex_order (sid t))" using m by simp
  then have "members so' 2 = {(ex_stmt 2, None), (ex_stmt 4, None)}" by (auto simp: sid mem)
  moreover have "members so' 3 = members ex_order 3" using o by (simp add: ex_order_eq sid)
  ultimately show ?thesis using r by simp
qed

text \<open>
  Moving a statement to the group it is already in erases the group: its statements keep their
  links, but are in no group any more and the look-up of their order fails.
\<close>

lemma moveInstruction_same_group:
  "bind_res (moveInstruction (Some (ex_stmt 2)) (Some (ex_stmt 4)) ex_order) (\<lambda>so.
     bind_res (moveInstruction (Some (ex_stmt 2)) (Some (ex_stmt 4)) so) (\<lambda>so'.
       Inr (map_of (instructionLinks so') 2, map fst (instructionGroups so'), getSubStmtOrder so' (ex_stmt 2))))
   = Inr (Some 2, [1], Inl AssertFailed)"
  by code_simp

end
