(* ===== verification/Common_Types.thy ===== *)
theory Common_Types
  imports Alias_Arg
begin

text \<open>
  The type queries of \<open>core/common.cpp\<close>. A \<open>QualType\<close> can be null; a query of a null type
  dereferences the null pointer and is \<open>Inl NullDeref\<close>. The loops that follow pointees are bounded by
  \<open>typeDepth\<close>, the length of the chain of pointees; the bound is never reached when types are finite.
\<close>

definition getNonReferenceQualType :: "'t clang \<Rightarrow> 't \<Rightarrow> 't" where
  "getNonReferenceQualType C t =
     (if isReferenceType C t then getNonReferenceType C t
      else if contains ''reference_wrapper'' (typeAsString C t) then
        (case templateFirstArg C t of Some a \<Rightarrow> a | None \<Rightarrow> t)
      else t)"

definition getUnreferencedQType :: "'t clang \<Rightarrow> 't \<Rightarrow> 't" where
  "getUnreferencedQType C t = getNonReferenceType C t"

definition getPointerToQType :: "'t clang \<Rightarrow> 't \<Rightarrow> 't" where
  "getPointerToQType C t = getPointerType C t"

section \<open>The type at the end of the pointers\<close>

fun lowestType_loop :: "'t clang \<Rightarrow> nat \<Rightarrow> 't \<Rightarrow> 't res" where
  "lowestType_loop C 0 t = Inl OutOfFuel"
| "lowestType_loop C (Suc n) t =
     (if isPointerQualType C t then lowestType_loop C n (getPointeeType C t) else Inr t)"

definition getLowestType :: "'t clang \<Rightarrow> 't stmt list \<Rightarrow> 't list res" where
  "getLowestType C exprs =
     map_res (\<lambda>e. bind_res (exprType e) (\<lambda>t.
       (let t' = getUnreferencedQType C t in lowestType_loop C (Suc (typeDepth C t')) t'))) exprs"

section \<open>Completely constant types\<close>

definition isConstQualified_checked :: "'t clang \<Rightarrow> 't \<Rightarrow> bool res" where
  "isConstQualified_checked C t = (if isNullType C t then Inl NullDeref else Inr (isConstQualified C t))"

text \<open>
  The loop ends on a type that is not constant, or after a round that started with the null type.
\<close>

fun isFullConstType_loop :: "'t clang \<Rightarrow> nat \<Rightarrow> 't \<Rightarrow> bool res" where
  "isFullConstType_loop C 0 t = Inl OutOfFuel"
| "isFullConstType_loop C (Suc n) t =
     bind_res (isConstQualified_checked C t) (\<lambda>const.
       if const then (if isNullType C t then Inr True else isFullConstType_loop C n (getPointeeType C t))
       else Inr False)"

definition isFullConstType :: "'t clang \<Rightarrow> 't \<Rightarrow> bool res" where
  "isFullConstType C t =
     (let t' = (if isReferenceQualType C t then getNonReferenceType C t else t) in
      isFullConstType_loop C (Suc (Suc (typeDepth C t'))) t')"

section \<open>Depth of pointers\<close>

fun getPtrDepth_loop :: "'t clang \<Rightarrow> nat \<Rightarrow> int \<Rightarrow> 't \<Rightarrow> int res" where
  "getPtrDepth_loop C 0 r qt = Inl OutOfFuel"
| "getPtrDepth_loop C (Suc n) r qt =
     (if isNullType C qt then Inl NullDeref
      else
        (let qt1 = getSingleStepDesugaredType C qt in
         if isNullType C qt1 then Inl NullDeref
         else
           (let qt2 = getPointeeType C qt1; r' = r + 1 in
            if \<not> isNullType C qt2 \<and> qt2 \<noteq> qt then getPtrDepth_loop C n r' qt2 else Inr r')))"

definition getPtrDepth :: "'t clang \<Rightarrow> 't \<Rightarrow> int res" where
  "getPtrDepth C t =
     (let t' = (if isReferenceQualType C t then getNonReferenceQualType C t else t) in
      getPtrDepth_loop C (Suc (typeDepth C t')) 0 t')"

definition desugared :: "'t clang \<Rightarrow> 't \<Rightarrow> 't res" where
  "desugared C t = (if isNullType C t then Inl NullDeref else Inr (getSingleStepDesugaredType C t))"

text \<open>The comparison loop makes at most ten rounds; the argument counts the rounds left.\<close>

fun getPtrDepthAccess_loop :: "'t clang \<Rightarrow> nat \<Rightarrow> int \<Rightarrow> 't \<Rightarrow> 't \<Rightarrow> int res" where
  "getPtrDepthAccess_loop C 0 r qt1 qt2 = Inr 0"
| "getPtrDepthAccess_loop C (Suc k) r qt1 qt2 =
     (if qt1 \<noteq> qt2 \<and> \<not> isNullType C qt1 \<and> \<not> isNullType C qt2 then
        (let (r', t) =
           (if isPointerQualType C qt1 then (r + 1, getPointeeType C qt1)
            else if isReferenceQualType C qt1 then (r, getNonReferenceQualType C qt1)
            else if isArrayType C qt1 then (r, getArrayElementType C qt1)
            else (r, qt1)) in
         bind_res (desugared C t) (\<lambda>t1.
         bind_res (desugared C qt2) (\<lambda>t2.
           getPtrDepthAccess_loop C k r' t1 t2)))
      else Inr r)"

definition ptrAccess :: "'t clang \<Rightarrow> 't \<Rightarrow> 't \<Rightarrow> int res" where
  "ptrAccess C qt1 qt2 =
     bind_res (desugared C qt2) (\<lambda>t2.
     bind_res (desugared C qt1) (\<lambda>t1.
       (let t2' = (if isReferenceQualType C t2 then getNonReferenceQualType C t2 else t2) in
        if t1 \<noteq> t2' then
          (if getPointerToQType C t1 = t2' then Inr (-1) else getPtrDepthAccess_loop C 10 0 t1 t2')
        else Inr 0)))"

definition getPtrDepthAccess :: "'t clang \<Rightarrow> 't \<Rightarrow> 't \<Rightarrow> int res" where
  "getPtrDepthAccess C qt1 qt2 =
     bind_res (getPtrDepth C qt1) (\<lambda>depth1.
     bind_res (getPtrDepth C qt2) (\<lambda>depth2.
     bind_res (ptrAccess C qt1 qt2) (\<lambda>returnValue.
       if returnValue = depth1 - depth2 then Inr returnValue else Inl AssertFailed)))"

text \<open>The depth of the access an expression makes to a variable.\<close>

definition getPtrDepthAccess_var :: "'t clang \<Rightarrow> 't vardecl \<Rightarrow> 't stmt \<Rightarrow> int res" where
  "getPtrDepthAccess_var C v e = bind_res (exprType e) (getPtrDepthAccess C (vd_type v))"

section \<open>Properties\<close>

lemma isFullConstType_loop_false: "isFullConstType_loop C n t = Inr b \<Longrightarrow> \<not> b"
  by (induction C n t rule: isFullConstType_loop.induct)
    (auto simp: isConstQualified_checked_def res_simps split: if_splits)

lemma isFullConstType_loop_fuel:
  assumes "types_finite C" and "typeDepth C t < n"
  shows "isFullConstType_loop C n t \<noteq> Inl OutOfFuel"
  using assms(2)
proof (induction n arbitrary: t)
  case (Suc n)
  show ?case
  proof (cases "isNullType C t")
    case False
    then have "typeDepth C (getPointeeType C t) < n"
      using assms(1) Suc.prems unfolding types_finite_def by fastforce
    then show ?thesis using Suc.IH False by (simp add: isConstQualified_checked_def)
  qed (simp add: isConstQualified_checked_def)
qed simp

text \<open>
  \<open>isFullConstType\<close> never answers that a type is completely constant: following the pointees of
  such a type reaches the null type, which it queries.
\<close>

lemma isFullConstType_never_true: "isFullConstType C t \<noteq> Inr True"
  using isFullConstType_loop_false [of C _ _ True] unfolding isFullConstType_def Let_def by blast

lemma getPtrDepthAccess_loop_bounds:
  "getPtrDepthAccess_loop C k r qt1 qt2 = Inr d \<Longrightarrow> 0 \<le> r \<Longrightarrow> 0 \<le> d \<and> (k \<noteq> 0 \<longrightarrow> d < r + int k)"
proof (induction k arbitrary: r qt1 qt2)
  case (Suc k)
  show ?case
  proof (cases "qt1 \<noteq> qt2 \<and> \<not> isNullType C qt1 \<and> \<not> isNullType C qt2")
    case True
    then obtain r' t1 t2 where "getPtrDepthAccess_loop C k r' t1 t2 = Inr d" "r \<le> r'" "r' \<le> r + 1"
      using Suc.prems(1) by (auto simp: Let_def res_simps split: if_splits)
    then show ?thesis using Suc.IH [of r' t1 t2] Suc.prems(2) by (cases k) auto
  next
    case False
    then have "d = r" using Suc.prems(1) by auto
    then show ?thesis using Suc.prems(2) by simp
  qed
qed simp

text \<open>
  The depth of an access is the difference of the depths of the two types; it is at least
  \<open>-1\<close>, at most 9, and \<open>-1\<close> only where the second type is the pointer to the first.
\<close>

lemma getPtrDepthAccess_bounds:
  assumes "getPtrDepthAccess C qt1 qt2 = Inr d"
  shows "-1 \<le> d \<and> d \<le> 9 \<and> (\<exists>d1 d2. getPtrDepth C qt1 = Inr d1 \<and> getPtrDepth C qt2 = Inr d2 \<and> d = d1 - d2)
     \<and> (d = -1 \<longrightarrow> (let t = getSingleStepDesugaredType C qt2 in
          getPointerType C (getSingleStepDesugaredType C qt1)
            = (if isReferenceQualType C t then getNonReferenceQualType C t else t)))"
proof -
  from assms obtain d1 d2 where d: "getPtrDepth C qt1 = Inr d1" "getPtrDepth C qt2 = Inr d2" "d = d1 - d2"
    and p: "ptrAccess C qt1 qt2 = Inr d"
    by (auto simp: getPtrDepthAccess_def res_simps split: if_splits)
  from p have "(-1 \<le> d \<and> d \<le> 9) \<and> (d = -1 \<longrightarrow> (let t = getSingleStepDesugaredType C qt2 in
          getPointerType C (getSingleStepDesugaredType C qt1)
            = (if isReferenceQualType C t then getNonReferenceQualType C t else t)))"
    unfolding ptrAccess_def desugared_def getPointerToQType_def Let_def
    by (simp split: if_splits) (fastforce dest!: getPtrDepthAccess_loop_bounds)+
  with d show ?thesis by blast
qed

lemma getPtrDepth_loop_fuel:
  assumes "types_finite C" and "typeDepth C t < n"
  shows "getPtrDepth_loop C n r t \<noteq> Inl OutOfFuel"
  using assms(2)
proof (induction n arbitrary: t r)
  case (Suc n)
  have "typeDepth C (getPointeeType C (getSingleStepDesugaredType C t)) < n" if "\<not> isNullType C t"
    using assms(1) Suc.prems that unfolding types_finite_def
    by (metis less_Suc_eq_le order_less_le_trans)
  then show ?case using Suc.IH by (simp add: Let_def)
qed simp

lemma getPtrDepthAccess_loop_fuel: "getPtrDepthAccess_loop C k r qt1 qt2 \<noteq> Inl OutOfFuel"
  by (induction C k r qt1 qt2 rule: getPtrDepthAccess_loop.induct)
    (auto simp: Let_def desugared_def bind_res_def split: sum.splits)

lemma lowestType_loop_fuel:
  assumes "types_finite C" and "typeDepth C t < n"
  shows "lowestType_loop C n t \<noteq> Inl OutOfFuel"
  using assms(2)
proof (induction n arbitrary: t)
  case (Suc n)
  have "typeDepth C (getPointeeType C t) < n" if "isPointerQualType C t"
  proof -
    have "\<not> isNullType C t" using that by (auto simp: isPointerQualType_def)
    then show ?thesis using assms(1) Suc.prems unfolding types_finite_def by fastforce
  qed
  then show ?case using Suc.IH by simp
qed simp

lemma map_res_fuel: "\<forall>x \<in> set xs. f x \<noteq> Inl OutOfFuel \<Longrightarrow> map_res f xs \<noteq> Inl OutOfFuel"
  by (induction xs) (auto simp: bind_res_def split: sum.splits)

text \<open>C37: with finite types, the loops over types end within their bounds.\<close>

theorem type_queries_terminate:
  assumes "types_finite C"
  shows "getPtrDepthAccess C qt1 qt2 \<noteq> Inl OutOfFuel \<and> isFullConstType C t \<noteq> Inl OutOfFuel
     \<and> getLowestType C exprs \<noteq> Inl OutOfFuel"
proof (intro conjI)
  have "getPtrDepth C q \<noteq> Inl OutOfFuel" for q
    unfolding getPtrDepth_def Let_def by (rule getPtrDepth_loop_fuel [OF assms]) simp
  moreover have "ptrAccess C qt1 qt2 \<noteq> Inl OutOfFuel"
    by (simp add: ptrAccess_def desugared_def Let_def getPtrDepthAccess_loop_fuel)
  ultimately show "getPtrDepthAccess C qt1 qt2 \<noteq> Inl OutOfFuel"
    by (auto simp: getPtrDepthAccess_def bind_res_def split: sum.splits)
  show "isFullConstType C t \<noteq> Inl OutOfFuel"
    unfolding isFullConstType_def Let_def by (rule isFullConstType_loop_fuel [OF assms]) simp
  have "lowestType_loop C (Suc (typeDepth C q)) q \<noteq> Inl OutOfFuel" for q
    by (rule lowestType_loop_fuel [OF assms]) simp
  then show "getLowestType C exprs \<noteq> Inl OutOfFuel"
    unfolding getLowestType_def Let_def
    by (intro map_res_fuel ballI) (auto simp: bind_res_def exprType_def split: sum.splits option.splits)
qed

end
