(* ===== verification/Common_Exprs.thy ===== *)
theory Common_Exprs
  imports Common_Types "HOL-Library.Multiset"
begin

text \<open>
  The searches through expressions of \<open>core/common.cpp\<close> and \<open>core/common.hpp\<close>, and the one of the
  visitor that looks for the variables an expression reads. A queue is a list whose head is its front,
  a stack a list whose head is its top; a node that is pushed weighs less than the one it comes from.
\<close>

lemma weight_fold [termination_simp]:
  "sum_list (map weight (filter P (children s))) < weight s"
  using weight_filter [of P "children s"] weight_children [of s] by (rule order.strict_trans1)

lemma weight_rev [simp]: "sum_list (map weight (rev cs)) = sum_list (map weight cs)"
  by (simp add: rev_map flip: rev_map)

section \<open>Variables\<close>

definition isVarRef :: "'t stmt \<Rightarrow> bool" where
  "isVarRef s \<longleftrightarrow> declRefVar s \<noteq> None"

function declRefs_queue :: "'t stmt list \<Rightarrow> 't stmt list \<Rightarrow> 't stmt list" where
  "declRefs_queue [] found = found"
| "declRefs_queue (s # vectNodes) found =
     (if isVarRef s then declRefs_queue vectNodes (found @ [s])
      else declRefs_queue (vectNodes @ filter isExpr (children s)) found)"
  by pat_completeness auto
termination
proof (relation "measure (\<lambda>(q, f). sum_list (map weight q))", goal_cases)
  case (3 s q f)
  then show ?case using weight_fold [of isExpr s] by simp
qed (auto simp: weight_def)

definition getAllDeclRefExprInsideExpr :: "'t stmt option \<Rightarrow> 't stmt list" where
  "getAllDeclRefExprInsideExpr e = (case e of None \<Rightarrow> [] | Some s \<Rightarrow> declRefs_queue [s] [])"

definition getAllDistinctDeclRefExprInsideExpr :: "'t stmt option \<Rightarrow> 't stmt list" where
  "getAllDistinctDeclRefExprInsideExpr e = fold sins (getAllDeclRefExprInsideExpr e) []"

definition getSingleDeclRefExprInsideExpr :: "'t stmt option \<Rightarrow> 't stmt option" where
  "getSingleDeclRefExprInsideExpr e =
     (case getAllDeclRefExprInsideExpr e of [d] \<Rightarrow> Some d | _ \<Rightarrow> None)"

text \<open>The variables an expression reads: the operand of \<open>&\<close> is skipped when it is a variable.\<close>

definition addressOfVariable :: "'t clang \<Rightarrow> 't stmt \<Rightarrow> bool" where
  "addressOfVariable C s \<longleftrightarrow>
     exprKind s = Some (UnaryOperator UO_AddrOf)
     \<and> (case children s of c # _ \<Rightarrow> isDeclRefExpr (ignoreImpCasts C c) | [] \<Rightarrow> False)"

function readRefs_queue :: "'t clang \<Rightarrow> 't stmt list \<Rightarrow> 't stmt list \<Rightarrow> 't stmt list" where
  "readRefs_queue C [] found = found"
| "readRefs_queue C (s # vectNodes) found =
     (if addressOfVariable C s then readRefs_queue C vectNodes found
      else if isVarRef s then readRefs_queue C vectNodes (found @ [s])
      else readRefs_queue C (vectNodes @ filter isExpr (children s)) found)"
  by pat_completeness auto
termination
proof (relation "measure (\<lambda>(C, q, f). sum_list (map weight q))", goal_cases)
  case (4 C s q f)
  then show ?case using weight_fold [of isExpr s] by simp
qed (auto simp: weight_def)

definition getAllReadDeclRefExprInsideExpr :: "'t clang \<Rightarrow> 't stmt option \<Rightarrow> 't stmt list" where
  "getAllReadDeclRefExprInsideExpr C e = (case e of None \<Rightarrow> [] | Some s \<Rightarrow> readRefs_queue C [s] [])"

section \<open>Array subscripts\<close>

function subscripts_stack :: "'t stmt list \<Rightarrow> 't stmt list \<Rightarrow> 't stmt list" where
  "subscripts_stack [] found = found"
| "subscripts_stack (curExpr # stackExpr) found =
     (if isArraySubscriptExpr curExpr then subscripts_stack stackExpr (curExpr # found)
      else subscripts_stack (rev (filter isExpr (children curExpr)) @ stackExpr) found)"
  by pat_completeness auto
termination
proof (relation "measure (\<lambda>(q, f). sum_list (map weight q))", goal_cases)
  case (3 s q f)
  then show ?case using weight_fold [of isExpr s] by simp
qed (auto simp: weight_def)

definition getSingleArraySubscriptExprInsideExpr :: "'t stmt \<Rightarrow> 't stmt option" where
  "getSingleArraySubscriptExprInsideExpr e =
     (case subscripts_stack [e] [] of [a] \<Rightarrow> Some a | _ \<Rightarrow> None)"

text \<open>The walk down the bases; each round goes to a smaller node.\<close>

fun arrayBase :: "'t clang \<Rightarrow> nat \<Rightarrow> 't stmt \<Rightarrow> 't stmt res" where
  "arrayBase C 0 base = Inl OutOfFuel"
| "arrayBase C (Suc n) base =
     (if isArraySubscriptExpr base then
        bind_res (getBase C base) (\<lambda>b. arrayBase C n (ignoreParenImpCasts C b))
      else Inr base)"

definition getArrayBaseDeclRefExpr :: "'t clang \<Rightarrow> 't stmt \<Rightarrow> 't stmt option res" where
  "getArrayBaseDeclRefExpr C ase =
     bind_res (arrayBase C (Suc (size ase)) ase) (\<lambda>base. Inr (getSingleDeclRefExprInsideExpr (Some base)))"

text \<open>The subscripts on the way to the variable; a subscript pushes its base only.\<close>

declare bind_res_cong [fundef_cong]

function allSubscripts_stack :: "'t clang \<Rightarrow> 't stmt list \<Rightarrow> 't stmt list \<Rightarrow> 't stmt list res" where
  "allSubscripts_stack C [] found = Inr found"
| "allSubscripts_stack C (curExpr # stackExpr) found =
     (if isArraySubscriptExpr curExpr then
        bind_res (getBase C curExpr) (\<lambda>b. allSubscripts_stack C (b # stackExpr) (curExpr # found))
      else allSubscripts_stack C (rev (filter isExpr (children curExpr)) @ stackExpr) found)"
  by pat_completeness auto
termination
proof (relation "measure (\<lambda>(C, q, f). sum_list (map weight q))", goal_cases)
  case (2 C s q f b)
  then show ?case by (auto simp: getBase_def dest: weight_child)
next
  case (3 C s q f)
  then show ?case using weight_fold [of isExpr s] by simp
qed simp

definition getArraySubscripts :: "'t clang \<Rightarrow> 't stmt \<Rightarrow> 't stmt list res" where
  "getArraySubscripts C e = allSubscripts_stack C [e] []"

definition getArraySubscriptsIndexes :: "'t clang \<Rightarrow> 't stmt \<Rightarrow> 't stmt list res" where
  "getArraySubscriptsIndexes C e = bind_res (getArraySubscripts C e) (map_res (getIdx C))"

text \<open>The value of an index is stored in an \<open>int\<close>; \<open>-1\<close> stands for a value that is not known.\<close>

definition to_int :: "int \<Rightarrow> int" where
  "to_int v = (v + 2 ^ 31) mod 2 ^ 32 - 2 ^ 31"

definition indexValue :: "'t clang \<Rightarrow> 't stmt \<Rightarrow> int" where
  "indexValue C e = (case evaluateAsInt C e of Some v \<Rightarrow> to_int v | None \<Rightarrow> -1)"

definition getArraySubscriptsIndexesValues :: "'t clang \<Rightarrow> 't stmt \<Rightarrow> int list res" where
  "getArraySubscriptsIndexesValues C e =
     bind_res (getArraySubscriptsIndexes C e) (\<lambda>vectExpr.
       if isArraySubscriptExpr e then
         bind_res (getArrayBaseDeclRefExpr C e) (\<lambda>base.
           if getSingleDeclRefExprInsideExpr base \<noteq> None then Inr (map (indexValue C) vectExpr) else Inr [])
       else Inr [])"

section \<open>Calls\<close>

function getLeafsOfType :: "('t stmt \<Rightarrow> bool) \<Rightarrow> 't stmt \<Rightarrow> 't stmt list" where
  "getLeafsOfType isT s = (if isT s then [s] else []) @ concat (map (getLeafsOfType isT) (children s))"
  by pat_completeness auto
termination
  by (relation "measure (\<lambda>(P, s). size s)") (auto dest: size_children)

function leafs_queue :: "'t stmt list \<Rightarrow> 't stmt list \<Rightarrow> 't stmt list" where
  "leafs_queue [] leafs = leafs"
| "leafs_queue (s # vectNodes) leafs =
     (if isCallExpr s then leafs_queue vectNodes (leafs @ [s])
      else leafs_queue (vectNodes @ children s) (if children s = [] then leafs @ [s] else leafs))"
  by pat_completeness auto
termination
proof (relation "measure (\<lambda>(q, f). sum_list (map weight q))", goal_cases)
  case (3 s q f)
  then show ?case using weight_children [of s] by simp
qed (auto simp: weight_def)

definition getLeafs :: "'t stmt \<Rightarrow> 't stmt list \<Rightarrow> 't stmt list" where
  "getLeafs st leafs = leafs_queue [st] leafs"

section \<open>Reference definitions\<close>

text \<open>The variables of an expression in the order of the tree.\<close>

function varRefs :: "'t stmt \<Rightarrow> 't stmt list" where
  "varRefs s = (if isVarRef s then [s] else concat (map varRefs (filter isExpr (children s))))"
  by pat_completeness auto
termination
  by (relation "measure size") (auto dest: size_children)

declare varRefs.simps [simp del]

lemma mset_concat_map: "mset (concat (map f xs)) = (\<Sum>x\<leftarrow>xs. mset (f x))"
  by (induction xs) auto

lemma declRefs_queue_mset:
  "mset (declRefs_queue q found) = mset found + (\<Sum>s\<leftarrow>q. mset (varRefs s))"
proof (induction q found rule: declRefs_queue.induct)
  case (2 s q found)
  then show ?case by (simp add: varRefs.simps [of s] mset_concat_map)
qed simp

text \<open>
  C29: the queue of \<open>getAllDeclRefExprInsideExpr\<close> finds exactly the occurrences of variables in the
  tree, and \<open>getSingleDeclRefExprInsideExpr\<close> is the variable of an expression that has one occurrence of
  one variable, and nothing otherwise.
\<close>

theorem getSingleDeclRef_iff:
  "mset (getAllDeclRefExprInsideExpr (Some e)) = mset (varRefs e)
   \<and> (getSingleDeclRefExprInsideExpr (Some e) = Some d \<longleftrightarrow> varRefs e = [d])"
proof -
  have m: "mset (getAllDeclRefExprInsideExpr (Some e)) = mset (varRefs e)"
    by (simp add: getAllDeclRefExprInsideExpr_def declRefs_queue_mset del: declRefs_queue.simps)
  have "getSingleDeclRefExprInsideExpr (Some e) = Some d \<longleftrightarrow> getAllDeclRefExprInsideExpr (Some e) = [d]"
    by (auto simp: getSingleDeclRefExprInsideExpr_def split: list.splits)
  also have "\<dots> \<longleftrightarrow> mset (getAllDeclRefExprInsideExpr (Some e)) = {#d#}" by simp
  also have "\<dots> \<longleftrightarrow> varRefs e = [d]" by (simp add: m)
  finally show ?thesis using m by blast
qed

text \<open>The outermost subscripts of an expression in the order of the tree.\<close>

function subscripts :: "'t stmt \<Rightarrow> 't stmt list" where
  "subscripts s = (if isArraySubscriptExpr s then [s] else concat (map subscripts (filter isExpr (children s))))"
  by pat_completeness auto
termination
  by (relation "measure size") (auto dest: size_children)

declare subscripts.simps [simp del]

lemma subscripts_stack_eq: "subscripts_stack q found = concat (map subscripts (rev q)) @ found"
proof (induction q found rule: subscripts_stack.induct)
  case (2 s q found)
  then show ?case
    by (cases "isArraySubscriptExpr s") (simp_all add: subscripts.simps [of s])
qed simp

lemma getSingleArraySubscript_iff:
  "getSingleArraySubscriptExprInsideExpr e = Some a \<longleftrightarrow> subscripts e = [a]"
  by (auto simp: getSingleArraySubscriptExprInsideExpr_def subscripts_stack_eq split: list.splits)

section \<open>Accesses to array elements\<close>

text \<open>
  An access to an element of an array variable: subscripts around subscripts, each base wrapped in nodes
  with one sub-expression (implicit casts, parentheses) that \<open>IgnoreParenImpCasts\<close> removes.
\<close>

inductive wraps :: "'t stmt \<Rightarrow> 't stmt \<Rightarrow> bool" where
  wraps_refl: "wraps e e"
| wraps_node: "wraps c e \<Longrightarrow> \<not> isArraySubscriptExpr s \<Longrightarrow> \<not> isVarRef s \<Longrightarrow> isExpr c \<Longrightarrow> children s = [c] \<Longrightarrow> wraps s e"

inductive array_access :: "'t clang \<Rightarrow> 't stmt \<Rightarrow> 't stmt \<Rightarrow> 't stmt list \<Rightarrow> bool" for C v where
  access_var: "isVarRef v \<Longrightarrow> children v = [] \<Longrightarrow> array_access C v v []"
| access_sub: "isArraySubscriptExpr e \<Longrightarrow> getBase C e = Inr b \<Longrightarrow> getIdx C e = Inr i \<Longrightarrow>
    wraps b (ignoreParenImpCasts C b) \<Longrightarrow> array_access C v (ignoreParenImpCasts C b) is \<Longrightarrow>
    array_access C v e (is @ [i])"

lemma isVarRef_not_subscript: "isVarRef e \<Longrightarrow> \<not> isArraySubscriptExpr e"
  by (auto simp: isVarRef_def declRefVar_def isArraySubscriptExpr_def split: option.splits ekind.splits)

lemma wraps_stack:
  "wraps b e \<Longrightarrow> allSubscripts_stack C (b # st) found = allSubscripts_stack C (e # st) found"
  by (induction rule: wraps.induct) auto

lemma access_stack:
  "array_access C v e is \<Longrightarrow>
     \<exists>as. allSubscripts_stack C (e # st) found = allSubscripts_stack C st (as @ found)
       \<and> list_all2 (\<lambda>a i. getIdx C a = Inr i) as is"
proof (induction arbitrary: found rule: array_access.induct)
  case access_var
  then show ?case using isVarRef_not_subscript [of v] by (auto intro: exI [of _ "[]"])
next
  case (access_sub e b i "is")
  from access_sub.IH [of "e # found"] obtain as where
    as: "allSubscripts_stack C (ignoreParenImpCasts C b # st) (e # found) = allSubscripts_stack C st (as @ e # found)"
    and l: "list_all2 (\<lambda>a i. getIdx C a = Inr i) as is" by blast
  have "allSubscripts_stack C (e # st) found = allSubscripts_stack C st ((as @ [e]) @ found)"
    using access_sub.hyps(1,2) as wraps_stack [OF access_sub.hyps(4)] by simp
  moreover have "list_all2 (\<lambda>a i. getIdx C a = Inr i) (as @ [e]) (is @ [i])"
    using l access_sub.hyps(3) by (simp add: list_all2_appendI)
  ultimately show ?case by blast
qed

lemma access_base:
  assumes "ign_shrinks C"
  shows "array_access C v e is \<Longrightarrow> size e < n \<Longrightarrow> arrayBase C n e = Inr v"
proof (induction arbitrary: n rule: array_access.induct)
  case access_var
  then show ?case using isVarRef_not_subscript [of v] by (cases n) auto
next
  case (access_sub e b i "is")
  obtain n' where n': "n = Suc n'" using access_sub.prems by (cases n) auto
  have "size b < size e" using access_sub.hyps(2) unfolding getBase_def by (rule nthChild_size)
  moreover have "size (ignoreParenImpCasts C b) \<le> size b" using assms by (simp add: ign_shrinks_def)
  ultimately have "size (ignoreParenImpCasts C b) < n'" using access_sub.prems n' by simp
  then show ?case using access_sub by (simp add: n')
qed

text \<open>
  C28: for an access to an element of an array variable, the indexes are those of the subscripts, in
  the order of the source, the base is the variable, and each index has its value as an \<open>int\<close>.
\<close>

theorem array_access_indexes:
  assumes "ign_shrinks C" and "array_access C v e is" and "is \<noteq> []"
  shows "getArraySubscriptsIndexes C e = Inr is \<and> getArrayBaseDeclRefExpr C e = Inr (Some v)
     \<and> getArraySubscriptsIndexesValues C e = Inr (map (indexValue C) is)"
proof -
  obtain as where as: "allSubscripts_stack C [e] [] = Inr as" "list_all2 (\<lambda>a i. getIdx C a = Inr i) as is"
    using access_stack [OF assms(2), of "[]" "[]"] by auto
  have i: "getArraySubscriptsIndexes C e = Inr is"
    using as by (simp add: getArraySubscriptsIndexes_def getArraySubscripts_def map_res_Inr)
  have "isVarRef v" using assms(2) by induction auto
  then have v: "getSingleDeclRefExprInsideExpr (Some v) = Some v"
    by (simp add: getSingleDeclRefExprInsideExpr_def getAllDeclRefExprInsideExpr_def)
  have b: "getArrayBaseDeclRefExpr C e = Inr (Some v)"
    using access_base [OF assms(1,2), of "Suc (size e)"] v by (simp add: getArrayBaseDeclRefExpr_def)
  have "isArraySubscriptExpr e" using assms(2,3) by cases auto
  then show ?thesis using i b v by (simp add: getArraySubscriptsIndexesValues_def)
qed

text \<open>Every value fits an \<open>int\<close>, and a value that fits is unchanged.\<close>

lemma to_int_bounds: "- (2 ^ 31) \<le> to_int v" "to_int v < 2 ^ 31"
  unfolding to_int_def by (simp_all add: pos_mod_sign pos_mod_bound algebra_simps)

lemma to_int_id: "- (2 ^ 31) \<le> v \<Longrightarrow> v < 2 ^ 31 \<Longrightarrow> to_int v = v"
  unfolding to_int_def by simp

text \<open>
  C38: an index whose value is known is taken for an unknown one exactly when it is \<open>-1\<close> modulo
  \<open>2 ^ 32\<close>; otherwise its value is the residue that fits an \<open>int\<close>.
\<close>

theorem indexValue_unknown_iff:
  assumes "evaluateAsInt C e = Some v"
  shows "(indexValue C e = -1 \<longleftrightarrow> (v + 1) mod 2 ^ 32 = 0) \<and> indexValue C e mod 2 ^ 32 = v mod 2 ^ 32
     \<and> - (2 ^ 31) \<le> indexValue C e \<and> indexValue C e < 2 ^ 31"
proof -
  have e: "indexValue C e = to_int v" using assms by (simp add: indexValue_def)
  have m: "to_int v mod 2 ^ 32 = v mod 2 ^ 32" unfolding to_int_def by (simp add: mod_simps)
  have "to_int v = -1 \<longleftrightarrow> (v + 1) mod 2 ^ 32 = 0"
  proof
    assume "to_int v = -1"
    then have "v mod 2 ^ 32 = (-1) mod 2 ^ 32" using m by simp
    then show "(v + 1) mod 2 ^ 32 = 0" by (simp add: mod_add_left_eq [of v, symmetric])
  next
    assume "(v + 1) mod 2 ^ 32 = 0"
    then have "(v + 1 - 1) mod 2 ^ 32 = (0 - 1 :: int) mod 2 ^ 32" by (metis mod_diff_left_eq)
    then have r: "to_int v mod 2 ^ 32 = 2 ^ 32 - 1" using m by simp
    have b: "- (2 ^ 31) \<le> to_int v" "to_int v < 2 ^ 31" by (rule to_int_bounds)+
    show "to_int v = -1"
    proof (cases "0 \<le> to_int v")
      case True
      then have "to_int v mod 2 ^ 32 = to_int v" using b by (intro mod_pos_pos_trivial) simp_all
      then show ?thesis using r b by simp
    next
      case False
      then have "(to_int v + 2 ^ 32) mod 2 ^ 32 = to_int v + 2 ^ 32" using b by (intro mod_pos_pos_trivial) simp_all
      then show ?thesis using r by simp
    qed
  qed
  then show ?thesis using e m to_int_bounds [of v] by simp
qed

lemma array_base_fuel:
  assumes "ign_shrinks C"
  shows "size e < n \<Longrightarrow> arrayBase C n e \<noteq> Inl OutOfFuel"
proof (induction n arbitrary: e)
  case (Suc n)
  show ?case
  proof (cases "isArraySubscriptExpr e")
    case True
    show ?thesis
    proof (cases "getBase C e")
      case (Inr b)
      have "size b < size e" using Inr unfolding getBase_def by (rule nthChild_size)
      moreover have "size (ignoreParenImpCasts C b) \<le> size b" using assms by (simp add: ign_shrinks_def)
      ultimately show ?thesis using Suc Inr True by simp
    qed (use True in \<open>auto simp: getBase_def nthChild_def split: if_splits\<close>)
  qed simp
qed simp

end
