(* ===== verification/Common_Strings.thy ===== *)
theory Common_Strings
  imports Common_Exprs
begin

text \<open>
  The printing functions of \<open>core/common.cpp\<close>, the test for headers, and the choice of the functions
  to transform (\<open>core/APACRecursiveASTVisitor.hpp\<close>). What Clang prints is the parameter
  \<open>printPretty\<close>.
\<close>

definition getExprAsString :: "'t clang \<Rightarrow> 't stmt option \<Rightarrow> string" where
  "getExprAsString C e = (case e of None \<Rightarrow> [] | Some s \<Rightarrow> printPretty C s)"

fun getStmtAsString :: "'t clang \<Rightarrow> 't stmt option \<Rightarrow> bool \<Rightarrow> string" where
  "getStmtAsString C None noSemi = []"
| "getStmtAsString C (Some (ForStmt i l ini cond inc body)) noSemi =
     ''for('' @ getStmtAsString C ini False @ getExprAsString C cond @ '';'' @ getExprAsString C inc @ '')''"
| "getStmtAsString C (Some (IfStmt i l cond thn els)) noSemi =
     ''if('' @ getExprAsString C (Some cond) @ '')''"
| "getStmtAsString C (Some s) noSemi =
     (let stmtString = printPretty C s in
      if \<not> noSemi \<and> \<not> isDeclStmt s then stmtString @ '';''
      else if noSemi \<and> isDeclStmt s then take (length stmtString - 1) stmtString
      else stmtString)"

definition getStmtAsStringFull :: "'t clang \<Rightarrow> 't stmt option \<Rightarrow> string" where
  "getStmtAsStringFull C s =
     (case s of None \<Rightarrow> [] | Some st \<Rightarrow>
        (let stmtString = printPretty C st in if \<not> isDeclStmt st then stmtString @ '';'' else stmtString))"

section \<open>Declarations of variables\<close>

datatype initStyle = CallInit | CInit | OtherInit

record 't varDef =
  vdef_var :: "'t vardecl"
  vdef_init :: "'t stmt option"
  vdef_style :: initStyle

definition getInitString :: "'t clang \<Rightarrow> 't varDef \<Rightarrow> string" where
  "getInitString C v = getExprAsString C (vdef_init v)"

definition newline :: string where
  "newline = [char_of (10 :: nat)]"

definition getVarDeclDefStr :: "'t clang \<Rightarrow> 't varDef \<Rightarrow> string" where
  "getVarDeclDefStr C v =
     vd_name (vdef_var v)
     @ (case vdef_init v of None \<Rightarrow> []
        | Some ini \<Rightarrow> '' = '' @
            (if exprKind ini = Some CXXConstructExpr
             then typeAsString C (vd_type (vdef_var v)) @ ''('' @ getInitString C v @ '')''
             else getInitString C v))
     @ '';'' @ newline"

definition getVarDeclDeclDefStr :: "'t clang \<Rightarrow> 't varDef \<Rightarrow> string" where
  "getVarDeclDeclDefStr C v =
     vd_name (vdef_var v)
     @ (if vdef_init v = None then []
        else (case vdef_style v of
                CallInit \<Rightarrow> ''('' @ getInitString C v @ '')''
              | CInit \<Rightarrow> '' = '' @ getInitString C v
              | OtherInit \<Rightarrow> []))
     @ '';'' @ newline"

definition getCompleteVarDeclStr :: "'t clang \<Rightarrow> 't varDef \<Rightarrow> string" where
  "getCompleteVarDeclStr C v = typeAsString C (vd_type (vdef_var v)) @ '' '' @ getVarDeclDeclDefStr C v"

definition getVarDeclDeclStr :: "'t clang \<Rightarrow> 't varDef \<Rightarrow> string" where
  "getVarDeclDeclStr C v = typeAsString C (vd_type (vdef_var v)) @ '' '' @ vd_name (vdef_var v) @ '';'' @ newline"

section \<open>Which parts of the file are transformed\<close>

definition isInHeaders :: "srcloc \<Rightarrow> bool" where
  "isInHeaders l \<longleftrightarrow> loc_system l \<or> contains ''_apac_header.hpp'' (loc_file l)"

definition isToParseFunction :: "string \<Rightarrow> string list \<Rightarrow> string list \<Rightarrow> string \<Rightarrow> bool" where
  "isToParseFunction fn functionsToParse functionsToIgnore main =
     (if contains ''_apacSeq'' fn then False
      else if fn \<in> set functionsToIgnore then False
      else if functionsToParse = [] then True
      else if fn \<in> set functionsToParse then True
      else fn = main)"

definition elementsConditions :: "srcloc \<Rightarrow> bool" where
  "elementsConditions l \<longleftrightarrow> \<not> isInHeaders l"

definition functionsConditions :: "string \<Rightarrow> string list \<Rightarrow> string list \<Rightarrow> 't fundecl \<times> 't stmt option \<Rightarrow> bool" where
  "functionsConditions main functions functionsToIgnore fb \<longleftrightarrow>
     snd fb \<noteq> None \<and> isToParseFunction (fd_name (fst fb)) functions functionsToIgnore main
     \<and> elementsConditions (fd_loc (fst fb))"

section \<open>Properties\<close>

text \<open>
  The header \<open>getStmtAsString\<close> prints for a loop has the two semicolons the language asks for when
  the loop has a first statement, printed with one, and a single one when it has none.
\<close>

lemma for_header_semicolons:
  assumes "\<And>s. ini = Some s \<Longrightarrow> count_list (getStmtAsString C (Some s) False) (CHR '';'') = 1"
    and "CHR '';'' \<notin> set (getExprAsString C cond)" and "CHR '';'' \<notin> set (getExprAsString C inc)"
  shows "count_list (getStmtAsString C (Some (ForStmt i l ini cond inc body)) noSemi) (CHR '';'')
     = (if ini = None then 1 else 2)"
  using assms by (cases ini) (simp_all add: count_notin)

lemma isToParseFunction_iff:
  "isToParseFunction fn parse ignore main \<longleftrightarrow>
     \<not> contains ''_apacSeq'' fn \<and> fn \<notin> set ignore \<and> (parse = [] \<or> fn \<in> set (main # parse))"
  by (auto simp: isToParseFunction_def)

end
