(* ===== verification/Example_Types.thy ===== *)
theory Example_Types
  imports Common_Strings
begin

text \<open>
  Pointer types as the parameter must describe them, and one concrete instance of the parameters: the
  types \<open>int\<close>, constant, pointer, reference and array types over it. The witnesses of the development
  evaluate the definitions at this instance.
\<close>

definition ptr :: "'t clang \<Rightarrow> 't \<Rightarrow> nat \<Rightarrow> 't" where
  "ptr C b n = (getPointerType C ^^ n) b"

text \<open>The documented behaviour of the pointer types over a type that is no pointer, array or reference.\<close>

definition pointer_tower :: "'t clang \<Rightarrow> 't \<Rightarrow> bool" where
  "pointer_tower C b \<longleftrightarrow>
     isNullType C (getPointeeType C b) \<and> \<not> isPointerQualType C b \<and> \<not> isArrayType C b
   \<and> (\<forall>n. \<not> isNullType C (ptr C b n) \<and> getSingleStepDesugaredType C (ptr C b n) = ptr C b n
        \<and> \<not> isReferenceQualType C (ptr C b n) \<and> n < typeDepth C (ptr C b n)
        \<and> isPointerQualType C (ptr C b (Suc n)) \<and> getPointeeType C (ptr C b (Suc n)) = ptr C b n)"

lemma ptr_Suc [simp]: "ptr C b (Suc n) = getPointerType C (ptr C b n)"
  by (simp add: ptr_def)

lemma tower_base:
  assumes "pointer_tower C b"
  shows "isNullType C (getPointeeType C b)" "\<not> isPointerQualType C b" "\<not> isArrayType C b"
  using assms unfolding pointer_tower_def by simp_all

lemma tower_level:
  assumes "pointer_tower C b"
  shows "\<not> isNullType C (ptr C b n)" "getSingleStepDesugaredType C (ptr C b n) = ptr C b n"
    "\<not> isReferenceQualType C (ptr C b n)" "n < typeDepth C (ptr C b n)"
    "isPointerQualType C (getPointerType C (ptr C b n))" "getPointeeType C (getPointerType C (ptr C b n)) = ptr C b n"
  using assms unfolding pointer_tower_def by simp_all

lemma ptr_0 [simp]: "ptr C b 0 = b"
  by (simp add: ptr_def)

lemma ptr_inject:
  assumes "pointer_tower C b"
  shows "ptr C b m = ptr C b k \<longleftrightarrow> m = k"
proof
  assume "ptr C b m = ptr C b k"
  then show "m = k"
  proof (induction m arbitrary: k)
    case 0
    then show ?case
      using tower_base(2) [OF assms] tower_level(5) [OF assms, of "k - 1"] by (cases k) auto
  next
    case (Suc m)
    then obtain j where j: "k = Suc j"
      using tower_base(2) [OF assms] tower_level(5) [OF assms, of m] by (cases k) auto
    then have "ptr C b m = ptr C b j" using Suc.prems tower_level(6) [OF assms] by (metis ptr_Suc)
    then show ?case using Suc.IH j by simp
  qed
qed simp

lemma tower_depth_loop:
  assumes "pointer_tower C b"
  shows "m < n \<Longrightarrow> getPtrDepth_loop C n r (ptr C b m) = Inr (r + int m + 1)"
proof (induction m arbitrary: n r)
  case 0
  then obtain n' where "n = Suc n'" by (cases n) auto
  then show ?case using tower_base [OF assms] tower_level [OF assms, of 0] by (simp add: Let_def)
next
  case (Suc m)
  then obtain n' where n': "n = Suc n'" "m < n'" by (cases n) auto
  have "ptr C b m \<noteq> ptr C b (Suc m)" using ptr_inject [OF assms, of m "Suc m"] by (simp del: ptr_Suc)
  then show ?case
    using Suc.IH [OF n'(2)] tower_level [OF assms, of "Suc m"] tower_level [OF assms, of m]
    by (simp add: n'(1) Let_def)
qed

lemma tower_depth: "pointer_tower C b \<Longrightarrow> getPtrDepth C (ptr C b m) = Inr (int m + 1)"
  using tower_depth_loop [of C b m "Suc (typeDepth C (ptr C b m))" 0] tower_level [of C b m]
  by (simp add: getPtrDepth_def Let_def)

lemma tower_access_loop:
  assumes "pointer_tower C b"
  shows "getPtrDepthAccess_loop C j r (ptr C b m) (ptr C b k) =
     Inr (if k \<le> m \<and> m - k < j then r + int (m - k) else 0)"
proof (induction j arbitrary: r m)
  case (Suc j)
  show ?case
  proof (cases "m = k")
    case False
    then have ne: "ptr C b m \<noteq> ptr C b k" using ptr_inject [OF assms] by blast
    show ?thesis
    proof (cases m)
      case 0
      then show ?thesis using Suc.IH [of r 0] ne False tower_base [OF assms] tower_level [OF assms, of 0] tower_level [OF assms, of k]
        by (simp add: desugared_def)
    next
      case (Suc m')
      then show ?thesis
        using Suc.IH [of "r + 1" m'] ne False tower_level [OF assms, of m] tower_level [OF assms, of m']
          tower_level [OF assms, of k]
        by (auto simp: desugared_def)
    qed
  qed simp
qed simp

text \<open>
  C21: over a base type, the depth of the access from a type with \<open>m\<close> stars to one with \<open>k\<close> stars is
  \<open>m - k\<close>, for up to nine stars more, or one less; for every other pair the assertion fails.
\<close>

theorem getPtrDepthAccess_pointers:
  assumes "pointer_tower C b"
  shows "getPtrDepthAccess C (ptr C b m) (ptr C b k) =
     (if k \<le> m \<and> m - k \<le> 9 \<or> k = Suc m then Inr (int m - int k) else Inl AssertFailed)"
proof -
  have e: "getPointerType C (ptr C b m) = ptr C b k \<longleftrightarrow> k = Suc m"
    using ptr_inject [OF assms, of "Suc m" k] by auto
  have "ptrAccess C (ptr C b m) (ptr C b k) =
      Inr (if m = k then 0 else if k = Suc m then -1 else if k \<le> m \<and> m - k < 10 then int (m - k) else 0)"
    using tower_level [OF assms, of m] tower_level [OF assms, of k] ptr_inject [OF assms] e
      tower_access_loop [OF assms, of 10 0 m k]
    by (simp add: ptrAccess_def desugared_def getPointerToQType_def)
  then show ?thesis by (auto simp: getPtrDepthAccess_def tower_depth [OF assms])
qed

section \<open>A concrete instance\<close>

datatype ex_type = NullT | IntT | ConstT ex_type | PtrT ex_type | RefT ex_type | ArrT ex_type

fun ex_depth :: "ex_type \<Rightarrow> nat" where
  "ex_depth NullT = 0"
| "ex_depth IntT = Suc 0"
| "ex_depth (ConstT t) = Suc (ex_depth t)"
| "ex_depth (PtrT t) = Suc (ex_depth t)"
| "ex_depth (RefT t) = Suc (ex_depth t)"
| "ex_depth (ArrT t) = Suc (ex_depth t)"

fun ex_pointee :: "ex_type \<Rightarrow> ex_type" where
  "ex_pointee (PtrT t) = t"
| "ex_pointee (RefT t) = t"
| "ex_pointee (ConstT (PtrT t)) = t"
| "ex_pointee _ = NullT"

fun ex_isPointer :: "ex_type \<Rightarrow> bool" where
  "ex_isPointer (PtrT t) = True"
| "ex_isPointer (ConstT (PtrT t)) = True"
| "ex_isPointer _ = False"

fun ex_type_string :: "ex_type \<Rightarrow> string" where
  "ex_type_string NullT = ''NULL TYPE''"
| "ex_type_string IntT = ''int''"
| "ex_type_string (ConstT t) = ex_type_string t @ '' const''"
| "ex_type_string (PtrT t) = ex_type_string t @ '' *''"
| "ex_type_string (RefT t) = ex_type_string t @ '' &''"
| "ex_type_string (ArrT t) = ex_type_string t @ '' []''"

text \<open>Parentheses and implicit casts are removed; a literal has its address as its value.\<close>

fun ex_ignore :: "'t stmt \<Rightarrow> 't stmt" where
  "ex_ignore (Expr i l t ParenExpr [c]) = ex_ignore c"
| "ex_ignore (Expr i l t ImplicitCastExpr [c]) = ex_ignore c"
| "ex_ignore e = e"

fun ex_print :: "'t stmt \<Rightarrow> string" where
  "ex_print (Expr i l t (DeclRefExpr (VarDecl v)) cs) = vd_name v"
| "ex_print (Expr i l t IntegerLiteral cs) = string_of_nat i"
| "ex_print (DeclStmt i l ds) = ''decl;''"
| "ex_print s = ''stmt'' @ string_of_nat (sid s)"

definition ex_clang :: "ex_type clang" where
  "ex_clang =
     \<lparr>isNullType = (\<lambda>t. t = NullT), isPointerType = ex_isPointer,
      isReferenceType = (\<lambda>t. case t of RefT _ \<Rightarrow> True | _ \<Rightarrow> False),
      isArrayType = (\<lambda>t. case t of ArrT _ \<Rightarrow> True | _ \<Rightarrow> False),
      isConstQualified = (\<lambda>t. case t of ConstT _ \<Rightarrow> True | _ \<Rightarrow> False),
      getPointeeType = ex_pointee,
      getNonReferenceType = (\<lambda>t. case t of RefT u \<Rightarrow> u | _ \<Rightarrow> t),
      getArrayElementType = (\<lambda>t. case t of ArrT u \<Rightarrow> u | _ \<Rightarrow> t),
      getSingleStepDesugaredType = id, getPointerType = PtrT, typeAsString = ex_type_string,
      ignoreParenImpCasts = ex_ignore, ignoreImpCasts = ex_ignore, ignoreCasts = ex_ignore,
      lhsIsBase = (\<lambda>e. True),
      getImplicitObjectArgument =
        (\<lambda>e. case children e of Expr _ _ _ (MemberExpr _) [obj] # _ \<Rightarrow> Some obj | _ \<Rightarrow> None),
      templateFirstArg = (\<lambda>t. None), typeDepth = ex_depth, printPretty = ex_print,
      evaluateAsInt = (\<lambda>e. if exprKind e = Some IntegerLiteral then Some (int (sid e)) else None),
      isVoidType = (\<lambda>t. False), isBuiltinType = (\<lambda>t. t = IntT \<or> t = ConstT IntT),
      isConstantArrayType = (\<lambda>t. case t of ArrT _ \<Rightarrow> True | _ \<Rightarrow> False),
      isStructureOrClassType = (\<lambda>t. False), constructors = (\<lambda>t. []),
      withConst = (\<lambda>t. case t of ConstT _ \<Rightarrow> t | _ \<Rightarrow> ConstT t),
      getUnqualifiedType = (\<lambda>t. case t of ConstT u \<Rightarrow> u | _ \<Rightarrow> t), getLValueReferenceType = RefT,
      ignoreParenCasts = ex_ignore, getOpcodeStr = (\<lambda>e. ''+''), getStmtInit = (\<lambda>s. None), getConditionVariableDeclStmt = (\<lambda>s. None)\<rparr>"

definition ex_at :: "nat \<Rightarrow> srcloc" where
  "ex_at n = \<lparr>loc_offset = n, loc_file = ''main.cpp'', loc_system = False\<rparr>"

definition ex_decl :: "nat \<Rightarrow> ex_type \<Rightarrow> ex_type vardecl" where
  "ex_decl n t = \<lparr>vd_canonical = n, vd_name = ''x'' @ string_of_nat n, vd_type = t, vd_loc = ex_at n\<rparr>"

text \<open>A use of the variable \<open>n\<close>; a use of a reference has the type it refers to.\<close>

definition ex_use :: "nat \<Rightarrow> nat \<Rightarrow> ex_type \<Rightarrow> ex_type stmt" where
  "ex_use i n t = Expr i (ex_at i) (getNonReferenceType ex_clang t) (DeclRefExpr (VarDecl (ex_decl n t))) []"

definition ex_literal :: "nat \<Rightarrow> ex_type stmt" where
  "ex_literal n = Expr n (ex_at n) IntT IntegerLiteral []"

lemma size_ex_ignore: "size (ex_ignore e) \<le> size e"
  by (induction e rule: ex_ignore.induct) auto

lemma ex_ign_shrinks: "ign_shrinks ex_clang"
  by (simp add: ign_shrinks_def ex_clang_def size_ex_ignore)

lemma ex_types_finite: "types_finite ex_clang"
proof -
  have "ex_depth (ex_pointee t) < ex_depth t" if "t \<noteq> NullT" for t
    using that by (cases t rule: ex_pointee.cases) auto
  then show ?thesis by (simp add: types_finite_def ex_clang_def)
qed

lemma ex_ptr: "ptr ex_clang IntT n = (PtrT ^^ n) IntT"
  by (simp add: ptr_def ex_clang_def)

lemma contains_subset: "contains pat s \<Longrightarrow> set pat \<subseteq> set s"
proof (induction s)
  case (Cons c s)
  then show ?case using set_take_subset [of "length pat" "c # s"] by auto
qed simp

lemma ex_ptr_string: "set (ex_type_string ((PtrT ^^ n) IntT)) \<subseteq> set ''int *''"
  by (induction n) auto

lemma ex_tower: "pointer_tower ex_clang IntT"
proof -
  have "CHR ''r'' \<notin> set (ex_type_string ((PtrT ^^ n) IntT))" for n
    using ex_ptr_string [of n] by auto
  then have r: "\<not> contains ''reference_wrapper'' (ex_type_string ((PtrT ^^ n) IntT))" for n
    using contains_subset by fastforce
  have d: "ex_depth ((PtrT ^^ n) IntT) = Suc n" for n by (induction n) auto
  have nn: "(PtrT ^^ n) IntT \<noteq> NullT" "\<And>u. (PtrT ^^ n) IntT \<noteq> RefT u" for n by (cases n; simp)+
  show ?thesis
    unfolding pointer_tower_def ex_ptr
    using r d nn by (auto simp: ex_clang_def isPointerQualType_def isReferenceQualType_def split: ex_type.splits)
qed

section \<open>Witnesses\<close>

lemma getPtrDepthAccess_pointers_witness:
  "getPtrDepthAccess ex_clang (PtrT (PtrT IntT)) IntT = Inr 2 \<and> getPtrDepthAccess ex_clang IntT (PtrT IntT) = Inr (-1)
     \<and> getPtrDepthAccess ex_clang IntT (PtrT (PtrT IntT)) = Inl AssertFailed"
  using getPtrDepthAccess_pointers [OF ex_tower, of 2 0] getPtrDepthAccess_pointers [OF ex_tower, of 0 1]
    getPtrDepthAccess_pointers [OF ex_tower, of 0 2]
  by (simp add: numeral_2_eq_2 ex_clang_def)

lemma getPtrDepthAccess_bounds_witness:
  "\<exists>d. getPtrDepthAccess ex_clang (PtrT (PtrT IntT)) IntT = Inr d \<and> -1 \<le> d \<and> d \<le> 9"
proof -
  have "getPtrDepthAccess ex_clang (PtrT (PtrT IntT)) IntT = Inr 2" by code_simp
  from getPtrDepthAccess_bounds [OF this] show ?thesis using \<open>_ = Inr 2\<close> by blast
qed

lemma type_queries_terminate_witness:
  "getPtrDepthAccess ex_clang (PtrT IntT) (RefT (ArrT IntT)) \<noteq> Inl OutOfFuel
     \<and> isFullConstType ex_clang (ConstT (PtrT IntT)) \<noteq> Inl OutOfFuel
     \<and> getLowestType ex_clang [ex_use 1 2 (PtrT IntT)] \<noteq> Inl OutOfFuel"
  by (rule type_queries_terminate [OF ex_types_finite])

definition ex_cast :: "nat \<Rightarrow> ex_type \<Rightarrow> ex_type stmt \<Rightarrow> ex_type stmt" where
  "ex_cast i t e = Expr i (ex_at i) t ImplicitCastExpr [e]"

definition ex_subscript :: "nat \<Rightarrow> ex_type \<Rightarrow> ex_type stmt \<Rightarrow> ex_type stmt \<Rightarrow> ex_type stmt" where
  "ex_subscript i t b e = Expr i (ex_at i) t ArraySubscriptExpr [b, e]"

text \<open>The element \<open>x4[7][x2]\<close> of an array of arrays.\<close>

definition ex_element :: "ex_type stmt" where
  "ex_element =
     ex_subscript 10 IntT (ex_cast 11 (PtrT IntT)
       (ex_subscript 12 (ArrT IntT) (ex_cast 13 (PtrT (ArrT IntT)) (ex_use 14 4 (ArrT (ArrT IntT)))) (ex_literal 7)))
       (ex_use 15 2 IntT)"

lemma ex_wraps: "isExpr e \<Longrightarrow> wraps (ex_cast i t e) e"
  by (rule wraps_node [OF wraps_refl]) (simp_all add: ex_cast_def isArraySubscriptExpr_def isVarRef_def declRefVar_def)

lemma ex_access:
  "array_access ex_clang (ex_use 14 4 (ArrT (ArrT IntT))) ex_element ([] @ [ex_literal 7] @ [ex_use 15 2 IntT])"
proof -
  let ?v = "ex_use 14 4 (ArrT (ArrT IntT))"
  let ?inner = "ex_subscript 12 (ArrT IntT) (ex_cast 13 (PtrT (ArrT IntT)) ?v) (ex_literal 7)"
  have v: "array_access ex_clang ?v ?v []"
    by (rule access_var) (simp_all add: ex_use_def isVarRef_def declRefVar_def)
  have ign: "ignoreParenImpCasts ex_clang (ex_cast i t e) = ex_ignore e" for i t e
    by (simp add: ex_clang_def ex_cast_def)
  have iv: "ex_ignore ?v = ?v" and ii: "ex_ignore ?inner = ?inner"
    by (simp_all add: ex_use_def ex_subscript_def)
  have b: "getBase ex_clang (ex_subscript i t b e) = Inr b" "getIdx ex_clang (ex_subscript i t b e) = Inr e" for i t b e
    by (simp_all add: getBase_def getIdx_def nthChild_def ex_subscript_def ex_clang_def)
  have a: "isArraySubscriptExpr (ex_subscript i t b e)" for i t b e
    by (simp add: isArraySubscriptExpr_def ex_subscript_def)
  have x: "isExpr ?v" "isExpr ?inner" by (simp_all add: ex_use_def ex_subscript_def)
  have inner: "array_access ex_clang ?v ?inner ([] @ [ex_literal 7])"
    using access_sub [OF a b, of "ex_cast 13 (PtrT (ArrT IntT)) ?v" ?v "[]" 12 "ArrT IntT" "ex_literal 7"]
    by (simp add: ign iv v ex_wraps [OF x(1)])
  show ?thesis
    unfolding ex_element_def
    using access_sub [OF a b, of "ex_cast 11 (PtrT IntT) ?inner" ?v "[] @ [ex_literal 7]" 10 IntT "ex_use 15 2 IntT"] inner
    by (simp add: ign ii ex_wraps [OF x(2)])
qed

lemma array_access_indexes_witness:
  "getArraySubscriptsIndexes ex_clang ex_element = Inr [ex_literal 7, ex_use 15 2 IntT]
   \<and> getArraySubscriptsIndexesValues ex_clang ex_element = Inr [7, -1]"
proof -
  have "map (indexValue ex_clang) [ex_literal 7, ex_use 15 2 IntT] = [7, -1]" by code_simp
  then show ?thesis using array_access_indexes [OF ex_ign_shrinks ex_access] by simp
qed

lemma indexValue_unknown_iff_witness:
  "indexValue ex_clang (ex_literal 4294967295) = -1 \<and> indexValue ex_clang (ex_literal 5) mod 2 ^ 32 = 5"
proof -
  have "evaluateAsInt ex_clang (ex_literal 4294967295) = Some 4294967295" "evaluateAsInt ex_clang (ex_literal 5) = Some 5"
    by (simp_all add: ex_clang_def ex_literal_def)
  from this [THEN indexValue_unknown_iff] show ?thesis by simp
qed

lemma for_header_semicolons_witness:
  "count_list (getStmtAsString ex_clang (Some (ForStmt 6 (ex_at 6) None (Some (ex_use 2 4 IntT)) None (CompoundStmt 3 (ex_at 3) [])))
     False) (CHR '';'') = 1"
proof -
  have "CHR '';'' \<notin> set (getExprAsString ex_clang (Some (ex_use 2 4 IntT)))" by code_simp
  moreover have "CHR '';'' \<notin> set (getExprAsString ex_clang None)" by (simp add: getExprAsString_def)
  ultimately show ?thesis
    using for_header_semicolons [where C = ex_clang and ini = None and cond = "Some (ex_use 2 4 IntT)" and inc = None
        and noSemi = False]
    by simp
qed

end
