(* ===== verification/Param_Write.thy ===== *)
theory Param_Write
  imports Example_Types
begin

text \<open>
  The analysis of the parameters a function writes (\<open>ParamWriteAnalyzer.hpp\<close> and \<open>.cpp\<close>). The file is
  the list of its function declarations in the order of the traversal, with the body of those that are
  definitions. The map \<open>writtenParams_\<close> sends a function, by its canonical declaration, to the indexes of
  the parameters found written.
\<close>

type_synonym writtenParams = "(nat \<times> nat list) list"

type_synonym 't unit_functions = "('t fundecl \<times> 't stmt option) list"

definition isParamReadOnly :: "writtenParams \<Rightarrow> 't fundecl option \<Rightarrow> nat \<Rightarrow> bool" where
  "isParamReadOnly W f paramIdx =
     (case f of None \<Rightarrow> False
      | Some fd \<Rightarrow>
          (case map_of W (fd_canonical fd) of None \<Rightarrow> False
           | Some written \<Rightarrow> paramIdx \<notin> set written))"

text \<open>Whether an expression denotes the parameter or something reached from it; each round goes down.\<close>

fun refersToParam :: "'t clang \<Rightarrow> nat \<Rightarrow> 't stmt \<Rightarrow> 't vardecl \<Rightarrow> bool res" where
  "refersToParam C 0 e param = Inl OutOfFuel"
| "refersToParam C (Suc n) e param =
     (let e' = ignoreParenImpCasts C e in
      (case exprKind e' of
         Some (DeclRefExpr d) \<Rightarrow>
           Inr (case d of VarDecl v \<Rightarrow> vd_canonical v = vd_canonical param | OtherDecl _ _ _ \<Rightarrow> False)
       | Some (UnaryOperator UO_Deref) \<Rightarrow> bind_res (getSubExpr e') (\<lambda>s. refersToParam C n s param)
       | Some ArraySubscriptExpr \<Rightarrow> bind_res (getBase C e') (\<lambda>b. refersToParam C n b param)
       | Some (MemberExpr _) \<Rightarrow> bind_res (getSubExpr e') (\<lambda>b. refersToParam C n b param)
       | _ \<Rightarrow> Inr False))"

definition refersTo :: "'t clang \<Rightarrow> 't stmt \<Rightarrow> 't vardecl \<Rightarrow> bool res" where
  "refersTo C e param = refersToParam C (Suc (size e)) e param"

definition isAssignment :: "'t stmt \<Rightarrow> bool" where
  "isAssignment s \<longleftrightarrow> exprKind s = Some (BinaryOperator True) \<or> exprKind s = Some CompoundAssignOperator"

definition isIncrementDecrement :: "'t stmt \<Rightarrow> bool" where
  "isIncrementDecrement s \<longleftrightarrow>
     exprKind s \<in> {Some (UnaryOperator UO_PostInc), Some (UnaryOperator UO_PostDec),
       Some (UnaryOperator UO_PreInc), Some (UnaryOperator UO_PreDec)}"

text \<open>Whether a parameter is a pointer or a reference through which the function can write.\<close>

definition isMutableParam :: "'t clang \<Rightarrow> 't \<Rightarrow> bool res" where
  "isMutableParam C t =
     bind_res (isFullConstType C t) (\<lambda>const.
       Inr (\<not> const \<and> (isReferenceQualType C t \<or> isPointerQualType C t)))"

text \<open>The loop over the arguments of a call; the number is the index of the first one.\<close>

fun callWrites :: "'t clang \<Rightarrow> writtenParams \<Rightarrow> 't fundecl \<Rightarrow> 't vardecl \<Rightarrow> nat \<Rightarrow> 't vardecl list \<Rightarrow> 't stmt list \<Rightarrow> bool res" where
  "callWrites C W callee param i (p # ps) (a # as) =
     (if isNullType C (vd_type p) then callWrites C W callee param (Suc i) ps as
      else
        bind_res (isMutableParam C (vd_type p)) (\<lambda>mut.
          if mut then
            (if isParamReadOnly W (Some callee) i then callWrites C W callee param (Suc i) ps as
             else
               bind_res (refersTo C a param) (\<lambda>refers.
                 if refers then Inr True else callWrites C W callee param (Suc i) ps as))
          else callWrites C W callee param (Suc i) ps as))"
| "callWrites C W callee param i _ _ = Inr False"

definition callCheck :: "'t clang \<Rightarrow> writtenParams \<Rightarrow> 't stmt \<Rightarrow> 't vardecl \<Rightarrow> 't fundecl \<Rightarrow> bool res" where
  "callCheck C W s param parentFunc =
     (case callCallee s of
        Some (Some callee) \<Rightarrow>
          (if fd_canonical callee \<noteq> fd_canonical parentFunc
              \<and> \<not> contains ''_apac_header.hpp'' (loc_file (fd_loc callee))
           then callWrites C W callee param 0 (fd_params callee) (callArgs s)
           else Inr False)
      | _ \<Rightarrow> Inr False)"

definition nodeWrites :: "'t clang \<Rightarrow> writtenParams \<Rightarrow> 't stmt \<Rightarrow> 't vardecl \<Rightarrow> 't fundecl \<Rightarrow> bool res" where
  "nodeWrites C W s param parentFunc =
     bind_res (if isAssignment s then bind_res (getLHS s) (\<lambda>l. refersTo C l param) else Inr False) (\<lambda>w1.
       if w1 then Inr True
       else bind_res (if isIncrementDecrement s then bind_res (getSubExpr s) (\<lambda>e. refersTo C e param) else Inr False) (\<lambda>w2.
         if w2 then Inr True else callCheck C W s param parentFunc))"

fun any_res :: "('a \<Rightarrow> bool res) \<Rightarrow> 'a list \<Rightarrow> bool res" where
  "any_res f [] = Inr False"
| "any_res f (x # xs) = bind_res (f x) (\<lambda>b. if b then Inr True else any_res f xs)"

lemma any_res_cong [fundef_cong]:
  "xs = ys \<Longrightarrow> (\<And>x. x \<in> set ys \<Longrightarrow> f x = g x) \<Longrightarrow> any_res f xs = any_res g ys"
  by (induction ys arbitrary: xs) (auto cong: if_cong)

function containsWriteTo :: "'t clang \<Rightarrow> writtenParams \<Rightarrow> 't stmt \<Rightarrow> 't vardecl \<Rightarrow> 't fundecl \<Rightarrow> bool res" where
  "containsWriteTo C W s param parentFunc =
     bind_res (nodeWrites C W s param parentFunc) (\<lambda>w.
       if w then Inr True else any_res (\<lambda>child. containsWriteTo C W child param parentFunc) (children s))"
  by pat_completeness auto
termination
  by (relation "measure (\<lambda>(C, W, s, p, f). size s)") (auto dest: size_children)

declare containsWriteTo.simps [simp del]

text \<open>One parameter of the loop of \<open>analyzeFunction\<close>.\<close>

definition analyzeParam :: "'t clang \<Rightarrow> 't fundecl \<Rightarrow> 't stmt \<Rightarrow> nat \<Rightarrow> writtenParams \<Rightarrow> writtenParams res" where
  "analyzeParam C f body i W =
     (let param = fd_params f ! i in
      if isNullType C (vd_type param) then Inr W
      else bind_res (isMutableParam C (vd_type param)) (\<lambda>mut.
        if mut then
          bind_res (containsWriteTo C W body param f) (\<lambda>w.
            if w then
              (case map_of W (fd_canonical f) of
                 None \<Rightarrow> Inr (aput (fd_canonical f) [i] W)
               | Some ws \<Rightarrow> Inr (aput (fd_canonical f) (sins i ws) W))
            else Inr W)
        else Inr W))"

definition analyzeFunction :: "'t clang \<Rightarrow> 't fundecl \<Rightarrow> 't stmt \<Rightarrow> writtenParams \<Rightarrow> writtenParams res" where
  "analyzeFunction C f body W =
     fold_res (analyzeParam C f body) [0..<length (fd_params f)] (ains (fd_canonical f) [] W)"

definition VisitFunctionDecl :: "'t clang \<Rightarrow> 't fundecl \<times> 't stmt option \<Rightarrow> writtenParams \<Rightarrow> writtenParams res" where
  "VisitFunctionDecl C fb W =
     (case fb of
        (f, Some body) \<Rightarrow> if isInHeaders (fd_loc f) then Inr W else analyzeFunction C f body W
      | (f, None) \<Rightarrow> Inr W)"

definition analyzeTranslationUnit :: "'t clang \<Rightarrow> 't unit_functions \<Rightarrow> writtenParams res" where
  "analyzeTranslationUnit C fs = fold_res (VisitFunctionDecl C) fs []"

section \<open>What is found\<close>

text \<open>The nodes of a tree.\<close>

inductive subtree :: "'t stmt \<Rightarrow> 't stmt \<Rightarrow> bool" where
  subtree_refl: "subtree s s"
| subtree_child: "c \<in> set (children s) \<Longrightarrow> subtree c t \<Longrightarrow> subtree s t"

lemma any_res_false: "any_res f xs = Inr False \<longleftrightarrow> (\<forall>x \<in> set xs. f x = Inr False)"
proof (induction xs)
  case (Cons x xs)
  then show ?case by (cases "f x") auto
qed simp

lemma any_res_true: "any_res f xs = Inr True \<Longrightarrow> \<exists>x \<in> set xs. f x = Inr True"
proof (induction xs)
  case (Cons x xs)
  then show ?case by (cases "f x") (auto split: if_splits)
qed simp

lemma containsWriteTo_false:
  "containsWriteTo C W s param f = Inr False \<longleftrightarrow> (\<forall>t. subtree s t \<longrightarrow> nodeWrites C W t param f = Inr False)"
proof (induction C W s param f rule: containsWriteTo.induct)
  case (1 C W s param f)
  have "containsWriteTo C W s param f = Inr False \<longleftrightarrow>
      nodeWrites C W s param f = Inr False \<and> (\<forall>c \<in> set (children s). containsWriteTo C W c param f = Inr False)"
    by (cases "nodeWrites C W s param f") (auto simp: containsWriteTo.simps [of C W s] any_res_false)
  also have "\<dots> \<longleftrightarrow> nodeWrites C W s param f = Inr False
      \<and> (\<forall>c \<in> set (children s). \<forall>t. subtree c t \<longrightarrow> nodeWrites C W t param f = Inr False)"
    using 1 by (cases "nodeWrites C W s param f") auto
  also have "\<dots> \<longleftrightarrow> (\<forall>t. subtree s t \<longrightarrow> nodeWrites C W t param f = Inr False)"
    by (subst (2) subtree.simps) (blast intro: subtree_refl)
  finally show ?case .
qed

lemma containsWriteTo_true:
  "containsWriteTo C W s param f = Inr True \<Longrightarrow> \<exists>t. subtree s t \<and> nodeWrites C W t param f = Inr True"
proof (induction C W s param f rule: containsWriteTo.induct)
  case (1 C W s param f)
  from "1.prems" obtain w where w: "nodeWrites C W s param f = Inr w"
    by (auto simp: containsWriteTo.simps [of C W s] res_simps)
  show ?case
  proof (cases w)
    case False
    then have "any_res (\<lambda>c. containsWriteTo C W c param f) (children s) = Inr True"
      using "1.prems" w by (simp add: containsWriteTo.simps [of C W s])
    from any_res_true [OF this] obtain c where "c \<in> set (children s)" "containsWriteTo C W c param f = Inr True" by blast
    then show ?thesis using "1.IH" [OF w] False subtree_child by blast
  next
    case True
    then show ?thesis using w subtree_refl [of s] by auto
  qed
qed

section \<open>Soundness of the analysis\<close>

definition analysed :: "'t unit_functions \<Rightarrow> nat list" where
  "analysed fs = map (\<lambda>(f, b). fd_canonical f) (filter (\<lambda>(f, b). b \<noteq> None \<and> \<not> isInHeaders (fd_loc f)) fs)"

lemma analyzeParam_frame:
  assumes "analyzeParam C f body i W = Inr W'" and "map_of W (fd_canonical f) = Some ws"
  shows "(\<forall>g. g \<noteq> fd_canonical f \<longrightarrow> map_of W' g = map_of W g)
     \<and> (\<exists>ws'. map_of W' (fd_canonical f) = Some ws' \<and> set ws \<subseteq> set ws'
          \<and> (\<not> isNullType C (vd_type (fd_params f ! i)) \<longrightarrow> isMutableParam C (vd_type (fd_params f ! i)) = Inr True \<longrightarrow>
               i \<notin> set ws' \<longrightarrow> containsWriteTo C W body (fd_params f ! i) f = Inr False))"
proof (cases "isNullType C (vd_type (fd_params f ! i))")
  case True
  then show ?thesis using assms by (simp add: analyzeParam_def)
next
  case False
  then obtain mut where m: "isMutableParam C (vd_type (fd_params f ! i)) = Inr mut"
    using assms(1) by (auto simp: analyzeParam_def Let_def res_simps)
  show ?thesis
  proof (cases mut)
    case True
    then obtain w where w: "containsWriteTo C W body (fd_params f ! i) f = Inr w"
      and W': "W' = (if w then aput (fd_canonical f) (sins i ws) W else W)"
      using assms False m by (auto simp: analyzeParam_def Let_def res_simps split: if_splits)
    show ?thesis using w W' assms(2) by (cases w) auto
  qed (use assms False m in \<open>simp add: analyzeParam_def\<close>)
qed

lemma analyzeParams_frame:
  assumes "fold_res (analyzeParam C f body) is W = Inr W'" and "map_of W (fd_canonical f) = Some ws"
  shows "(\<forall>g. g \<noteq> fd_canonical f \<longrightarrow> map_of W' g = map_of W g)
     \<and> (\<exists>ws'. map_of W' (fd_canonical f) = Some ws' \<and> set ws \<subseteq> set ws'
          \<and> (\<forall>i \<in> set is. \<not> isNullType C (vd_type (fd_params f ! i)) \<longrightarrow>
               isMutableParam C (vd_type (fd_params f ! i)) = Inr True \<longrightarrow> i \<notin> set ws' \<longrightarrow>
               (\<exists>Wi. (\<forall>g. g \<noteq> fd_canonical f \<longrightarrow> map_of Wi g = map_of W g)
                  \<and> containsWriteTo C Wi body (fd_params f ! i) f = Inr False)))"
  using assms
proof (induction "is" arbitrary: W ws)
  case (Cons i rest)
  from Cons.prems(1) obtain W1 where W1: "analyzeParam C f body i W = Inr W1" "fold_res (analyzeParam C f body) rest W1 = Inr W'"
    by (auto simp: res_simps)
  from analyzeParam_frame [OF W1(1) Cons.prems(2)] obtain ws1 where
    f1: "\<forall>g. g \<noteq> fd_canonical f \<longrightarrow> map_of W1 g = map_of W g"
    and ws1: "map_of W1 (fd_canonical f) = Some ws1" "set ws \<subseteq> set ws1"
    and i1: "\<not> isNullType C (vd_type (fd_params f ! i)) \<longrightarrow> isMutableParam C (vd_type (fd_params f ! i)) = Inr True \<longrightarrow>
               i \<notin> set ws1 \<longrightarrow> containsWriteTo C W body (fd_params f ! i) f = Inr False" by blast
  from Cons.IH [OF W1(2) ws1(1)] obtain ws' where
    f2: "\<forall>g. g \<noteq> fd_canonical f \<longrightarrow> map_of W' g = map_of W1 g"
    and ws': "map_of W' (fd_canonical f) = Some ws'" "set ws1 \<subseteq> set ws'"
    and r: "\<forall>i \<in> set rest. \<not> isNullType C (vd_type (fd_params f ! i)) \<longrightarrow>
               isMutableParam C (vd_type (fd_params f ! i)) = Inr True \<longrightarrow> i \<notin> set ws' \<longrightarrow>
               (\<exists>Wi. (\<forall>g. g \<noteq> fd_canonical f \<longrightarrow> map_of Wi g = map_of W1 g)
                  \<and> containsWriteTo C Wi body (fd_params f ! i) f = Inr False)" by blast
  have "\<exists>Wi. (\<forall>g. g \<noteq> fd_canonical f \<longrightarrow> map_of Wi g = map_of W g) \<and> containsWriteTo C Wi body (fd_params f ! j) f = Inr False"
    if j: "j \<in> set (i # rest)" "\<not> isNullType C (vd_type (fd_params f ! j))"
      "isMutableParam C (vd_type (fd_params f ! j)) = Inr True" "j \<notin> set ws'" for j
  proof (cases "j \<in> set rest")
    case True
    then obtain Wi where "\<forall>g. g \<noteq> fd_canonical f \<longrightarrow> map_of Wi g = map_of W1 g"
      "containsWriteTo C Wi body (fd_params f ! j) f = Inr False" using r j by blast
    then show ?thesis using f1 by (intro exI [of _ Wi]) simp
  next
    case False
    then have "j = i" using j(1) by simp
    then have "containsWriteTo C W body (fd_params f ! j) f = Inr False" using i1 j ws'(2) by blast
    then show ?thesis by blast
  qed
  then show ?case using f1 f2 ws' ws1(2) by (intro conjI exI [of _ ws']) auto
qed simp

lemma analyzeFunction_frame:
  assumes "analyzeFunction C f body W = Inr W'" and "map_of W (fd_canonical f) = None"
  shows "(\<forall>g. g \<noteq> fd_canonical f \<longrightarrow> map_of W' g = map_of W g) \<and> map_of W' (fd_canonical f) \<noteq> None
     \<and> (\<forall>i < length (fd_params f). \<not> isNullType C (vd_type (fd_params f ! i)) \<longrightarrow>
           isMutableParam C (vd_type (fd_params f ! i)) = Inr True \<longrightarrow> isParamReadOnly W' (Some f) i \<longrightarrow>
           (\<exists>Wi. (\<forall>g. g \<noteq> fd_canonical f \<longrightarrow> map_of Wi g = map_of W g)
              \<and> containsWriteTo C Wi body (fd_params f ! i) f = Inr False))"
proof -
  let ?W = "ains (fd_canonical f) [] W"
  have m: "map_of ?W (fd_canonical f) = Some []" "\<forall>g. g \<noteq> fd_canonical f \<longrightarrow> map_of ?W g = map_of W g"
    using assms(2) by simp_all
  from analyzeParams_frame [OF assms(1) [unfolded analyzeFunction_def] m(1)] obtain ws' where
    f: "\<forall>g. g \<noteq> fd_canonical f \<longrightarrow> map_of W' g = map_of ?W g" and ws': "map_of W' (fd_canonical f) = Some ws'"
    and r: "\<forall>i \<in> set [0..<length (fd_params f)]. \<not> isNullType C (vd_type (fd_params f ! i)) \<longrightarrow>
               isMutableParam C (vd_type (fd_params f ! i)) = Inr True \<longrightarrow> i \<notin> set ws' \<longrightarrow>
               (\<exists>Wi. (\<forall>g. g \<noteq> fd_canonical f \<longrightarrow> map_of Wi g = map_of ?W g)
                  \<and> containsWriteTo C Wi body (fd_params f ! i) f = Inr False)" by blast
  have "\<exists>Wi. (\<forall>g. g \<noteq> fd_canonical f \<longrightarrow> map_of Wi g = map_of W g)
              \<and> containsWriteTo C Wi body (fd_params f ! i) f = Inr False"
    if prem: "i < length (fd_params f)" "\<not> isNullType C (vd_type (fd_params f ! i))"
      "isMutableParam C (vd_type (fd_params f ! i)) = Inr True" "isParamReadOnly W' (Some f) i" for i
  proof -
    have "i \<notin> set ws'" using prem(4) ws' by (simp add: isParamReadOnly_def)
    then obtain Wi where "\<forall>g. g \<noteq> fd_canonical f \<longrightarrow> map_of Wi g = map_of ?W g"
      "containsWriteTo C Wi body (fd_params f ! i) f = Inr False"
      using r [rule_format, of i] prem(1-3) by (metis atLeastLessThan_iff set_upt zero_le)
    then show ?thesis using m(2) by (intro exI [of _ Wi]) simp
  qed
  then show ?thesis using f m(2) ws' by simp
qed

lemma analysis_frame:
  assumes "fold_res (VisitFunctionDecl C) fs W = Inr W'"
  shows "(\<forall>g. g \<notin> set (analysed fs) \<longrightarrow> map_of W' g = map_of W g)"
  using assms
proof (induction fs arbitrary: W)
  case (Cons fb fs)
  obtain f b where fb: "fb = (f, b)" by fastforce
  from Cons.prems obtain W1 where W1: "VisitFunctionDecl C (f, b) W = Inr W1" "fold_res (VisitFunctionDecl C) fs W1 = Inr W'"
    by (auto simp: res_simps fb)
  have "\<forall>g. g \<notin> set (analysed [fb]) \<longrightarrow> map_of W1 g = map_of W g"
  proof (cases "b = None \<or> isInHeaders (fd_loc f)")
    case False
    then obtain body where b: "b = Some body" by auto
    have a: "fold_res (analyzeParam C f body) [0..<length (fd_params f)] (ains (fd_canonical f) [] W) = Inr W1"
      using W1(1) False b by (simp add: VisitFunctionDecl_def analyzeFunction_def)
    obtain ws where "map_of (ains (fd_canonical f) [] W) (fd_canonical f) = Some ws"
      by (cases "map_of W (fd_canonical f)") auto
    from analyzeParams_frame [OF a this] show ?thesis
      using False by (auto simp: analysed_def fb split: option.splits)
  qed (use W1(1) in \<open>auto simp: VisitFunctionDecl_def split: option.splits\<close>)
  moreover have "\<forall>g. g \<notin> set (analysed fs) \<longrightarrow> map_of W' g = map_of W1 g" by (rule Cons.IH [OF W1(2)])
  moreover have "set (analysed (fb # fs)) = set (analysed [fb]) \<union> set (analysed fs)" by (auto simp: analysed_def)
  ultimately show ?case by simp
qed simp

lemma fold_res_append: "fold_res f (xs @ ys) s = bind_res (fold_res f xs s) (fold_res f ys)"
proof (induction xs arbitrary: s)
  case (Cons x xs)
  then show ?case by (cases "f x s") auto
qed simp

lemma callWrites_false:
  assumes "callWrites C W callee param i ps as = Inr False" and "j < length ps" and "j < length as"
    and "\<not> isNullType C (vd_type (ps ! j))" and "isMutableParam C (vd_type (ps ! j)) = Inr True"
  shows "isParamReadOnly W (Some callee) (i + j) \<or> refersTo C (as ! j) param = Inr False"
  using assms
proof (induction C W callee param i ps as arbitrary: j rule: callWrites.induct)
  case (1 C W callee param i p ps a as)
  show ?case
  proof (cases j)
    case 0
    then show ?thesis using "1.prems" by (auto simp: res_simps split: if_splits)
  next
    case (Suc k)
    have "callWrites C W callee param (Suc i) ps as = Inr False"
      using "1.prems"(1) by (auto simp: res_simps split: if_splits)
    moreover have "isParamReadOnly W (Some callee) (Suc i + k) \<or> refersTo C (as ! k) param = Inr False"
      if "callWrites C W callee param (Suc i) ps as = Inr False"
      using "1.IH" that "1.prems" Suc
      by (cases "isNullType C (vd_type p)"; cases "isMutableParam C (vd_type p)"; cases "isParamReadOnly W (Some callee) i";
          cases "refersTo C a param") (auto split: if_splits)
    ultimately show ?thesis using Suc by simp
  qed
qed auto

lemma nodeWrites_false:
  assumes "nodeWrites C W t param f = Inr False"
  shows "isAssignment t \<Longrightarrow> \<exists>l. getLHS t = Inr l \<and> refersTo C l param = Inr False"
    and "isIncrementDecrement t \<Longrightarrow> \<exists>e. getSubExpr t = Inr e \<and> refersTo C e param = Inr False"
    and "callCheck C W t param f = Inr False"
  using assms by (auto simp: nodeWrites_def res_simps split: if_splits)

text \<open>
  C7: when the analysis of a file returns and says that a parameter of a function is read only, no
  node of the body of the function assigns, increments or decrements what the parameter denotes, and
  every call of another function passes it to parameters that are read only themselves, or constant, or
  declared in the header of the transformation.
\<close>

theorem read_only_sound:
  assumes "analyzeTranslationUnit C fs = Inr W" and "distinct (analysed fs)"
    and "(f, Some body) \<in> set fs" and "\<not> isInHeaders (fd_loc f)"
    and "i < length (fd_params f)" and "param = fd_params f ! i"
    and "\<not> isNullType C (vd_type param)" and "isMutableParam C (vd_type param) = Inr True"
    and "isParamReadOnly W (Some f) i" and "subtree body t"
  shows "(isAssignment t \<longrightarrow> (\<exists>l. getLHS t = Inr l \<and> refersTo C l param = Inr False))
     \<and> (isIncrementDecrement t \<longrightarrow> (\<exists>e. getSubExpr t = Inr e \<and> refersTo C e param = Inr False))
     \<and> (\<forall>callee j. callCallee t = Some (Some callee) \<longrightarrow> fd_canonical callee \<noteq> fd_canonical f \<longrightarrow>
          \<not> contains ''_apac_header.hpp'' (loc_file (fd_loc callee)) \<longrightarrow>
          j < length (fd_params callee) \<longrightarrow> j < length (callArgs t) \<longrightarrow>
          \<not> isNullType C (vd_type (fd_params callee ! j)) \<longrightarrow>
          isMutableParam C (vd_type (fd_params callee ! j)) = Inr True \<longrightarrow>
          isParamReadOnly W (Some callee) j \<or> refersTo C (callArgs t ! j) param = Inr False)"
proof -
  obtain xs ys where fs: "fs = xs @ (f, Some body) # ys" using split_list [OF assms(3)] by blast
  from assms(1) obtain Wx Wf where x: "fold_res (VisitFunctionDecl C) xs [] = Inr Wx"
    and v: "VisitFunctionDecl C (f, Some body) Wx = Inr Wf" and y: "fold_res (VisitFunctionDecl C) ys Wf = Inr W"
    by (auto simp: analyzeTranslationUnit_def fs fold_res_append res_simps)
  have an: "analysed fs = analysed xs @ fd_canonical f # analysed ys"
    using assms(4) by (simp add: fs analysed_def)
  have none: "map_of Wx g = None" if "g \<notin> set (analysed xs)" for g
    using analysis_frame [OF x] that by simp
  have fx: "map_of Wx (fd_canonical f) = None" by (rule none) (use assms(2) an in auto)
  have wf: "map_of W (fd_canonical f) = map_of Wf (fd_canonical f)"
    using analysis_frame [OF y] assms(2) an by auto
  have a: "analyzeFunction C f body Wx = Inr Wf" using v assms(4) by (simp add: VisitFunctionDecl_def)
  have "isParamReadOnly Wf (Some f) i" using assms(9) wf by (simp add: isParamReadOnly_def)
  then obtain Wi where Wi: "\<forall>g. g \<noteq> fd_canonical f \<longrightarrow> map_of Wi g = map_of Wx g"
    and c: "containsWriteTo C Wi body param f = Inr False"
    using analyzeFunction_frame [OF a fx] assms(5-8) by blast
  have n: "nodeWrites C Wi t param f = Inr False" using c assms(10) by (simp add: containsWriteTo_false)
  have ro: "isParamReadOnly W (Some callee) j"
    if "isParamReadOnly Wi (Some callee) j" "fd_canonical callee \<noteq> fd_canonical f" for callee j
  proof -
    let ?g = "fd_canonical callee"
    from that Wi obtain ws where ws: "map_of Wx ?g = Some ws" "j \<notin> set ws"
      by (auto simp: isParamReadOnly_def split: option.splits)
    then have "?g \<notin> set (analysed ys)" using none [of ?g] assms(2) an by auto
    then have "map_of W ?g = map_of Wx ?g"
      using analysis_frame [OF y] analyzeFunction_frame [OF a fx] that(2) by simp
    then show ?thesis using ws by (simp add: isParamReadOnly_def)
  qed
  have calls: "isParamReadOnly W (Some callee) j \<or> refersTo C (callArgs t ! j) param = Inr False"
    if h: "callCallee t = Some (Some callee)" "fd_canonical callee \<noteq> fd_canonical f"
      "\<not> contains ''_apac_header.hpp'' (loc_file (fd_loc callee))"
      "j < length (fd_params callee)" "j < length (callArgs t)"
      "\<not> isNullType C (vd_type (fd_params callee ! j))"
      "isMutableParam C (vd_type (fd_params callee ! j)) = Inr True" for callee j
  proof -
    have "callWrites C Wi callee param 0 (fd_params callee) (callArgs t) = Inr False"
      using nodeWrites_false(3) [OF n] h(1-3) by (simp add: callCheck_def)
    from callWrites_false [OF this h(4-7)] show ?thesis using ro [OF _ h(2)] by auto
  qed
  show ?thesis using nodeWrites_false(1,2) [OF n] calls by blast
qed

section \<open>Examples\<close>

text \<open>
  \<open>void f7(int *x4, int *x5)\<close>, whose body writes through \<open>x5\<close>, and \<open>f8\<close>, which also calls
  itself with the parameters exchanged.
\<close>

definition ex_params :: "ex_type vardecl list" where
  "ex_params = [ex_decl 4 (PtrT IntT), ex_decl 5 (PtrT IntT)]"

definition ex_fun :: "nat \<Rightarrow> ex_type fundecl" where
  "ex_fun n = \<lparr>fd_canonical = n, fd_name = ''f'' @ string_of_nat n, fd_params = ex_params, fd_loc = ex_at n, fd_isConst = False, fd_returnType = IntT, fd_context = 0\<rparr>"

definition ex_write :: "nat \<Rightarrow> nat \<Rightarrow> ex_type stmt" where
  "ex_write i n = Expr i (ex_at i) IntT (BinaryOperator True)
     [Expr (i + 2) (ex_at i) IntT (UnaryOperator UO_Deref) [ex_use (i + 3) n (PtrT IntT)], ex_literal (i + 4)]"

definition ex_call :: "nat \<Rightarrow> nat \<Rightarrow> nat list \<Rightarrow> ex_type stmt" where
  "ex_call i fn vs = Expr i (ex_at i) IntT (CallExpr (Some (ex_fun fn)))
     (Expr (i + 2) (ex_at i) IntT (DeclRefExpr (OtherDecl fn ''f'' (ex_at i))) [] # map (\<lambda>v. ex_use (i + 3) v (PtrT IntT)) vs)"

definition ex_unit :: "ex_type unit_functions" where
  "ex_unit =
     [(ex_fun 7, Some (CompoundStmt 20 (ex_at 20) [ex_write 30 5])),
      (ex_fun 8, Some (CompoundStmt 40 (ex_at 40) [ex_write 50 5, ex_call 60 8 [5, 4]])),
      (ex_fun 9, Some (CompoundStmt 70 (ex_at 70) [ex_call 80 7 [5, 4]]))]"

definition ex_written :: writtenParams where
  "ex_written = (case analyzeTranslationUnit ex_clang ex_unit of Inr W \<Rightarrow> W | Inl _ \<Rightarrow> [])"

lemma ex_unit_result: "analyzeTranslationUnit ex_clang ex_unit = Inr [(7, [1]), (8, [1]), (9, [0])]"
  by code_simp

lemma read_only_sound_witness:
  "\<exists>l. getLHS (ex_write 30 5) = Inr l \<and> refersTo ex_clang l (ex_decl 4 (PtrT IntT)) = Inr False"
proof -
  let ?W = "[(7, [1]), (8, [1]), (9, [0])] :: writtenParams"
  let ?body = "CompoundStmt 20 (ex_at 20) [ex_write 30 5]"
  have d: "distinct (analysed ex_unit)" by code_simp
  have m: "(ex_fun 7, Some ?body) \<in> set ex_unit" by (simp add: ex_unit_def)
  have h: "\<not> isInHeaders (fd_loc (ex_fun 7))" by code_simp
  have l: "0 < length (fd_params (ex_fun 7))" by code_simp
  have p: "ex_decl 4 (PtrT IntT) = fd_params (ex_fun 7) ! 0" by (simp add: ex_fun_def ex_params_def)
  have n: "\<not> isNullType ex_clang (vd_type (ex_decl 4 (PtrT IntT)))" by code_simp
  have mut: "isMutableParam ex_clang (vd_type (ex_decl 4 (PtrT IntT))) = Inr True" by code_simp
  have ro: "isParamReadOnly ?W (Some (ex_fun 7)) 0" by code_simp
  have st: "subtree ?body (ex_write 30 5)" by (rule subtree_child [OF _ subtree_refl]) simp
  have as: "isAssignment (ex_write 30 5)" by (simp add: isAssignment_def ex_write_def)
  from read_only_sound [OF ex_unit_result d m h l p n mut ro st] show ?thesis using as by blast
qed


end
