(* ===== verification/Visitor_Deps.thy ===== *)
theory Visitor_Deps
  imports Order_Manager Param_Write
begin

text \<open>
  The dependences of one instruction (\<open>ASTTaskGraphVisitor.cpp\<close>): the \<open>handle\<close> methods walk an
  expression, record the entries it reads and writes in the instruction, and follow the pointers it
  assigns in the alias table. The state is the table and the instruction, both changed in place.

  The methods call each other on parts of the expression. Each method is a definition over its
  recursive calls \<open>handle\<close> and \<open>compute\<close>; \<open>handleStmt\<close> and \<open>computeAliasesForRHS\<close> close the
  recursion, bounded by a number of nested calls.
\<close>

type_synonym 't hstate = "'t aliasTable \<times> 't instruction"

text \<open>\<open>handleStmt(st, instr, isWrite, isRead)\<close> and \<open>computeAliasesForRHS(e, aliases, instr)\<close>.\<close>

type_synonym 't handler = "'t stmt \<Rightarrow> bool \<Rightarrow> bool \<Rightarrow> 't hstate \<Rightarrow> 't hstate res"
type_synonym 't computer = "'t stmt \<Rightarrow> addr list \<Rightarrow> 't hstate \<Rightarrow> (addr list \<times> 't hstate) res"

text \<open>Updates of an instruction.\<close>

fun with_dependencies :: "(dependencies \<Rightarrow> dependencies) \<Rightarrow> 't instruction \<Rightarrow> 't instruction" where
  "with_dependencies f (Instruction s str c nf k deps sc al) = Instruction s str c nf k (f deps) sc al"

fun with_curAliases :: "((addr \<times> addr) list \<Rightarrow> (addr \<times> addr) list) \<Rightarrow> 't instruction \<Rightarrow> 't instruction" where
  "with_curAliases f (Instruction s str c nf k deps sc al) = Instruction s str c nf k deps sc (f al)"

section \<open>Recording a dependence\<close>

definition addDep :: "bool \<Rightarrow> bool \<Rightarrow> addr \<Rightarrow> dependencies \<Rightarrow> dependencies" where
  "addDep r w alias deps =
     (case map_of deps alias of
        None \<Rightarrow> aput alias \<lparr>isRead = r, isWrite = w\<rparr> deps
      | Some dep \<Rightarrow> aput alias \<lparr>isRead = isRead dep \<or> r, isWrite = isWrite dep \<or> w\<rparr> deps)"

definition addDependencyRead :: "addr \<Rightarrow> 't hstate \<Rightarrow> 't hstate" where
  "addDependencyRead d s =
     (case s of (T, instr) \<Rightarrow> (T, with_dependencies (fold (addDep True False) (getAliases T d)) instr))"

definition addDependencyWrite :: "addr \<Rightarrow> 't hstate \<Rightarrow> 't hstate" where
  "addDependencyWrite d s =
     (case s of (T, instr) \<Rightarrow> (T, with_dependencies (fold (addDep False True) (getAliases T d)) instr))"

section \<open>The entry of an expression\<close>

text \<open>The text of the indexes; the expression is kept when an index is unknown.\<close>

definition indexText :: "'t clang \<Rightarrow> 't stmt list \<Rightarrow> string" where
  "indexText C is = concat (map (\<lambda>i. ''['' @ getExprAsString C (Some i) @ '']'') is)"

definition getOrAddAliasExpr ::
    "'t clang \<Rightarrow> 't stmt \<Rightarrow> AliasType \<Rightarrow> 't aliasTable \<Rightarrow> (addr \<times> 't aliasTable) res" where
  "getOrAddAliasExpr C e type T =
     bind_res (if type = NoneType then bind_res (exprType e) (\<lambda>t. Inr (getAliasType C t)) else Inr type) (\<lambda>type.
     (let e' = ignoreImpCasts C e in
      (case exprKind e' of
         Some (DeclRefExpr d) \<Rightarrow>
           (case d of
              VarDecl v \<Rightarrow> getOrAddAliasArg T v type [] [] None
            | OtherDecl _ _ _ \<Rightarrow> Inl UndefinedAccess)
       | Some ArraySubscriptExpr \<Rightarrow>
           bind_res (getArraySubscriptsIndexesValues C e') (\<lambda>indexes.
           bind_res (getArrayBaseDeclRefExpr C e') (\<lambda>base.
             (case base of
                None \<Rightarrow> Inl NullDeref
              | Some b \<Rightarrow>
                  (case declRefVar b of
                     None \<Rightarrow> Inl UndefinedAccess
                   | Some v \<Rightarrow>
                       bind_res (getArraySubscriptsIndexes C e') (\<lambda>is.
                         (if -1 \<in> set indexes then getOrAddAliasArg T v type indexes (indexText C is) (Some e')
                          else getOrAddAliasArg T v type indexes [] None))))))
       | _ \<Rightarrow> Inr (null, T))))"

text \<open>On the state of the methods.\<close>

definition aliasOf :: "'t clang \<Rightarrow> 't stmt \<Rightarrow> AliasType \<Rightarrow> 't hstate \<Rightarrow> (addr \<times> 't hstate) res" where
  "aliasOf C e type s =
     (case s of (T, instr) \<Rightarrow>
        bind_res (getOrAddAliasExpr C e type T) (\<lambda>(a, T'). Inr (a, T', instr)))"

definition addDependenciesRead :: "'t clang \<Rightarrow> 't stmt \<Rightarrow> 't hstate \<Rightarrow> 't hstate res" where
  "addDependenciesRead C e s =
     fold_res (\<lambda>d s. bind_res (aliasOf C d NoneType s) (\<lambda>(alias, s'). Inr (addDependencyRead alias s')))
       (getAllReadDeclRefExprInsideExpr C (Some e)) s"

text \<open>The variable of an expression that has one, or the array access, with the variable accessed.\<close>

definition initVarFromExpr :: "'t clang \<Rightarrow> 't stmt \<Rightarrow> ('t vardecl \<times> 't stmt) option res" where
  "initVarFromExpr C lhs =
     (case getSingleArraySubscriptExprInsideExpr lhs of
        Some array \<Rightarrow>
          bind_res (getArrayBaseDeclRefExpr C array) (\<lambda>base.
          (case base of
             None \<Rightarrow> Inl NullDeref
           | Some b \<Rightarrow>
               (case declRefVar b of
                  None \<Rightarrow> Inl UndefinedAccess
                | Some v \<Rightarrow> bind_res (getArraySubscriptsIndexesValues C array) (\<lambda>_. Inr (Some (v, array))))))
      | None \<Rightarrow>
          (case getSingleDeclRefExprInsideExpr (Some lhs) of
             None \<Rightarrow> Inr None
           | Some d \<Rightarrow>
               (case declRefVar d of None \<Rightarrow> Inl UndefinedAccess | Some v \<Rightarrow> Inr (Some (v, d)))))"

definition exprDepth :: "'t clang \<Rightarrow> 't stmt \<Rightarrow> 't stmt \<Rightarrow> int res" where
  "exprDepth C e1 e2 =
     bind_res (exprType e1) (\<lambda>t1. bind_res (exprType e2) (\<lambda>t2. getPtrDepthAccess C t1 t2))"

text \<open>The declaration of a parameter of a called function.\<close>

definition getParamDecl :: "'t fundecl option \<Rightarrow> nat \<Rightarrow> 't vardecl res" where
  "getParamDecl f i =
     (case f of None \<Rightarrow> Inl NullDeref
      | Some fd \<Rightarrow> if i < length (fd_params fd) then Inr (fd_params fd ! i) else Inl OutOfRange)"

section \<open>The entries the right side of an assignment may denote\<close>

text \<open>The use of a variable: the entry, and what the access reaches from it.\<close>

definition computeAliases_variable ::
    "'t clang \<Rightarrow> 't stmt \<Rightarrow> 't stmt \<Rightarrow> addr list \<Rightarrow> 't hstate \<Rightarrow> (addr list \<times> 't hstate) res" where
  "computeAliases_variable C rhs d aliases s =
     (case declRefVar d of
        None \<Rightarrow> Inl UndefinedAccess
      | Some v \<Rightarrow>
          bind_res (aliasOf C d NoneType s) (\<lambda>(mainAlias, T, instr).
          (let aliases1 = sins mainAlias aliases in
           bind_res (getPtrDepthAccess_var C v rhs) (\<lambda>depth.
           bind_res (if depth \<noteq> -1 then getModifiedVariables T aliases1 depth else Inr aliases1) (\<lambda>aliases2.
             Inr (aliases2, T,
               with_curAliases (sinsl (map (Pair mainAlias) (filter (\<lambda>alias. mainAlias \<noteq> alias) aliases2))) instr))))))"

text \<open>One argument of a call on the right side.\<close>

definition computeAliases_argument ::
    "'t clang \<Rightarrow> 't computer \<Rightarrow> 't fundecl option \<Rightarrow> nat \<times> 't stmt \<Rightarrow> addr list \<times> 't hstate \<Rightarrow>
     (addr list \<times> 't hstate) res" where
  "computeAliases_argument C compute f iarg st =
     (case (iarg, st) of ((i, arg), (aliases, s)) \<Rightarrow>
        bind_res (getParamDecl f i) (\<lambda>curParam.
          (if isPointerQualType C (vd_type curParam) \<or> isReferenceQualType C (vd_type curParam) then
             bind_res (isFullConstType C (vd_type curParam)) (\<lambda>const.
               if const then Inr (aliases, s)
               else
                 bind_res (compute arg [] s) (\<lambda>(subAliases, s1).
                 (let aliases1 = sinsl subAliases aliases in
                  (case getSingleDeclRefExprInsideExpr (Some arg) of
                     None \<Rightarrow> Inl NullDeref
                   | Some d \<Rightarrow>
                       (case declRefVar d of
                          None \<Rightarrow> Inr (aliases1, s1)
                        | Some v \<Rightarrow>
                            bind_res (getPtrDepthAccess_var C v arg) (\<lambda>depth.
                              if depth = -1 then
                                bind_res (aliasOf C d NoneType s1) (\<lambda>(alias, s2). Inr (sins alias aliases1, s2))
                              else Inr (aliases1, s1)))))))
           else Inr (aliases, s))))"

definition computeAliases_body :: "'t clang \<Rightarrow> 't handler \<Rightarrow> 't computer \<Rightarrow> 't computer" where
  "computeAliases_body C handle compute e aliases s =
     (let rhs = ignoreParenImpCasts C e in
      (case getSingleArraySubscriptExprInsideExpr rhs of
         Some a \<Rightarrow>
           bind_res (getArraySubscriptsIndexesValues C a) (\<lambda>_.
           bind_res (aliasOf C a NoneType s) (\<lambda>(mainAlias, s1).
             if mainAlias = null then Inl NullDeref else Inr (sins mainAlias aliases, s1)))
       | None \<Rightarrow>
           (case getSingleDeclRefExprInsideExpr (Some rhs) of
              Some d \<Rightarrow> computeAliases_variable C rhs d aliases s
            | None \<Rightarrow>
                (case callCallee rhs of
                   Some f \<Rightarrow> fold_res (computeAliases_argument C compute f) (enumerate 0 (callArgs rhs)) (aliases, s)
                 | None \<Rightarrow> bind_res (handle rhs False True s) (\<lambda>s1. Inr (aliases, s1))))))"

section \<open>Operators\<close>

definition isAssignmentOp :: "'t stmt \<Rightarrow> bool" where
  "isAssignmentOp c = (case exprKind c of Some (CXXOperatorCallExpr _ b) \<Rightarrow> b | _ \<Rightarrow> False)"

text \<open>The expressions on the right of an assignment to a reference; \<open>None\<close> when there are none.\<close>

definition referenced_exprs :: "'t clang \<Rightarrow> 't stmt \<Rightarrow> 't stmt list option res" where
  "referenced_exprs C rhs =
     (case getSingleArraySubscriptExprInsideExpr rhs of
        Some array \<Rightarrow> bind_res (getArraySubscriptsIndexesValues C array) (\<lambda>_. Inr (Some [array]))
      | None \<Rightarrow>
          (case getSingleDeclRefExprInsideExpr (Some rhs) of
             Some d \<Rightarrow> Inr (Some [d])
           | None \<Rightarrow>
               (case getLeafsOfType isCallExpr rhs of
                  [] \<Rightarrow> Inr None
                | rightCall # _ \<Rightarrow>
                    bind_res (exprType rightCall) (\<lambda>calQType.
                    bind_res (if callCallee rightCall = Some None then Inl NullDeref
                              else getLowestType C (callArgs rightCall)) (\<lambda>types.
                    bind_res (map_res (\<lambda>(i, arg, t).
                        if calQType = t then
                          bind_res (getParamDecl (the (callCallee rightCall)) i) (\<lambda>p.
                            Inr (if isReferenceQualType C (vd_type p) then [arg] else []))
                        else Inr []) (enumerate 0 (zip (callArgs rightCall) types))) (\<lambda>ls.
                      Inr (Some (concat ls))))))))"

definition handleCXXOperatorCallExpr :: "'t clang \<Rightarrow> 't handler \<Rightarrow> 't stmt \<Rightarrow> bool \<Rightarrow> 't hstate \<Rightarrow> 't hstate res" where
  "handleCXXOperatorCallExpr C handle c wr s =
     (case (isAssignmentOp c, callArgs c) of
        (True, [arg0, arg1]) \<Rightarrow>
          bind_res (if isDeclRefExpr arg0 then bind_res (exprType arg0) (\<lambda>t. Inr (isReferenceQualType C t)) else Inr False) (\<lambda>isRef.
            if \<not> isRef then Inr s
            else
              bind_res (aliasOf C arg0 Reference s) (\<lambda>(aliasRef, s1).
              bind_res (referenced_exprs C arg1) (\<lambda>declOrArray.
                (case declOrArray of
                   None \<Rightarrow> handle arg1 False True s1
                 | Some es \<Rightarrow>
                     bind_res (deref (heap (fst s1)) aliasRef) (\<lambda>ref.
                     (let refAliasedEmpty = (aliased ref = []) in
                      bind_res (fold_res (\<lambda>e s.
                          bind_res (aliasOf C e NoneType s) (\<lambda>(aliasVar, T, instr).
                          bind_res (if atype ref = Reference \<and> refAliasedEmpty
                                    then addAliasReference T aliasVar aliasRef else Inr T) (\<lambda>T1.
                            Inr (addDependencyRead aliasVar (T1, instr))))) es s1) (\<lambda>s2.
                        Inr (addDependencyWrite aliasRef s2))))))))
      | _ \<Rightarrow> fold_res (\<lambda>arg. handle arg wr True) (callArgs c) s)"

definition addReads :: "addr list \<Rightarrow> 't hstate \<Rightarrow> 't hstate" where
  "addReads aliases s = fold addDependencyRead aliases s"

definition addWrites :: "addr list \<Rightarrow> 't hstate \<Rightarrow> 't hstate" where
  "addWrites aliases s = fold addDependencyWrite aliases s"

text \<open>The reads of the pointers an access follows.\<close>

definition readAccessed :: "addr \<Rightarrow> int \<Rightarrow> 't hstate \<Rightarrow> 't hstate res" where
  "readAccessed a depth s =
     bind_res (getPointerAccessedVariables (fst s) [a] depth) (\<lambda>accessed. Inr (addReads accessed s))"

definition handleUnaryOperator :: "'t clang \<Rightarrow> 't handler \<Rightarrow> 't computer \<Rightarrow> 't stmt \<Rightarrow> 't hstate \<Rightarrow> 't hstate res" where
  "handleUnaryOperator C handle compute uop s =
     bind_res (getSubExpr uop) (\<lambda>subExpr.
     bind_res (initVarFromExpr C subExpr) (\<lambda>iv.
       (case iv of
          None \<Rightarrow> handle subExpr False True s
        | Some (mainVariable, arrayOrDeclExpr) \<Rightarrow>
            bind_res (exprDepth C arrayOrDeclExpr uop) (\<lambda>d.
              if d = -1 then handle subExpr False False s
              else
                bind_res (compute uop [] s) (\<lambda>(aliases, s1).
                bind_res (exprDepth C arrayOrDeclExpr subExpr) (\<lambda>depth.
                (let s2 = addReads aliases s1;
                     s3 = (if isIncrementDecrement uop then addWrites aliases s2 else s2) in
                 if depth > 0 then
                   bind_res (aliasOf C arrayOrDeclExpr NoneType s3) (\<lambda>(aliasDecl, s4). readAccessed aliasDecl depth s4)
                 else handle subExpr False True s3)))))))"

section \<open>Assignments\<close>

text \<open>The pairs of entries of the two sides, the left ones outermost.\<close>

definition for_pairs :: "(addr \<Rightarrow> addr \<Rightarrow> 't aliasTable \<Rightarrow> 't aliasTable res) \<Rightarrow> addr list \<Rightarrow> addr list \<Rightarrow>
    't aliasTable \<Rightarrow> 't aliasTable res" where
  "for_pairs f lefts rights T = fold_res (\<lambda>l. fold_res (f l) rights) lefts T"

definition on_table :: "('t aliasTable \<Rightarrow> 't aliasTable res) \<Rightarrow> 't hstate \<Rightarrow> 't hstate res" where
  "on_table f s = (case s of (T, instr) \<Rightarrow> bind_res (f T) (\<lambda>T'. Inr (T', instr)))"

text \<open>An argument that may be returned: what it may denote is linked to the left side.\<close>

definition linkArgument ::
    "'t clang \<Rightarrow> 't computer \<Rightarrow> addr list \<Rightarrow> 't stmt \<Rightarrow> int \<Rightarrow> 't hstate \<Rightarrow> 't hstate res" where
  "linkArgument C compute aliasesLeft arg depth s =
     bind_res (compute arg [] s) (\<lambda>(aliasesRHS, s1).
     (case getSingleDeclRefExprInsideExpr (Some arg) of
        None \<Rightarrow> Inl NullDeref
      | Some d \<Rightarrow>
          bind_res (aliasOf C d NoneType s1) (\<lambda>(argVar, s2).
            if argVar = null then Inl AssertFailed
            else
              bind_res (deref (heap (fst s2)) argVar) (\<lambda>av.
              bind_res (exprType arg) (\<lambda>t.
              bind_res (getPtrDepthAccess C t (vd_type (declarationOf av))) (\<lambda>d1.
                if d1 = 1 then on_table (for_pairs (\<lambda>l r T. addAliasPtr T r l) aliasesLeft aliasesRHS) s2
                else
                  bind_res (getModifiedVariables (fst s2) aliasesRHS depth) (\<lambda>rights.
                    on_table (for_pairs (\<lambda>l r T. fuseAliased T r l) aliasesLeft rights) s2)))))))"

text \<open>
  One argument of the loop over the pointer parameters of a call on the right side; a nested call is
  pushed on the stack.
\<close>

definition pointerArgument ::
    "'t clang \<Rightarrow> 't computer \<Rightarrow> 't stmt \<Rightarrow> addr list \<Rightarrow> 't fundecl option \<Rightarrow> nat \<times> 't stmt \<Rightarrow>
     't stmt list \<times> 't hstate \<Rightarrow> ('t stmt list \<times> 't hstate) res" where
  "pointerArgument C compute lhs aliasesLeft rightFunction iarg st =
     (case (iarg, st) of ((i, arg), (callStack, s)) \<Rightarrow>
        bind_res (getParamDecl rightFunction i) (\<lambda>p.
          if \<not> isPointerQualType C (vd_type p) then Inr (callStack, s)
          else if isCallExpr (ignoreParenImpCasts C arg) then Inr (ignoreParenImpCasts C arg # callStack, s)
          else
            bind_res (exprDepth C arg lhs) (\<lambda>depth.
              if depth < 0 then Inr (callStack, s)
              else bind_res (linkArgument C compute aliasesLeft arg depth s) (\<lambda>s'. Inr (callStack, s')))))"

text \<open>
  The loop over the stack of calls. Each round goes over the arguments of the outermost call
  \<open>rightCall\<close>, with the parameters of the call it pops.
\<close>

fun pointerCalls_loop ::
    "'t clang \<Rightarrow> 't computer \<Rightarrow> nat \<Rightarrow> 't stmt \<Rightarrow> addr list \<Rightarrow> 't stmt \<Rightarrow> 't stmt list \<Rightarrow> 't hstate \<Rightarrow> 't hstate res" where
  "pointerCalls_loop C compute n lhs aliasesLeft rightCall [] s = Inr s"
| "pointerCalls_loop C compute 0 lhs aliasesLeft rightCall (curCall # callStack) s = Inl OutOfFuel"
| "pointerCalls_loop C compute (Suc n) lhs aliasesLeft rightCall (curCall # callStack) s =
     bind_res (fold_res (pointerArgument C compute lhs aliasesLeft (case callCallee curCall of Some f \<Rightarrow> f | None \<Rightarrow> None))
         (enumerate 0 (callArgs rightCall)) (callStack, s)) (\<lambda>(callStack', s').
       pointerCalls_loop C compute n lhs aliasesLeft rightCall callStack' s')"

definition handlePointersBinaryAssignment ::
    "'t clang \<Rightarrow> 't computer \<Rightarrow> nat \<Rightarrow> 't stmt \<Rightarrow> 't stmt \<Rightarrow> addr list \<Rightarrow> 't hstate \<Rightarrow> 't hstate res" where
  "handlePointersBinaryAssignment C compute n lhs rhs aliasesLeft s =
     bind_res (compute rhs [] s) (\<lambda>(aliasesRHS, s1).
     (let declOrArrayExprRHS =
        (case getSingleArraySubscriptExprInsideExpr rhs of
           Some a \<Rightarrow> Some a
         | None \<Rightarrow> getSingleDeclRefExprInsideExpr (Some rhs)) in
      (case declOrArrayExprRHS of
         Some e \<Rightarrow>
           bind_res (exprDepth C e rhs) (\<lambda>depth.
             if depth = -1 then
               (case aliasesLeft of
                  [] \<Rightarrow> Inl UndefinedAccess
                | l0 # _ \<Rightarrow>
                    bind_res (on_table (\<lambda>T. removeDependencyPtr T l0) s1) (\<lambda>s2.
                      on_table (for_pairs (\<lambda>l r T. addAliasPtr T r l) aliasesLeft aliasesRHS) s2))
             else on_table (for_pairs (\<lambda>l r T. replaceAliasedToElement T r l) aliasesLeft aliasesRHS) s1)
       | None \<Rightarrow>
           (if isCallExpr (ignoreParenImpCasts C rhs) then
              pointerCalls_loop C compute n lhs aliasesLeft (ignoreParenImpCasts C rhs) [ignoreParenImpCasts C rhs] s1
            else Inr s1))))"

definition handleBinaryAssignment ::
    "'t clang \<Rightarrow> 't handler \<Rightarrow> 't computer \<Rightarrow> nat \<Rightarrow> 't stmt \<Rightarrow> 't hstate \<Rightarrow> 't hstate res" where
  "handleBinaryAssignment C handle compute n bop s =
     bind_res (getLHS bop) (\<lambda>lhs.
     bind_res (initVarFromExpr C lhs) (\<lambda>iv.
       (case iv of
          None \<Rightarrow> handle lhs True True s
        | Some (mainVariable, declOrArrayExpr) \<Rightarrow>
            bind_res (getRHS bop) (\<lambda>rhs.
            bind_res (exprType lhs) (\<lambda>tl.
            bind_res (compute lhs [] s) (\<lambda>(aliasesLeft, s1).
            bind_res (if isPointerQualType C tl
                      then handlePointersBinaryAssignment C compute n lhs rhs aliasesLeft s1 else Inr s1) (\<lambda>s2.
            (let s3 = fold (\<lambda>alias s.
                   (let s' = addDependencyWrite alias s in
                    if exprKind bop = Some CompoundAssignOperator then addDependencyRead alias s' else s')) aliasesLeft s2 in
             bind_res (aliasOf C declOrArrayExpr (getAliasType C tl) s3) (\<lambda>(aliasMain, s4).
             bind_res (exprDepth C declOrArrayExpr lhs) (\<lambda>depth.
             bind_res (if depth > 0 then readAccessed aliasMain depth s4 else Inr s4) (\<lambda>s5.
               handle rhs False True s5)))))))))))"

definition handleBinaryOperator ::
    "'t clang \<Rightarrow> 't handler \<Rightarrow> 't computer \<Rightarrow> nat \<Rightarrow> 't stmt \<Rightarrow> 't hstate \<Rightarrow> 't hstate res" where
  "handleBinaryOperator C handle compute n bop s =
     (if isAssignment bop then handleBinaryAssignment C handle compute n bop s
      else
        bind_res (getLHS bop) (\<lambda>l.
        bind_res (getRHS bop) (\<lambda>r.
        bind_res (handle l False True s) (\<lambda>s1. handle r False True s1))))"

section \<open>Calls\<close>

definition isInExceptionList :: "'t clang \<Rightarrow> 't vardecl \<Rightarrow> bool" where
  "isInExceptionList C p = contains ''std::shared_ptr'' (typeAsString C (vd_type p))"

text \<open>A shared pointer passed by value: the object inside the temporary and the copy.\<close>

definition sharedArgument :: "'t clang \<Rightarrow> 't stmt \<Rightarrow> 't stmt res" where
  "sharedArgument C b =
     bind_res (if exprKind b = Some CXXBindTemporaryExpr then
                 (if exprKind (ignoreCasts C b) = Some CXXBindTemporaryExpr then getSubExpr (ignoreCasts C b)
                  else Inl UndefinedAccess)
               else Inr b) (\<lambda>d.
       if exprKind d = Some CXXConstructExpr then nthChild d 0 else Inr d)"

text \<open>The argument of the parameter \<open>i\<close>; the analysis of the parameters may be missing.\<close>

definition handleArgument ::
    "'t clang \<Rightarrow> writtenParams option \<Rightarrow> 't handler \<Rightarrow> 't fundecl \<Rightarrow> 't stmt list \<Rightarrow> nat \<times> 't vardecl \<Rightarrow>
     't hstate \<Rightarrow> 't hstate res" where
  "handleArgument C W handle f args ip s =
     (case ip of (i, p) \<Rightarrow>
        if i \<ge> length args then Inl OutOfRange
        else
          (let b = args ! i in
           if isInExceptionList C p then
             bind_res (sharedArgument C b) (\<lambda>d.
               if isDeclRefExpr (ignoreParenImpCasts C d) then handle d True True s else Inr s)
           else
             bind_res (isMutableParam C (vd_type p)) (\<lambda>mut.
               if mut then
                 (let isActuallyWritten =
                    (case W of Some written \<Rightarrow> \<not> isParamReadOnly written (Some f) i | None \<Rightarrow> True);
                  choosenExpr =
                    (case getSingleArraySubscriptExprInsideExpr b of
                       Some a \<Rightarrow> a
                     | None \<Rightarrow>
                         (case getSingleDeclRefExprInsideExpr (Some b) of Some d \<Rightarrow> d | None \<Rightarrow> b)) in
                  handle choosenExpr isActuallyWritten True s)
               else handle b False True s)))"

definition handleCallExpr :: "'t clang \<Rightarrow> writtenParams option \<Rightarrow> 't handler \<Rightarrow> 't stmt \<Rightarrow> 't hstate \<Rightarrow> 't hstate res" where
  "handleCallExpr C W handle c s =
     (case callCallee c of
        Some (Some f) \<Rightarrow>
          fold_res (handleArgument C W handle f (callArgs c)) (enumerate 0 (fd_params f)) s
      | _ \<Rightarrow> Inl NullDeref)"

definition handleMemberCallExpr :: "'t clang \<Rightarrow> writtenParams option \<Rightarrow> 't handler \<Rightarrow> 't stmt \<Rightarrow> 't hstate \<Rightarrow> 't hstate res" where
  "handleMemberCallExpr C W handle c s =
     (case getImplicitObjectArgument C c of
        None \<Rightarrow> Inl NullDeref
      | Some obj \<Rightarrow>
          bind_res (if isDeclRefExpr obj then
                bind_res (aliasOf C obj NoneType s) (\<lambda>(alias, s1).
                  (case callCallee c of
                     Some (Some m) \<Rightarrow>
                       (let s2 = addDependencyRead alias s1 in
                        Inr (if \<not> fd_isConst m then addDependencyWrite alias s2 else s2))
                   | _ \<Rightarrow> Inl NullDeref))
              else handle obj False True s) (handleCallExpr C W handle c))"

section \<open>Statements\<close>

definition handleArraySubscript :: "'t clang \<Rightarrow> 't handler \<Rightarrow> 't stmt \<Rightarrow> bool \<Rightarrow> bool \<Rightarrow> 't hstate \<Rightarrow> 't hstate res" where
  "handleArraySubscript C handle curExp wr rd s =
     bind_res (case getSingleArraySubscriptExprInsideExpr curExp of
         Some arrayExpr \<Rightarrow>
           bind_res (getArraySubscriptsIndexesValues C curExp) (\<lambda>_.
           bind_res (aliasOf C arrayExpr NoneType s) (\<lambda>(alias, s1).
           (let s2 = (if rd then addDependencyRead alias s1 else s1) in
            Inr (if wr then addDependencyWrite alias s2 else s2))))
       | None \<Rightarrow> Inr s) (\<lambda>s3.
     bind_res (getIdx C curExp) (\<lambda>i. handle i False True s3))"

definition handleExpr ::
    "'t clang \<Rightarrow> writtenParams option \<Rightarrow> 't handler \<Rightarrow> 't computer \<Rightarrow> nat \<Rightarrow> 't stmt \<Rightarrow> bool \<Rightarrow> bool \<Rightarrow>
     't hstate \<Rightarrow> 't hstate res" where
  "handleExpr C W handle compute n curExp wr rd s =
     (if isDeclRefExpr curExp then
        bind_res (aliasOf C curExp NoneType s) (\<lambda>(alias, s1).
        (let s2 = (if rd then addDependencyRead alias s1 else s1) in
         Inr (if wr then addDependencyWrite alias s2 else s2)))
      else
        bind_res (addDependenciesRead C curExp s) (\<lambda>s1.
          (case exprKind curExp of
             Some (CXXOperatorCallExpr _ _) \<Rightarrow> handleCXXOperatorCallExpr C handle curExp wr s1
           | Some (UnaryOperator _) \<Rightarrow> handleUnaryOperator C handle compute curExp s1
           | Some (BinaryOperator _) \<Rightarrow> handleBinaryOperator C handle compute n curExp s1
           | Some CompoundAssignOperator \<Rightarrow> handleBinaryOperator C handle compute n curExp s1
           | Some (CXXMemberCallExpr _) \<Rightarrow> handleMemberCallExpr C W handle curExp s1
           | Some (CallExpr _) \<Rightarrow> handleCallExpr C W handle curExp s1
           | Some ArraySubscriptExpr \<Rightarrow> handleArraySubscript C handle curExp wr rd s1
           | _ \<Rightarrow> Inr s1)))"

text \<open>A return statement passes only the write flag on; statements other than expressions are ignored.\<close>

definition handleStmt_body :: "'t clang \<Rightarrow> writtenParams option \<Rightarrow> 't handler \<Rightarrow> 't computer \<Rightarrow> nat \<Rightarrow> 't handler" where
  "handleStmt_body C W handle compute n st wr rd s =
     (case st of
        ReturnStmt _ _ r \<Rightarrow> (case r of Some e \<Rightarrow> handle e wr True s | None \<Rightarrow> Inr s)
      | Expr _ _ _ _ _ \<Rightarrow> handleExpr C W handle compute n (ignoreParenImpCasts C st) wr rd s
      | _ \<Rightarrow> Inr s)"

fun handleStmt :: "'t clang \<Rightarrow> writtenParams option \<Rightarrow> nat \<Rightarrow> 't handler"
  and computeAliasesForRHS :: "'t clang \<Rightarrow> writtenParams option \<Rightarrow> nat \<Rightarrow> 't computer" where
  "handleStmt C W 0 = (\<lambda>st wr rd s. Inl OutOfFuel)"
| "handleStmt C W (Suc n) = handleStmt_body C W (handleStmt C W n) (computeAliasesForRHS C W n) n"
| "computeAliasesForRHS C W 0 = (\<lambda>e aliases s. Inl OutOfFuel)"
| "computeAliasesForRHS C W (Suc n) = computeAliases_body C (handleStmt C W n) (computeAliasesForRHS C W n)"

text \<open>The evaluation unfolds a call only when it has its arguments.\<close>

declare handleStmt.simps [code del] computeAliasesForRHS.simps [code del]

lemma handleStmt_code [code]:
  "handleStmt C W 0 st wr rd s = Inl OutOfFuel"
  "handleStmt C W (Suc n) st wr rd s =
     handleStmt_body C W (handleStmt C W n) (computeAliasesForRHS C W n) n st wr rd s"
  by simp_all

lemma computeAliasesForRHS_code [code]:
  "computeAliasesForRHS C W 0 e aliases s = Inl OutOfFuel"
  "computeAliasesForRHS C W (Suc n) e aliases s =
     computeAliases_body C (handleStmt C W n) (computeAliasesForRHS C W n) e aliases s"
  by simp_all

end
