(* ===== verification/Task_Visitor.thy ===== *)
theory Task_Visitor
  imports Visitor_Deps
begin

text \<open>
  The traversal of a file (\<open>ASTTaskGraphVisitor.hpp\<close> and \<open>.cpp\<close>): one list of instructions per
  function, a scope of nested instructions per loop, conditional and branch, and the tree of orders that
  follows the nesting. The \<open>Traverse\<close> methods that Clang calls on every statement return \<open>true\<close> in
  all cases, so their result is the state. A class of statements without a method of its own is
  traversed as \<open>RecursiveASTVisitor\<close> does, child after child.

  Here the \<open>std::vector\<close> of scopes is a list whose last element is \<open>back()\<close>.
\<close>

record 't visitor =
  vtable :: "'t aliasTable"
  vorders :: "'t orders"
  vcurrent :: nat
  vignore :: bool
  vscopes :: "'t instruction list list"

text \<open>The order of the file is object 0 of the heap of orders.\<close>

definition visitor_start :: "'t visitor" where
  "visitor_start = \<lparr>vtable = aliasTable_empty, vorders = [(0, StmtOrder_new False)], vcurrent = 0,
     vignore = False, vscopes = []\<rparr>"

definition pushScope :: "'t visitor \<Rightarrow> 't visitor" where
  "pushScope v = v\<lparr>vscopes := vscopes v @ [[]]\<rparr>"

definition backScope :: "'t visitor \<Rightarrow> 't instruction list res" where
  "backScope v = (if vscopes v = [] then Inl UndefinedAccess else Inr (last (vscopes v)))"

definition popScope :: "'t visitor \<Rightarrow> 't visitor res" where
  "popScope v = (if vscopes v = [] then Inl UndefinedAccess else Inr (v\<lparr>vscopes := butlast (vscopes v)\<rparr>))"

definition pushInstruction :: "'t instruction \<Rightarrow> 't visitor \<Rightarrow> 't visitor res" where
  "pushInstruction ins v =
     bind_res (backScope v) (\<lambda>b. Inr (v\<lparr>vscopes := butlast (vscopes v) @ [b @ [ins]]\<rparr>))"

definition addToOrder :: "'t stmt \<Rightarrow> 't visitor \<Rightarrow> 't visitor res" where
  "addToOrder st v =
     (if vignore v then Inr v
      else bind_res (addInstructionToManager (vcurrent v) st (vorders v)) (\<lambda>oh. Inr (v\<lparr>vorders := oh\<rparr>)))"

text \<open>The order of the statements inside a statement becomes the current one, if it has one.\<close>

definition enterOrder :: "'t stmt \<Rightarrow> 't visitor \<Rightarrow> 't visitor res" where
  "enterOrder st v =
     bind_res (deref_order (vorders v) (vcurrent v)) (\<lambda>so.
     bind_res (getSubStmtOrder so st) (\<lambda>sub.
       Inr (case sub of None \<Rightarrow> v | Some n \<Rightarrow> v\<lparr>vcurrent := n\<rparr>)))"

fun with_noFusion :: "'t instruction \<Rightarrow> 't instruction" where
  "with_noFusion (Instruction s str c nf k deps sc al) = Instruction s str c True k deps sc al"

section \<open>Statements without a scope\<close>

definition handleTop :: "'t clang \<Rightarrow> writtenParams option \<Rightarrow> 't stmt \<Rightarrow> 't hstate \<Rightarrow> 't hstate res" where
  "handleTop C W st = handleStmt C W (2 * size st + 2) st False True"

definition traverseSimpleElements :: "'t clang \<Rightarrow> writtenParams option \<Rightarrow> 't stmt \<Rightarrow> 't visitor \<Rightarrow> 't visitor res" where
  "traverseSimpleElements C W st v =
     (if isInHeaders (getBeginLoc st) then Inr v
      else
        bind_res (addToOrder st v) (\<lambda>v1.
        bind_res (handleTop C W st (vtable v1, Instruction_new (Some st) (getStmtAsString C (Some st) False) False 0)) (\<lambda>(T, ins).
          pushInstruction ins (v1\<lparr>vtable := T\<rparr>))))"

definition TraverseCXXDeleteExpr :: "'t clang \<Rightarrow> 't stmt \<Rightarrow> 't visitor \<Rightarrow> 't visitor res" where
  "TraverseCXXDeleteExpr C d v =
     (if isInHeaders (getBeginLoc d) then Inr v
      else
        bind_res (addToOrder d v) (\<lambda>v1.
        bind_res (getSubExpr d) (\<lambda>arg.
        bind_res
          (let s = (vtable v1, Instruction_new (Some d) (getStmtAsString C (Some d) False) False 0) in
           if isDeclRefExpr (ignoreImpCasts C arg) then
             bind_res (aliasOf C (ignoreImpCasts C arg) NoneType s) (\<lambda>(alias, s1).
               Inr (addDependencyRead alias (addDependencyWrite alias s1)))
           else Inr s) (\<lambda>(T, ins).
          pushInstruction (with_noFusion ins) (v1\<lparr>vtable := T\<rparr>)))))"

text \<open>Declarations and gotos are in the order and are no instructions.\<close>

definition TraverseDeclStmt :: "'t stmt \<Rightarrow> 't visitor \<Rightarrow> 't visitor res" where
  "TraverseDeclStmt d v = (if \<not> elementsConditions (getBeginLoc d) then Inr v else addToOrder d v)"

definition TraverseGotoStmt :: "'t stmt \<Rightarrow> 't visitor \<Rightarrow> 't visitor res" where
  "TraverseGotoStmt g v = (if \<not> elementsConditions (getBeginLoc g) then Inr v else addToOrder g v)"

section \<open>Scopes\<close>

text \<open>The instructions of a scope, those one level inside included.\<close>

definition scopedCount :: "'t instruction list \<Rightarrow> nat" where
  "scopedCount is = (\<Sum>i\<leftarrow>is. if complexInstruction i then Suc (length (scopedInstructions i)) else Suc 0)"

fun with_scope :: "'t instruction list \<Rightarrow> nat \<Rightarrow> dependencies \<Rightarrow> 't instruction \<Rightarrow> 't instruction" where
  "with_scope is n new (Instruction s str c nf k deps sc al) =
     Instruction s str c nf (k + n) (fold (\<lambda>(a, dep). ains a dep) new deps) is al"

text \<open>A loop has the dependences of its instructions: of two for one entry, the first is kept.\<close>

definition loopDependencies :: "'t instruction list \<Rightarrow> dependencies" where
  "loopDependencies is = concat (map instr_dependencies is)"

text \<open>The end of a scope: its instructions are put in the instruction, which goes to the scope around.\<close>

definition closeScope :: "bool \<Rightarrow> 't instruction \<Rightarrow> 't visitor \<Rightarrow> 't visitor res" where
  "closeScope isLoop instr v =
     bind_res (backScope v) (\<lambda>is.
     bind_res (popScope v)
       (pushInstruction (with_scope is (scopedCount is) (if isLoop then loopDependencies is else []) instr)))"

definition enterFor :: "'t stmt \<Rightarrow> 't visitor \<Rightarrow> 't visitor res" where
  "enterFor f v = bind_res (addToOrder f v) (\<lambda>v1. bind_res (enterOrder f v1) (\<lambda>v2. Inr (pushScope v2)))"

definition forInstruction :: "'t clang \<Rightarrow> 't stmt \<Rightarrow> 't instruction" where
  "forInstruction C f = with_noFusion (Instruction_new (Some f) (getStmtAsString C (Some f) False) True 0)"

definition enterIf :: "'t clang \<Rightarrow> writtenParams option \<Rightarrow> 't stmt \<Rightarrow> 't stmt \<Rightarrow> 't visitor \<Rightarrow> ('t visitor \<times> 't instruction) res" where
  "enterIf C W i cond v =
     bind_res (addToOrder i v) (\<lambda>v1.
     bind_res (enterOrder i v1) (\<lambda>v2.
     bind_res (handleTop C W cond (vtable v2, with_noFusion (Instruction_new (Some i) (getStmtAsString C (Some i) False) True 0)))
       (\<lambda>(T, instr). Inr (pushScope (v2\<lparr>vtable := T\<rparr>), instr))))"

text \<open>A branch in braces is an instruction of the scope of its conditional.\<close>

definition enterBranch :: "'t stmt \<Rightarrow> 't visitor \<Rightarrow> 't visitor res" where
  "enterBranch c v = bind_res (addToOrder c v) (\<lambda>v1. bind_res (enterOrder c v1) (\<lambda>v2. Inr (pushScope v2)))"

definition leaveBranch :: "'t stmt \<Rightarrow> string \<Rightarrow> nat \<Rightarrow> 't visitor \<Rightarrow> 't visitor res" where
  "leaveBranch c str outer v = closeScope False (Instruction_new (Some c) str True 0) (v\<lparr>vcurrent := outer\<rparr>)"

text \<open>
  An \<open>else\<close> without braces: its instructions go to the instruction of the conditional itself, of which
  a copy is put in its own scope.
\<close>

definition leavePlainElse :: "'t instruction \<Rightarrow> 't visitor \<Rightarrow> ('t visitor \<times> 't instruction) res" where
  "leavePlainElse instr v =
     bind_res (backScope v) (\<lambda>is.
     (let instr' = with_scope is (scopedCount is) [] instr in
      bind_res (popScope v) (\<lambda>v1.
      bind_res (pushInstruction instr' v1) (\<lambda>v2. Inr (v2, instr')))))"

section \<open>The traversal\<close>

definition hasSimpleMethod :: "'t ekind \<Rightarrow> bool" where
  "hasSimpleMethod k =
     (case k of
        CXXMemberCallExpr _ \<Rightarrow> True
      | CallExpr _ \<Rightarrow> True
      | UnaryOperator _ \<Rightarrow> True
      | BinaryOperator _ \<Rightarrow> True
      | CompoundAssignOperator \<Rightarrow> True
      | CXXOperatorCallExpr _ _ \<Rightarrow> True
      | _ \<Rightarrow> False)"

lemma fold_res_cong [fundef_cong]:
  "xs = ys \<Longrightarrow> s = t \<Longrightarrow> (\<And>x s. x \<in> set ys \<Longrightarrow> f x s = g x s) \<Longrightarrow> fold_res f xs s = fold_res g ys t"
proof (induction ys arbitrary: xs s t)
  case (Cons y ys)
  then show ?case by (auto intro!: bind_res_cong)
qed simp

lemma size_elem: "x \<in> set cs \<Longrightarrow> size x < size_list size cs"
  by (induction cs) auto

text \<open>The sub-statements that are not null.\<close>

fun present :: "'a option list \<Rightarrow> 'a list" where
  "present [] = []"
| "present (None # rs) = present rs"
| "present (Some x # rs) = x # present rs"

lemma size_present: "c \<in> set (present rs) \<Longrightarrow> size c < Suc (sum_list (map (size_option size) rs))"
  by (induction rs rule: present.induct) auto

text \<open>The statements of a branch in braces.\<close>

definition compoundBody :: "'t stmt \<Rightarrow> 't stmt list option" where
  "compoundBody s = (case s of CompoundStmt _ _ ss \<Rightarrow> Some ss | _ \<Rightarrow> None)"

lemma size_compoundBody: "compoundBody s = Some ss \<Longrightarrow> c \<in> set ss \<Longrightarrow> size c < size s"
  by (auto simp: compoundBody_def less_Suc_eq dest: size_elem split: stmt.splits)

function traverseStmt :: "'t clang \<Rightarrow> writtenParams option \<Rightarrow> 't stmt \<Rightarrow> 't visitor \<Rightarrow> 't visitor res" where
  "traverseStmt C W (Expr i l t k cs) v =
     (if hasSimpleMethod k then traverseSimpleElements C W (Expr i l t k cs) v
      else if k = CXXDeleteExpr then TraverseCXXDeleteExpr C (Expr i l t k cs) v
      else fold_res (\<lambda>c. traverseStmt C W c) cs v)"
| "traverseStmt C W (DeclStmt i l ds) v = TraverseDeclStmt (DeclStmt i l ds) v"
| "traverseStmt C W (ReturnStmt i l r) v = Inr v"
| "traverseStmt C W (GotoStmt i l) v = TraverseGotoStmt (GotoStmt i l) v"
| "traverseStmt C W (ForStmt i l ini cond inc body) v =
     (let f = ForStmt i l ini cond inc body in
      if isInHeaders (getBeginLoc f) then Inr v
      else
        bind_res (enterFor f v) (\<lambda>v1.
        bind_res (fold_res (\<lambda>c. traverseStmt C W c) (present [cond, inc, ini]) (v1\<lparr>vignore := True\<rparr>)) (\<lambda>v2.
        bind_res (traverseStmt C W body (v2\<lparr>vignore := False\<rparr>)) (\<lambda>v3.
          closeScope True (forInstruction C f) (v3\<lparr>vignore := vignore v, vcurrent := vcurrent v\<rparr>)))))"
| "traverseStmt C W (IfStmt i l cond thn els) v =
     (let f = IfStmt i l cond thn els in
      if isInHeaders (getBeginLoc f) then Inr v
      else
        bind_res (enterIf C W f cond v) (\<lambda>(v1, instr).
        bind_res (case compoundBody thn of
            Some ss \<Rightarrow>
              bind_res (enterBranch thn v1) (\<lambda>v2.
              bind_res (fold_res (\<lambda>c. traverseStmt C W c) ss v2) (leaveBranch thn ''if'' (vcurrent v1)))
          | None \<Rightarrow> Inr v1) (\<lambda>v3.
        bind_res (case els of
            None \<Rightarrow> Inr (v3, instr)
          | Some e \<Rightarrow>
              (case compoundBody e of
                 Some ss \<Rightarrow>
                   bind_res (bind_res (enterBranch e v3) (\<lambda>v4.
                     bind_res (fold_res (\<lambda>c. traverseStmt C W c) ss v4) (leaveBranch e ''else'' (vcurrent v3))))
                     (\<lambda>v6. Inr (v6, instr))
               | None \<Rightarrow> bind_res (traverseStmt C W e (pushScope v3)) (leavePlainElse instr))) (\<lambda>(v7, instr').
          closeScope False instr' (v7\<lparr>vcurrent := vcurrent v\<rparr>)))))"
| "traverseStmt C W (WhileStmt i l c b) v = bind_res (traverseStmt C W c v) (traverseStmt C W b)"
| "traverseStmt C W (CompoundStmt i l ss) v = fold_res (\<lambda>c. traverseStmt C W c) ss v"
| "traverseStmt C W (OtherStmt i l ss) v = fold_res (\<lambda>c. traverseStmt C W c) ss v"
  by pat_completeness auto
termination
proof (relation "measure (\<lambda>(C, W, s, v). size s)", goal_cases)
qed (auto dest: size_present size_elem size_compoundBody)

definition TraverseFunctionDecl ::
    "'t clang \<Rightarrow> writtenParams option \<Rightarrow> string \<Rightarrow> string list \<Rightarrow> string list \<Rightarrow> 't fundecl \<times> 't stmt option \<Rightarrow>
     't visitor \<Rightarrow> 't visitor res" where
  "TraverseFunctionDecl C W main functions functionsToIgnore fb v =
     (if functionsConditions main functions functionsToIgnore fb then
        (case snd fb of None \<Rightarrow> Inr v | Some body \<Rightarrow> traverseStmt C W body (pushScope v))
      else Inr v)"

section \<open>The scopes are balanced\<close>

text \<open>
  What a traversal changes: instructions are appended to the innermost scope; the current order and
  the flag are restored.
\<close>

definition extends :: "'t visitor \<Rightarrow> 't visitor \<Rightarrow> bool" where
  "extends v v' \<longleftrightarrow> vcurrent v' = vcurrent v \<and> vignore v' = vignore v \<and> vscopes v \<noteq> []
     \<and> (\<exists>is. vscopes v' = butlast (vscopes v) @ [last (vscopes v) @ is])"

lemma extends_refl [simp]: "vscopes v \<noteq> [] \<Longrightarrow> extends v v"
  unfolding extends_def by (intro conjI exI [of _ "[]"]) simp_all

lemma extends_trans: "extends v v' \<Longrightarrow> extends v' v'' \<Longrightarrow> extends v v''"
  unfolding extends_def by auto

lemma extends_scopes: "extends v v' \<Longrightarrow> vscopes v' \<noteq> []"
  unfolding extends_def by auto

lemma addToOrder_fields:
  "addToOrder st v = Inr v' \<Longrightarrow> vscopes v' = vscopes v \<and> vcurrent v' = vcurrent v \<and> vignore v' = vignore v \<and> vtable v' = vtable v"
  by (auto simp: addToOrder_def res_simps split: if_splits)

lemma enterOrder_fields:
  "enterOrder st v = Inr v' \<Longrightarrow> vscopes v' = vscopes v \<and> vignore v' = vignore v \<and> vtable v' = vtable v"
  by (auto simp: enterOrder_def res_simps split: option.splits)

lemma pushInstruction_eq:
  "vscopes v \<noteq> [] \<Longrightarrow> pushInstruction ins v = Inr (v\<lparr>vscopes := butlast (vscopes v) @ [last (vscopes v) @ [ins]]\<rparr>)"
  by (simp add: pushInstruction_def backScope_def)

lemma pushInstruction_extends:
  assumes "pushInstruction ins (v1\<lparr>vtable := T\<rparr>) = Inr v'" and "vscopes v \<noteq> []"
    and "vscopes v1 = vscopes v \<and> vcurrent v1 = vcurrent v \<and> vignore v1 = vignore v \<and> vtable v1 = vtable v"
  shows "extends v v'"
  using assms by (auto simp: pushInstruction_eq extends_def)

lemma traverseSimple_extends:
  assumes "traverseSimpleElements C W st v = Inr v'" and "vscopes v \<noteq> []"
  shows "extends v v'"
proof (cases "isInHeaders (getBeginLoc st)")
  case False
  then obtain v1 T ins where "addToOrder st v = Inr v1" "pushInstruction ins (v1\<lparr>vtable := T\<rparr>) = Inr v'"
    using assms(1) by (auto simp: traverseSimpleElements_def res_simps)
  then show ?thesis by (intro pushInstruction_extends [OF _ assms(2) addToOrder_fields])
qed (use assms in \<open>simp add: traverseSimpleElements_def\<close>)

lemma traverseDelete_extends:
  assumes "TraverseCXXDeleteExpr C st v = Inr v'" and "vscopes v \<noteq> []"
  shows "extends v v'"
proof (cases "isInHeaders (getBeginLoc st)")
  case False
  then obtain v1 T ins where "addToOrder st v = Inr v1" "pushInstruction ins (v1\<lparr>vtable := T\<rparr>) = Inr v'"
    using assms(1) by (auto simp: TraverseCXXDeleteExpr_def res_simps)
  then show ?thesis by (intro pushInstruction_extends [OF _ assms(2) addToOrder_fields])
qed (use assms in \<open>simp add: TraverseCXXDeleteExpr_def\<close>)

lemma addToOrder_extends:
  assumes "addToOrder st v = Inr v'" and "vscopes v \<noteq> []"
  shows "extends v v'"
proof -
  have "extends v' v'" using addToOrder_fields [OF assms(1)] assms(2) by simp
  then show ?thesis using addToOrder_fields [OF assms(1)] by (simp add: extends_def)
qed

text \<open>Closing the scope a statement opened.\<close>

lemma closeScope_extends:
  assumes "closeScope b instr (v3\<lparr>vignore := vignore v, vcurrent := vcurrent v\<rparr>) = Inr v'"
    and "extends v2 v3" and "vscopes v2 = vscopes v @ [[]]" and "vscopes v \<noteq> []"
  shows "extends v v'"
proof -
  obtain ls where scopes: "vscopes v3 = vscopes v @ [ls]" using assms(2,3) unfolding extends_def by auto
  have "closeScope b instr (v3\<lparr>vignore := vignore v, vcurrent := vcurrent v\<rparr>) =
      pushInstruction (with_scope ls (scopedCount ls) (if b then loopDependencies ls else []) instr)
        (v3\<lparr>vignore := vignore v, vcurrent := vcurrent v, vscopes := vscopes v\<rparr>)"
    by (simp add: closeScope_def backScope_def popScope_def scopes)
  then show ?thesis using assms(1,4) by (auto simp: pushInstruction_eq extends_def)
qed

lemma enterFor_fields:
  "enterFor f v = Inr v' \<Longrightarrow> vscopes v' = vscopes v @ [[]] \<and> vignore v' = vignore v \<and> vtable v' = vtable v"
  by (auto simp: enterFor_def res_simps pushScope_def dest!: addToOrder_fields enterOrder_fields)

lemma enterBranch_fields:
  "enterBranch f v = Inr v' \<Longrightarrow> vscopes v' = vscopes v @ [[]] \<and> vignore v' = vignore v \<and> vtable v' = vtable v"
  by (auto simp: enterBranch_def res_simps pushScope_def dest!: addToOrder_fields enterOrder_fields)

lemma enterIf_fields:
  "enterIf C W f cond v = Inr (v', instr) \<Longrightarrow> vscopes v' = vscopes v @ [[]] \<and> vignore v' = vignore v"
  by (auto simp: enterIf_def res_simps pushScope_def dest!: addToOrder_fields enterOrder_fields)

lemma fold_extends:
  assumes "fold_res f cs v = Inr v'" and "vscopes v \<noteq> []"
    and "\<And>c v v'. c \<in> set cs \<Longrightarrow> f c v = Inr v' \<Longrightarrow> vscopes v \<noteq> [] \<Longrightarrow> extends v v'"
  shows "extends v v'"
  using assms
proof (induction cs arbitrary: v)
  case (Cons c cs)
  then obtain v1 where v1: "f c v = Inr v1" "fold_res f cs v1 = Inr v'" by (auto simp: res_simps)
  have e: "extends v v1" by (rule Cons.prems(3) [OF _ v1(1) Cons.prems(2)]) simp
  have "extends v1 v'" by (rule Cons.IH [OF v1(2) extends_scopes [OF e]]) (use Cons.prems(3) in auto)
  with e show ?case by (rule extends_trans)
qed simp

lemma leaveBranch_extends:
  assumes "leaveBranch c str (vcurrent v) v3 = Inr v'" and "extends v2 v3" and "vscopes v2 = vscopes v @ [[]]"
    and "vscopes v \<noteq> []" and "vignore v2 = vignore v"
  shows "extends v v'"
proof -
  have "v3\<lparr>vcurrent := vcurrent v\<rparr> = v3\<lparr>vignore := vignore v, vcurrent := vcurrent v\<rparr>"
    using assms(2,5) by (simp add: extends_def)
  then show ?thesis using closeScope_extends [OF _ assms(2-4)] assms(1) unfolding leaveBranch_def by metis
qed

lemma leavePlainElse_extends:
  assumes "leavePlainElse instr v3 = Inr (v', instr')" and "extends (pushScope v) v3" and "vscopes v \<noteq> []"
  shows "extends v v'"
proof -
  obtain ls where "vscopes v3 = vscopes v @ [ls]" using assms(2) unfolding extends_def pushScope_def by auto
  moreover have "vcurrent v3 = vcurrent v" "vignore v3 = vignore v" using assms(2) unfolding extends_def pushScope_def by auto
  ultimately show ?thesis using assms(1,3)
    by (auto simp: leavePlainElse_def Let_def backScope_def popScope_def pushInstruction_eq extends_def)
qed

text \<open>
  The conditional, in three parts: the condition, the branch in braces and the \<open>else\<close>.
\<close>

lemma branch_extends:
  assumes "bind_res (enterBranch c v) (\<lambda>v2. bind_res (fold_res (traverseStmt C W) ss v2) (leaveBranch c str (vcurrent v))) = Inr v'"
    and "vscopes v \<noteq> []"
    and "\<And>s v v'. s \<in> set ss \<Longrightarrow> traverseStmt C W s v = Inr v' \<Longrightarrow> vscopes v \<noteq> [] \<Longrightarrow> extends v v'"
  shows "extends v v'"
proof -
  from assms(1) obtain v2 v3 where v: "enterBranch c v = Inr v2" "fold_res (traverseStmt C W) ss v2 = Inr v3"
    "leaveBranch c str (vcurrent v) v3 = Inr v'" by (auto simp: res_simps)
  note f = enterBranch_fields [OF v(1)]
  have "extends v2 v3" by (rule fold_extends [OF v(2)]) (use f assms(3) in auto)
  with leaveBranch_extends [OF v(3)] f assms(2) show ?thesis by blast
qed

text \<open>
  C9: the traversal of a statement only appends instructions to the innermost scope, and restores the
  current order and the flag that ignores the order; every scope it opens is closed.
\<close>

theorem traverseStmt_balanced:
  "traverseStmt C W st v = Inr v' \<Longrightarrow> vscopes v \<noteq> [] \<Longrightarrow> extends v v'"
proof (induction C W st v arbitrary: v' rule: traverseStmt.induct)
  case (1 C W i l t k cs v)
  show ?case
  proof (cases "hasSimpleMethod k \<or> k = CXXDeleteExpr")
    case True
    then show ?thesis using "1.prems" traverseSimple_extends traverseDelete_extends by (auto split: if_splits)
  next
    case False
    then show ?thesis using "1.prems" "1.IH" by (auto intro: fold_extends)
  qed
next
  case (5 C W i l ini cond inc body v)
  show ?case
  proof (cases "isInHeaders l")
    case False
    let ?f = "ForStmt i l ini cond inc body"
    from "5.prems" False obtain v1 v2 v3 where
      v: "enterFor ?f v = Inr v1" "fold_res (traverseStmt C W) (present [cond, inc, ini]) (v1\<lparr>vignore := True\<rparr>) = Inr v2"
        "traverseStmt C W body (v2\<lparr>vignore := False\<rparr>) = Inr v3"
        "closeScope True (forInstruction C ?f) (v3\<lparr>vignore := vignore v, vcurrent := vcurrent v\<rparr>) = Inr v'"
      by (auto simp: res_simps Let_def)
    note f = enterFor_fields [OF v(1)]
    have "extends (v1\<lparr>vignore := True\<rparr>) v2"
      by (rule fold_extends [OF v(2)]) (use f "5.IH"(1) [OF refl _ v(1)] False in auto)
    moreover from extends_scopes [OF this] have "extends (v2\<lparr>vignore := False\<rparr>) v3"
      using "5.IH"(2) [OF refl _ v(1) v(2) v(3)] False by simp
    ultimately have "extends (v1\<lparr>vignore := False\<rparr>) v3" unfolding extends_def by auto
    then show ?thesis by (rule closeScope_extends [OF v(4)]) (use f "5.prems"(2) in simp_all)
  qed (use "5.prems" in simp)
next
  case (6 C W i l cond thn els v)
  show ?case
  proof (cases "isInHeaders l")
    case False
    let ?f = "IfStmt i l cond thn els"
    from "6.prems" False obtain v1 instr v3 v7 instr' where
      v: "enterIf C W ?f cond v = Inr (v1, instr)"
        "(case compoundBody thn of
            Some ss \<Rightarrow>
              bind_res (enterBranch thn v1) (\<lambda>v2.
              bind_res (fold_res (traverseStmt C W) ss v2) (leaveBranch thn ''if'' (vcurrent v1)))
          | None \<Rightarrow> Inr v1) = Inr v3"
        "(case els of
            None \<Rightarrow> Inr (v3, instr)
          | Some e \<Rightarrow>
              (case compoundBody e of
                 Some ss \<Rightarrow>
                   bind_res (bind_res (enterBranch e v3) (\<lambda>v4.
                     bind_res (fold_res (traverseStmt C W) ss v4) (leaveBranch e ''else'' (vcurrent v3))))
                     (\<lambda>v6. Inr (v6, instr))
               | None \<Rightarrow> bind_res (traverseStmt C W e (pushScope v3)) (leavePlainElse instr))) = Inr (v7, instr')"
        "closeScope False instr' (v7\<lparr>vcurrent := vcurrent v\<rparr>) = Inr v'"
      by (auto simp: res_simps Let_def)
    note f = enterIf_fields [OF v(1)]
    note IH = "6.IH" [OF refl _ v(1) refl]
    have h: "\<not> isInHeaders (getBeginLoc ?f)" using False by simp
    have s1: "vscopes v1 \<noteq> []" using f by simp
    have e3: "extends v1 v3"
    proof (cases "compoundBody thn")
      case (Some ss)
      have "bind_res (enterBranch thn v1) (\<lambda>v2. bind_res (fold_res (traverseStmt C W) ss v2) (leaveBranch thn ''if'' (vcurrent v1))) = Inr v3"
        using v(2) Some by simp
      then obtain v2 where v2: "enterBranch thn v1 = Inr v2" by (auto simp: res_simps)
      from branch_extends [OF \<open>bind_res _ _ = Inr v3\<close> s1 IH(1) [OF h Some v2]] show ?thesis .
    qed (use v(2) s1 in simp)
    have s3: "vscopes v3 \<noteq> []" by (rule extends_scopes [OF e3])
    have e7: "extends v3 v7"
    proof (cases els)
      case els: (Some e)
      show ?thesis
      proof (cases "compoundBody e")
        case (Some ss)
        have "bind_res (enterBranch e v3) (\<lambda>v4. bind_res (fold_res (traverseStmt C W) ss v4) (leaveBranch e ''else'' (vcurrent v3))) = Inr v7"
          using v(3) els Some by (auto simp: res_simps)
        then obtain v4 where v4: "enterBranch e v3 = Inr v4" by (auto simp: res_simps)
        from branch_extends [OF \<open>bind_res _ _ = Inr v7\<close> s3 IH(3) [OF h v(2) els Some v4]] show ?thesis .
      next
        case None
        then obtain v5 where v5: "traverseStmt C W e (pushScope v3) = Inr v5" "leavePlainElse instr v5 = Inr (v7, instr')"
          using v(3) els by (auto simp: res_simps)
        have "extends (pushScope v3) v5" by (rule IH(2) [OF h v(2) els None v5(1)]) (simp add: pushScope_def)
        from leavePlainElse_extends [OF v5(2) this s3] show ?thesis .
      qed
    qed (use v(3) s3 in simp)
    have "extends v1 v7" using e3 e7 by (rule extends_trans)
    moreover have "v7\<lparr>vcurrent := vcurrent v\<rparr> = v7\<lparr>vignore := vignore v, vcurrent := vcurrent v\<rparr>"
      using \<open>extends v1 v7\<close> f by (simp add: extends_def)
    ultimately show ?thesis
      by (intro closeScope_extends [OF _ \<open>extends v1 v7\<close>]) (use v(4) f "6.prems"(2) in simp_all)
  qed (use "6.prems" in simp)
next
  case (7 C W i l c b v)
  then obtain v1 where v1: "traverseStmt C W c v = Inr v1" "traverseStmt C W b v1 = Inr v'" by (auto simp: res_simps)
  have e: "extends v v1" by (rule "7.IH"(1) [OF v1(1) "7.prems"(2)])
  then show ?case using "7.IH"(2) [OF v1(1,2) extends_scopes [OF e]] by (rule extends_trans)
qed (auto simp: res_simps TraverseDeclStmt_def TraverseGotoStmt_def split: if_splits
    intro: fold_extends addToOrder_extends extends_trans extends_scopes)

section \<open>A concrete traversal\<close>

text \<open>\<open>x1 = 6; for (; x2; x2++) { x1 = 7; }\<close>\<close>

definition ex_assign :: "nat \<Rightarrow> nat \<Rightarrow> ex_type stmt" where
  "ex_assign i n = Expr i (ex_at i) IntT (BinaryOperator True) [ex_use (i + 2) n IntT, ex_literal (i + 3)]"

definition ex_loop :: "ex_type stmt" where
  "ex_loop =
     CompoundStmt 10 (ex_at 10)
       [ex_assign 20 2,
        ForStmt 30 (ex_at 30) None (Some (ex_use 32 3 IntT))
          (Some (Expr 34 (ex_at 34) IntT (UnaryOperator UO_PostInc) [ex_use 35 3 IntT]))
          (CompoundStmt 40 (ex_at 40) [ex_assign 50 2])]"

definition ex_loop_visited :: "ex_type visitor res" where
  "ex_loop_visited = traverseStmt ex_clang None ex_loop (pushScope visitor_start)"

text \<open>The loop is one instruction of the function, with the increment and the statement in its scope.\<close>

lemma traverseStmt_balanced_witness:
  "case ex_loop_visited of
     Inl _ \<Rightarrow> False
   | Inr v \<Rightarrow> extends (pushScope visitor_start) v
       \<and> map (map_option sid \<circ> instr_stmt) (concat (vscopes v)) = [Some 20, Some 30]"
proof (cases ex_loop_visited)
  case (Inr v)
  have "extends (pushScope visitor_start) v"
    using traverseStmt_balanced [OF Inr [unfolded ex_loop_visited_def]] by (simp add: pushScope_def)
  moreover have "(case ex_loop_visited of Inl _ \<Rightarrow> False
      | Inr v \<Rightarrow> map (map_option sid \<circ> instr_stmt) (concat (vscopes v)) = [Some 20, Some 30])" by code_simp
  ultimately show ?thesis unfolding Inr sum.case by (intro conjI)
next
  case (Inl e)
  have "\<not> (case ex_loop_visited of Inl _ \<Rightarrow> True | Inr v \<Rightarrow> False)" by code_simp
  then show ?thesis unfolding Inl by simp
qed

end
