(* ===== verification/Rewriter_Edits.thy ===== *)
theory Rewriter_Edits
  imports Common_Strings
begin

text \<open>
  The edits of the source file, and the braces of the text the passes insert.

  Clang's \<open>Rewriter\<close> is not part of the repository. The passes hand it texts and places, which are
  recorded here in the order of the calls; how the \<open>Rewriter\<close> combines the edits of one place is
  Clang's. A place is a location, or the begin or the end of a statement; a range of the source is that
  of a statement, of a declaration, of the type in front of a declared name, of the head of a function with
  its parameters (\<open>DeclaratorRange\<close>), or a number of characters from a location.
\<close>

datatype 't place = AtLoc srcloc | BeginLoc "'t stmt" | EndLoc "'t stmt" | StartOfFile | FunctionEnd "'t fundecl"

datatype 't range =
  StmtRange "'t stmt" | VarRange "'t vardecl" | TypeRange "'t vardecl" | ReturnTypeRange "'t fundecl"
| CharsFrom srcloc nat | DeclaratorRange "'t fundecl"

datatype 't edit =
  ReplaceText "'t range" string
| RemoveText "'t range"
| InsertText "'t place" string
| InsertTextBefore "'t place" string
| InsertTextAfter "'t place" string
| InsertTextAfterToken "'t place" string

section \<open>Braces\<close>

text \<open>The depth after a text, when no closing brace comes before its opening one.\<close>

fun nest :: "nat \<Rightarrow> string \<Rightarrow> nat option" where
  "nest d [] = Some d"
| "nest d (c # cs) =
     (if c = CHR ''{'' then nest (Suc d) cs
      else if c = CHR ''}'' then (case d of 0 \<Rightarrow> None | Suc d' \<Rightarrow> nest d' cs)
      else nest d cs)"

lemma nest_append: "nest d (s @ t) = (case nest d s of None \<Rightarrow> None | Some d' \<Rightarrow> nest d' t)"
  by (induction d s rule: nest.induct) (auto split: nat.splits)

definition bracketed :: "string \<Rightarrow> bool" where
  "bracketed s \<longleftrightarrow> nest 0 s = Some 0"

definition plain :: "string \<Rightarrow> bool" where
  "plain s \<longleftrightarrow> CHR ''{'' \<notin> set s \<and> CHR ''}'' \<notin> set s"

text \<open>A text that opens \<open>k\<close> braces, at any depth.\<close>

definition opens :: "nat \<Rightarrow> string \<Rightarrow> bool" where
  "opens k s \<longleftrightarrow> (\<forall>d. nest d s = Some (d + k))"

lemma nest_shift: "nest d s = Some e \<Longrightarrow> nest (d + k) s = Some (e + k)"
  by (induction d s arbitrary: e rule: nest.induct) (auto split: nat.splits if_splits)

lemma bracketed_opens: "bracketed s \<longleftrightarrow> opens 0 s"
  using nest_shift [of 0 s 0] by (auto simp: bracketed_def opens_def)

lemma opens_append: "opens a s \<Longrightarrow> opens b t \<Longrightarrow> opens (a + b) (s @ t)"
  by (simp add: opens_def nest_append ac_simps)

lemma opens_Nil [simp]: "opens 0 []"
  by (simp add: opens_def)

lemma plain_opens: "plain s \<Longrightarrow> opens 0 s"
proof -
  have "CHR ''{'' \<notin> set s \<Longrightarrow> CHR ''}'' \<notin> set s \<Longrightarrow> nest d s = Some d" for d
    by (induction s) auto
  then show "plain s \<Longrightarrow> opens 0 s" by (simp add: plain_def opens_def)
qed

lemma bracketed_append [intro]: "bracketed s \<Longrightarrow> bracketed t \<Longrightarrow> bracketed (s @ t)"
  unfolding bracketed_opens using opens_append [of 0 s 0 t] by simp

lemma plain_append [simp]: "plain (s @ t) \<longleftrightarrow> plain s \<and> plain t"
  by (auto simp: plain_def)

lemma plain_Nil [simp]: "plain []"
  by (simp add: plain_def)

lemma plain_Cons [simp]: "plain (c # s) \<longleftrightarrow> c \<noteq> CHR ''{'' \<and> c \<noteq> CHR ''}'' \<and> plain s"
  by (auto simp: plain_def)

lemma plain_newline [simp]: "plain newline"
  by (simp add: plain_def newline_def char_of_def)

lemma bracketed_Nil [simp]: "bracketed []"
  by (simp add: bracketed_def)

text \<open>An opening brace and a closing one around a bracketed text.\<close>

lemma opens_close:
  assumes "opens 1 s" and "bracketed t"
  shows "bracketed (s @ t @ ''}'' @ newline)"
proof -
  have "opens 1 (s @ t)" using opens_append [OF assms(1), of 0 t] assms(2) bracketed_opens by simp
  then have "nest 0 (s @ t) = Some (Suc 0)" by (simp add: opens_def)
  moreover have "nest (Suc 0) (''}'' @ newline) = Some 0" using plain_opens [OF plain_newline] by (simp add: opens_def)
  ultimately have "nest 0 ((s @ t) @ ''}'' @ newline) = Some 0" by (simp only: nest_append option.case)
  then show ?thesis by (simp add: bracketed_def)
qed

lemma opens_brace: "opens k s \<Longrightarrow> plain t \<Longrightarrow> opens (Suc k) (s @ ''{'' @ t)"
  using plain_opens [of t] by (simp add: opens_def nest_append)

lemma opens_bracketed: "opens k s \<Longrightarrow> bracketed t \<Longrightarrow> opens k (s @ t)"
  using opens_append [of k s 0 t] by (simp add: bracketed_opens)

lemma opens_else: "opens 1 s \<Longrightarrow> opens 1 (s @ ''} else {'')"
  by (simp add: opens_def nest_append)

lemma plain_join: "plain sep \<Longrightarrow> (\<And>x. x \<in> set xs \<Longrightarrow> plain x) \<Longrightarrow> plain (join sep xs)"
  by (induction sep xs rule: join.induct) auto

end
