(* ===== verification/Output_Handler.thy ===== *)
theory Output_Handler
  imports Task_Visitor Rewriter_Edits
begin

text \<open>
  The text of the modified file (\<open>OutputHandler.cpp\<close>, \<open>OutputHandler.hpp\<close>): the OpenMP pragmas of the
  groups of statements, and the statements printed inside them.

  The size of the text of a statement after some edits, the only thing the code asks of Clang's
  \<open>Rewriter\<close>, is a parameter. \<open>OutputHandler\<close> reads the alias entries, the nodes and the heap of orders, which are
  fields of the record \<open>outputHandler\<close> with these parameters.
\<close>

section \<open>Pragmas\<close>

record pragmaStatus =
  isTaskWaitValid :: bool
  isTaskValid :: bool
  hasFunctionCall :: bool

definition pragmaStatus_new :: pragmaStatus where
  "pragmaStatus_new = \<lparr>isTaskWaitValid = True, isTaskValid = True, hasFunctionCall = False\<rparr>"

definition setFunctionCallTrue :: "pragmaStatus \<Rightarrow> pragmaStatus" where
  "setFunctionCallTrue p = p\<lparr>hasFunctionCall := True\<rparr>"

definition setTaskWaitFalse :: "pragmaStatus \<Rightarrow> pragmaStatus" where
  "setTaskWaitFalse p = p\<lparr>isTaskWaitValid := False\<rparr>"

definition setTaskFalse :: "pragmaStatus \<Rightarrow> pragmaStatus" where
  "setTaskFalse p = p\<lparr>isTaskValid := False\<rparr>"

record 't outputHandler =
  oclang :: "'t clang"
  oheap :: "'t heap"
  onodes :: "'t nodes"
  oorders :: "'t orders"
  rewrittenSize :: "'t edit list \<Rightarrow> 't stmt \<Rightarrow> nat"

text \<open>The search for a call, with a stack of statements.\<close>

function calls_stack :: "'t stmt list \<Rightarrow> bool" where
  "calls_stack [] = False"
| "calls_stack (s # rest) = (if isCallExpr s then True else calls_stack (rev (children s) @ rest))"
  by pat_completeness auto
termination
proof (relation "measure (\<lambda>q. sum_list (map weight q))", goal_cases)
  case (2 s rest)
  then show ?case using weight_children [of s] by (simp flip: rev_map)
qed simp

definition isPragmaValid :: "'t outputHandler \<Rightarrow> 't stmtOrder \<Rightarrow> 't group \<Rightarrow> pragmaStatus res" where
  "isPragmaValid X so gr =
     (if gr = [] then Inr pragmaStatus_new
      else
        bind_res
          (case gr of
             [(instr, sub)] \<Rightarrow>
               (if isDeclStmt instr then Inr (setTaskWaitFalse (setTaskFalse pragmaStatus_new))
                else if isCXXDeleteExpr instr \<or> isGotoStmt instr then Inr (setTaskFalse pragmaStatus_new)
                else if sub \<noteq> None then
                  (if isIfStmt instr then
                     (case getNode so instr of
                        None \<Rightarrow> Inl NullDeref
                      | Some n \<Rightarrow>
                          bind_res (deref_node (onodes X) n) (\<lambda>nd.
                            Inr (if inOutDep nd = [] \<and> inDep nd = []
                                 then setTaskWaitFalse (setTaskFalse pragmaStatus_new)
                                 else setTaskFalse pragmaStatus_new)))
                   else Inr (setTaskWaitFalse (setTaskFalse pragmaStatus_new)))
                else Inr (setTaskWaitFalse pragmaStatus_new))
           | _ \<Rightarrow> Inr pragmaStatus_new) (\<lambda>p.
          Inr (if isTaskValid p \<and> list_ex (\<lambda>x. calls_stack [fst x]) gr then setFunctionCallTrue p else p)))"

text \<open>The names in a clause.\<close>

definition depName :: "'t outputHandler \<Rightarrow> addr \<Rightarrow> string res" where
  "depName X a = bind_res (deref (oheap X) a) (\<lambda>arg. Inr (varAsString arg))"

definition depClause :: "string \<Rightarrow> string list \<Rightarrow> string" where
  "depClause mode names =
     (if names = [] then [] else '' depend ('' @ mode @ '':'' @ join '','' names @ '') '')"

definition createDependsString :: "'t outputHandler \<Rightarrow> 't node \<Rightarrow> string res" where
  "createDependsString X nd =
     bind_res (map_res (depName X) (inOutDep nd)) (\<lambda>inouts.
     bind_res (map_res (depName X) (inDep nd)) (\<lambda>ins.
       Inr (depClause ''inout'' inouts @ depClause ''in'' ins)))"

text \<open>
  The uses of variables in the indexes of an entry with an unknown index. The set holds pointers to
  the uses, which are compared by their address.
\<close>

definition ref_ins :: "'t stmt \<Rightarrow> 't stmt list \<Rightarrow> 't stmt list" where
  "ref_ins d refs = (if sid d \<in> sid ` set refs then refs else refs @ [d])"

definition indexRefs :: "'t outputHandler \<Rightarrow> addr \<Rightarrow> 't stmt list \<Rightarrow> 't stmt list res" where
  "indexRefs X a refs =
     bind_res (deref (oheap X) a) (\<lambda>arg.
       if \<not> hasUnknownIndex arg then Inr refs
       else
         (case expression arg of
            None \<Rightarrow> Inl AssertFailed
          | Some e \<Rightarrow>
              bind_res (getArraySubscriptsIndexes (oclang X) e) (\<lambda>is.
                Inr (fold ref_ins (concat (map (\<lambda>i. getAllDeclRefExprInsideExpr (Some i)) is)) refs))))"

definition refName :: "'t stmt \<Rightarrow> string" where
  "refName d =
     (case exprKind d of
        Some (DeclRefExpr (VarDecl v)) \<Rightarrow> vd_name v
      | Some (DeclRefExpr (OtherDecl _ n _)) \<Rightarrow> n
      | _ \<Rightarrow> [])"

definition createFirstPrivateString :: "'t outputHandler \<Rightarrow> 't node \<Rightarrow> bool \<Rightarrow> string res" where
  "createFirstPrivateString X nd call =
     bind_res (fold_res (\<lambda>instr. fold_res (indexRefs X \<circ> fst) (instr_dependencies instr)) (instructionPtr nd) []) (\<lambda>refs.
       Inr (if refs \<noteq> [] \<or> call
            then '' firstprivate('' @ (if call then '' __apac_depth_local'' @ (if refs \<noteq> [] then '','' else []) else [])
              @ join '','' (map refName refs) @ '') ''
            else []))"

definition createTaskwaitIndexes :: "'t outputHandler \<Rightarrow> 't node \<Rightarrow> string res" where
  "createTaskwaitIndexes X nd =
     bind_res (fold_res (indexRefs X) (inDep nd @ inOutDep nd) []) (\<lambda>refs.
       Inr (if refs \<noteq> [] then ''#pragma omp taskwait depend (in: '' @ join '','' (map refName refs) @ '')'' @ newline
            else []))"

definition groupNode :: "'t outputHandler \<Rightarrow> 't stmtOrder \<Rightarrow> 't stmt \<Rightarrow> 't node res" where
  "groupNode X so instr = (case getNode so instr of None \<Rightarrow> Inl NullDeref | Some n \<Rightarrow> deref_node (onodes X) n)"

definition createPragmaTaskWait :: "'t outputHandler \<Rightarrow> 't stmtOrder \<Rightarrow> 't group \<Rightarrow> string res" where
  "createPragmaTaskWait X so gr =
     (case gr of
        [] \<Rightarrow> Inl UndefinedAccess
      | (instr, _) # _ \<Rightarrow>
          bind_res
            (if isIfStmt instr then bind_res (groupNode X so instr) (createDependsString X)
             else if isCXXDeleteExpr instr then
               bind_res (getSubExpr instr) (\<lambda>arg.
                 Inr (if isDeclRefExpr (ignoreImpCasts (oclang X) arg) then refName (ignoreImpCasts (oclang X) arg) else []))
             else Inr []) (\<lambda>dependString.
            Inr (''#pragma omp taskwait '' @ (if dependString \<noteq> [] then ''depend (inout:'' @ dependString @ '')'' else []))))"

text \<open>The node is tested for null after its first use, so the branch for null is never taken.\<close>

definition createPragmaTaskString :: "'t outputHandler \<Rightarrow> 't stmtOrder \<Rightarrow> 't group \<Rightarrow> bool \<Rightarrow> string res" where
  "createPragmaTaskString X so gr call =
     (case gr of
        [] \<Rightarrow> Inl UndefinedAccess
      | (instr, _) # _ \<Rightarrow>
          bind_res (groupNode X so instr) (\<lambda>nd.
          bind_res (createTaskwaitIndexes X nd) (\<lambda>wait.
          bind_res (createDependsString X nd) (\<lambda>deps.
          bind_res (createFirstPrivateString X nd call) (\<lambda>private.
            Inr (wait @ ''#pragma omp task default(shared) '' @ deps @ private))))))"

text \<open>The text before the group and the text after it.\<close>

definition createPragmaString :: "'t outputHandler \<Rightarrow> 't stmtOrder \<Rightarrow> 't group \<Rightarrow> (string \<times> string) res" where
  "createPragmaString X so gr =
     bind_res (isPragmaValid X so gr) (\<lambda>p.
     bind_res
       (if isTaskValid p then
          bind_res (createPragmaTaskString X so gr (hasFunctionCall p)) (\<lambda>t.
            Inr (t @ newline @ ''{'' @ newline
              @ (if hasFunctionCall p then ''__apac_depth = __apac_depth_local + 1;'' @ newline else [])))
        else if isTaskWaitValid p then bind_res (createPragmaTaskWait X so gr) (\<lambda>t. Inr (t @ newline))
        else Inr []) (\<lambda>start.
       Inr (start, if isTaskValid p then ''}'' @ newline else [])))"

section \<open>Statements\<close>

type_synonym 't printer = "'t stmtOrder \<Rightarrow> 't stmt \<Rightarrow> 't edit list \<Rightarrow> (string \<times> 't edit list) res"

text \<open>
  The text of a group. When it is written in the file, the old statements are removed and the text
  is inserted at the begin of the last one.
\<close>

definition modifyGroup ::
    "'t outputHandler \<Rightarrow> 't printer \<Rightarrow> 't stmtOrder \<Rightarrow> bool \<Rightarrow> 't group \<Rightarrow> 't edit list \<Rightarrow> (string \<times> 't edit list) res" where
  "modifyGroup X print so write gr es =
     (if gr = [] then Inr ([], es)
      else
        bind_res (createPragmaString X so gr) (\<lambda>(pragmaStart, pragmaEnd).
        bind_res (fold_res (\<lambda>x (txt, es).
            bind_res (print so (fst x) es) (\<lambda>(t, es'). Inr (txt @ t, es'))) gr (pragmaStart, es)) (\<lambda>(txt, es1).
        (let out = txt @ pragmaEnd in
          Inr (out,
            if write then es1 @ map (\<lambda>x. RemoveText (StmtRange (fst x))) gr @ [InsertText (BeginLoc (fst (last gr))) out]
            else es1)))))"

text \<open>All the groups of an order, in the order of their numbers.\<close>

definition modifyGroups ::
    "'t outputHandler \<Rightarrow> 't printer \<Rightarrow> 't stmtOrder \<Rightarrow> string \<Rightarrow> 't edit list \<Rightarrow> (string \<times> 't edit list) res" where
  "modifyGroups X print so txt es =
     fold_res (\<lambda>(_, gr) (txt, es). bind_res (modifyGroup X print so False gr es) (\<lambda>(t, es'). Inr (txt @ t, es')))
       (instructionGroups so) (txt, es)"

text \<open>The conditional: every group but the first follows an \<open>else\<close>.\<close>

definition modifiedString_if ::
    "'t outputHandler \<Rightarrow> 't printer \<Rightarrow> 't stmtOrder \<Rightarrow> 't stmt \<Rightarrow> 't edit list \<Rightarrow> (string \<times> 't edit list) res" where
  "modifiedString_if X print so instr es =
     (let els = (case instr of IfStmt _ _ _ _ e \<Rightarrow> e \<noteq> None | _ \<Rightarrow> False) in
      bind_res (fold_res (\<lambda>(_, gr) (isSecond, txt, es).
          bind_res (modifyGroup X print so False gr es) (\<lambda>(t, es').
            Inr (True, txt @ (if isSecond \<and> els then ''} else {'' else []) @ t, es')))
        (instructionGroups so) (False, getStmtAsString (oclang X) (Some instr) False @ ''{'' @ newline, es)) (\<lambda>(_, txt, es').
        Inr (txt @ ''}'' @ newline, es')))"

text \<open>The text of a statement is replaced with spaces before it is printed.\<close>

definition modifiedString_body :: "'t outputHandler \<Rightarrow> 't printer \<Rightarrow> 't printer" where
  "modifiedString_body X print so instr es =
     bind_res (getSubStmtOrder so instr) (\<lambda>sub.
     (let es1 = es @ [ReplaceText (StmtRange instr) (replicate (rewrittenSize X es instr) (CHR '' ''))] in
      (case sub of
         None \<Rightarrow> Inr (getStmtAsStringFull (oclang X) (Some instr) @ newline, es1)
       | Some n \<Rightarrow>
           bind_res (deref_order (oorders X) n) (\<lambda>subOrder.
             (if isIfStmt instr then modifiedString_if X print subOrder instr es1
              else if isCompoundStmt instr then modifyGroups X print subOrder [] es1
              else
                bind_res (modifyGroups X print subOrder
                    (getStmtAsString (oclang X) (Some instr) False @ ''{'' @ newline) es1) (\<lambda>(txt, es2).
                  Inr (txt @ ''}'' @ newline, es2)))))))"

text \<open>The bound counts the nested orders.\<close>

fun modifiedStringForInstruction :: "'t outputHandler \<Rightarrow> nat \<Rightarrow> 't printer" where
  "modifiedStringForInstruction X 0 so instr es = Inl OutOfFuel"
| "modifiedStringForInstruction X (Suc n) so instr es =
     modifiedString_body X (modifiedStringForInstruction X n) so instr es"

definition modifyFile :: "'t outputHandler \<Rightarrow> 't stmtOrder \<Rightarrow> 't edit list \<Rightarrow> 't edit list res" where
  "modifyFile X so es =
     fold_res (\<lambda>(_, gr) es.
         bind_res (modifyGroup X (modifiedStringForInstruction X (Suc (length (oorders X)))) so True gr es) (\<lambda>(_, es'). Inr es'))
       (instructionGroups so) es"

end
