(* ===== verification/Output_Balance.thy ===== *)
theory Output_Balance
  imports Output_Handler
begin

text \<open>
  The braces of the generated text. Every text the handler inserts in the file is well bracketed when
  the texts of the statements it prints are: the braces of the tasks, of the loops, of the conditionals
  and of their \<open>else\<close> close what they open.
\<close>

section \<open>The texts\<close>

text \<open>
  What is assumed of the texts: the names of the entries and of the variables in their indexes have no
  braces, and the text Clang prints for a statement is well bracketed.
\<close>

definition entry_texts :: "'t outputHandler \<Rightarrow> bool" where
  "entry_texts X \<longleftrightarrow> (\<forall>a arg. map_of (oheap X) a = Some arg \<longrightarrow>
     plain (varAsString arg)
     \<and> (\<forall>e is i. expression arg = Some e \<longrightarrow> getArraySubscriptsIndexes (oclang X) e = Inr is \<longrightarrow> i \<in> set is \<longrightarrow>
          (\<forall>d \<in> set (getAllDeclRefExprInsideExpr (Some i)). plain (refName d))))"

definition stmt_texts :: "'t outputHandler \<Rightarrow> 't stmt \<Rightarrow> bool" where
  "stmt_texts X s \<longleftrightarrow> bracketed (getStmtAsString (oclang X) (Some s) False)
     \<and> bracketed (getStmtAsStringFull (oclang X) (Some s))
     \<and> (\<forall>arg. getSubExpr s = Inr arg \<longrightarrow> plain (refName (ignoreImpCasts (oclang X) arg)))"

definition order_texts :: "'t outputHandler \<Rightarrow> 't stmtOrder \<Rightarrow> bool" where
  "order_texts X so \<longleftrightarrow> (\<forall>g gr x. (g, gr) \<in> set (instructionGroups so) \<longrightarrow> x \<in> set gr \<longrightarrow> stmt_texts X (fst x))"

definition texts_ok :: "'t outputHandler \<Rightarrow> bool" where
  "texts_ok X \<longleftrightarrow> entry_texts X \<and> (\<forall>n so. map_of (oorders X) n = Some so \<longrightarrow> order_texts X so)"

section \<open>Pragmas have no braces\<close>

lemma depName_plain: "entry_texts X \<Longrightarrow> depName X a = Inr s \<Longrightarrow> plain s"
  by (auto simp: depName_def deref_def res_simps entry_texts_def split: option.splits)

lemma depNames_plain: "entry_texts X \<Longrightarrow> map_res (depName X) as = Inr ss \<Longrightarrow> s \<in> set ss \<Longrightarrow> plain s"
  using depName_plain by (fastforce simp: map_res_Inr list_all2_conv_all_nth in_set_conv_nth)

lemma depClause_plain: "plain mode \<Longrightarrow> (\<And>s. s \<in> set ss \<Longrightarrow> plain s) \<Longrightarrow> plain (depClause mode ss)"
  by (simp add: depClause_def plain_join)

lemma createDependsString_plain: "entry_texts X \<Longrightarrow> createDependsString X nd = Inr s \<Longrightarrow> plain s"
  by (auto simp: createDependsString_def res_simps intro!: depClause_plain dest: depNames_plain)

definition plain_refs :: "'t stmt list \<Rightarrow> bool" where
  "plain_refs refs \<longleftrightarrow> (\<forall>d \<in> set refs. plain (refName d))"

lemma ref_ins_plain: "plain_refs refs \<Longrightarrow> (\<And>d. d \<in> set ds \<Longrightarrow> plain (refName d)) \<Longrightarrow> plain_refs (fold ref_ins ds refs)"
proof (induction ds arbitrary: refs)
  case (Cons d ds)
  have "plain_refs (ref_ins d refs)" using Cons.prems by (auto simp: ref_ins_def plain_refs_def)
  then show ?case using Cons by simp
qed simp

lemma indexRefs_plain:
  assumes "entry_texts X" and "indexRefs X a refs = Inr refs'" and "plain_refs refs"
  shows "plain_refs refs'"
proof -
  obtain arg where arg: "map_of (oheap X) a = Some arg" using assms(2)
    by (auto simp: indexRefs_def deref_def split: option.splits)
  show ?thesis
  proof (cases "hasUnknownIndex arg")
    case True
    then obtain e "is" where e: "expression arg = Some e" "getArraySubscriptsIndexes (oclang X) e = Inr is"
      "refs' = fold ref_ins (concat (map (\<lambda>i. getAllDeclRefExprInsideExpr (Some i)) is)) refs"
      using assms(2) arg by (auto simp: indexRefs_def deref_def res_simps split: option.splits)
    show ?thesis unfolding e(3) using assms(1) arg e(1,2)
      by (intro ref_ins_plain [OF assms(3)]) (auto simp: entry_texts_def)
  qed (use assms(2,3) arg in \<open>simp add: indexRefs_def deref_def\<close>)
qed

lemma plain_refs_join: "plain_refs refs \<Longrightarrow> plain (join '','' (map refName refs))"
  by (rule plain_join) (auto simp: plain_refs_def)

lemma createFirstPrivateString_plain:
  assumes "entry_texts X" and "createFirstPrivateString X nd call = Inr s"
  shows "plain s"
proof -
  obtain refs where refs: "fold_res (\<lambda>instr. fold_res (indexRefs X \<circ> fst) (instr_dependencies instr)) (instructionPtr nd) [] = Inr refs"
    "s = (if refs \<noteq> [] \<or> call
            then '' firstprivate('' @ (if call then '' __apac_depth_local'' @ (if refs \<noteq> [] then '','' else []) else [])
              @ join '','' (map refName refs) @ '') ''
            else [])"
    using assms(2) unfolding createFirstPrivateString_def bind_res_Inr by auto
  have "plain_refs refs"
  proof (rule fold_res_invariant [OF refs(1)])
    show "plain_refs []" by (simp add: plain_refs_def)
    show "plain_refs t" if "fold_res (indexRefs X \<circ> fst) (instr_dependencies i) s = Inr t" "plain_refs s" for i s t
      by (rule fold_res_invariant [where P = plain_refs, OF that]) (use indexRefs_plain [OF assms(1)] in auto)
  qed
  then show ?thesis unfolding refs(2) by (simp add: plain_refs_join)
qed

lemma createTaskwaitIndexes_plain:
  assumes "entry_texts X" and "createTaskwaitIndexes X nd = Inr s"
  shows "plain s"
proof -
  obtain refs where refs: "fold_res (indexRefs X) (inDep nd @ inOutDep nd) [] = Inr refs"
    "s = (if refs \<noteq> [] then ''#pragma omp taskwait depend (in: '' @ join '','' (map refName refs) @ '')'' @ newline else [])"
    using assms(2) unfolding createTaskwaitIndexes_def bind_res_Inr by auto
  have "plain_refs refs"
    by (rule fold_res_invariant [OF refs(1)]) (use indexRefs_plain [OF assms(1)] in \<open>auto simp: plain_refs_def\<close>)
  then show ?thesis unfolding refs(2) by (simp add: plain_refs_join)
qed

lemma createPragmaTaskString_plain:
  assumes "entry_texts X" and "createPragmaTaskString X so gr call = Inr s"
  shows "plain s"
  using assms createTaskwaitIndexes_plain [OF assms(1)] createDependsString_plain [OF assms(1)]
    createFirstPrivateString_plain [OF assms(1)]
  by (auto simp: createPragmaTaskString_def res_simps split: list.splits prod.splits)

lemma createPragmaTaskWait_plain:
  assumes "entry_texts X" and "createPragmaTaskWait X so gr = Inr s" and "\<And>x. x \<in> set gr \<Longrightarrow> stmt_texts X (fst x)"
  shows "plain s"
proof -
  obtain instr sub rest where gr: "gr = (instr, sub) # rest" using assms(2)
    by (auto simp: createPragmaTaskWait_def split: list.splits)
  obtain deps where deps: "(if isIfStmt instr then bind_res (groupNode X so instr) (createDependsString X)
             else if isCXXDeleteExpr instr then
               bind_res (getSubExpr instr) (\<lambda>arg.
                 Inr (if isDeclRefExpr (ignoreImpCasts (oclang X) arg) then refName (ignoreImpCasts (oclang X) arg) else []))
             else Inr []) = Inr deps"
    and s: "s = ''#pragma omp taskwait '' @ (if deps \<noteq> [] then ''depend (inout:'' @ deps @ '')'' else [])"
    using assms(2) unfolding createPragmaTaskWait_def gr list.case prod.case bind_res_Inr by auto
  have "plain deps" using deps assms(3) [of "(instr, sub)"] createDependsString_plain [OF assms(1)]
    by (auto simp: gr res_simps stmt_texts_def split: if_splits)
  then show ?thesis unfolding s by simp
qed

section \<open>The text of a group\<close>

text \<open>What the pragma puts around a well bracketed text is well bracketed.\<close>

lemma createPragmaString_around:
  assumes "entry_texts X" and "createPragmaString X so gr = Inr (pre, post)"
    and "\<And>x. x \<in> set gr \<Longrightarrow> stmt_texts X (fst x)" and "bracketed body"
  shows "bracketed (pre @ body @ post)"
proof -
  obtain p where p: "isPragmaValid X so gr = Inr p"
    and pre: "(if isTaskValid p then
          bind_res (createPragmaTaskString X so gr (hasFunctionCall p)) (\<lambda>t.
            Inr (t @ newline @ ''{'' @ newline
              @ (if hasFunctionCall p then ''__apac_depth = __apac_depth_local + 1;'' @ newline else [])))
        else if isTaskWaitValid p then bind_res (createPragmaTaskWait X so gr) (\<lambda>t. Inr (t @ newline))
        else Inr []) = Inr pre"
    and post: "post = (if isTaskValid p then ''}'' @ newline else [])"
    using assms(2) unfolding createPragmaString_def bind_res_Inr by auto
  show ?thesis
  proof (cases "isTaskValid p")
    case True
    let ?r = "newline @ (if hasFunctionCall p then ''__apac_depth = __apac_depth_local + 1;'' @ newline else [])"
    obtain t where t: "createPragmaTaskString X so gr (hasFunctionCall p) = Inr t" "pre = (t @ newline) @ ''{'' @ ?r"
      using pre True by (auto simp: res_simps)
    have "plain ?r" by simp
    moreover have "opens 0 (t @ newline)" using createPragmaTaskString_plain [OF assms(1) t(1)] by (intro plain_opens) simp
    ultimately have "opens 1 pre" unfolding t(2) using opens_brace [of 0 "t @ newline" ?r] by simp
    from opens_close [OF this assms(4)] show ?thesis using True post by simp
  next
    case False
    then have "plain pre" using pre createPragmaTaskWait_plain [OF assms(1) _ assms(3)]
      by (auto simp: res_simps split: if_splits)
    then have "bracketed pre" using plain_opens bracketed_opens by blast
    then show ?thesis using False post assms(4) by auto
  qed
qed

text \<open>The printer of the nested statements, as the operations of a group use it.\<close>

definition printer_ok :: "'t outputHandler \<Rightarrow> 't printer \<Rightarrow> bool" where
  "printer_ok X print \<longleftrightarrow> (\<forall>so s es t es'. stmt_texts X s \<longrightarrow> print so s es = Inr (t, es') \<longrightarrow>
     bracketed t \<and> (\<forall>l u. InsertText l u \<in> set es' \<longrightarrow> InsertText l u \<in> set es))"

lemma printerD:
  assumes "printer_ok X print" and "stmt_texts X s" and "print so s es = Inr (t, es')"
  shows "bracketed t" and "InsertText l u \<in> set es' \<Longrightarrow> InsertText l u \<in> set es"
  using assms unfolding printer_ok_def by blast+

text \<open>The parts of the text of a group.\<close>

abbreviation print_all :: "'t printer \<Rightarrow> 't stmtOrder \<Rightarrow> 't group \<Rightarrow> string \<times> 't edit list \<Rightarrow> (string \<times> 't edit list) res" where
  "print_all print so gr st \<equiv>
     fold_res (\<lambda>x (txt, es). bind_res (print so (fst x) es) (\<lambda>(t, es'). Inr (txt @ t, es'))) gr st"

lemma modifyGroup_parts:
  assumes "modifyGroup X print so wr gr es = Inr (t, es')" and "gr \<noteq> []"
  obtains pre post mid es1 where "createPragmaString X so gr = Inr (pre, post)"
    and "print_all print so gr (pre, es) = Inr (mid, es1)" and "t = mid @ post"
    and "es' = (if wr then es1 @ map (\<lambda>x. RemoveText (StmtRange (fst x))) gr @ [InsertText (BeginLoc (fst (last gr))) t] else es1)"
proof -
  have "bind_res (createPragmaString X so gr) (\<lambda>(pre, post). bind_res (print_all print so gr (pre, es)) (\<lambda>(m, es1).
      Inr (m @ post, if wr then es1 @ map (\<lambda>x. RemoveText (StmtRange (fst x))) gr @ [InsertText (BeginLoc (fst (last gr))) (m @ post)]
        else es1))) = Inr (t, es')"
    using assms by (simp add: modifyGroup_def Let_def)
  from this [unfolded bind_res_Inr] obtain pre post where 1: "createPragmaString X so gr = Inr (pre, post)"
    and 2: "bind_res (print_all print so gr (pre, es)) (\<lambda>(m, es1).
      Inr (m @ post, if wr then es1 @ map (\<lambda>x. RemoveText (StmtRange (fst x))) gr @ [InsertText (BeginLoc (fst (last gr))) (m @ post)]
        else es1)) = Inr (t, es')" by auto
  from 2 [unfolded bind_res_Inr] obtain m es1 where 3: "print_all print so gr (pre, es) = Inr (m, es1)" and
    "(m @ post, if wr then es1 @ map (\<lambda>x. RemoveText (StmtRange (fst x))) gr @ [InsertText (BeginLoc (fst (last gr))) (m @ post)]
        else es1) = (t, es')" by auto
  then have "t = m @ post" by (simp only: prod.inject)
  moreover have "es' = (if wr then es1 @ map (\<lambda>x. RemoveText (StmtRange (fst x))) gr @ [InsertText (BeginLoc (fst (last gr))) t] else es1)"
    using \<open>(_, _) = (t, es')\<close> unfolding prod.inject by metis
  ultimately show thesis by (rule that [OF 1 3])
qed

lemma modifyGroup_bracketed:
  assumes "entry_texts X" and "printer_ok X print" and "\<And>x. x \<in> set gr \<Longrightarrow> stmt_texts X (fst x)"
    and "modifyGroup X print so wr gr es = Inr (txt, es')"
  shows "bracketed txt"
    and "InsertText l u \<in> set es' \<Longrightarrow> InsertText l u \<in> set es \<or> wr \<and> bracketed u"
proof -
  have "bracketed txt \<and> (InsertText l u \<in> set es' \<longrightarrow> InsertText l u \<in> set es \<or> wr \<and> bracketed u)"
  proof (cases "gr = []")
    case False
    obtain pre post mid es1 where
      pragma: "createPragmaString X so gr = Inr (pre, post)" and body: "print_all print so gr (pre, es) = Inr (mid, es1)"
      and out: "txt = mid @ post"
      and es': "es' = (if wr then es1 @ map (\<lambda>x. RemoveText (StmtRange (fst x))) gr @ [InsertText (BeginLoc (fst (last gr))) txt] else es1)"
      by (rule modifyGroup_parts [OF assms(4) False])
    let ?I = "\<lambda>(m, es1). (\<exists>body. m = pre @ body \<and> bracketed body)
      \<and> (\<forall>l u. InsertText l u \<in> set es1 \<longrightarrow> InsertText l u \<in> set es)"
    have "?I (mid, es1)"
    proof (rule fold_res_invariant [OF body])
      show "?I (pre, es)" using bracketed_Nil by auto
      show "?I st'" if "x \<in> set gr" "?I st"
        "(case st of (txt, es) \<Rightarrow> bind_res (print so (fst x) es) (\<lambda>(t, es'). Inr (txt @ t, es'))) = Inr st'" for x st st'
      proof -
        obtain m e t e' where st: "st = (m, e)" "print so (fst x) e = Inr (t, e')" "st' = (m @ t, e')"
          using \<open>_ = Inr st'\<close> by (auto simp: res_simps split: prod.splits)
        note t = printerD [OF assms(2) assms(3) [OF \<open>x \<in> set gr\<close>] st(2)]
        obtain body where b: "m = pre @ body" "bracketed body" using \<open>?I st\<close> st(1) by auto
        have "st' = (pre @ (body @ t), e')" "bracketed (body @ t)" using b t(1) st(3) by auto
        then show ?thesis using t(2) \<open>?I st\<close> st(1) by auto
      qed
    qed
    then obtain body where b: "mid = pre @ body" "bracketed body" "\<forall>l u. InsertText l u \<in> set es1 \<longrightarrow> InsertText l u \<in> set es"
      by auto
    have "bracketed txt" using createPragmaString_around [OF assms(1) pragma assms(3) b(2)] out b(1) by simp
    then show ?thesis using es' b(3) by (auto split: if_splits)
  qed (use assms(4) in \<open>simp add: modifyGroup_def\<close>)
  then show "bracketed txt" "InsertText l u \<in> set es' \<Longrightarrow> InsertText l u \<in> set es \<or> wr \<and> bracketed u" by blast+
qed


text \<open>Printing the groups of an order after a text that opens one brace.\<close>

lemma modifyGroups_opens:
  assumes "entry_texts X" and "printer_ok X print" and "order_texts X so" and "opens k pre"
    and "modifyGroups X print so pre es = Inr (t, es')"
  shows "opens k t" and "InsertText l u \<in> set es' \<Longrightarrow> InsertText l u \<in> set es"
proof -
  let ?I = "\<lambda>(t, es1). opens k t \<and> (\<forall>l u. InsertText l u \<in> set es1 \<longrightarrow> InsertText l u \<in> set es)"
  have "?I (t, es')"
  proof (rule fold_res_invariant [OF assms(5) [unfolded modifyGroups_def]])
    show "?I (pre, es)" using assms(4) by simp
    show "?I st'" if x: "x \<in> set (instructionGroups so)" and st: "?I st"
      and r: "(case x of (_, gr) \<Rightarrow> \<lambda>(t, es). bind_res (modifyGroup X print so False gr es) (\<lambda>(u, es'). Inr (t @ u, es'))) st = Inr st'"
      for x st st'
    proof -
      obtain g gr m e u e' where s: "x = (g, gr)" "st = (m, e)" "modifyGroup X print so False gr e = Inr (u, e')" "st' = (m @ u, e')"
        using r by (auto simp: res_simps split: prod.splits)
      have texts: "stmt_texts X (fst y)" if "y \<in> set gr" for y
        using assms(3) x s(1) that unfolding order_texts_def by blast
      from modifyGroup_bracketed [OF assms(1,2) texts s(3)] show ?thesis
        using st s(2,4) opens_bracketed [of k m u] by auto
    qed
  qed
  then show "opens k t" "InsertText l u \<in> set es' \<Longrightarrow> InsertText l u \<in> set es" by auto
qed

lemma modifiedString_if_bracketed:
  assumes "entry_texts X" and "printer_ok X print" and "order_texts X so" and "stmt_texts X instr"
    and "modifiedString_if X print so instr es = Inr (t, es')"
  shows "bracketed t" and "InsertText l u \<in> set es' \<Longrightarrow> InsertText l u \<in> set es"
proof -
  let ?els = "case instr of IfStmt _ _ _ _ e \<Rightarrow> e \<noteq> None | _ \<Rightarrow> False"
  let ?pre = "getStmtAsString (oclang X) (Some instr) False @ ''{'' @ newline"
  obtain b m where body: "fold_res (\<lambda>(_, gr) (isSecond, txt, es).
          bind_res (modifyGroup X print so False gr es) (\<lambda>(t, es').
            Inr (True, txt @ (if isSecond \<and> ?els then ''} else {'' else []) @ t, es')))
        (instructionGroups so) (False, ?pre, es) = Inr (b, m, es')"
    and t: "t = m @ [] @ ''}'' @ newline"
    using assms(5) unfolding modifiedString_if_def Let_def bind_res_Inr by (auto split: prod.splits)
  have pre: "opens 1 ?pre" using opens_brace [of 0 "getStmtAsString (oclang X) (Some instr) False" newline] assms(4)
    by (simp add: stmt_texts_def bracketed_opens)
  let ?I = "\<lambda>(b :: bool, m, es1). opens 1 m \<and> (\<forall>l u. InsertText l u \<in> set es1 \<longrightarrow> InsertText l u \<in> set es)"
  have "?I (b, m, es')"
  proof (rule fold_res_invariant [OF body])
    show "?I (False, ?pre, es)" using pre by simp
    show "?I st'" if x: "x \<in> set (instructionGroups so)" and st: "?I st"
      and r: "(case x of (_, gr) \<Rightarrow> \<lambda>(isSecond, txt, es).
          bind_res (modifyGroup X print so False gr es) (\<lambda>(t, es').
            Inr (True, txt @ (if isSecond \<and> ?els then ''} else {'' else []) @ t, es'))) st = Inr st'"
      for x st st'
    proof -
      obtain g gr c m e u e' where s: "x = (g, gr)" "st = (c, m, e)" "modifyGroup X print so False gr e = Inr (u, e')"
        "st' = (True, m @ (if c \<and> ?els then ''} else {'' else []) @ u, e')"
        using r by (auto simp: res_simps split: prod.splits)
      have texts: "stmt_texts X (fst y)" if "y \<in> set gr" for y
        using assms(3) x s(1) that unfolding order_texts_def by blast
      note g = modifyGroup_bracketed [OF assms(1,2) texts s(3)]
      have "opens 1 (m @ (if c \<and> ?els then ''} else {'' else []))" using st s(2) opens_else [of m] by simp
      from opens_bracketed [OF this g(1)] show ?thesis using st s(2,4) g(2) by simp
    qed
  qed
  then show "bracketed t" "InsertText l u \<in> set es' \<Longrightarrow> InsertText l u \<in> set es"
    unfolding t using opens_close [of m "[]"] by auto
qed

lemma modifiedString_body_ok:
  assumes "texts_ok X" and "printer_ok X print"
  shows "printer_ok X (modifiedString_body X print)"
  unfolding printer_ok_def
proof (intro allI impI)
  fix so s es t es'
  assume s: "stmt_texts X s" and r: "modifiedString_body X print so s es = Inr (t, es')"
  let ?es = "es @ [ReplaceText (StmtRange s) (replicate (rewrittenSize X es s) (CHR '' ''))]"
  have entry: "entry_texts X" using assms(1) by (simp add: texts_ok_def)
  obtain sub where sub: "getSubStmtOrder so s = Inr sub" using r by (auto simp: modifiedString_body_def res_simps)
  show "bracketed t \<and> (\<forall>l u. InsertText l u \<in> set es' \<longrightarrow> InsertText l u \<in> set es)"
  proof (cases sub)
    case None
    then have "t = getStmtAsStringFull (oclang X) (Some s) @ newline" "es' = ?es"
      using r sub by (simp_all add: modifiedString_body_def)
    then show ?thesis using s plain_opens [OF plain_newline] by (auto simp: stmt_texts_def bracketed_opens opens_append [of 0 _ 0, simplified])
  next
    case (Some n)
    then obtain so' where so': "map_of (oorders X) n = Some so'"
      and r': "(if isIfStmt s then modifiedString_if X print so' s ?es
              else if isCompoundStmt s then modifyGroups X print so' [] ?es
              else
                bind_res (modifyGroups X print so' (getStmtAsString (oclang X) (Some s) False @ ''{'' @ newline) ?es)
                  (\<lambda>(txt, es2). Inr (txt @ ''}'' @ newline, es2))) = Inr (t, es')"
      using r sub by (auto simp: modifiedString_body_def deref_order_def Let_def res_simps split: option.splits)
    have texts: "order_texts X so'" using assms(1) so' unfolding texts_ok_def by blast
    consider (branch) "isIfStmt s" | (block) "\<not> isIfStmt s" "isCompoundStmt s" | (loop) "\<not> isIfStmt s" "\<not> isCompoundStmt s" by blast
    then show ?thesis
    proof cases
      case branch
      then have "modifiedString_if X print so' s ?es = Inr (t, es')" using r' by simp
      from modifiedString_if_bracketed [OF entry assms(2) texts s this] show ?thesis by auto
    next
      case block
      then have "modifyGroups X print so' [] ?es = Inr (t, es')" using r' by simp
      from modifyGroups_opens [OF entry assms(2) texts opens_Nil this] show ?thesis by (auto simp: bracketed_opens)
    next
      case loop
      then obtain m where m: "modifyGroups X print so' (getStmtAsString (oclang X) (Some s) False @ ''{'' @ newline) ?es = Inr (m, es')"
        and t: "t = m @ [] @ ''}'' @ newline" using r' by (auto simp: res_simps)
      have "opens 1 (getStmtAsString (oclang X) (Some s) False @ ''{'' @ newline)"
        using opens_brace [of 0 "getStmtAsString (oclang X) (Some s) False" newline] s
        by (simp add: stmt_texts_def bracketed_opens)
      from modifyGroups_opens [OF entry assms(2) texts this m] show ?thesis
        unfolding t using opens_close [of m "[]"] by auto
    qed
  qed
qed

lemma modifiedStringForInstruction_ok: "texts_ok X \<Longrightarrow> printer_ok X (modifiedStringForInstruction X n)"
proof (induction n)
  case 0
  then show ?case by (simp add: printer_ok_def)
next
  case (Suc n)
  then have "printer_ok X (modifiedString_body X (modifiedStringForInstruction X n))" by (intro modifiedString_body_ok)
  then show ?case by (simp add: printer_ok_def)
qed

text \<open>
  C10: every text \<open>modifyFile\<close> inserts in the file is well bracketed, when the texts Clang prints for the
  statements are and the names in the pragmas have no braces.
\<close>

theorem modifyFile_bracketed:
  assumes "texts_ok X" and "order_texts X so" and "modifyFile X so [] = Inr es" and "InsertText l txt \<in> set es"
  shows "bracketed txt"
proof -
  have entry: "entry_texts X" using assms(1) by (simp add: texts_ok_def)
  note print = modifiedStringForInstruction_ok [OF assms(1), of "Suc (length (oorders X))"]
  have "\<forall>l u. InsertText l u \<in> set es \<longrightarrow> bracketed u"
  proof (rule fold_res_invariant [OF assms(3) [unfolded modifyFile_def]])
    show "\<forall>l u. InsertText l u \<in> set es' \<longrightarrow> bracketed u"
      if x: "x \<in> set (instructionGroups so)" and st: "\<forall>l u. InsertText l u \<in> set st \<longrightarrow> bracketed u"
        and r: "(case x of (_, gr) \<Rightarrow> \<lambda>es. bind_res (modifyGroup X (modifiedStringForInstruction X (Suc (length (oorders X)))) so True gr es)
          (\<lambda>(_, es'). Inr es')) st = Inr es'" for x st es'
    proof -
      obtain g gr u where s: "x = (g, gr)"
        "modifyGroup X (modifiedStringForInstruction X (Suc (length (oorders X)))) so True gr st = Inr (u, es')"
        using r by (auto simp: res_simps simp del: modifiedStringForInstruction.simps split: prod.splits)
      have texts: "stmt_texts X (fst y)" if "y \<in> set gr" for y
        using assms(2) x s(1) that unfolding order_texts_def by blast
      from modifyGroup_bracketed [OF entry print texts s(2)] show ?thesis using st by blast
    qed
  qed simp
  then show ?thesis using assms(4) by blast
qed

end
