(* ===== verification/Output_Dot.thy ===== *)
theory Output_Dot
  imports Output_Handler Graph_Program
begin

text \<open>
  The graphs in the DOT language (\<open>OutputHandler.cpp\<close>). The text of the file is the string the
  functions return; the counter \<open>invisibleNodeCounter\<close> names the invisible first node of every
  cluster. Nested graphs are printed inside the cluster of their node, so the recursion is bounded by
  the number of graphs.
\<close>

type_synonym 't dot_env = "'t outputHandler \<times> 't program_graph"

text \<open>The links, with the entries and the accesses that make them, in the order of the successors.\<close>

definition linkLabel :: "'t heap \<Rightarrow> dependencies \<Rightarrow> string res" where
  "linkLabel ah deps =
     bind_res (map_res (\<lambda>(a, dep). bind_res (deref ah a) (\<lambda>arg.
        Inr (varAsString arg @ (if isRead dep then ''R'' else []) @ (if isWrite dep then ''W'' else [])))) deps) (\<lambda>ls.
       Inr (join '','' ls))"

definition nodeLinks :: "'t heap \<Rightarrow> nat \<Rightarrow> 't node \<Rightarrow> string res" where
  "nodeLinks ah n nd =
     bind_res (map_res (\<lambda>(m, deps). bind_res (linkLabel ah deps) (\<lambda>l.
        Inr (''    '' @ string_of_nat n @ '' -> '' @ string_of_nat m @ ''[label='' @ [CHR 0x22] @ ''  '' @ l @ [CHR 0x22] @ ''];'' @ newline)))
        (fold (\<lambda>(m, deps). oput m deps) (next_map nd) [])) (\<lambda>ls. Inr (concat ls))"

primrec generateLinks :: "nat \<Rightarrow> 't heap \<Rightarrow> 't program_graph \<Rightarrow> nat \<Rightarrow> string res" where
  "generateLinks 0 ah st g = Inl OutOfFuel"
| "generateLinks (Suc fuel) ah st g =
     (case map_of (graphs st) g of
        None \<Rightarrow> Inl NullDeref
      | Some gr \<Rightarrow>
          bind_res (map_res (\<lambda>n.
              bind_res (deref_node (pnodes st) n) (\<lambda>nd.
              bind_res (nodeLinks ah n nd) (\<lambda>l.
              bind_res (map_res (generateLinks fuel ah st) (subgraphs nd)) (\<lambda>subs. Inr (l @ concat subs)))))
            (graph_nodes gr)) (\<lambda>ls. Inr (concat ls)))"

text \<open>The entries an instruction gave to its variables, one line each, sorted.\<close>

fun string_less :: "string \<Rightarrow> string \<Rightarrow> bool" where
  "string_less s [] = False"
| "string_less [] (d # t) = True"
| "string_less (c # s) (d # t) =
     (if of_char c < (of_char d :: nat) then True else if c = d then string_less s t else False)"

fun insert_line :: "string \<Rightarrow> string list \<Rightarrow> string list" where
  "insert_line s [] = [s]"
| "insert_line s (t # ts) = (if string_less t s then t # insert_line s ts else s # t # ts)"

definition aliasLine :: "'t clang \<Rightarrow> 't heap \<Rightarrow> addr \<times> addr \<Rightarrow> string res" where
  "aliasLine C ah p =
     bind_res (deref ah (fst p)) (\<lambda>a.
     bind_res (deref ah (snd p)) (\<lambda>b.
     bind_res (getPtrDepthAccess C (vd_type (declarationOf a)) (vd_type (declarationOf b))) (\<lambda>depth.
       Inr (replicate (nat depth) (CHR ''*'') @ varAsString a @ '' : '' @ varAsString b))))"

definition aliasLines :: "'t clang \<Rightarrow> 't heap \<Rightarrow> 't instruction \<Rightarrow> string res" where
  "aliasLines C ah instr =
     bind_res (map_res (aliasLine C ah) (curAliases instr)) (\<lambda>ls.
       Inr (concat (map (\<lambda>l. newline @ l) (fold insert_line ls []))))"

text \<open>A cluster: the state is the text and the counter of invisible nodes.\<close>

primrec subGenerateDotGraph ::
    "nat \<Rightarrow> 't clang \<Rightarrow> 't heap \<Rightarrow> 't program_graph \<Rightarrow> nat \<Rightarrow> string \<times> nat \<Rightarrow> (string \<times> nat) res" where
  "subGenerateDotGraph 0 C ah st g s = Inl OutOfFuel"
| "subGenerateDotGraph (Suc fuel) C ah st g s =
     (case map_of (graphs st) g of
        None \<Rightarrow> Inl NullDeref
      | Some gr \<Rightarrow>
          fold_res (\<lambda>n (file, k).
            bind_res (deref_node (pnodes st) n) (\<lambda>nd.
            bind_res (map_res (aliasLines C ah) (instructionPtr nd)) (\<lambda>ls.
              fold_res (\<lambda>(i, sub) (file, k).
                  bind_res (subGenerateDotGraph fuel C ah st sub
                      (file @ ''    '' @ string_of_nat n @ '' -> invisibleNodeScope_'' @ string_of_nat k
                        @ ''[label='' @ [CHR 0x22, CHR 0x22] @ ''];'' @ newline
                        @ ''subgraph cluster_'' @ string_of_nat n @ ''_'' @ string_of_nat i @ '' {'' @ newline
                        @ ''label = '' @ [CHR 0x22] @ ''subGraph'' @ string_of_nat n @ ''_'' @ string_of_nat i @ [CHR 0x22] @ '';'' @ newline,
                       k)) (\<lambda>(file', k'). Inr (file' @ ''}'' @ newline, k')))
                (enumerate 0 (subgraphs nd))
                (file @ ''    '' @ string_of_nat n @ '' [label='' @ [CHR 0x22] @ node_instruction nd @ concat ls @ [CHR 0x22] @ ''];'' @ newline, k))))
            (graph_nodes gr)
            (fst s @ ''    invisibleNodeScope_'' @ string_of_nat (snd s) @ '' [style=invis];'' @ newline, Suc (snd s)))"

definition GenerateDotGraph ::
    "nat \<Rightarrow> 't clang \<Rightarrow> 't heap \<Rightarrow> 't program_graph \<Rightarrow> nat list \<Rightarrow> nat \<Rightarrow> (string \<times> nat) res" where
  "GenerateDotGraph fuel C ah st gs k =
     bind_res (fold_res (\<lambda>(i, g) (file, k).
         bind_res (subGenerateDotGraph fuel C ah st g
             (file @ ''subgraph cluster_f'' @ string_of_nat i @ '' {'' @ newline, k)) (\<lambda>(file', k').
           Inr (file' @ ''}'' @ newline, k')))
       (enumerate 0 gs) (''digraph G {'' @ newline, k)) (\<lambda>(file, k').
     bind_res (map_res (generateLinks fuel ah st) gs) (\<lambda>links.
       Inr (file @ concat links @ ''}'' @ newline, k')))"

end
