(* ===== verification/Code_Modification.thy ===== *)
theory Code_Modification
  imports Rewriter_Edits Param_Write
begin

text \<open>
  The code around the tasks (\<open>codeModification.cpp\<close> and \<open>ASTDepthAddVisitor.hpp\<close> of \<open>TaskGraph\<close>): the
  counter of the depth of the tasks, the choice between the parallel and the sequential version of each
  function, and the task group of its body. A function of the unit is its declaration and its body.

  \<open>returnStmts\<close> pairs the return statements of the unit with their functions.
\<close>

record 't depthVisitor =
  functionsToModify :: "('t fundecl \<times> 't stmt) list"
  returnStmts :: "('t stmt \<times> 't fundecl) list"

definition depthVisitor_new :: "'t depthVisitor" where
  "depthVisitor_new = \<lparr>functionsToModify = [], returnStmts = []\<rparr>"

definition isReturnStmt :: "'t stmt \<Rightarrow> bool" where
  "isReturnStmt s = (case s of ReturnStmt _ _ _ \<Rightarrow> True | _ \<Rightarrow> False)"

text \<open>The return statements in the order of the traversal, which does not enter the calls of operators.\<close>

definition isOperatorCall :: "'t stmt \<Rightarrow> bool" where
  "isOperatorCall s = (case exprKind s of Some (CXXOperatorCallExpr _ _) \<Rightarrow> True | _ \<Rightarrow> False)"

function returnsIn :: "'t stmt \<Rightarrow> 't stmt list" where
  "returnsIn s =
     (if isOperatorCall s then []
      else (if isReturnStmt s then [s] else []) @ concat (map returnsIn (children s)))"
  by pat_completeness auto
termination
  by (relation "measure size") (auto intro: size_children)

declare returnsIn.simps [simp del]

definition TraverseFunctionDecl_depth ::
    "string \<Rightarrow> string list \<Rightarrow> string list \<Rightarrow> 't fundecl \<times> 't stmt option \<Rightarrow> 't depthVisitor \<Rightarrow> 't depthVisitor" where
  "TraverseFunctionDecl_depth main functions functionsToIgnore fb v =
     (if functionsConditions main functions functionsToIgnore fb then
        (case snd fb of
           None \<Rightarrow> v
         | Some body \<Rightarrow>
             v\<lparr>functionsToModify := functionsToModify v @ [(fst fb, body)],
               returnStmts := returnStmts v @ map (\<lambda>r. (r, fst fb)) (filter (\<lambda>r. elementsConditions (getBeginLoc r)) (returnsIn body))\<rparr>)
      else v)"

section \<open>The head of the file\<close>

definition includeText :: string where
  "includeText = ''#include <omp.h>'' @ newline @ ''#include <cstring>'' @ newline"

definition depthText :: string where
  "depthText =
     ''const int nb_cores = omp_get_max_threads();'' @ newline
     @ ''const int parallel_depth = ffs(nb_cores);// log2(nb_cores);'' @ newline
     @ ''int __apac_depth = 0;'' @ newline
     @ ''#pragma omp threadprivate(__apac_depth)'' @ newline
     @ ''const static int __apac_depth_max = parallel_depth;'' @ newline @ newline"

definition addInitApacPart :: "srcloc \<Rightarrow> 't fundecl option \<Rightarrow> 't edit list \<Rightarrow> 't edit list" where
  "addInitApacPart beginCodeLoc firstFunction es =
     (case firstFunction of
        None \<Rightarrow> es @ [InsertTextBefore (AtLoc beginCodeLoc) includeText]
      | Some f \<Rightarrow>
          (let printedHeader = (fd_loc f = beginCodeLoc);
               es1 = es @ [InsertTextBefore (AtLoc (fd_loc f)) ((if printedHeader then includeText else []) @ depthText)] in
           if printedHeader then es1 else es1 @ [InsertTextBefore (AtLoc beginCodeLoc) includeText]))"

section \<open>The functions\<close>

definition argumentNames :: "'t fundecl \<Rightarrow> string" where
  "argumentNames f = join '', '' (map vd_name (fd_params f))"

text \<open>The texts after the opening brace of the body and before its closing one.\<close>

definition addFunctionDepth :: "'t clang \<Rightarrow> 't fundecl \<Rightarrow> string \<times> string" where
  "addFunctionDepth C f =
     (''int __apac_depth_local = __apac_depth;'' @ newline
        @ ''int __apac_depth_ok = (__apac_depth_local < __apac_depth_max);'' @ newline
        @ ''if(__apac_depth_ok) {'' @ newline,
      ''}'' @ newline @ ''else {'' @ newline
        @ (if isVoidType C (fd_returnType f) then [] else ''return '')
        @ fd_name f @ ''_apacSeq('' @ argumentNames f @ '');'' @ newline @ ''}'' @ newline)"

definition taskgroupText :: string where
  "taskgroupText = newline @ ''#pragma omp taskgroup'' @ newline @ ''{'' @ newline"

text \<open>The declaration of the variable the pass for returns makes for the result.\<close>

definition isResultDecl :: "'t stmt \<Rightarrow> bool" where
  "isResultDecl s =
     (case s of
        DeclStmt _ _ [(VarDecl v, _)] \<Rightarrow> contains ''__result'' (vd_name v)
      | _ \<Rightarrow> False)"

text \<open>
  The task group is opened after the declaration of the result, or at the begin of the parallel version,
  and closed before the return statement, or at the end of the parallel version.
\<close>

definition handleFunctionTaskGroup ::
    "'t stmt \<Rightarrow> 't stmt option \<Rightarrow> string \<times> string \<Rightarrow> 't edit list \<Rightarrow> ((string \<times> string) \<times> 't edit list) res" where
  "handleFunctionTaskGroup body returnStmt texts es =
     (case children body of
        [] \<Rightarrow> Inl UndefinedAccess
      | firstStmt # _ \<Rightarrow>
          (let (after, es1) = (case returnStmt of
                 None \<Rightarrow> (''}'' @ newline, es)
               | Some r \<Rightarrow> ([], es @ [InsertText (BeginLoc r) (''}'' @ newline)])) in
           Inr (if isResultDecl firstStmt
                then ((fst texts, after @ snd texts), es1 @ [InsertTextBefore (EndLoc firstStmt) taskgroupText])
                else ((fst texts @ taskgroupText, after @ snd texts), es1))))"

definition handleFunction ::
    "'t clang \<Rightarrow> 't stmt option \<Rightarrow> 't fundecl \<times> 't stmt \<Rightarrow> 't edit list \<Rightarrow> 't edit list res" where
  "handleFunction C returnStmt fb es =
     (case fb of (f, body) \<Rightarrow>
        bind_res (handleFunctionTaskGroup body returnStmt (addFunctionDepth C f) es) (\<lambda>((before, after), es1).
          Inr (es1 @ [InsertTextAfterToken (BeginLoc body) before, InsertTextAfter (EndLoc body) after])))"

text \<open>Of the return statements of a function, the last one is in the map.\<close>

definition handleFunctions :: "'t clang \<Rightarrow> 't depthVisitor \<Rightarrow> 't edit list \<Rightarrow> 't edit list res" where
  "handleFunctions C v es =
     (let returnMap = fold (\<lambda>(r, f). aput (fd_canonical f) r) (returnStmts v) [] in
      fold_res (\<lambda>fb. handleFunction C (map_of returnMap (fd_canonical (fst fb))) fb) (functionsToModify v) es)"

definition modifyCode :: "'t clang \<Rightarrow> srcloc \<Rightarrow> 't depthVisitor \<Rightarrow> 't edit list \<Rightarrow> 't edit list res" where
  "modifyCode C beginCodeLoc v es =
     handleFunctions C v
       (addInitApacPart beginCodeLoc (case functionsToModify v of [] \<Rightarrow> None | fb # _ \<Rightarrow> Some (fst fb)) es)"

section \<open>The braces of a function\<close>

text \<open>
  The texts in the order of their places: after the opening brace of the body, after the declaration of
  the result, before the return statement, before the closing brace of the body.
\<close>

definition textAt :: "'t edit list \<Rightarrow> 't place \<Rightarrow> string" where
  "textAt es p = concat (map (\<lambda>e. case e of
       InsertText q t \<Rightarrow> if q = p then t else []
     | InsertTextBefore q t \<Rightarrow> if q = p then t else []
     | InsertTextAfter q t \<Rightarrow> if q = p then t else []
     | InsertTextAfterToken q t \<Rightarrow> if q = p then t else []
     | _ \<Rightarrow> []) es)"

lemma textAt_append [simp]: "textAt (es @ es') p = textAt es p @ textAt es' p"
  by (simp add: textAt_def)

lemma textAt_Cons [simp]:
  "textAt [] p = []"
  "textAt (InsertText q t # es) p = (if q = p then t else []) @ textAt es p"
  "textAt (InsertTextBefore q t # es) p = (if q = p then t else []) @ textAt es p"
  "textAt (InsertTextAfter q t # es) p = (if q = p then t else []) @ textAt es p"
  "textAt (InsertTextAfterToken q t # es) p = (if q = p then t else []) @ textAt es p"
  by (simp_all add: textAt_def)

definition functionPlaces :: "'t stmt \<Rightarrow> 't stmt option \<Rightarrow> 't place list" where
  "functionPlaces body r =
     [BeginLoc body, EndLoc (hd (children body))] @ (case r of None \<Rightarrow> [] | Some s \<Rightarrow> [BeginLoc s]) @ [EndLoc body]"

lemma nest_newline [simp]: "nest d (newline @ t) = nest d t" "nest d newline = Some d"
  using plain_opens [OF plain_newline] by (simp_all add: opens_def nest_append)

lemma nest_plain: "plain s \<Longrightarrow> nest d (s @ t) = nest d t"
  using plain_opens [of s] by (simp add: opens_def nest_append)

lemma addFunctionDepth_nest:
  assumes "plain (fd_name f)" and "\<And>p. p \<in> set (fd_params f) \<Longrightarrow> plain (vd_name p)"
  shows "nest d (fst (addFunctionDepth C f) @ t) = nest (Suc d) t"
    and "nest (Suc d) (snd (addFunctionDepth C f)) = Some d"
proof -
  have "plain (argumentNames f)" unfolding argumentNames_def by (rule plain_join) (use assms(2) in auto)
  then show "nest (Suc d) (snd (addFunctionDepth C f)) = Some d" "nest d (fst (addFunctionDepth C f) @ t) = nest (Suc d) t"
    using assms(1) by (simp_all add: addFunctionDepth_def nest_plain)
qed

lemma nest_taskgroup: "nest d (taskgroupText @ t) = nest (Suc d) t"
  by (simp add: taskgroupText_def)

text \<open>
  C24: with names without braces, the texts inserted in a function are well bracketed when they are read
  in the order of their places: the task group is closed, inside the conditional that chooses the
  parallel version, which is closed before its \<open>else\<close>.
\<close>

theorem handleFunction_bracketed:
  assumes "handleFunction C r (f, body) [] = Inr es" and "plain (fd_name f)"
    and "\<And>p. p \<in> set (fd_params f) \<Longrightarrow> plain (vd_name p)"
    and "isCompoundStmt body" and "\<And>s. r = Some s \<Longrightarrow> isReturnStmt s"
  shows "bracketed (concat (map (textAt es) (functionPlaces body r)))"
proof -
  obtain first rest where body: "children body = first # rest"
    using assms(1) by (auto simp: handleFunction_def handleFunctionTaskGroup_def split: list.splits)
  have "first \<noteq> body" using size_children [of first body] body by auto
  have ret: "s \<noteq> body" if "r = Some s" for s
    using assms(4) assms(5) [OF that] by (auto simp: isReturnStmt_def isCompoundStmt_def split: stmt.splits)
  note nest = addFunctionDepth_nest [OF assms(2,3)] nest_taskgroup
  show ?thesis
    using assms(1) ret \<open>first \<noteq> body\<close>
    by (cases r; cases "isResultDecl first")
      (auto simp: handleFunction_def handleFunctionTaskGroup_def body functionPlaces_def bracketed_def nest split_beta)
qed

end
