(* ===== verification/Task_Driver.thy ===== *)
theory Task_Driver
  imports Output_Balance Output_Dot Code_Modification
begin

text \<open>
  The pass on one file (\<open>HandleTranslationUnit\<close> of \<open>taskGraph.cpp\<close>): the analysis of the parameters,
  the traversal, the graphs, their optimisation with the order of the statements that follows it, and the
  edits. The file is the list of its functions. The results are the two graphs in the DOT language and
  the edits in the order of the calls.

  The nesting of the graphs is bounded by their number, which is the fuel of the functions that go down
  into the nested graphs.
\<close>

definition optimizeAndOrder :: "nat \<Rightarrow> 't heap \<Rightarrow> nat \<Rightarrow> 't program_graph \<times> 't orders \<Rightarrow> ('t program_graph \<times> 't orders) res" where
  "optimizeAndOrder fuel ah g s =
     (case s of (st, oh) \<Rightarrow>
        bind_res (optimizeGraph fuel ah g st) (\<lambda>st1.
        bind_res (updateInstructionOrderFromGraph fuel st1 g 0 oh) (\<lambda>oh1. Inr (st1, oh1))))"

definition visitUnit ::
    "'t clang \<Rightarrow> string \<Rightarrow> string list \<Rightarrow> string list \<Rightarrow> 't unit_functions \<Rightarrow> 't visitor res" where
  "visitUnit C main functions functionsToIgnore unit =
     bind_res (analyzeTranslationUnit C unit) (\<lambda>written.
       fold_res (TraverseFunctionDecl C (Some written) main functions functionsToIgnore) unit visitor_start)"

record 't unitOutput =
  rawGraph :: string
  optGraph :: string
  unitEdits :: "'t edit list"

definition HandleTranslationUnit ::
    "'t clang \<Rightarrow> ('t edit list \<Rightarrow> 't stmt \<Rightarrow> nat) \<Rightarrow> string \<Rightarrow> string list \<Rightarrow> string list \<Rightarrow> srcloc \<Rightarrow>
     't unit_functions \<Rightarrow> 't unitOutput res" where
  "HandleTranslationUnit C rsize main functions functionsToIgnore codeBeginLoc unit =
     (let depthVis = fold (TraverseFunctionDecl_depth main functions functionsToIgnore) unit depthVisitor_new in
      bind_res (visitUnit C main functions functionsToIgnore unit) (\<lambda>v.
      bind_res (generateGraph (vtable v) (vscopes v) program_empty) (\<lambda>(gs, st).
      (let fuel = graph_idCounter st; ah = heap (vtable v) in
       bind_res (GenerateDotGraph fuel C ah st gs 0) (\<lambda>(raw, k).
       bind_res (fold_res (optimizeAndOrder fuel ah) gs (st, vorders v)) (\<lambda>(st1, oh).
       bind_res (GenerateDotGraph fuel C ah st1 gs k) (\<lambda>(opt, _).
       bind_res (deref_order oh 0) (\<lambda>so.
       bind_res (modifyFile \<lparr>oclang = C, oheap = ah, onodes = pnodes st1, oorders = oh, rewrittenSize = rsize\<rparr> so []) (\<lambda>es.
       bind_res (modifyCode C codeBeginLoc depthVis es) (\<lambda>es1.
         Inr \<lparr>rawGraph = raw, optGraph = opt, unitEdits = es1\<rparr>))))))))))"

section \<open>An example\<close>

text \<open>\<open>void f() { x2 = 23; if (x3) { x2 = 53; } x4 = 63; }\<close>\<close>

definition ex_branch :: "ex_type stmt" where
  "ex_branch =
     CompoundStmt 10 (ex_at 10)
       [ex_assign 20 2,
        IfStmt 30 (ex_at 30) (ex_use 32 3 IntT) (CompoundStmt 40 (ex_at 40) [ex_assign 50 2]) None,
        ex_assign 60 4]"

definition ex_task_fun :: "ex_type fundecl" where
  "ex_task_fun = \<lparr>fd_canonical = 100, fd_name = ''f'', fd_params = [], fd_loc = ex_at 0,
     fd_isConst = False, fd_returnType = IntT, fd_context = 0\<rparr>"

definition ex_run :: "ex_type stmt \<Rightarrow> ex_type unitOutput res" where
  "ex_run body = HandleTranslationUnit ex_clang (\<lambda>es s. 3) ''main'' [] [] (ex_at 0) [(ex_task_fun, Some body)]"

section \<open>Witnesses\<close>

text \<open>The handler of the example after the optimisation.\<close>

definition ex_handler :: "ex_type outputHandler res" where
  "ex_handler =
     bind_res (visitUnit ex_clang ''main'' [] [] [(ex_task_fun, Some ex_branch)]) (\<lambda>v.
     bind_res (generateGraph (vtable v) (vscopes v) program_empty) (\<lambda>(gs, st).
     bind_res (fold_res (optimizeAndOrder (graph_idCounter st) (heap (vtable v))) gs (st, vorders v)) (\<lambda>(st1, oh).
       Inr \<lparr>oclang = ex_clang, oheap = heap (vtable v), onodes = pnodes st1, oorders = oh, rewrittenSize = (\<lambda>es s. 3)\<rparr>)))"

text \<open>The assumptions on the texts, tested on the lists of the handler.\<close>

definition entry_check :: "'t clang \<Rightarrow> 't aliasArg \<Rightarrow> bool" where
  "entry_check C arg \<longleftrightarrow> plain (varAsString arg)
     \<and> (case expression arg of None \<Rightarrow> True | Some e \<Rightarrow>
         (case getArraySubscriptsIndexes C e of Inl _ \<Rightarrow> True
          | Inr is \<Rightarrow> list_all (\<lambda>i. list_all (\<lambda>d. plain (refName d)) (getAllDeclRefExprInsideExpr (Some i))) is))"

definition stmt_check :: "'t clang \<Rightarrow> 't stmt \<Rightarrow> bool" where
  "stmt_check C s \<longleftrightarrow> bracketed (getStmtAsString C (Some s) False) \<and> bracketed (getStmtAsStringFull C (Some s))
     \<and> (case getSubExpr s of Inl _ \<Rightarrow> True | Inr arg \<Rightarrow> plain (refName (ignoreImpCasts C arg)))"

definition order_check :: "'t clang \<Rightarrow> 't stmtOrder \<Rightarrow> bool" where
  "order_check C so \<longleftrightarrow> list_all (\<lambda>(g, gr). list_all (\<lambda>x. stmt_check C (fst x)) gr) (instructionGroups so)"

lemma entry_checkD:
  assumes "entry_check C arg"
  shows "plain (varAsString arg)"
    and "expression arg = Some e \<Longrightarrow> getArraySubscriptsIndexes C e = Inr is \<Longrightarrow> i \<in> set is \<Longrightarrow>
      d \<in> set (getAllDeclRefExprInsideExpr (Some i)) \<Longrightarrow> plain (refName d)"
  using assms by (simp_all add: entry_check_def list_all_iff)

lemma stmt_check_texts: "stmt_check (oclang X) s \<Longrightarrow> stmt_texts X s"
  by (auto simp: stmt_check_def stmt_texts_def split: sum.splits)

lemma order_check_texts: "order_check (oclang X) so \<Longrightarrow> order_texts X so"
  unfolding order_check_def order_texts_def list_all_iff by (blast intro: stmt_check_texts)

lemma result_Inr: "(case r of Inl _ \<Rightarrow> False | Inr _ \<Rightarrow> True) \<Longrightarrow> r = Inr (projr r)"
  by (cases r) simp_all

lemma texts_check:
  assumes "list_all (\<lambda>p. entry_check (oclang X) (snd p)) (oheap X)" and "list_all (\<lambda>p. order_check (oclang X) (snd p)) (oorders X)"
  shows "texts_ok X"
proof -
  have "entry_check (oclang X) arg" if "map_of (oheap X) a = Some arg" for a arg
    using assms(1) map_of_SomeD [OF that] unfolding list_all_iff by (metis snd_conv)
  then have "entry_texts X"
    unfolding entry_texts_def by (blast intro: entry_checkD)
  moreover have "order_check (oclang X) so" if "map_of (oorders X) n = Some so" for n so
    using assms(2) map_of_SomeD [OF that] unfolding list_all_iff by (metis snd_conv)
  ultimately show ?thesis by (auto simp: texts_ok_def intro: order_check_texts)
qed

text \<open>The text of the conditional of the example is the eighth edit.\<close>

definition ex_modified :: "(ex_type outputHandler \<times> ex_type stmtOrder \<times> ex_type edit list) res" where
  "ex_modified = bind_res ex_handler (\<lambda>X. bind_res (deref_order (oorders X) 0) (\<lambda>so.
     bind_res (modifyFile X so []) (\<lambda>es. Inr (X, so, es))))"

lemma modifyFile_bracketed_witness:
  "\<exists>X so es u. ex_modified = Inr (X, so, es) \<and> modifyFile X so [] = Inr es
     \<and> es ! 7 = InsertText (BeginLoc (children ex_branch ! 1)) u \<and> length u > 60 \<and> bracketed u"
proof -
  have "case ex_modified of Inl _ \<Rightarrow> False | Inr (X, so, es) \<Rightarrow>
      list_all (\<lambda>p. entry_check ex_clang (snd p)) (oheap X) \<and> list_all (\<lambda>p. order_check ex_clang (snd p)) (oorders X)
      \<and> order_check ex_clang so \<and> length es > 7
      \<and> (case es ! 7 of InsertText l t \<Rightarrow> l = BeginLoc (children ex_branch ! 1) \<and> length t > 60 | _ \<Rightarrow> False)"
    by code_simp
  then obtain X so es where f: "ex_modified = Inr (X, so, es)"
    and c: "list_all (\<lambda>p. entry_check ex_clang (snd p)) (oheap X)" "list_all (\<lambda>p. order_check ex_clang (snd p)) (oorders X)"
      "order_check ex_clang so" "length es > 7"
    and "case es ! 7 of InsertText l t \<Rightarrow> l = BeginLoc (children ex_branch ! 1) \<and> length t > 60 | _ \<Rightarrow> False"
    by (auto split: sum.splits)
  then obtain u where u: "es ! 7 = InsertText (BeginLoc (children ex_branch ! 1)) u" "length u > 60"
    by (auto split: edit.splits)
  have X: "oclang X = ex_clang" and es: "modifyFile X so [] = Inr es"
    using f by (auto simp: ex_modified_def ex_handler_def res_simps)
  have "InsertText (BeginLoc (children ex_branch ! 1)) u \<in> set es" using nth_mem [OF c(4)] unfolding u(1) .
  moreover have "texts_ok X" "order_texts X so" using c by (auto intro: texts_check order_check_texts simp: X)
  ultimately have "bracketed u" using modifyFile_bracketed [OF _ _ es] by blast
  with f es u show ?thesis by blast
qed

lemma handleFunction_bracketed_witness:
  "\<exists>es. handleFunction ex_clang None (ex_task_fun, ex_branch) [] = Inr es
     \<and> bracketed (concat (map (textAt es) (functionPlaces ex_branch None)))"
proof -
  let ?r = "handleFunction ex_clang None (ex_task_fun, ex_branch) []"
  have r: "?r = Inr (projr ?r)" by (rule result_Inr) code_simp
  have n: "plain (fd_name ex_task_fun)" "fd_params ex_task_fun = []" "isCompoundStmt ex_branch" by code_simp+
  have "bracketed (concat (map (textAt (projr ?r)) (functionPlaces ex_branch None)))"
    by (rule handleFunction_bracketed [OF r n(1)]) (simp_all add: n)
  with r show ?thesis by (intro exI [of _ "projr ?r"] conjI)
qed

section \<open>Properties\<close>

text \<open>
  For the program of the example the pass inserts the tasks around the two assignments to \<open>x2\<close>
  with their clauses, the one inside the conditional included, and the task group with its alternative
  around the body.
\<close>

lemma example_unit_output:
  "bind_res (ex_run ex_branch) (\<lambda>u. Inr (List.map_filter (\<lambda>e. case e of InsertText _ t \<Rightarrow> Some t | _ \<Rightarrow> None) (unitEdits u)))
   = Inr [''#pragma omp task default(shared)  depend (inout:x2) '' @ newline @ ''{'' @ newline @ ''stmt20;'' @ newline @ ''}'' @ newline,
       ''if(x3){'' @ newline @ ''#pragma omp task default(shared)  depend (inout:x2) '' @ newline @ ''{'' @ newline
         @ ''stmt50;'' @ newline @ ''}'' @ newline @ ''}'' @ newline,
       ''#pragma omp task default(shared) '' @ newline @ ''{'' @ newline @ ''stmt60;'' @ newline @ ''}'' @ newline]"
  by code_simp

text \<open>
  The condition and the increment of a \<open>for\<close> become instructions of its graph, but the traversal
  leaves them out of the order, so the assertion of \<open>addNodeToGroup\<close> fails for such a loop.
\<close>

lemma for_header_not_in_order:
  "(\<exists>v. visitUnit ex_clang ''main'' [] [] [(ex_task_fun, Some ex_loop)] = Inr v) \<and> ex_run ex_loop = Inl AssertFailed"
proof -
  let ?r = "visitUnit ex_clang ''main'' [] [] [(ex_task_fun, Some ex_loop)]"
  have "?r = Inr (projr ?r)" by (rule result_Inr) code_simp
  moreover have "ex_run ex_loop = Inl AssertFailed" by code_simp
  ultimately show ?thesis by blast
qed

end
