(* ===== verification/Constify_Table.thy ===== *)
theory Constify_Table
  imports Rewriter_Edits Param_Write
begin

text \<open>
  The table of the pass that adds \<open>const\<close> (\<open>Constify\<close>: \<open>core.hpp\<close>, \<open>core.cpp\<close>, \<open>SymTab.cpp\<close>). A
  \<open>const_arg\<close> stands for a variable, a field, a method or a use of \<open>this\<close>; pointers to \<open>const_arg\<close> are
  the keys of the two tables, the address of the canonical declaration or of the expression.
  \<open>operator[]\<close> makes an entry whose fields are all false or null.
\<close>

datatype const_key = DeclKey nat | ThisKey nat

record 't const_arg =
  is_const :: bool
  is_ptr_or_ref :: bool
  method_of :: "'t fundecl option"
  declaration_of :: "'t vardecl option"
  field_of :: "'t vardecl option"
  dependencies :: "const_key list"

type_synonym 't const_table = "(const_key \<times> 't const_arg) list"

definition const_arg_new :: "'t const_arg" where
  "const_arg_new = \<lparr>is_const = False, is_ptr_or_ref = False, method_of = None, declaration_of = None,
     field_of = None, dependencies = []\<rparr>"

text \<open>The table with the method last visited.\<close>

record 't symtab =
  const_arg_table :: "'t const_table"
  lastMethDecl :: "'t fundecl option"

definition symtab_new :: "'t symtab" where
  "symtab_new = \<lparr>const_arg_table = [], lastMethDecl = None\<rparr>"

definition arg_at :: "'t const_table \<Rightarrow> const_key \<Rightarrow> 't const_arg" where
  "arg_at m k = (case map_of m k of None \<Rightarrow> const_arg_new | Some a \<Rightarrow> a)"

section \<open>The variable inside an expression\<close>

definition isKind :: "('t ekind \<Rightarrow> bool) \<Rightarrow> 't stmt \<Rightarrow> bool" where
  "isKind P e = (case exprKind e of None \<Rightarrow> False | Some k \<Rightarrow> P k)"

definition isUnary :: "'t stmt \<Rightarrow> bool" where
  "isUnary = isKind (\<lambda>k. case k of UnaryOperator _ \<Rightarrow> True | _ \<Rightarrow> False)"

definition isBinary :: "'t stmt \<Rightarrow> bool" where
  "isBinary = isKind (\<lambda>k. case k of BinaryOperator _ \<Rightarrow> True | CompoundAssignOperator \<Rightarrow> True | _ \<Rightarrow> False)"

definition isMember :: "'t stmt \<Rightarrow> bool" where
  "isMember = isKind (\<lambda>k. case k of MemberExpr _ \<Rightarrow> True | _ \<Rightarrow> False)"

text \<open>
  The loops run ten rounds at most; reaching the tenth one fails, since it dereferences the expression
  for the dump when it is null and fails the assertion otherwise. \<open>i\<close> counts the rounds left.
\<close>

fun getInnerExpr_loop :: "'t clang \<Rightarrow> nat \<Rightarrow> 't stmt \<Rightarrow> 't stmt option res" where
  "getInnerExpr_loop C 0 e = Inl AssertFailed"
| "getInnerExpr_loop C (Suc i) e =
     (let e' = ignoreCasts C e in
      if isDeclRefExpr e' \<or> isMember e' then (if i = 0 then Inl AssertFailed else Inr (Some e'))
      else if isUnary e' then bind_res (getSubExpr e') (getInnerExpr_loop C i)
      else if isArraySubscriptExpr e' then bind_res (getBase C e') (getInnerExpr_loop C i)
      else if exprKind e' = Some CXXNewExpr \<or> isCallExpr e' then (if i = 0 then Inl NullDeref else Inr None)
      else getInnerExpr_loop C i e')"

definition getInnerExpr :: "'t clang \<Rightarrow> 't stmt option \<Rightarrow> 't stmt option res" where
  "getInnerExpr C e = (case e of None \<Rightarrow> Inr None | Some s \<Rightarrow> getInnerExpr_loop C 10 s)"

fun getInnerPtr_loop :: "'t clang \<Rightarrow> nat \<Rightarrow> 't stmt \<Rightarrow> 't stmt option res" where
  "getInnerPtr_loop C 0 e = Inl AssertFailed"
| "getInnerPtr_loop C (Suc i) e =
     (if isDeclRefExpr e then
        bind_res (getInnerExpr C (Some e)) (\<lambda>r. if i = 0 then Inl NullDeref else Inr r)
      else if isMember e then (if i = 0 then Inl NullDeref else Inr (Some e))
      else if isBinary e then
        bind_res (getLHS e) (\<lambda>l. bind_res (exprType l) (\<lambda>tl.
          if isPointerQualType C tl then getInnerPtr_loop C i l
          else bind_res (getRHS e) (\<lambda>r. bind_res (exprType r) (\<lambda>tr.
            if isPointerQualType C tr then getInnerPtr_loop C i r else getInnerPtr_loop C i e))))
      else if isUnary e then bind_res (getSubExpr e) (getInnerPtr_loop C i)
      else if isArraySubscriptExpr e then bind_res (getBase C e) (getInnerPtr_loop C i)
      else if exprKind e \<in> {Some StringLiteral, Some GNUNullExpr, Some CXXNewExpr} \<or> isCallExpr e then
        (if i = 0 then Inl NullDeref else Inr None)
      else getInnerPtr_loop C i (ignoreParenCasts C e))"

definition getInnerPtr :: "'t clang \<Rightarrow> 't stmt \<Rightarrow> 't stmt option res" where
  "getInnerPtr C e = getInnerPtr_loop C 10 e"

definition valueInit :: "'t stmt option \<Rightarrow> bool" where
  "valueInit ini = (case ini of None \<Rightarrow> False | Some e \<Rightarrow> exprKind e \<noteq> Some CXXNewExpr)"

definition isExprACall :: "'t clang \<Rightarrow> 't stmt option \<Rightarrow> bool" where
  "isExprACall C e = (case e of None \<Rightarrow> False | Some s \<Rightarrow> isCallExpr (ignoreCasts C s))"

section \<open>Look-ups\<close>

text \<open>
  A look-up makes the entry when there is none, so it returns the key and the table. A variable of a
  system header has no entry.
\<close>

definition getHashTableValue :: "const_key \<Rightarrow> 't symtab \<Rightarrow> 't symtab" where
  "getHashTableValue k s = s\<lparr>const_arg_table := ains k const_arg_new (const_arg_table s)\<rparr>"

definition declKey :: "srcloc \<Rightarrow> nat \<Rightarrow> const_key option" where
  "declKey l c = (if loc_system l then None else Some (DeclKey c))"

text \<open>The key \<open>getInnerConstArg\<close> finds for an expression; \<open>None\<close> is the null pointer.\<close>

definition innerKey :: "'t clang \<Rightarrow> 't stmt option \<Rightarrow> const_key option res" where
  "innerKey C e =
     (case e of
        None \<Rightarrow> Inr None
      | Some s \<Rightarrow>
          (if exprKind s = Some CXXThisExpr then Inr (Some (ThisKey (sid s)))
           else
             bind_res (exprType s) (\<lambda>t.
             bind_res (if isPointerQualType C t then getInnerPtr C s else getInnerExpr C (Some s)) (\<lambda>val.
               Inr (case val of
                      None \<Rightarrow> None
                    | Some v \<Rightarrow>
                        (case exprKind v of
                           Some CXXThisExpr \<Rightarrow> Some (ThisKey (sid v))
                         | Some (MemberExpr (FieldMember f)) \<Rightarrow> declKey (vd_loc f) (vd_canonical f)
                         | Some (MemberExpr (MethodMember m)) \<Rightarrow> declKey (fd_loc m) (fd_canonical m)
                         | Some (DeclRefExpr (VarDecl d)) \<Rightarrow> declKey (vd_loc d) (vd_canonical d)
                         | Some (DeclRefExpr (OtherDecl n _ l)) \<Rightarrow> declKey l n
                         | _ \<Rightarrow> None))))))"

definition getInnerConstArg :: "'t clang \<Rightarrow> 't stmt option \<Rightarrow> 't symtab \<Rightarrow> (const_key option \<times> 't symtab) res" where
  "getInnerConstArg C e s =
     bind_res (innerKey C e) (\<lambda>k. Inr (k, case k of None \<Rightarrow> s | Some k' \<Rightarrow> getHashTableValue k' s))"

definition update_arg :: "const_key \<Rightarrow> ('t const_arg \<Rightarrow> 't const_arg) \<Rightarrow> 't symtab \<Rightarrow> 't symtab" where
  "update_arg k f s = s\<lparr>const_arg_table := aput k (f (arg_at (const_arg_table s) k)) (const_arg_table s)\<rparr>"

definition addDependencyHashTable :: "const_key option \<Rightarrow> const_key option \<Rightarrow> 't symtab \<Rightarrow> 't symtab" where
  "addDependencyHashTable cur dep s =
     (case (cur, dep) of
        (Some c, Some d) \<Rightarrow> update_arg c (\<lambda>a. a\<lparr>dependencies := dependencies a @ [d]\<rparr>) s
      | _ \<Rightarrow> s)"

end
