(* ===== verification/Constify_Passes.thy ===== *)
theory Constify_Passes
  imports Constify_Table
begin

text \<open>
  The two passes that decide what is constant (\<open>ASTInitVisitor.cpp\<close>, \<open>ASTConstifyVisitor.cpp\<close>). A
  pass visits the declarations and the nodes of the bodies in the order of Clang's traversal; the first
  one makes the entries and their dependencies, the second one takes the constness from what is written
  and from everything that depends on it.
\<close>

section \<open>The traversal\<close>

datatype 't topdecl =
  FunctionTop "'t fundecl" "'t stmt option"
| MethodTop "'t fundecl" "'t stmt option"
| ConstructorTop "'t fundecl" "'t stmt list" "'t stmt option"
| FieldTop "'t vardecl"

datatype 't visit =
  VisitMethod "'t fundecl" "'t stmt option"
| VisitField "'t vardecl"
| VisitVar "'t vardecl" "'t stmt option"
| VisitParam "'t vardecl"
| VisitNode "'t stmt"

text \<open>\<open>APACRecursiveASTVisitor\<close> does not enter an operator called on the variable for the result.\<close>

definition resultOperator :: "'t clang \<Rightarrow> 't stmt \<Rightarrow> bool" where
  "resultOperator C s \<longleftrightarrow>
     (case exprKind s of Some (CXXOperatorCallExpr _ _) \<Rightarrow> True | _ \<Rightarrow> False)
     \<and> (isInHeaders (getBeginLoc s)
        \<or> (case callArgs s of [] \<Rightarrow> False | a # _ \<Rightarrow>
             (case exprKind (ignoreParenCasts C a) of
                Some (DeclRefExpr (VarDecl v)) \<Rightarrow> vd_name v = ''__result''
              | _ \<Rightarrow> False)))"

lemma size_init: "p \<in> set ds \<Longrightarrow> snd p = Some e \<Longrightarrow> size e < size (DeclStmt i l ds)"
  by (rule size_children) (simp add: List.map_filter_def, rule image_eqI [where x = p], simp_all)

function visitsIn :: "'t clang \<Rightarrow> 't stmt \<Rightarrow> 't visit list" where
  "visitsIn C s =
     (if resultOperator C s \<or> isIfStmt s \<and> isInHeaders (getBeginLoc s) then []
      else VisitNode s #
        (case s of
           DeclStmt _ _ ds \<Rightarrow>
             concat (map (\<lambda>p.
               (case fst p of VarDecl v \<Rightarrow> [VisitVar v (snd p)] | OtherDecl _ _ _ \<Rightarrow> [])
               @ (case snd p of None \<Rightarrow> [] | Some e \<Rightarrow> visitsIn C e)) ds)
         | _ \<Rightarrow> concat (map (visitsIn C) (children s))))"
  by pat_completeness auto
termination
proof (relation "measure (\<lambda>(C, s). size s)", goal_cases)
  case 1
  show ?case by simp
qed (simp_all del: children.simps stmt.size add: size_init size_children)

declare visitsIn.simps [simp del]

text \<open>
  The conditions on functions are asked for functions and methods, which must be definitions;
  constructors and destructors are visited whenever they are outside the headers, with their
  initialisers.
\<close>

definition bodyVisits :: "'t clang \<Rightarrow> 't fundecl \<Rightarrow> 't stmt list \<Rightarrow> 't stmt option \<Rightarrow> 't visit list" where
  "bodyVisits C f inits body =
     map VisitParam (fd_params f) @ concat (map (visitsIn C) inits)
     @ (case body of None \<Rightarrow> [] | Some b \<Rightarrow> visitsIn C b)"

definition visitsOf :: "'t clang \<Rightarrow> string \<Rightarrow> string list \<Rightarrow> string list \<Rightarrow> 't topdecl \<Rightarrow> 't visit list" where
  "visitsOf C main functions functionsToIgnore d =
     (case d of
        FunctionTop f body \<Rightarrow>
          (if functionsConditions main functions functionsToIgnore (f, body) then bodyVisits C f [] body else [])
      | MethodTop f body \<Rightarrow>
          (if functionsConditions main functions functionsToIgnore (f, body)
           then VisitMethod f body # bodyVisits C f [] body else [])
      | ConstructorTop f inits body \<Rightarrow>
          (if elementsConditions (fd_loc f) then VisitMethod f body # bodyVisits C f inits body else [])
      | FieldTop v \<Rightarrow> (if elementsConditions (vd_loc v) then [VisitField v] else []))"

section \<open>The first pass\<close>

definition initThis :: "'t stmt \<Rightarrow> 't symtab \<Rightarrow> 't symtab res" where
  "initThis e s =
     (case lastMethDecl s of
        None \<Rightarrow> Inl AssertFailed
      | Some m \<Rightarrow>
          (let k = ThisKey (sid e); km = DeclKey (fd_canonical m);
               s1 = getHashTableValue km (getHashTableValue k s) in
           Inr (addDependencyHashTable (Some k) (Some km)
                 (update_arg k (\<lambda>a. a\<lparr>is_const := True, is_ptr_or_ref := True\<rparr>) s1))))"

definition initMethod :: "'t fundecl \<Rightarrow> 't symtab \<Rightarrow> 't symtab" where
  "initMethod m s =
     update_arg (DeclKey (fd_canonical m)) (\<lambda>a. a\<lparr>method_of := Some m, is_const := True\<rparr>) s\<lparr>lastMethDecl := Some m\<rparr>"

definition initField :: "'t clang \<Rightarrow> 't vardecl \<Rightarrow> 't symtab \<Rightarrow> 't symtab" where
  "initField C f s =
     update_arg (DeclKey (vd_canonical f))
       (\<lambda>a. a\<lparr>field_of := Some f, is_ptr_or_ref := is_ptr_or_ref a \<or> isPointerType C (vd_type f) \<or> isReferenceType C (vd_type f)\<rparr>) s"

text \<open>A pointer or reference and its initial value depend on each other.\<close>

definition initVar :: "'t clang \<Rightarrow> 't vardecl \<Rightarrow> 't stmt option \<Rightarrow> 't symtab \<Rightarrow> 't symtab res" where
  "initVar C v ini s =
     (let k = DeclKey (vd_canonical v);
          s1 = update_arg k (\<lambda>a. a\<lparr>is_const := True, declaration_of := Some v\<rparr>) s in
      if isNullType C (vd_type v) \<or> \<not> (isPointerType C (vd_type v) \<or> isReferenceType C (vd_type v)) then Inr s1
      else
        (let s2 = update_arg k (\<lambda>a. a\<lparr>is_ptr_or_ref := True\<rparr>) s1 in
         if \<not> valueInit ini then Inr s2
         else
           bind_res (getInnerConstArg C ini s2) (\<lambda>(k', s3).
             Inr (addDependencyHashTable k' (Some k) (addDependencyHashTable (Some k) k' s3)))))"

text \<open>The parameters that are pointers or references depend on the arguments.\<close>

definition initParam :: "'t clang \<Rightarrow> 't stmt list \<Rightarrow> nat \<times> 't vardecl \<Rightarrow> 't symtab \<Rightarrow> 't symtab res" where
  "initParam C args ip s =
     (case ip of (i, p) \<Rightarrow>
        (let k = DeclKey (vd_canonical p); s1 = getHashTableValue k s in
         if \<not> is_ptr_or_ref (arg_at (const_arg_table s1) k) then Inr s1
         else if i \<ge> length args then Inl OutOfRange
         else
           bind_res (getInnerConstArg C (Some (args ! i)) s1) (\<lambda>(k', s2).
             Inr (addDependencyHashTable (Some k) k' s2))))"

definition isMemberCall :: "'t stmt \<Rightarrow> bool" where
  "isMemberCall = isKind (\<lambda>k. case k of CXXMemberCallExpr _ \<Rightarrow> True | _ \<Rightarrow> False)"

definition initCall :: "'t clang \<Rightarrow> 't stmt \<Rightarrow> 't symtab \<Rightarrow> 't symtab res" where
  "initCall C ce s =
     (case callCallee ce of
        Some (Some f) \<Rightarrow>
          (if loc_system (fd_loc f) then Inr s
           else
             bind_res
               (if isMemberCall ce then
                  bind_res (getInnerConstArg C (getImplicitObjectArgument C ce) s) (\<lambda>(k, s1).
                    (let km = DeclKey (fd_canonical f) in
                     Inr (addDependencyHashTable (Some km) k (getHashTableValue km s1))))
                else Inr s)
               (fold_res (initParam C (callArgs ce)) (enumerate 0 (fd_params f))))
      | _ \<Rightarrow> Inl AssertFailed)"

definition initBinary :: "'t clang \<Rightarrow> 't stmt \<Rightarrow> 't symtab \<Rightarrow> 't symtab res" where
  "initBinary C bop s =
     (if \<not> isAssignment bop then Inr s
      else
        bind_res (getLHS bop) (\<lambda>l.
        bind_res (exprType l) (\<lambda>t.
          if \<not> isPointerQualType C t then Inr s
          else
            bind_res (getInnerConstArg C (Some l) s) (\<lambda>(cur, s1).
            bind_res (getRHS bop) (\<lambda>r.
            bind_res (getInnerConstArg C (Some r) s1) (\<lambda>(pointed, s2).
              Inr (addDependencyHashTable pointed cur (addDependencyHashTable cur pointed s2))))))))"

definition initVisit :: "'t clang \<Rightarrow> 't visit \<Rightarrow> 't symtab \<Rightarrow> 't symtab res" where
  "initVisit C v s =
     (case v of
        VisitMethod m _ \<Rightarrow> Inr (if loc_system (fd_loc m) then s else initMethod m s)
      | VisitField f \<Rightarrow> Inr (if loc_system (vd_loc f) then s else initField C f s)
      | VisitVar d ini \<Rightarrow> (if loc_system (vd_loc d) then Inr s else initVar C d ini s)
      | VisitParam d \<Rightarrow> (if loc_system (vd_loc d) then Inr s else initVar C d None s)
      | VisitNode e \<Rightarrow>
          (if loc_system (getBeginLoc e) then Inr s
           else if exprKind e = Some CXXThisExpr then initThis e s
           else if isCallExpr e then initCall C e s
           else if isBinary e then initBinary C e s
           else Inr s))"

section \<open>Taking the constness away\<close>

definition const_at :: "'t const_table \<Rightarrow> const_key \<Rightarrow> bool" where
  "const_at m k = is_const (arg_at m k)"

definition set_nonconst :: "const_key \<Rightarrow> 't const_table \<Rightarrow> 't const_table" where
  "set_nonconst k m = aput k ((arg_at m k)\<lparr>is_const := False\<rparr>) m"

definition constDependencies :: "'t const_table \<Rightarrow> const_key \<Rightarrow> const_key list" where
  "constDependencies m k = filter (const_at m) (dependencies (arg_at m k))"

definition const_keys :: "'t const_table \<Rightarrow> const_key set" where
  "const_keys m = {k. const_at m k}"

lemma arg_at_aput [simp]: "arg_at (aput k a m) x = (if x = k then a else arg_at m x)"
  by (simp add: arg_at_def)

lemma const_at_set [simp]: "const_at (set_nonconst k m) x \<longleftrightarrow> x \<noteq> k \<and> const_at m x"
  by (simp add: const_at_def set_nonconst_def)

lemma dependencies_set [simp]: "dependencies (arg_at (set_nonconst k m) x) = dependencies (arg_at m x)"
  by (simp add: set_nonconst_def)

lemma finite_const_keys [simp]: "finite (const_keys m)"
proof -
  have "const_keys m \<subseteq> fst ` set m"
    by (auto simp: const_keys_def const_at_def arg_at_def const_arg_new_def split: option.splits dest: map_of_in_dom)
  then show ?thesis using finite_surj by blast
qed

text \<open>
  The loop with its stack. A constant entry that is popped becomes non constant; one that is not pushes
  constant entries only. So the constant entries, and then the non constant ones on the stack, decrease.
\<close>

function unconstify_loop :: "'t const_table \<Rightarrow> const_key list \<Rightarrow> 't const_table" where
  "unconstify_loop m [] = m"
| "unconstify_loop m (curArg # stackUnconst) =
     (let m' = set_nonconst curArg m in
      unconstify_loop m' (rev (constDependencies m' curArg) @ stackUnconst))"
  by pat_completeness auto
termination
proof (relation "measures [\<lambda>(m, q). card (const_keys m), \<lambda>(m, q). length (filter (\<lambda>k. \<not> const_at m k) q)]", goal_cases)
  case (2 m k q m')
  have sub: "const_keys m' = const_keys m - {k}" using 2 by (auto simp: const_keys_def)
  show ?case
  proof (cases "const_at m k")
    case True
    then have "k \<in> const_keys m" by (simp add: const_keys_def)
    then have "const_keys m' \<subset> const_keys m" using sub by blast
    then have "card (const_keys m') < card (const_keys m)" by (rule psubset_card_mono [OF finite_const_keys])
    then show ?thesis by simp
  next
    case False
    then have "const_keys m' = const_keys m" using sub by (auto simp: const_keys_def)
    moreover have "filter (\<lambda>x. \<not> const_at m' x) (rev (constDependencies m' k)) = []"
      by (simp add: constDependencies_def filter_empty_conv)
    moreover have "filter (\<lambda>x. \<not> const_at m' x) q = filter (\<lambda>x. \<not> const_at m x) q"
      using False 2 by (intro filter_cong) auto
    ultimately show ?thesis using False by simp
  qed
qed simp

definition unconstifyByPropagation :: "const_key option \<Rightarrow> 't symtab \<Rightarrow> 't symtab" where
  "unconstifyByPropagation k s =
     (case k of None \<Rightarrow> s | Some k' \<Rightarrow> s\<lparr>const_arg_table := unconstify_loop (const_arg_table s) [k']\<rparr>)"

text \<open>The links the propagation follows: to entries that are still constant.\<close>

definition const_edges :: "'t const_table \<Rightarrow> (const_key \<times> const_key) set" where
  "const_edges m = {(a, b). b \<in> set (dependencies (arg_at m a)) \<and> const_at m b}"

definition same_args :: "'t const_table \<Rightarrow> 't const_table \<Rightarrow> bool" where
  "same_args m m' \<longleftrightarrow> (\<forall>k. (arg_at m' k)\<lparr>is_const := False\<rparr> = (arg_at m k)\<lparr>is_const := False\<rparr>)"

lemma unconstify_loop_same: "same_args m (unconstify_loop m q)"
proof (induction m q rule: unconstify_loop.induct)
  case (2 m k q)
  have "same_args m (set_nonconst k m)" by (simp add: same_args_def set_nonconst_def)
  then show ?case using 2 [OF refl] by (simp add: same_args_def Let_def)
qed (simp add: same_args_def)

text \<open>
  Exactly the entries on the stack and those the links reach from them lose their constness.
\<close>

lemma unconstify_loop_reach:
  "const_at (unconstify_loop m q) x \<longleftrightarrow> const_at m x \<and> (\<forall>k \<in> set q. (k, x) \<notin> (const_edges m)\<^sup>*)"
proof (induction m q rule: unconstify_loop.induct)
  case (2 m k q)
  let ?m = "set_nonconst k m" and ?q = "rev (constDependencies (set_nonconst k m) k) @ q"
  have edges: "const_edges ?m = {(a, b) \<in> const_edges m. b \<noteq> k}" by (auto simp: const_edges_def)
  have deps: "set (constDependencies ?m k) = {b. (k, b) \<in> const_edges ?m}"
    by (auto simp: constDependencies_def const_edges_def)
  have path: "(a, x) \<in> (const_edges ?m)\<^sup>* \<or> (k, x) \<in> (const_edges ?m)\<^sup>*" if "(a, x) \<in> (const_edges m)\<^sup>*" for a
    using that
  proof (induction rule: rtrancl_induct)
    case (step y z)
    then show ?case
    proof (cases "z = k")
      case False
      then have "(y, z) \<in> const_edges ?m" using step.hyps(2) edges by auto
      then show ?thesis using step.IH by (meson rtrancl_into_rtrancl)
    qed simp
  qed simp
  have mono: "(a, x) \<in> (const_edges m)\<^sup>*" if "(a, x) \<in> (const_edges ?m)\<^sup>*" for a
    using that rtrancl_mono [of "const_edges ?m" "const_edges m"] edges by auto
  have start: "(k, x) \<in> (const_edges ?m)\<^sup>* \<longleftrightarrow> x = k \<or> (\<exists>b \<in> set (constDependencies ?m k). (b, x) \<in> (const_edges ?m)\<^sup>*)"
    unfolding deps by (auto elim: converse_rtranclE intro: converse_rtrancl_into_rtrancl)
  have "const_at (unconstify_loop m (k # q)) x \<longleftrightarrow> const_at ?m x \<and> (\<forall>b \<in> set ?q. (b, x) \<notin> (const_edges ?m)\<^sup>*)"
    using 2 [OF refl] by (simp add: Let_def)
  also have "\<dots> \<longleftrightarrow> const_at m x \<and> (k, x) \<notin> (const_edges ?m)\<^sup>* \<and> (\<forall>b \<in> set q. (b, x) \<notin> (const_edges ?m)\<^sup>*)"
    using start by auto
  also have "\<dots> \<longleftrightarrow> const_at m x \<and> (\<forall>b \<in> set (k # q). (b, x) \<notin> (const_edges m)\<^sup>*)"
    using path mono by auto
  finally show ?case .
qed simp

end
