(* ===== verification/Constify_Decision.thy ===== *)
theory Constify_Decision
  imports Constify_Passes
begin

text \<open>
  The pass of \<open>ASTConstifyVisitor.cpp\<close>, which takes the constness of what the source modifies. Every
  visit gives entries to \<open>unconstifyByPropagation\<close>; \<open>rootsOf\<close> says which, and the theorem of this
  theory that the pass leaves constant exactly what no root reaches through the links.
\<close>

section \<open>The pass\<close>

definition isIncrementDecrementOp :: "'t stmt \<Rightarrow> bool" where
  "isIncrementDecrementOp =
     isKind (\<lambda>k. case k of UnaryOperator u \<Rightarrow> u \<in> {UO_PostInc, UO_PostDec, UO_PreInc, UO_PreDec} | _ \<Rightarrow> False)"

definition unconstifyExpr :: "'t clang \<Rightarrow> 't stmt \<Rightarrow> 't symtab \<Rightarrow> 't symtab res" where
  "unconstifyExpr C e s =
     bind_res (getInnerConstArg C (Some e) s) (\<lambda>(k, s1). Inr (unconstifyByPropagation k s1))"

definition sameNameInContext :: "'t const_table \<Rightarrow> 't fundecl \<Rightarrow> const_key \<Rightarrow> bool" where
  "sameNameInContext m f k \<longleftrightarrow>
     (case method_of (arg_at m k) of
        None \<Rightarrow> False
      | Some g \<Rightarrow>
          Some g \<noteq> method_of (arg_at m (DeclKey (fd_canonical f)))
          \<and> fd_name g = fd_name f \<and> fd_context g = fd_context f)"

definition constMethod :: "'t fundecl \<Rightarrow> 't symtab \<Rightarrow> 't symtab" where
  "constMethod f s =
     (let k = DeclKey (fd_canonical f); s0 = getHashTableValue k s in
      fold (\<lambda>it s.
        if sameNameInContext (const_arg_table s) f it \<and> \<not> fd_isConst f
        then unconstifyByPropagation (Some k) s else s)
       (map fst (const_arg_table s0)) s0)"

definition constBinary :: "'t clang \<Rightarrow> 't stmt \<Rightarrow> 't symtab \<Rightarrow> 't symtab res" where
  "constBinary C bop s = (if isAssignment bop then bind_res (getLHS bop) (\<lambda>l. unconstifyExpr C l s) else Inr s)"

definition constUnary :: "'t clang \<Rightarrow> 't stmt \<Rightarrow> 't symtab \<Rightarrow> 't symtab res" where
  "constUnary C uop s =
     (if isIncrementDecrementOp uop then bind_res (getSubExpr uop) (\<lambda>e. unconstifyExpr C e s) else Inr s)"

definition refersToReference :: "'t clang \<Rightarrow> 't stmt \<Rightarrow> bool" where
  "refersToReference C e = (case declRefVar e of None \<Rightarrow> False | Some v \<Rightarrow> isReferenceQualType C (vd_type v))"

definition constReturn :: "'t clang \<Rightarrow> 't stmt option \<Rightarrow> 't symtab \<Rightarrow> 't symtab res" where
  "constReturn C retValue s =
     (case retValue of
        None \<Rightarrow> Inr s
      | Some e \<Rightarrow>
          bind_res (exprType e) (\<lambda>t.
            if isPointerQualType C t then unconstifyExpr C e s
            else if isDeclRefExpr e then (if refersToReference C e then unconstifyExpr C e s else Inr s)
            else Inr s))"

definition mayModifyParam :: "'t clang \<Rightarrow> 't vardecl \<Rightarrow> bool" where
  "mayModifyParam C p \<longleftrightarrow>
     \<not> isConstQualified C (vd_type p) \<and> (isPointerQualType C (vd_type p) \<or> isReferenceQualType C (vd_type p))"

definition constArgument :: "'t clang \<Rightarrow> 't stmt list \<Rightarrow> nat \<times> 't vardecl \<Rightarrow> 't symtab \<Rightarrow> 't symtab res" where
  "constArgument C args ip s =
     (case ip of (i, p) \<Rightarrow>
        if \<not> mayModifyParam C p then Inr s
        else if i \<ge> length args then Inl OutOfRange
        else unconstifyExpr C (args ! i) s)"

text \<open>The base of a member call is the child of the member access that is its callee.\<close>

definition callBase :: "'t stmt \<Rightarrow> 't stmt res" where
  "callBase ce =
     bind_res (nthChild ce 0) (\<lambda>m. if isMember m then nthChild m 0 else Inl AssertFailed)"

definition constCall :: "'t clang \<Rightarrow> 't stmt \<Rightarrow> 't symtab \<Rightarrow> 't symtab res" where
  "constCall C ce s =
     (if isMemberCall ce then
        (case callCallee ce of
           Some (Some m) \<Rightarrow> (if fd_isConst m then Inr s else bind_res (callBase ce) (\<lambda>b. unconstifyExpr C b s))
         | _ \<Rightarrow> Inl NullDeref)
      else
        (case callCallee ce of
           Some (Some f) \<Rightarrow>
             (if loc_system (fd_loc f) then fold_res (constArgument C (callArgs ce)) (enumerate 0 (fd_params f)) s
              else Inr s)
         | _ \<Rightarrow> Inl AssertFailed))"

definition constVar :: "'t clang \<Rightarrow> 't vardecl \<Rightarrow> 't stmt option \<Rightarrow> 't symtab \<Rightarrow> 't symtab" where
  "constVar C v ini s =
     (let k = DeclKey (vd_canonical v); s1 = getHashTableValue k s in
      if valueInit ini \<and> \<not> isNullType C (vd_type v)
         \<and> (isPointerType C (vd_type v) \<or> isReferenceType C (vd_type v)) \<and> isExprACall C ini
      then unconstifyByPropagation (Some k) s1 else s1)"

definition constVisit :: "'t clang \<Rightarrow> 't visit \<Rightarrow> 't symtab \<Rightarrow> 't symtab res" where
  "constVisit C v s =
     (case v of
        VisitMethod m _ \<Rightarrow> Inr (if loc_system (fd_loc m) then s else constMethod m s)
      | VisitField _ \<Rightarrow> Inr s
      | VisitVar d ini \<Rightarrow> Inr (if loc_system (vd_loc d) then s else constVar C d ini s)
      | VisitParam d \<Rightarrow> Inr (if loc_system (vd_loc d) then s else constVar C d None s)
      | VisitNode e \<Rightarrow>
          (if loc_system (getBeginLoc e) then Inr s
           else case e of
             ReturnStmt _ _ r \<Rightarrow> constReturn C r s
           | _ \<Rightarrow>
               if isBinary e then constBinary C e s
               else if isUnary e then constUnary C e s
               else if isCallExpr e then constCall C e s
               else Inr s))"

definition constPass :: "'t clang \<Rightarrow> 't visit list \<Rightarrow> 't symtab \<Rightarrow> 't symtab res" where
  "constPass C vs s = fold_res (constVisit C) vs s"

section \<open>What a visit modifies\<close>

definition exprRoots :: "'t clang \<Rightarrow> 't stmt \<Rightarrow> const_key list res" where
  "exprRoots C e = bind_res (innerKey C (Some e)) (\<lambda>k. Inr (case k of None \<Rightarrow> [] | Some k' \<Rightarrow> [k']))"

definition argRoots :: "'t clang \<Rightarrow> 't stmt list \<Rightarrow> nat \<times> 't vardecl \<Rightarrow> const_key list res" where
  "argRoots C args ip =
     (if \<not> mayModifyParam C (snd ip) then Inr []
      else if fst ip \<ge> length args then Inl OutOfRange else exprRoots C (args ! fst ip))"

definition returnRoots :: "'t clang \<Rightarrow> 't stmt \<Rightarrow> const_key list res" where
  "returnRoots C x =
     bind_res (exprType x) (\<lambda>t. if isPointerQualType C t \<or> refersToReference C x then exprRoots C x else Inr [])"

definition nodeRoots :: "'t clang \<Rightarrow> 't stmt \<Rightarrow> const_key list res" where
  "nodeRoots C e =
     (if loc_system (getBeginLoc e) then Inr []
      else case e of
        ReturnStmt _ _ r \<Rightarrow>
          (case r of None \<Rightarrow> Inr [] | Some x \<Rightarrow> returnRoots C x)
      | _ \<Rightarrow>
          if isBinary e then (if isAssignment e then bind_res (getLHS e) (exprRoots C) else Inr [])
          else if isUnary e then (if isIncrementDecrementOp e then bind_res (getSubExpr e) (exprRoots C) else Inr [])
          else (case callCallee e of
              None \<Rightarrow> Inr []
            | Some None \<Rightarrow> Inl (if isMemberCall e then NullDeref else AssertFailed)
            | Some (Some f) \<Rightarrow>
                if isMemberCall e then (if fd_isConst f then Inr [] else bind_res (callBase e) (exprRoots C))
                else if loc_system (fd_loc f) then
                  bind_res (map_res (argRoots C (callArgs e)) (enumerate 0 (fd_params f))) (\<lambda>ks. Inr (concat ks))
                else Inr []))"

definition rootsOf :: "'t clang \<Rightarrow> 't const_table \<Rightarrow> 't visit \<Rightarrow> const_key list res" where
  "rootsOf C m v =
     (case v of
        VisitMethod f _ \<Rightarrow>
          Inr (if \<not> loc_system (fd_loc f) \<and> \<not> fd_isConst f \<and> list_ex (sameNameInContext m f) (map fst m)
               then [DeclKey (fd_canonical f)] else [])
      | VisitField _ \<Rightarrow> Inr []
      | VisitParam _ \<Rightarrow> Inr []
      | VisitVar d ini \<Rightarrow>
          Inr (if \<not> loc_system (vd_loc d) \<and> valueInit ini \<and> \<not> isNullType C (vd_type d)
                  \<and> (isPointerType C (vd_type d) \<or> isReferenceType C (vd_type d)) \<and> isExprACall C ini
               then [DeclKey (vd_canonical d)] else [])
      | VisitNode e \<Rightarrow> nodeRoots C e)"

section \<open>The tables the pass goes through\<close>

text \<open>From one table to the next, the roots and what the links of the first table reach is lost.\<close>

definition unconst_after :: "'t const_table \<Rightarrow> const_key list \<Rightarrow> 't const_table \<Rightarrow> bool" where
  "unconst_after m ks m' \<longleftrightarrow>
     same_args m m' \<and> (\<forall>x. const_at m' x \<longleftrightarrow> const_at m x \<and> (\<forall>k \<in> set ks. (k, x) \<notin> (const_edges m)\<^sup>*))"

lemma unconst_after_ains: "unconst_after m [] (ains k const_arg_new m)"
proof -
  have "arg_at (ains k const_arg_new m) = arg_at m"
    by (rule ext) (simp add: arg_at_def split: option.splits)
  then show ?thesis by (simp add: unconst_after_def same_args_def const_at_def)
qed

lemma unconst_after_refl: "unconst_after m [] m"
  by (simp add: unconst_after_def same_args_def)

lemma same_args_dependencies: "same_args m m' \<Longrightarrow> dependencies (arg_at m' k) = dependencies (arg_at m k)"
  unfolding same_args_def by (metis const_arg.select_convs(6) const_arg.surjective const_arg.update_convs(1))

lemma same_args_method: "same_args m m' \<Longrightarrow> method_of (arg_at m' k) = method_of (arg_at m k)"
  unfolding same_args_def by (metis const_arg.select_convs(3) const_arg.surjective const_arg.update_convs(1))

lemma same_args_trans: "same_args m m' \<Longrightarrow> same_args m' m'' \<Longrightarrow> same_args m m''"
  by (simp add: same_args_def)

lemma unconst_after_trans:
  assumes "unconst_after m ks m'" and "unconst_after m' ls m''"
  shows "unconst_after m (ks @ ls) m''"
proof -
  let ?E = "const_edges m" and ?F = "const_edges m'"
  have same: "same_args m m'" using assms by (simp add: unconst_after_def)
  have left: "const_at m' x \<longleftrightarrow> const_at m x \<and> (\<forall>k \<in> set ks. (k, x) \<notin> ?E\<^sup>*)" for x
    using assms(1) by (simp add: unconst_after_def)
  have edges: "?F = {(a, b) \<in> ?E. const_at m' b}"
    using same_args_dependencies [OF same] left by (auto simp: const_edges_def)
  have stay: "(k, x) \<in> ?F\<^sup>*" if "(k, x) \<in> ?E\<^sup>*" and "const_at m' x" for k x
    using that
  proof (induction rule: rtrancl_induct)
    case (step y z)
    have "k = y \<or> const_at m' y"
    proof (cases "k = y")
      case False
      have "const_at m y" using step.hyps(1) False by (cases rule: rtranclE) (simp_all add: const_edges_def)
      moreover have "(j, y) \<notin> ?E\<^sup>*" if "j \<in> set ks" for j
        using step.prems left that step.hyps(2) by (meson rtrancl_into_rtrancl)
      ultimately show ?thesis using left by blast
    qed simp
    then have "(k, y) \<in> ?F\<^sup>*" using step.IH by auto
    moreover have "(y, z) \<in> ?F" using step.hyps(2) step.prems edges by simp
    ultimately show ?case by (rule rtrancl_into_rtrancl)
  qed simp
  have "?F\<^sup>* \<subseteq> ?E\<^sup>*" using edges by (intro rtrancl_mono) auto
  then have "const_at m'' x \<longleftrightarrow> const_at m x \<and> (\<forall>k \<in> set (ks @ ls). (k, x) \<notin> ?E\<^sup>*)" for x
    using assms(2) left [of x] stay [of _ x] by (auto simp: unconst_after_def)
  then show ?thesis using same assms(2) same_args_trans by (auto simp: unconst_after_def)
qed

lemma unconst_after_propagation:
  "unconst_after (const_arg_table s) (case k of None \<Rightarrow> [] | Some k' \<Rightarrow> [k'])
     (const_arg_table (unconstifyByPropagation k s))"
proof (cases k)
  case None
  then show ?thesis by (simp add: unconstifyByPropagation_def unconst_after_refl)
next
  case (Some k')
  then show ?thesis
    by (simp add: unconstifyByPropagation_def unconst_after_def unconstify_loop_reach unconstify_loop_same
        del: unconstify_loop.simps)
qed

lemma unconst_after_value:
  "unconst_after (const_arg_table s) [] (const_arg_table (getHashTableValue k s))"
  by (simp add: getHashTableValue_def unconst_after_ains)

lemma unconst_after_expr:
  assumes "unconstifyExpr C e s = Inr s'"
  shows "\<exists>ks. exprRoots C e = Inr ks \<and> unconst_after (const_arg_table s) ks (const_arg_table s')"
proof -
  obtain k where k: "innerKey C (Some e) = Inr k"
    and s': "s' = unconstifyByPropagation k (case k of None \<Rightarrow> s | Some k' \<Rightarrow> getHashTableValue k' s)"
    using assms by (auto simp: unconstifyExpr_def getInnerConstArg_def res_simps)
  have "unconst_after (const_arg_table s) ([] @ (case k of None \<Rightarrow> [] | Some k' \<Rightarrow> [k'])) (const_arg_table s')"
    unfolding s' by (rule unconst_after_trans [OF _ unconst_after_propagation])
      (simp add: unconst_after_value unconst_after_refl split: option.splits)
  then show ?thesis using k by (simp add: exprRoots_def)
qed

lemma unconst_after_args:
  assumes "fold_res (constArgument C args) ips s = Inr s'"
  shows "\<exists>ks. map_res (argRoots C args) ips = Inr ks
    \<and> unconst_after (const_arg_table s) (concat ks) (const_arg_table s')"
  using assms
proof (induction ips arbitrary: s)
  case Nil
  then show ?case by (simp add: unconst_after_refl)
next
  case (Cons ip ips)
  obtain t where t: "constArgument C args ip s = Inr t" "fold_res (constArgument C args) ips t = Inr s'"
    using Cons.prems by (auto simp: res_simps)
  obtain ks where ks: "map_res (argRoots C args) ips = Inr ks"
    "unconst_after (const_arg_table t) (concat ks) (const_arg_table s')"
    using Cons.IH [OF t(2)] by auto
  obtain k where "argRoots C args ip = Inr k" "unconst_after (const_arg_table s) k (const_arg_table t)"
    using t(1) unconst_after_refl unconst_after_expr [of C _ s t]
    by (auto simp: constArgument_def argRoots_def split_beta split: if_splits)
  then show ?case using ks unconst_after_trans by (auto simp: res_simps)
qed

lemma unconst_after_return:
  assumes "constReturn C (Some x) s = Inr s'"
  shows "\<exists>ks. returnRoots C x = Inr ks \<and> unconst_after (const_arg_table s) ks (const_arg_table s')"
proof -
  obtain t where t: "exprType x = Inr t" using assms by (auto simp: constReturn_def res_simps)
  have "isDeclRefExpr x" if "refersToReference C x"
    using that by (auto simp: refersToReference_def declRefVar_def isDeclRefExpr_def split: option.splits ekind.splits)
  then show ?thesis
    using assms unconst_after_expr [of C x s s'] unconst_after_refl [of "const_arg_table s"]
    by (cases "isPointerQualType C t \<or> refersToReference C x") (auto simp: constReturn_def returnRoots_def t split: if_splits)
qed

lemma unconst_after_node:
  assumes "constVisit C (VisitNode e) s = Inr s'"
  shows "\<exists>ks. nodeRoots C e = Inr ks \<and> unconst_after (const_arg_table s) ks (const_arg_table s')"
proof -
  note unf = constVisit_def nodeRoots_def constBinary_def constUnary_def constCall_def isCallExpr_def
  have ret: "constReturn C None s = Inr s" by (simp add: constReturn_def)
  show ?thesis
    using assms
    by (cases e) (auto simp: ret unf res_simps unconst_after_refl split: if_splits option.splits
        dest!: unconst_after_expr unconst_after_args unconst_after_return)
qed

lemma unconst_after_set: "unconst_after m ks m' \<Longrightarrow> set ls = set ks \<Longrightarrow> unconst_after m ls m'"
  by (simp add: unconst_after_def)

lemma same_args_context: "same_args m m' \<Longrightarrow> sameNameInContext m' f k \<longleftrightarrow> sameNameInContext m f k"
  unfolding sameNameInContext_def same_args_method [of m m'] by (simp add: same_args_method [of m m'])

lemma sameName_keys: "sameNameInContext m f k \<Longrightarrow> k \<in> fst ` set m"
proof (cases "map_of m k")
  case (Some a)
  then show ?thesis by (auto dest: map_of_SomeD intro: image_eqI [where x = "(k, a)"])
qed (simp add: sameNameInContext_def arg_at_def const_arg_new_def)

lemma list_ex_sameName: "list_ex (sameNameInContext m f) (map fst m) \<longleftrightarrow> (\<exists>k. sameNameInContext m f k)"
  using sameName_keys [of m f] by (auto simp: list_ex_iff)

lemma unconst_after_method_loop:
  fixes f :: "'t fundecl" and s :: "'t symtab"
  defines "step \<equiv> \<lambda>it s. if sameNameInContext (const_arg_table s) f it \<and> \<not> fd_isConst f
    then unconstifyByPropagation (Some (DeclKey (fd_canonical f))) s else s"
  shows "unconst_after (const_arg_table s)
     (if \<not> fd_isConst f \<and> list_ex (sameNameInContext (const_arg_table s) f) ks then [DeclKey (fd_canonical f)] else [])
     (const_arg_table (fold step ks s))"
proof (induction ks arbitrary: s)
  case (Cons k ks)
  let ?k = "DeclKey (fd_canonical f)"
  let ?m = "const_arg_table s" and ?m' = "const_arg_table (step k s)"
  have one: "unconst_after ?m (if \<not> fd_isConst f \<and> sameNameInContext ?m f k then [?k] else []) ?m'"
    using unconst_after_propagation [of s "Some ?k"] by (simp add: step_def unconst_after_refl)
  then have "same_args ?m ?m'" by (simp add: unconst_after_def)
  then have "list_ex (sameNameInContext ?m' f) ks \<longleftrightarrow> list_ex (sameNameInContext ?m f) ks"
    by (simp add: same_args_context list_ex_iff)
  then have "unconst_after ?m' (if \<not> fd_isConst f \<and> list_ex (sameNameInContext ?m f) ks then [?k] else [])
    (const_arg_table (fold step ks (step k s)))"
    using Cons.IH [of "step k s"] by simp
  with one have "unconst_after ?m ((if \<not> fd_isConst f \<and> sameNameInContext ?m f k then [?k] else [])
      @ (if \<not> fd_isConst f \<and> list_ex (sameNameInContext ?m f) ks then [?k] else []))
    (const_arg_table (fold step ks (step k s)))"
    by (rule unconst_after_trans)
  then show ?case by (auto elim: unconst_after_set)
qed (simp add: unconst_after_refl)

lemma unconst_after_method:
  "unconst_after (const_arg_table s)
     (if \<not> fd_isConst f \<and> list_ex (sameNameInContext (const_arg_table s) f) (map fst (const_arg_table s))
      then [DeclKey (fd_canonical f)] else [])
     (const_arg_table (constMethod f s))"
proof -
  let ?k = "DeclKey (fd_canonical f)"
  let ?s = "getHashTableValue ?k s"
  have one: "unconst_after (const_arg_table s) [] (const_arg_table ?s)" by (rule unconst_after_value)
  then have "same_args (const_arg_table s) (const_arg_table ?s)" by (simp add: unconst_after_def)
  then have "list_ex (sameNameInContext (const_arg_table ?s) f) (map fst (const_arg_table ?s))
      \<longleftrightarrow> list_ex (sameNameInContext (const_arg_table s) f) (map fst (const_arg_table s))"
    by (simp only: list_ex_sameName same_args_context)
  with unconst_after_trans [OF one unconst_after_method_loop [where f = f and ks = "map fst (const_arg_table ?s)"]]
  show ?thesis by (simp add: constMethod_def Let_def)
qed

lemma unconst_after_visit:
  assumes "constVisit C v s = Inr s'"
  shows "\<exists>ks. rootsOf C (const_arg_table s) v = Inr ks \<and> unconst_after (const_arg_table s) ks (const_arg_table s')"
proof (cases v)
  case (VisitMethod f b)
  then show ?thesis
    using assms unconst_after_method [of s f] unconst_after_refl [of "const_arg_table s"]
    by (auto simp: constVisit_def rootsOf_def split: if_splits)
next
  case (VisitParam d)
  then show ?thesis
    using assms unconst_after_value [of s "DeclKey (vd_canonical d)"] unconst_after_refl [of "const_arg_table s"]
    by (auto simp: constVisit_def rootsOf_def constVar_def valueInit_def Let_def split: if_splits)
next
  case (VisitField f)
  then show ?thesis using assms by (simp add: constVisit_def rootsOf_def unconst_after_refl)
next
  case (VisitVar d ini)
  let ?k = "DeclKey (vd_canonical d)"
  have "unconst_after (const_arg_table s) [?k] (const_arg_table (unconstifyByPropagation (Some ?k) (getHashTableValue ?k s)))"
    using unconst_after_trans [OF unconst_after_value unconst_after_propagation [where k = "Some ?k"]] by simp
  then show ?thesis
    using VisitVar assms unconst_after_value [of s ?k] unconst_after_refl [of "const_arg_table s"]
    by (auto simp: constVisit_def rootsOf_def constVar_def Let_def split: if_splits)
next
  case (VisitNode e)
  then show ?thesis using assms unconst_after_node by (auto simp: rootsOf_def)
qed

lemma rootsOf_same: "same_args m m' \<Longrightarrow> rootsOf C m' v = rootsOf C m v"
  by (cases v) (simp_all add: rootsOf_def list_ex_sameName same_args_context)

lemma unconst_after_pass:
  assumes "constPass C vs s = Inr s'"
  shows "\<exists>kss. map_res (rootsOf C (const_arg_table s)) vs = Inr kss
    \<and> unconst_after (const_arg_table s) (concat kss) (const_arg_table s')"
  using assms
proof (induction vs arbitrary: s)
  case Nil
  then show ?case by (simp add: constPass_def unconst_after_refl)
next
  case (Cons v vs)
  obtain t where t: "constVisit C v s = Inr t" "constPass C vs t = Inr s'"
    using Cons.prems by (auto simp: constPass_def res_simps)
  obtain ks where ks: "rootsOf C (const_arg_table s) v = Inr ks" "unconst_after (const_arg_table s) ks (const_arg_table t)"
    using unconst_after_visit [OF t(1)] by auto
  obtain kss where kss: "map_res (rootsOf C (const_arg_table t)) vs = Inr kss"
    "unconst_after (const_arg_table t) (concat kss) (const_arg_table s')"
    using Cons.IH [OF t(2)] by auto
  have "rootsOf C (const_arg_table t) = rootsOf C (const_arg_table s)"
    using ks(2) by (intro ext rootsOf_same) (simp add: unconst_after_def)
  then show ?case using ks kss unconst_after_trans [OF ks(2) kss(2)] by (simp add: res_simps)
qed

section \<open>Properties\<close>


end
