(* ===== verification/Constify_Print.thy ===== *)
theory Constify_Print
  imports Constify_Decision Example_Types
begin

text \<open>
  The printing pass (\<open>ASTPrintVisitor.cpp\<close>): the types with \<open>const\<close> at every level, and the edits of the
  declarations whose entries are constant. The three passes of the driver (\<open>rewritersample.cpp\<close>).
\<close>

section \<open>Types with the qualifier\<close>

definition addConstToBuiltInType :: "'t clang \<Rightarrow> 't \<Rightarrow> 't" where
  "addConstToBuiltInType C t = withConst C t"

text \<open>The loop down the pointees counts the levels; the fuel is the length of the chain.\<close>

fun pointedType :: "'t clang \<Rightarrow> nat \<Rightarrow> nat \<Rightarrow> 't \<Rightarrow> (nat \<times> 't) res" where
  "pointedType C 0 degree t = Inl OutOfFuel"
| "pointedType C (Suc n) degree t =
     (if isPointerQualType C t then pointedType C n (Suc degree) (getPointeeType C t) else Inr (degree, t))"

definition constPointer :: "'t clang \<Rightarrow> nat \<Rightarrow> 't \<Rightarrow> 't" where
  "constPointer C degree t = withConst C (((\<lambda>u. getPointerType C (withConst C u)) ^^ degree) t)"

definition addConstToPointerType :: "'t clang \<Rightarrow> 't \<Rightarrow> 't res" where
  "addConstToPointerType C t =
     bind_res (pointedType C (Suc (typeDepth C t)) 0 t) (\<lambda>(degree, b). Inr (constPointer C degree b))"

text \<open>A reference is never to a reference, so two rounds are enough.\<close>

fun addConst_loop :: "'t clang \<Rightarrow> nat \<Rightarrow> 't \<Rightarrow> 't res" where
  "addConst_loop C 0 t = Inl OutOfFuel"
| "addConst_loop C (Suc n) t =
     (if isNullType C t then Inr t
      else if isReferenceType C t then
        bind_res (addConst_loop C n (getNonReferenceType C t)) (\<lambda>r. Inr (getLValueReferenceType C r))
      else if isPointerType C t then addConstToPointerType C t
      else if isBuiltinType C t \<or> isConstantArrayType C t then Inr (addConstToBuiltInType C t)
      else Inr (withConst C t))"

definition addConstToQualType :: "'t clang \<Rightarrow> 't \<Rightarrow> 't res" where
  "addConstToQualType C t = addConst_loop C 2 t"

definition addConstToVar :: "'t clang \<Rightarrow> 't vardecl \<Rightarrow> 't vardecl res" where
  "addConstToVar C v = bind_res (addConstToQualType C (vd_type v)) (\<lambda>t. Inr (v\<lparr>vd_type := t\<rparr>))"

section \<open>The edits\<close>

record 't constPrinter =
  pr_symtab :: "'t symtab"
  pr_edits :: "'t edit list"

text \<open>
  What the pass reads of Clang besides the types: the style of an initial value, and the earlier
  declarations of a method with whether each is a definition.
\<close>

record 't printParams =
  getInitStyle :: "'t vardecl \<Rightarrow> initStyle"
  previousDecls :: "'t fundecl \<Rightarrow> ('t fundecl \<times> bool) list"

definition addEdit :: "'t edit \<Rightarrow> 't constPrinter \<Rightarrow> 't constPrinter" where
  "addEdit e p = p\<lparr>pr_edits := pr_edits p @ [e]\<rparr>"

definition isConstVar :: "'t vardecl \<Rightarrow> 't constPrinter \<Rightarrow> bool" where
  "isConstVar v p \<longleftrightarrow> const_at (const_arg_table (pr_symtab p)) (DeclKey (vd_canonical v))"

definition lookVar :: "'t vardecl \<Rightarrow> 't constPrinter \<Rightarrow> 't constPrinter" where
  "lookVar v p = p\<lparr>pr_symtab := getHashTableValue (DeclKey (vd_canonical v)) (pr_symtab p)\<rparr>"

definition rewriteType :: "'t clang \<Rightarrow> 't vardecl \<Rightarrow> 't constPrinter \<Rightarrow> 't constPrinter res" where
  "rewriteType C v p =
     bind_res (addConstToVar C v) (\<lambda>v'. Inr (addEdit (ReplaceText (TypeRange v) (typeAsString C (vd_type v') @ '' '')) p))"

definition rewriteSingleDecl :: "'t clang \<Rightarrow> 't vardecl \<Rightarrow> 't stmt option \<Rightarrow> 't constPrinter \<Rightarrow> 't constPrinter res" where
  "rewriteSingleDecl C v ini p =
     (if isConstVar v p \<and> ini \<noteq> None then rewriteType C v (lookVar v p) else Inr (lookVar v p))"

definition rewriteSingleParam :: "'t clang \<Rightarrow> 't vardecl \<Rightarrow> 't constPrinter \<Rightarrow> 't constPrinter res" where
  "rewriteSingleParam C v p = (if isConstVar v p then rewriteType C v (lookVar v p) else Inr (lookVar v p))"

definition prepareRewriteVarDecl ::
    "'t clang \<Rightarrow> 't printParams \<Rightarrow> 't vardecl \<Rightarrow> 't stmt option \<Rightarrow> 't constPrinter \<Rightarrow> (string \<times> 't constPrinter) res" where
  "prepareRewriteVarDecl C R v ini p =
     bind_res (if isConstVar v p then addConstToVar C v else Inr v) (\<lambda>v'.
       Inr (getCompleteVarDeclStr C \<lparr>vdef_var = v', vdef_init = ini, vdef_style = getInitStyle R v\<rparr>, lookVar v p))"

fun printGroup ::
    "'t clang \<Rightarrow> 't printParams \<Rightarrow> ('t decl \<times> 't stmt option) list \<Rightarrow> 't constPrinter \<Rightarrow> (string \<times> 't constPrinter) res" where
  "printGroup C R [] p = Inr ([], p)"
| "printGroup C R ((d, ini) # ds) p =
     (case d of
        OtherDecl _ _ _ \<Rightarrow> printGroup C R ds p
      | VarDecl v \<Rightarrow>
          bind_res (prepareRewriteVarDecl C R v ini p) (\<lambda>(t, p1).
          bind_res (printGroup C R ds p1) (\<lambda>(u, p2).
            Inr (t @ (if ds = [] then [] else newline) @ u, p2))))"

definition printDeclStmt ::
    "'t clang \<Rightarrow> 't printParams \<Rightarrow> 't stmt \<Rightarrow> ('t decl \<times> 't stmt option) list \<Rightarrow> 't constPrinter \<Rightarrow> 't constPrinter res" where
  "printDeclStmt C R s ds p =
     (case ds of
        [(VarDecl v, ini)] \<Rightarrow> rewriteSingleDecl C v ini p
      | [_] \<Rightarrow> Inr p
      | _ \<Rightarrow>
          bind_res (printGroup C R ds (addEdit (RemoveText (StmtRange s)) p)) (\<lambda>(t, p1).
            Inr (addEdit (InsertTextAfter (BeginLoc s) t) p1)))"

definition printPrevParam :: "'t clang \<Rightarrow> 't vardecl \<times> 't vardecl \<Rightarrow> 't constPrinter \<Rightarrow> 't constPrinter res" where
  "printPrevParam C dp p =
     (if isConstVar (fst dp) p then rewriteType C (snd dp) (lookVar (fst dp) p) else Inr (lookVar (fst dp) p))"

definition printPrevDecl :: "'t clang \<Rightarrow> 't fundecl \<Rightarrow> 't fundecl \<times> bool \<Rightarrow> 't constPrinter \<Rightarrow> 't constPrinter res" where
  "printPrevDecl C m prev p =
     (if \<not> snd prev \<and> \<not> loc_system (fd_loc (fst prev)) then
        fold_res (printPrevParam C) (zip (fd_params m) (fd_params (fst prev)))
          (addEdit (InsertTextAfterToken (FunctionEnd (fst prev)) '' const '') p)
      else Inr p)"

definition printMethod :: "'t clang \<Rightarrow> 't printParams \<Rightarrow> 't fundecl \<Rightarrow> 't stmt option \<Rightarrow> 't constPrinter \<Rightarrow> 't constPrinter res" where
  "printMethod C R m body p =
     (let k = DeclKey (fd_canonical m); p1 = p\<lparr>pr_symtab := getHashTableValue k (pr_symtab p)\<rparr> in
      if const_at (const_arg_table (pr_symtab p1)) k \<and> \<not> fd_isConst m then
        (case body of
           None \<Rightarrow> Inr (addEdit (InsertTextAfterToken (FunctionEnd m) '' const '') p1)
         | Some b \<Rightarrow>
             fold_res (printPrevDecl C m) (previousDecls R m) (addEdit (InsertTextAfter (BeginLoc b) '' const '') p1))
      else Inr p1)"

definition printVisit :: "'t clang \<Rightarrow> 't printParams \<Rightarrow> 't visit \<Rightarrow> 't constPrinter \<Rightarrow> 't constPrinter res" where
  "printVisit C R v p =
     (case v of
        VisitMethod m body \<Rightarrow> (if loc_system (fd_loc m) then Inr p else printMethod C R m body p)
      | VisitParam d \<Rightarrow> (if loc_system (vd_loc d) then Inr p else rewriteSingleParam C d p)
      | VisitNode e \<Rightarrow>
          (case e of
             DeclStmt _ l ds \<Rightarrow> (if loc_system l then Inr p else printDeclStmt C R e ds p)
           | _ \<Rightarrow> Inr p)
      | _ \<Rightarrow> Inr p)"

text \<open>The driver.\<close>

definition constify ::
    "'t clang \<Rightarrow> 't printParams \<Rightarrow> string \<Rightarrow> string list \<Rightarrow> string list \<Rightarrow> 't topdecl list \<Rightarrow> 't constPrinter res" where
  "constify C R main functions functionsToIgnore unit =
     (let vs = concat (map (visitsOf C main functions functionsToIgnore) unit) in
      bind_res (fold_res (initVisit C) vs symtab_new) (\<lambda>s1.
      bind_res (constPass C vs s1) (\<lambda>s2.
        fold_res (printVisit C R) vs \<lparr>pr_symtab = s2, pr_edits = []\<rparr>)))"

section \<open>Properties\<close>

lemma pointedType_tower:
  assumes "pointer_tower C b"
  shows "m < n \<Longrightarrow> pointedType C n degree (ptr C b m) = Inr (degree + m, b)"
proof (induction m arbitrary: n degree)
  case 0
  then show ?case using tower_base [OF assms] by (cases n) auto
next
  case (Suc m)
  then obtain n' where "n = Suc n'" "m < n'" by (cases n) auto
  then show ?case using Suc.IH tower_level [OF assms] by simp
qed


text \<open>
  What the edits of the pass are allowed to change: a type in front of a declared name is replaced only
  when the entry of the variable, or of the parameter of the definition it redeclares, is constant, and
  then by that type with the qualifier; a method is followed by \<open>const\<close> only when its entry is constant
  and it is not declared so.
\<close>

definition redeclares :: "'t printParams \<Rightarrow> 't vardecl \<Rightarrow> 't vardecl \<Rightarrow> bool" where
  "redeclares R v w \<longleftrightarrow>
     (\<exists>m prev. (prev, False) \<in> set (previousDecls R m) \<and> (w, v) \<in> set (zip (fd_params m) (fd_params prev)))"

definition edit_justified :: "'t clang \<Rightarrow> 't printParams \<Rightarrow> 't const_table \<Rightarrow> 't edit \<Rightarrow> bool" where
  "edit_justified C R m e \<longleftrightarrow>
     (case e of
        ReplaceText g t \<Rightarrow>
          (\<exists>v w u. g = TypeRange v \<and> (w = v \<or> redeclares R v w) \<and> const_at m (DeclKey (vd_canonical w))
             \<and> addConstToQualType C (vd_type v) = Inr u \<and> t = typeAsString C u @ '' '')
      | InsertTextAfterToken g t \<Rightarrow>
          (\<exists>f f'. g = FunctionEnd f' \<and> (f' = f \<or> (f', False) \<in> set (previousDecls R f))
             \<and> const_at m (DeclKey (fd_canonical f)) \<and> \<not> fd_isConst f \<and> t = '' const '')
      | InsertTextAfter _ _ \<Rightarrow> True
      | RemoveText _ \<Rightarrow> True
      | _ \<Rightarrow> False)"

definition edits_ok :: "'t clang \<Rightarrow> 't printParams \<Rightarrow> 't const_table \<Rightarrow> 't constPrinter \<Rightarrow> bool" where
  "edits_ok C R m p \<longleftrightarrow>
     (\<forall>k. const_at (const_arg_table (pr_symtab p)) k \<longleftrightarrow> const_at m k) \<and> (\<forall>e \<in> set (pr_edits p). edit_justified C R m e)"

lemma const_at_value [simp]: "const_at (const_arg_table (getHashTableValue k s)) x \<longleftrightarrow> const_at (const_arg_table s) x"
  using unconst_after_value [of s k] by (simp add: unconst_after_def)

lemma ok_look [simp]: "edits_ok C R m (lookVar v p) \<longleftrightarrow> edits_ok C R m p"
  by (simp add: edits_ok_def lookVar_def)

lemma ok_add [simp]: "edits_ok C R m (addEdit e p) \<longleftrightarrow> edits_ok C R m p \<and> edit_justified C R m e"
  by (auto simp: edits_ok_def addEdit_def)

lemma ok_const: "edits_ok C R m p \<Longrightarrow> isConstVar v p \<longleftrightarrow> const_at m (DeclKey (vd_canonical v))"
  by (simp add: edits_ok_def isConstVar_def)

lemma rewriteType_ok:
  assumes "rewriteType C v p = Inr p'" and "edits_ok C R m p"
    and "w = v \<or> redeclares R v w" and "const_at m (DeclKey (vd_canonical w))"
  shows "edits_ok C R m p'"
proof -
  obtain u where u: "addConstToQualType C (vd_type v) = Inr u"
    and p': "p' = addEdit (ReplaceText (TypeRange v) (typeAsString C u @ '' '')) p"
    using assms(1) by (auto simp: rewriteType_def addConstToVar_def res_simps)
  then have "edit_justified C R m (ReplaceText (TypeRange v) (typeAsString C u @ '' ''))"
    using assms(3,4) u by (auto simp: edit_justified_def)
  then show ?thesis using assms(2) p' by simp
qed

lemma prepare_ok:
  "prepareRewriteVarDecl C R v ini p = Inr (t, p') \<Longrightarrow> edits_ok C R m p \<Longrightarrow> edits_ok C R m p'"
  by (auto simp: prepareRewriteVarDecl_def res_simps)

lemma printGroup_ok: "printGroup C R ds p = Inr (t, p') \<Longrightarrow> edits_ok C R m p \<Longrightarrow> edits_ok C R m p'"
proof (induction C R ds p arbitrary: t rule: printGroup.induct)
  case (2 C R d ini ds p)
  then show ?case by (cases d) (auto simp: res_simps, metis prepare_ok)
qed simp

lemma printDeclStmt_ok:
  assumes "printDeclStmt C R s ds p = Inr p'" and "edits_ok C R m p"
  shows "edits_ok C R m p'"
proof -
  have many: "edits_ok C R m p'"
    if "bind_res (printGroup C R ds (addEdit (RemoveText (StmtRange s)) p))
      (\<lambda>(t, p1). Inr (addEdit (InsertTextAfter (BeginLoc s) t) p1)) = Inr p'"
    using that assms(2) by (auto simp: res_simps edit_justified_def dest: printGroup_ok)
  have single: "edits_ok C R m p'" if "rewriteSingleDecl C v ini p = Inr p'" for v ini
    using that assms(2) rewriteType_ok [of C v "lookVar v p" p' R m v] ok_const [OF assms(2)]
    by (auto simp: rewriteSingleDecl_def split: if_splits)
  show ?thesis
  proof (cases "\<exists>d ini. ds = [(d, ini)]")
    case True
    then obtain d ini where "ds = [(d, ini)]" by blast
    then show ?thesis using assms single by (cases d) (auto simp: printDeclStmt_def)
  next
    case False
    then have "printDeclStmt C R s ds p = bind_res (printGroup C R ds (addEdit (RemoveText (StmtRange s)) p))
        (\<lambda>(t, p1). Inr (addEdit (InsertTextAfter (BeginLoc s) t) p1))"
      by (auto simp: printDeclStmt_def split: list.splits decl.splits)
    then show ?thesis using many assms(1) by simp
  qed
qed

lemma printMethod_ok:
  assumes "printMethod C R f body p = Inr p'" and "edits_ok C R m p"
  shows "edits_ok C R m p'"
proof -
  let ?k = "DeclKey (fd_canonical f)"
  let ?p = "p\<lparr>pr_symtab := getHashTableValue ?k (pr_symtab p)\<rparr>"
  have ok: "edits_ok C R m ?p" using assms(2) by (simp add: edits_ok_def)
  have param: "edits_ok C R m q'"
    if "printPrevParam C dp q = Inr q'" "edits_ok C R m q" "redeclares R (snd dp) (fst dp)" for dp q q'
    using that rewriteType_ok [of C "snd dp" "lookVar (fst dp) q" q' R m "fst dp"] ok_const [OF that(2)]
    by (auto simp: printPrevParam_def split: if_splits)
  have prev: "edits_ok C R m q'"
    if "printPrevDecl C f g q = Inr q'" "edits_ok C R m q" "g \<in> set (previousDecls R f)"
      "const_at m ?k" "\<not> fd_isConst f" for g q q'
  proof (cases "\<not> snd g \<and> \<not> loc_system (fd_loc (fst g))")
    case True
    then have g: "(fst g, False) \<in> set (previousDecls R f)" using that(3) by (cases g) simp
    then have "edit_justified C R m (InsertTextAfterToken (FunctionEnd (fst g)) '' const '')"
      using that(4,5) by (auto simp: edit_justified_def)
    moreover have "redeclares R (snd dp) (fst dp)" if "dp \<in> set (zip (fd_params f) (fd_params (fst g)))" for dp
      using g that by (auto simp: redeclares_def)
    ultimately show ?thesis
      using that(1,2) True param fold_res_invariant [where P = "edits_ok C R m" and f = "printPrevParam C"]
      by (auto simp: printPrevDecl_def)
  qed (use that in \<open>auto simp: printPrevDecl_def\<close>)
  show ?thesis
  proof (cases "const_at m ?k \<and> \<not> fd_isConst f")
    case True
    then have "edit_justified C R m (InsertTextAfterToken (FunctionEnd f) '' const '')"
      by (auto simp: edit_justified_def)
    moreover have "edit_justified C R m (InsertTextAfter b '' const '')" for b by (simp add: edit_justified_def)
    ultimately show ?thesis
      using assms True ok prev fold_res_invariant [where P = "edits_ok C R m" and f = "printPrevDecl C f"]
      by (auto simp: printMethod_def Let_def edits_ok_def [of C R m p] split: option.splits)
  qed (use assms ok in \<open>auto simp: printMethod_def Let_def edits_ok_def\<close>)
qed

lemma printVisit_ok:
  assumes "printVisit C R v p = Inr p'" and "edits_ok C R m p"
  shows "edits_ok C R m p'"
proof -
  have param: "edits_ok C R m p'" if "rewriteSingleParam C d p = Inr p'" for d
    using that assms(2) rewriteType_ok [of C d "lookVar d p" p' R m d] ok_const [OF assms(2)]
    by (auto simp: rewriteSingleParam_def split: if_splits)
  show ?thesis
    using assms param
    by (auto simp: printVisit_def split: visit.splits if_splits stmt.splits intro: printMethod_ok printDeclStmt_ok)
qed


section \<open>Witnesses\<close>

text \<open>
  \<open>void f(int *x10, int *x11) { int *x12 = x11; *x12 = 5; }\<close>: the assignment takes the constness of
  \<open>x12\<close> and, through the dependency, of \<open>x11\<close>; \<open>x10\<close> keeps it.
\<close>

definition ex_const_body :: "ex_type stmt" where
  "ex_const_body = CompoundStmt 1 (ex_at 1)
     [DeclStmt 2 (ex_at 2) [(VarDecl (ex_decl 12 (PtrT IntT)), Some (ex_use 3 11 (PtrT IntT)))],
      Expr 4 (ex_at 4) IntT (BinaryOperator True)
        [Expr 5 (ex_at 5) IntT (UnaryOperator UO_Deref) [ex_use 6 12 (PtrT IntT)], ex_literal 5]]"

definition ex_const_fun :: "ex_type fundecl" where
  "ex_const_fun = \<lparr>fd_canonical = 100, fd_name = ''f'',
     fd_params = [ex_decl 10 (PtrT IntT), ex_decl 11 (PtrT IntT)],
     fd_loc = ex_at 0, fd_isConst = False, fd_returnType = IntT, fd_context = 0\<rparr>"

definition ex_printParams :: "ex_type printParams" where
  "ex_printParams = \<lparr>getInitStyle = (\<lambda>v. CInit), previousDecls = (\<lambda>f. [])\<rparr>"

definition ex_visits :: "ex_type visit list" where
  "ex_visits = visitsOf ex_clang ''main'' [] [] (FunctionTop ex_const_fun (Some ex_const_body))"

definition ex_initialised :: "ex_type symtab" where
  "ex_initialised = projr (fold_res (initVisit ex_clang) ex_visits symtab_new)"




end
