(* ===== verification/Alias_Live.thy ===== *)
theory Alias_Live
  imports Alias_Arrays
begin

text \<open>
  What the visitor relies on while it changes the table: the entries it holds stay entries of the table,
  and every link leads to such an entry. The operations are considered whenever they return, so no
  assumption is made on their arguments but that these are entries or null.
\<close>

definition live :: "'t aliasTable \<Rightarrow> addr \<Rightarrow> bool" where
  "live T a \<longleftrightarrow> a \<noteq> null \<and> (\<exists>k. entry_at T k = a)"

definition held :: "'t aliasTable \<Rightarrow> addr \<Rightarrow> bool" where
  "held T a \<longleftrightarrow> a = null \<or> live T a"

definition links_live :: "'t aliasTable \<Rightarrow> bool" where
  "links_live T \<longleftrightarrow> (\<forall>g \<in> {aliased, references, pointers}. Range (link_rel g (heap T)) \<subseteq> Collect (live T))"

definition table_live :: "'t aliasTable \<Rightarrow> bool" where
  "table_live T \<longleftrightarrow> table_ok T \<and> links_live T"

definition later :: "'t aliasTable \<Rightarrow> 't aliasTable \<Rightarrow> bool" where
  "later T T' \<longleftrightarrow> table_live T' \<and> (\<forall>a. live T a \<longrightarrow> live T' a)"

lemma held_null [simp]: "held T null"
  by (simp add: held_def)

lemma live_held: "live T a \<Longrightarrow> held T a"
  by (simp add: held_def)

lemma later_refl: "table_live T \<Longrightarrow> later T T"
  by (simp add: later_def)

lemma later_trans: "later T T' \<Longrightarrow> later T' T'' \<Longrightarrow> later T T''"
  by (simp add: later_def)

lemma later_live: "later T T' \<Longrightarrow> table_live T'"
  by (simp add: later_def)

lemma later_held: "later T T' \<Longrightarrow> held T a \<Longrightarrow> held T' a"
  by (auto simp: later_def held_def)

lemma live_stored:
  assumes "table_ok T" and "live T a"
  shows "\<exists>b. stored T a b"
proof -
  obtain k p istr where e: "entry_at T (k, p, istr) = a" "a \<noteq> null"
    using assms(2) by (auto simp: live_def)
  then obtain s where s: "struct_at (tmap T) k p = Some s" "struct_entry s istr = a"
    by (auto simp: entry_at_def split: option.splits)
  then have "a \<in> set (getAllAlias s)"
    using e(2) by (force simp: struct_entry_def getAllAlias_def split: if_splits option.splits dest!: map_of_SomeD)
  then show ?thesis using getAllAlias_stored [OF assms(1) s(1)] by blast
qed

section \<open>Queries\<close>

lemma links_live_targets:
  assumes "links_live T"
  shows "set (referenceSucc (heap T) v) \<subseteq> Collect (live T)" "set (referencesOf (heap T) v) \<subseteq> Collect (live T)"
    "set (aliasedOf (heap T) v) \<subseteq> Collect (live T)" "set (pointerHop (heap T) v) \<subseteq> Collect (live T)"
proof -
  have r: "x \<in> set (g a) \<Longrightarrow> live T x" if "map_of (heap T) v = Some a" "g \<in> {aliased, references, pointers}" for a g x
    using assms that unfolding links_live_def link_rel_def by blast
  show "set (referenceSucc (heap T) v) \<subseteq> Collect (live T)" "set (referencesOf (heap T) v) \<subseteq> Collect (live T)"
    "set (aliasedOf (heap T) v) \<subseteq> Collect (live T)" "set (pointerHop (heap T) v) \<subseteq> Collect (live T)"
    using r [of _ aliased] r [of _ references]
    by (cases "map_of (heap T) v"; auto simp: referenceSucc_def referencesOf_def aliasedOf_def pointerHop_def
        pointerSucc_def split: if_splits)+
qed

lemma getAliases_loop_live:
  assumes "links_live T"
  shows "set (fst s) \<union> set (snd s) \<subseteq> S \<Longrightarrow> Collect (live T) \<subseteq> S \<Longrightarrow> set (fst (getAliases_loop (heap T) s)) \<subseteq> S"
proof (induction "heap T" s rule: getAliases_loop.induct)
  case (1 s)
  have "set (fst (getAliases_pass (heap T) s)) \<union> set (snd (getAliases_pass (heap T) s)) \<subseteq> S"
    using "1.prems" links_live_targets(1,2) [OF assms] unfolding getAliases_pass_sets by fastforce
  then show ?case
    using 1 by (subst getAliases_loop.simps) (simp add: Let_def)
qed

lemma getAliases_held:
  assumes "links_live T" and "held T d" and "a \<in> set (getAliases T d)"
  shows "held T a"
proof -
  have "Collect (live T) \<subseteq> Collect (held T)" using live_held by blast
  with getAliases_loop_live [OF assms(1), of "([d], [])" "Collect (held T)"] assms(2,3) show ?thesis
    by (auto simp: getAliases_def)
qed

lemma getModifiedVariables_loop_live:
  assumes "links_live T"
  shows "set (fst s) \<union> set (snd s) \<subseteq> S \<Longrightarrow> Collect (live T) \<subseteq> S \<Longrightarrow>
     set (fst (getModifiedVariables_loop (heap T) s)) \<union> set (snd (getModifiedVariables_loop (heap T) s)) \<subseteq> S"
proof (induction "heap T" s rule: getModifiedVariables_loop.induct)
  case (1 s)
  have "set (fst (getModifiedVariables_pass (heap T) s)) \<union> set (snd (getModifiedVariables_pass (heap T) s)) \<subseteq> S"
    using "1.prems" links_live_targets(1,2) [OF assms] unfolding getModifiedVariables_pass_sets by fastforce
  then show ?case
    using 1 by (subst (1 2) getModifiedVariables_loop.simps) (simp add: Let_def)
qed

lemma getModifiedVariables_steps_live:
  assumes "links_live T"
  shows "set cs \<subseteq> Collect (held T) \<Longrightarrow> set (getModifiedVariables_steps (heap T) n cs) \<subseteq> Collect (held T)"
proof (induction n arbitrary: cs)
  case (Suc n)
  have "set (sinsl (concat (map (pointerHop (heap T)) cs)) []) \<subseteq> Collect (held T)"
    using links_live_targets(4) [OF assms] live_held by fastforce
  then show ?case using Suc.IH by simp
qed simp

lemma getModifiedVariables_held:
  assumes "links_live T" and "\<forall>a \<in> set al. held T a" and "getModifiedVariables T al d = Inr al'"
  shows "\<forall>a \<in> set al'. held T a"
proof -
  have "set al \<subseteq> Collect (held T)" "Collect (live T) \<subseteq> Collect (held T)" using assms(2) live_held by auto
  with getModifiedVariables_loop_live [OF assms(1), of "(al, al)" "Collect (held T)"]
    getModifiedVariables_steps_live [OF assms(1), of al "nat d"]
  show ?thesis using assms(3)
    by (auto simp: getModifiedVariables_def split: if_splits prod.splits)
qed

lemma getPointerAccessedVariables_held:
  assumes "links_live T" and "\<forall>a \<in> set al. held T a" and "getPointerAccessedVariables T al d = Inr al'"
  shows "\<forall>a \<in> set al'. held T a"
proof -
  have "\<forall>a \<in> set rs'. held T a"
    if "getPointerAccessedVariables_loop (heap T) n ps rs = Inr rs'" "\<forall>a \<in> set rs. held T a" for n ps rs rs'
    using that
  proof (induction n arbitrary: ps rs)
    case (Suc n)
    let ?cs = "sinsl (filter (\<lambda>p. p \<noteq> null) (concat (map (aliasedOf (heap T)) ps))) []"
    have "\<forall>a \<in> set ?cs. held T a" using links_live_targets(3) [OF assms(1)] live_held by fastforce
    then have "\<forall>a \<in> set (sinsl ?cs rs). held T a" using Suc.prems(2) by auto
    moreover have "getPointerAccessedVariables_loop (heap T) n ?cs (sinsl ?cs rs) = Inr rs'"
      using Suc.prems(1) by (simp add: Let_def split: if_splits)
    ultimately show ?case using Suc.IH by blast
  qed simp
  then show ?thesis using assms(2,3) by (simp add: getPointerAccessedVariables_def)
qed

section \<open>Entries\<close>

lemma add_entry_links:
  assumes "add_entry r T = Inr T'" and "g \<in> {aliased, references, pointers}"
  shows "Range (link_rel g (heap T')) \<subseteq> Range (link_rel g (heap T))"
proof -
  obtain v t p istr ex where "r = (v, t, p, istr, ex)" by (cases r)
  with assms(1) have "addElementToAliasTable T v t p istr ex = Inr T'" by (simp add: add_entry_def)
  then obtain a m where a: "aliasArg_new v t p istr ex (curId T) = Inr a"
    and T': "T' = T\<lparr>tmap := m, heap := aput (Suc (curId T)) a (heap T), curId := Suc (curId T)\<rparr>"
    by (rule addElement_cases)
  have "g a = []" using aliasArg_new_Inr [OF a] assms(2) by auto
  then show ?thesis using T' by (auto simp: link_rel_def split: if_splits)
qed

text \<open>Insertions keep the entries and the links: what \<open>entry_store\<close> needs of requests that are well formed.\<close>

lemma add_entry_live:
  assumes "table_live T" and "request_wf r" and "add_entry r T = Inr T'"
  shows "later T T'"
proof -
  have ok: "table_ok T" using assms(1) by (simp add: table_live_def)
  have "table_ok T'" using table_store.add_inv [OF ok assms(3)] .
  moreover have keep: "Collect (live T) \<subseteq> Collect (live T')"
    using table_store.add_keep [OF ok assms(2,3)] unfolding live_def by fastforce
  moreover have "Range (link_rel g (heap T')) \<subseteq> Collect (live T')" if "g \<in> {aliased, references, pointers}" for g
  proof -
    have "Range (link_rel g (heap T)) \<subseteq> Collect (live T)"
      using assms(1) that unfolding table_live_def links_live_def by blast
    with add_entry_links [OF assms(3) that] keep show ?thesis by blast
  qed
  ultimately show ?thesis unfolding later_def table_live_def links_live_def by blast
qed

lemma ensures_live:
  assumes "fold_res table_store.ensure pas T = Inr T'" and "table_live T" and "\<forall>pa \<in> set pas. request_wf (snd pa)"
  shows "later T T'"
proof (rule fold_res_invariant [OF assms(1), of "later T"])
  show "later T T" using assms(2) by (rule later_refl)
next
  fix pa s t assume "pa \<in> set pas" "later T s" "table_store.ensure pa s = Inr t"
  then show "later T t"
    using assms(3) add_entry_live [of s "snd pa" t] later_trans later_live
    by (fastforce simp: table_store.ensure_def split: if_splits)
qed

lemma getOrAddAliasArg_live:
  assumes "getOrAddAliasArg T v t p istr ex = Inr (a, T')" and "table_live T" and "(-1 \<in> set p) = (istr \<noteq> [])"
  shows "later T T'" and "live T' a"
proof -
  let ?r = "(v, t, p, istr, ex)"
  let ?es = "[((getKey v, [], []), base_request v t), ((getKey v, p, []), ?r), ((getKey v, p, istr), ?r)]"
  have r: "request_wf ?r" "request_key ?r = (getKey v, p, istr)"
    using assms(3) by (simp_all add: request_wf_def request_key_def)
  have run: "fold_res table_store.ensure ?es T = Inr T'" and a: "a = entry_at T' (getKey v, p, istr)"
    using assms(1) by (auto simp: getOrAddAliasArg_ensures res_simps)
  show "later T T'" by (rule ensures_live [OF run assms(2)]) (use r in simp)
  obtain T2 where T2: "fold_res table_store.ensure (butlast ?es) T = Inr T2"
    and last: "table_store.ensure ((getKey v, p, istr), ?r) T2 = Inr T'"
    using run by (auto simp: res_simps)
  have "later T T2" by (rule ensures_live [OF T2 assms(2)]) (use r in simp)
  then have "a \<noteq> null"
    using table_store.ensure_found [of T2 ?r T'] last r a by (simp add: later_def table_live_def)
  then show "live T' a" using a by (auto simp: live_def)
qed

section \<open>Links\<close>

definition relinked :: "'t aliasTable \<Rightarrow> 't aliasTable \<Rightarrow> bool" where
  "relinked T T' \<longleftrightarrow> later T T' \<and> live T' = live T"

lemma relinked_later: "relinked T T' \<Longrightarrow> later T T'"
  by (simp add: relinked_def)

lemma relinked_refl: "table_live T \<Longrightarrow> relinked T T"
  by (simp add: relinked_def later_refl)

lemma relinked_trans: "relinked T T' \<Longrightarrow> relinked T' T'' \<Longrightarrow> relinked T T''"
  using later_trans by (auto simp: relinked_def)

lemma relinked_table: "relinked T T' \<Longrightarrow> table_live T'"
  by (simp add: relinked_def later_def)

lemma relinked_held: "relinked T T' \<Longrightarrow> held T' a = held T a"
  by (simp add: relinked_def held_def)

lemma modify_relinked:
  assumes "modify p f T = Inr T'" and "table_live T" and "\<And>a. core (f a) = core a"
    and "\<And>a g x. g \<in> {aliased, references, pointers} \<Longrightarrow> x \<in> set (g (f a)) \<Longrightarrow> x \<in> set (g a) \<or> live T x"
  shows "relinked T T'"
proof -
  obtain a where a: "map_of (heap T) p = Some a" and T': "T' = T\<lparr>heap := aput p (f a) (heap T)\<rparr>"
    using assms(1) by (auto simp: modify_Inr)
  have "same_objects (heap T) (heap T')" using a assms(3) T' by (simp add: same_objects_aput)
  then have ok: "table_ok T'"
    using same_objects_table_ok [of T T'] assms(2) T' by (simp add: table_live_def)
  have "tmap T' = tmap T" using T' by simp
  from entry_at_tmap [OF this] have l: "live T' = live T" by (simp add: live_def fun_eq_iff)
  have "x \<in> Range (link_rel g (heap T)) \<or> live T x"
    if "g \<in> {aliased, references, pointers}" "x \<in> Range (link_rel g (heap T'))" for g x
    using that a T' assms(4) [OF that(1)] by (fastforce simp: link_rel_def split: if_splits)
  then have "links_live T'"
    using assms(2) l unfolding table_live_def links_live_def by (metis (no_types, lifting) in_mono mem_Collect_eq subsetI)
  with ok l show ?thesis by (simp add: relinked_def later_def table_live_def)
qed

text \<open>The address of an entry that can be changed is not null.\<close>

lemma modify_not_null: "modify p f T = Inr T' \<Longrightarrow> table_live T \<Longrightarrow> p \<noteq> null"
  by (force simp: modify_Inr table_live_def table_ok_def heap_ok_def null_def)

text \<open>A link from \<open>p\<close> to \<open>q\<close> and the link back.\<close>

lemma modify_two_relinked:
  assumes "bind_res (modify p f T) (modify q g) = Inr T'" and "table_live T"
    and "\<And>a. core (f a) = core a" and "\<And>a. core (g a) = core a"
    and "\<And>a h x. h \<in> {aliased, references, pointers} \<Longrightarrow> x \<in> set (h (f a)) \<Longrightarrow> x \<in> set (h a) \<or> x = q"
    and "\<And>a h x. h \<in> {aliased, references, pointers} \<Longrightarrow> x \<in> set (h (g a)) \<Longrightarrow> x \<in> set (h a) \<or> x = p"
    and "held T p" and "held T q" and "q \<noteq> null"
  shows "relinked T T'"
proof -
  obtain T1 where T1: "modify p f T = Inr T1" "modify q g T1 = Inr T'" using assms(1) by (auto simp: res_simps)
  have lq: "live T q" "live T p"
    using assms(7-9) modify_not_null [OF T1(1) assms(2)] by (auto simp: held_def)
  have r1: "relinked T T1" by (rule modify_relinked [OF T1(1) assms(2,3)]) (use assms(5) lq in blast)
  have "live T1 p" using r1 lq(2) by (simp add: relinked_def)
  then have "relinked T1 T'" by (intro modify_relinked [OF T1(2) relinked_table [OF r1] assms(4)]) (use assms(6) in blast)
  with r1 show ?thesis by (rule relinked_trans)
qed

lemma addAliasReference_relinked:
  assumes "addAliasReference T var ref = Inr T'" and "table_live T" and "held T var" and "held T ref"
  shows "relinked T T'"
proof (cases "var \<noteq> null \<and> ref \<noteq> null")
  case True
  with assms(1) have "bind_res (modify var (\<lambda>a. a\<lparr>references := sins ref (references a)\<rparr>) T)
      (modify ref (\<lambda>a. a\<lparr>aliased := sins var (aliased a)\<rparr>)) = Inr T'"
    by (simp add: addAliasReference_def)
  then show ?thesis by (rule modify_two_relinked [OF _ assms(2) _ _ _ _ assms(3,4)]) (use True in auto)
next
  case False
  then show ?thesis using assms(1,2) by (auto simp: addAliasReference_def relinked_refl)
qed

lemma addAliasPtr_relinked:
  assumes "addAliasPtr T var ptr = Inr T'" and "table_live T" and "held T var" and "held T ptr"
  shows "relinked T T'"
proof (cases "var \<noteq> null \<and> ptr \<noteq> null")
  case True
  with assms(1) have "bind_res (modify var (\<lambda>a. a\<lparr>pointers := sins ptr (pointers a)\<rparr>) T)
      (modify ptr (\<lambda>a. a\<lparr>aliased := sins var (aliased a)\<rparr>)) = Inr T'"
    by (simp add: addAliasPtr_def)
  then show ?thesis by (rule modify_two_relinked [OF _ assms(2) _ _ _ _ assms(3,4)]) (use True in auto)
next
  case False
  then show ?thesis using assms(1,2) by (auto simp: addAliasPtr_def relinked_refl)
qed

lemma linkAliased_relinked:
  assumes "linkAliased dest x T = Inr T'" and "table_live T" and "held T dest" and "live T x"
  shows "relinked T T'"
  using assms(1) unfolding linkAliased_def
  by (rule modify_two_relinked [OF _ assms(2)])
     (use assms(3,4) in \<open>auto simp: live_held\<close>, auto simp: live_def)

text \<open>The loop over what an entry aliases.\<close>

lemma fold_linkAliased_relinked:
  assumes "fold_res (linkAliased dest) xs T = Inr T'" and "table_live T" and "held T dest" and "\<forall>x \<in> set xs. live T x"
  shows "relinked T T'"
proof (rule fold_res_invariant [OF assms(1), of "relinked T"])
  show "relinked T T" using assms(2) by (rule relinked_refl)
next
  fix x s t assume x: "x \<in> set xs" "relinked T s" "linkAliased dest x s = Inr t"
  have "relinked s t"
    by (rule linkAliased_relinked [OF x(3) relinked_table [OF x(2)]])
       (use x assms(3,4) in \<open>simp_all add: relinked_held [OF x(2)]\<close>, simp add: relinked_def)
  with x(2) show "relinked T t" by (rule relinked_trans)
qed

lemma deref_aliased_live:
  assumes "table_live T" and "deref (heap T) p = Inr a"
  shows "\<forall>x \<in> set (aliased a). live T x"
  using assms unfolding table_live_def links_live_def link_rel_def by (fastforce simp: deref_def split: option.splits)

lemma fuseAliased_relinked:
  assumes "fuseAliased T src dest = Inr T'" and "table_live T" and "held T dest"
  shows "relinked T T'"
proof (cases "dest \<noteq> null \<and> src \<noteq> null \<and> dest \<noteq> src")
  case True
  then obtain a where a: "deref (heap T) src = Inr a" "fold_res (linkAliased dest) (aliased a) T = Inr T'"
    using assms(1) by (auto simp: fuseAliased_def res_simps)
  show ?thesis by (rule fold_linkAliased_relinked [OF a(2) assms(2,3) deref_aliased_live [OF assms(2) a(1)]])
next
  case False
  then show ?thesis using assms(1,2) by (auto simp: fuseAliased_def relinked_refl)
qed

lemma removeDependencyPtr_relinked:
  fixes T :: "'t aliasTable"
  assumes "removeDependencyPtr T ptr = Inr T'" and "table_live T"
  shows "relinked T T'"
proof (cases "ptr = null")
  case True
  then show ?thesis using assms by (auto simp: removeDependencyPtr_def relinked_refl)
next
  case False
  let ?f = "\<lambda>x T'. bind_res (deref (heap T') x) (\<lambda>a. bind_res (getAliasArg T' (declarationOf a) [] [])
    (\<lambda>tableValueVar. modify tableValueVar (\<lambda>b. b\<lparr>pointers := sdel ptr (pointers b)\<rparr>) T'))"
  obtain p :: "'t aliasArg" and T1 where p: "fold_res ?f (aliased p) T = Inr T1" "modify ptr (\<lambda>a. a\<lparr>aliased := []\<rparr>) T1 = Inr T'"
    using False assms(1) unfolding removeDependencyPtr_def by (simp add: bind_res_Inr) (elim exE conjE, rule that)
  have r1: "relinked T T1"
  proof (rule fold_res_invariant [OF p(1), of "relinked T"])
    show "relinked T T" using assms(2) by (rule relinked_refl)
  next
    fix x s t assume s: "relinked T s" "?f x s = Inr t"
    then obtain q where "modify q (\<lambda>b. b\<lparr>pointers := sdel ptr (pointers b)\<rparr>) s = Inr t" by (auto simp: res_simps)
    then have "relinked s t" by (rule modify_relinked [OF _ relinked_table [OF s(1)]]) auto
    with s(1) show "relinked T t" by (rule relinked_trans)
  qed
  have "relinked T1 T'" by (rule modify_relinked [OF p(2) relinked_table [OF r1]]) auto
  with r1 show ?thesis by (rule relinked_trans)
qed

lemma replaceAliasedToElement_relinked:
  assumes "replaceAliasedToElement T src dest = Inr T'" and "table_live T" and "held T dest"
  shows "relinked T T'"
proof (cases "src = dest")
  case True
  then show ?thesis using assms(1,2) by (auto simp: replaceAliasedToElement_def relinked_refl)
next
  case False
  then obtain T1 a where a: "removeDependencyPtr T dest = Inr T1" "deref (heap T1) src = Inr a"
    "fold_res (linkAliased dest) (aliased a) T1 = Inr T'"
    using assms(1) by (auto simp: replaceAliasedToElement_def res_simps)
  have r1: "relinked T T1" by (rule removeDependencyPtr_relinked [OF a(1) assms(2)])
  have "held T1 dest" using assms(3) by (simp add: relinked_held [OF r1])
  then have "relinked T1 T'"
    by (intro fold_linkAliased_relinked [OF a(3) relinked_table [OF r1]] deref_aliased_live [OF relinked_table [OF r1] a(2)])
  with r1 show ?thesis by (rule relinked_trans)
qed

section \<open>Elements whose children can be computed\<close>

text \<open>An index below -1 fails an assertion on the way to the element.\<close>

lemma dependencies_loop_bounds:
  assumes "getArrayElementDependencies_loop st idx nx deps = Inr r"
    and "(\<exists>v \<in> set st. descend (Some v) idx \<noteq> None)
       \<or> (st \<noteq> [] \<and> (\<exists>w \<in> set nx. descend (Some w) (tl idx) \<noteq> None))"
  shows "\<forall>i \<in> set idx. i \<ge> -1"
  using assms
proof (induction st idx nx deps rule: getArrayElementDependencies_loop.induct)
  case (3 cur toVisit i "is" nx deps)
  obtain cs where cs: "getDirectChildren cur i = Inr cs" using "3.prems"(1) by (auto simp: res_simps)
  have i: "i \<ge> -1" using cs by (auto simp: getDirectChildren_def split: if_splits)
  have here: "\<exists>w \<in> set cs. descend (Some w) is \<noteq> None" if "descend (Some cur) (i # is) \<noteq> None"
  proof (cases cur)
    case (SubArray s m)
    with that obtain w where w: "map_of m i = Some w" "descend (Some w) is \<noteq> None" by (cases "map_of m i") auto
    then have "w \<in> set cs"
      using cs i SubArray by (force simp: getDirectChildren_def dest: map_of_SomeD split: if_splits)
    with w(2) show ?thesis by blast
  qed (use that in simp)
  show ?case
  proof (cases "toVisit = []")
    case True
    have "\<exists>w \<in> set (nx @ cs). descend (Some w) is \<noteq> None" using "3.prems"(2) here True by auto
    moreover have "getArrayElementDependencies_loop (rev (nx @ cs)) is [] (sinsl (concat (map aliasesOfValue cs)) deps) = Inr r"
      using "3.prems"(1) cs True by (simp add: Let_def)
    ultimately have "\<forall>i \<in> set is. i \<ge> -1" using "3.IH"(1) [OF refl refl True] by auto
    with i show ?thesis by simp
  next
    case False
    have "(\<exists>v \<in> set toVisit. descend (Some v) (i # is) \<noteq> None)
       \<or> (toVisit \<noteq> [] \<and> (\<exists>w \<in> set (nx @ cs). descend (Some w) (tl (i # is)) \<noteq> None))"
      using "3.prems"(2) here False by auto
    moreover have "getArrayElementDependencies_loop toVisit (i # is) (nx @ cs) (sinsl (concat (map aliasesOfValue cs)) deps) = Inr r"
      using "3.prems"(1) cs False by (simp add: Let_def)
    ultimately show ?thesis using "3.IH"(2) [OF refl refl False] by blast
  qed
qed auto

lemma getArrayElementChildren_bounds:
  assumes "stored T d a" and "getArrayElementChildren T d = Inr cs" and "d \<noteq> null"
  shows "\<forall>i \<in> set (indexes a). i \<ge> -1"
proof -
  obtain s where "struct_at (tmap T) (getKey (declarationOf a)) (indexes a) = Some s" and a: "map_of (heap T) d = Some a"
    using assms(1) by (auto simp: stored_def)
  then have d: "descend (map_of (tmap T) (getKey (declarationOf a))) (indexes a) \<noteq> None"
    by (cases "descend (map_of (tmap T) (getKey (declarationOf a))) (indexes a)") (auto simp: struct_at_def struct_in_def)
  obtain e where "AliasTableMap_at (tmap T) (getKey (declarationOf a)) [] = Some e"
    and "\<exists>deps R. getArrayElementDependencies_loop [e] (indexes a) [] deps = Inr R"
    using assms(2,3) a
    by (auto simp: getArrayElementChildren_def getArrayElementDependencies_def deref_def res_simps split: option.splits)
  with d show ?thesis using dependencies_loop_bounds [of "[e]" "indexes a" "[]"] by (auto simp: AliasTableMap_at_descend)
qed

end
