(* ===== verification/Visitor_Invariant.thy ===== *)
theory Visitor_Invariant
  imports Alias_Live Visitor_Deps
begin

text \<open>
  What the methods of the visitor keep while they walk an expression: every dependence of the
  instruction is an entry of the table or null, and the rest of the instruction is unchanged. The
  methods call each other, so the lemmas about each of them are proved in a locale whose assumptions
  are the contracts of the recursive calls; the calls with a bound are an instance for every bound.
\<close>

section \<open>Contracts\<close>

text \<open>A result that is no error satisfies a postcondition.\<close>

definition ensures :: "'a res \<Rightarrow> ('a \<Rightarrow> bool) \<Rightarrow> bool" where
  "ensures r Q \<longleftrightarrow> (\<forall>a. r = Inr a \<longrightarrow> Q a)"

lemma ensuresD: "ensures r Q \<Longrightarrow> r = Inr a \<Longrightarrow> Q a"
  by (simp add: ensures_def)

lemma ensuresI: "(\<And>a. r = Inr a \<Longrightarrow> Q a) \<Longrightarrow> ensures r Q"
  by (simp add: ensures_def)

lemma ensures_simps [simp]: "ensures (Inl e) Q" "ensures (Inr a) Q \<longleftrightarrow> Q a"
  by (simp_all add: ensures_def)

lemma ensures_pure: "(\<And>a. r = Inr a \<Longrightarrow> ensures (f a) Q) \<Longrightarrow> ensures (bind_res r f) Q"
  by (auto simp: ensures_def res_simps)

lemma ensures_bind: "ensures r P \<Longrightarrow> (\<And>a. P a \<Longrightarrow> ensures (f a) Q) \<Longrightarrow> ensures (bind_res r f) Q"
  by (auto simp: ensures_def res_simps)

lemma ensures_weaken: "ensures r P \<Longrightarrow> (\<And>a. P a \<Longrightarrow> Q a) \<Longrightarrow> ensures r Q"
  by (simp add: ensures_def)

lemma ensures_fold:
  assumes "P s" and "\<And>x s. x \<in> set xs \<Longrightarrow> P s \<Longrightarrow> ensures (f x s) P"
  shows "ensures (fold_res f xs s) P"
  using fold_res_invariant [of f xs s _ P] assms by (auto simp: ensures_def)

text \<open>Operations that keep an invariant and lead from a state to a later one.\<close>

locale stepping =
  fixes good :: "'s \<Rightarrow> bool" and step :: "'s \<Rightarrow> 's \<Rightarrow> bool"
  assumes step_refl: "good s \<Longrightarrow> step s s"
    and step_trans: "step s s' \<Longrightarrow> step s' s'' \<Longrightarrow> step s s''"
    and step_good: "step s s' \<Longrightarrow> good s'"
begin

lemma ensures_after: "step s s1 \<Longrightarrow> ensures r (step s1) \<Longrightarrow> ensures r (step s)"
  by (auto simp: ensures_def intro: step_trans)

lemma ensures_then:
  assumes "ensures r (step s)" and "\<And>s1. step s s1 \<Longrightarrow> good s1 \<Longrightarrow> ensures (f s1) (step s1)"
  shows "ensures (bind_res r f) (step s)"
proof (rule ensures_bind [OF assms(1)])
  fix s1 assume s1: "step s s1"
  show "ensures (f s1) (step s)" by (rule ensures_after [OF s1 assms(2) [OF s1 step_good [OF s1]]])
qed

lemma ensures_steps:
  assumes "good s" and "\<And>x s1. x \<in> set xs \<Longrightarrow> step s s1 \<Longrightarrow> good s1 \<Longrightarrow> ensures (f x s1) (step s1)"
  shows "ensures (fold_res f xs s) (step s)"
proof (rule ensures_fold)
  show "step s s" using assms(1) by (rule step_refl)
next
  fix x s1 assume x: "x \<in> set xs" "step s s1"
  show "ensures (f x s1) (step s)" using ensures_after [OF x(2) assms(2) [OF x step_good [OF x(2)]]] .
qed

end

section \<open>States of the visitor\<close>

definition hgood :: "'t hstate \<Rightarrow> bool" where
  "hgood s \<longleftrightarrow> table_live (fst s) \<and> (\<forall>d \<in> fst ` set (instr_dependencies (snd s)). held (fst s) d)"

definition all_held :: "'t hstate \<Rightarrow> addr list \<Rightarrow> bool" where
  "all_held s al \<longleftrightarrow> (\<forall>a \<in> set al. held (fst s) a)"

text \<open>The part of an instruction the methods never change.\<close>

definition shell :: "'t instruction \<Rightarrow> 't stmt option \<times> bool \<times> 't instruction list" where
  "shell ins = (instr_stmt ins, complexInstruction ins, scopedInstructions ins)"

definition hstep :: "'t hstate \<Rightarrow> 't hstate \<Rightarrow> bool" where
  "hstep s s' \<longleftrightarrow> hgood s' \<and> later (fst s) (fst s') \<and> shell (snd s') = shell (snd s)"

text \<open>An operation that returns the entries of a list with the state.\<close>

definition hstep_list :: "'t hstate \<Rightarrow> addr list \<times> 't hstate \<Rightarrow> bool" where
  "hstep_list s r \<longleftrightarrow> hstep s (snd r) \<and> all_held (snd r) (fst r)"

lemma hstep_refl: "hgood s \<Longrightarrow> hstep s s"
  by (simp add: hstep_def hgood_def later_refl)

lemma hstep_trans: "hstep s s' \<Longrightarrow> hstep s' s'' \<Longrightarrow> hstep s s''"
  using later_trans by (auto simp: hstep_def)

lemma hstep_good: "hstep s s' \<Longrightarrow> hgood s'"
  by (simp add: hstep_def)

lemma hstep_held: "hstep s s' \<Longrightarrow> held (fst s) a \<Longrightarrow> held (fst s') a"
  by (auto simp: hstep_def intro: later_held)

lemma hstep_all_held: "hstep s s' \<Longrightarrow> all_held s al \<Longrightarrow> all_held s' al"
  by (auto simp: all_held_def intro: hstep_held)

lemma hgood_table: "hgood s \<Longrightarrow> table_live (fst s)"
  by (simp add: hgood_def)

lemma hgood_links: "hgood s \<Longrightarrow> links_live (fst s)"
  by (simp add: hgood_def table_live_def)

interpretation hstate: stepping hgood hstep
  by unfold_locales (fact hstep_refl hstep_trans hstep_good)+

lemmas hensures_then = hstate.ensures_then
lemmas hensures_after = hstate.ensures_after
lemmas ensures_hfold = hstate.ensures_steps

lemma ensures_after_list: "hstep s s1 \<Longrightarrow> ensures r (hstep_list s1) \<Longrightarrow> ensures r (hstep_list s)"
  by (auto simp: ensures_def hstep_list_def intro: hstep_trans)

section \<open>Operations on the instruction\<close>

lemma with_dependencies_fields [simp]:
  "instr_dependencies (with_dependencies f i) = f (instr_dependencies i)" "shell (with_dependencies f i) = shell i"
  by (cases i; simp add: shell_def)+

lemma with_curAliases_fields [simp]:
  "instr_dependencies (with_curAliases f i) = instr_dependencies i" "shell (with_curAliases f i) = shell i"
  by (cases i; simp add: shell_def)+

lemma dom_addDep: "fst ` set (addDep r w a deps) = insert a (fst ` set deps)"
  by (auto simp: addDep_def split: option.splits)

lemma dom_fold_addDep: "fst ` set (fold (addDep r w) xs deps) = set xs \<union> fst ` set deps"
  by (induction xs arbitrary: deps) (auto simp: dom_addDep)

lemma addDependencies_hstep:
  assumes "hgood s" and "held (fst s) d"
  shows "hstep s (addDependencyRead d s)" and "hstep s (addDependencyWrite d s)"
proof -
  obtain T ins where s: "s = (T, ins)" by (cases s)
  have "\<forall>a \<in> set (getAliases T d). held T a" using getAliases_held [OF hgood_links [OF assms(1)] assms(2)] by (simp add: s)
  moreover have "\<forall>a \<in> fst ` set (instr_dependencies ins). held T a" using assms(1) by (simp add: s hgood_def)
  ultimately have "hstep s (T, with_dependencies (fold (addDep r w) (getAliases T d)) ins)" for r w
    using hgood_table [OF assms(1)] unfolding hstep_def hgood_def by (simp add: s later_refl dom_fold_addDep ball_Un del: ball_simps)
  then show "hstep s (addDependencyRead d s)" "hstep s (addDependencyWrite d s)"
    by (simp_all add: addDependencyRead_def addDependencyWrite_def s)
qed

text \<open>The two flags of the calls.\<close>

lemma addDependency_flags_hstep:
  assumes "hgood s" and "held (fst s) d"
  shows "hstep s (let s2 = (if rd then addDependencyRead d s else s) in if wr then addDependencyWrite d s2 else s2)"
proof -
  have "hstep s (if rd then addDependencyRead d s else s)" (is "hstep s ?s2")
    using assms by (simp add: hstep_refl addDependencies_hstep)
  moreover from this have "hstep ?s2 (addDependencyWrite d ?s2)"
    by (intro addDependencies_hstep hstep_good [OF \<open>hstep s ?s2\<close>] hstep_held [OF \<open>hstep s ?s2\<close> assms(2)])
  ultimately show ?thesis using hstep_trans [of s ?s2 "addDependencyWrite d ?s2"] unfolding Let_def by (cases wr) simp_all
qed

lemma fold_hstep:
  assumes "hgood s" and "\<And>a s. a \<in> set al \<Longrightarrow> hgood s \<Longrightarrow> held (fst s) a \<Longrightarrow> hstep s (f a s)" and "all_held s al"
  shows "hstep s (fold f al s)"
  using assms
proof (induction al arbitrary: s)
  case Nil
  then show ?case by (simp add: hstep_refl)
next
  case (Cons a al)
  have a: "hstep s (f a s)" using Cons.prems by (auto simp: all_held_def)
  have "all_held s al" using Cons.prems(3) by (simp add: all_held_def)
  then have "hstep (f a s) (fold f al (f a s))"
    by (intro Cons.IH hstep_good [OF a] Cons.prems(2) hstep_all_held [OF a]) simp_all
  with a show ?case by (simp add: hstep_trans [OF a])
qed

lemma addReads_hstep: "hgood s \<Longrightarrow> all_held s al \<Longrightarrow> hstep s (addReads al s)"
  unfolding addReads_def by (rule fold_hstep) (auto intro: addDependencies_hstep)

lemma addWrites_hstep: "hgood s \<Longrightarrow> all_held s al \<Longrightarrow> hstep s (addWrites al s)"
  unfolding addWrites_def by (rule fold_hstep) (auto intro: addDependencies_hstep)

section \<open>The entry of an expression\<close>

text \<open>A subscript of unknown value has a text.\<close>

lemma indexText_empty: "indexText C is = [] \<longleftrightarrow> is = []"
  by (cases "is") (simp_all add: indexText_def)

lemma getOrAddAliasExpr_live:
  assumes "table_live T"
  shows "ensures (getOrAddAliasExpr C e type T) (\<lambda>(a, T'). later T T' \<and> held T' a)"
proof -
  have add: "ensures (getOrAddAliasArg T v t p istr ex) (\<lambda>(a, T'). later T T' \<and> held T' a)"
    if "(-1 \<in> set p) = (istr \<noteq> [])" for v t p istr ex
    using getOrAddAliasArg_live [OF _ assms that] by (auto simp: ensures_def intro: live_held)
  have arr: "ensures (if -1 \<in> set indexes then getOrAddAliasArg T v t indexes (indexText C is) (Some e')
        else getOrAddAliasArg T v t indexes [] None) (\<lambda>(a, T'). later T T' \<and> held T' a)"
    if "getArraySubscriptsIndexesValues C e' = Inr indexes" "getArraySubscriptsIndexes C e' = Inr is" for indexes e' "is" v t
  proof -
    have "is \<noteq> []" if "-1 \<in> set indexes"
      using that \<open>getArraySubscriptsIndexesValues C e' = Inr indexes\<close> \<open>getArraySubscriptsIndexes C e' = Inr is\<close>
      by (auto simp: getArraySubscriptsIndexesValues_def res_simps split: if_splits)
    then show ?thesis by (auto intro!: add simp: indexText_empty)
  qed
  show ?thesis
    unfolding getOrAddAliasExpr_def Let_def
    by (rule ensures_pure) (auto split: option.splits ekind.splits decl.splits intro!: add ensures_pure arr
        simp: later_refl [OF assms])
qed

lemma later_hstep: "hgood s \<Longrightarrow> later (fst s) T \<Longrightarrow> hstep s (T, snd s)"
  by (auto simp: hstep_def hgood_def later_live intro: later_held)

lemma aliasOf_hstep:
  assumes "hgood s"
  shows "ensures (aliasOf C e type s) (\<lambda>(a, s'). hstep s s' \<and> held (fst s') a)"
proof -
  obtain T ins where s: "s = (T, ins)" by (cases s)
  have "ensures (getOrAddAliasExpr C e type T) (\<lambda>(a, T'). later T T' \<and> held T' a)"
    using hgood_table [OF assms] s by (intro getOrAddAliasExpr_live) simp
  then show ?thesis
    using later_hstep [OF assms] by (fastforce simp: aliasOf_def s ensures_def res_simps)
qed

text \<open>The entry, followed by another operation.\<close>

lemma ensures_aliasOf:
  assumes "hgood s" and "\<And>a s1. hstep s s1 \<Longrightarrow> hgood s1 \<Longrightarrow> held (fst s1) a \<Longrightarrow> ensures (f (a, s1)) (hstep s1)"
  shows "ensures (bind_res (aliasOf C e type s) f) (hstep s)"
  by (rule ensures_bind [OF aliasOf_hstep [OF assms(1)]]) (use assms(2) hensures_after hstep_good in fastforce)

lemma addDependenciesRead_hstep: "hgood s \<Longrightarrow> ensures (addDependenciesRead C e s) (hstep s)"
  unfolding addDependenciesRead_def
  by (rule ensures_hfold) (auto intro!: ensures_aliasOf addDependencies_hstep)

lemma readAccessed_hstep:
  assumes "hgood s" and "held (fst s) a"
  shows "ensures (readAccessed a depth s) (hstep s)"
  unfolding readAccessed_def
proof (rule ensures_pure)
  fix al assume "getPointerAccessedVariables (fst s) [a] depth = Inr al"
  then have "all_held s al"
    using getPointerAccessedVariables_held [OF hgood_links [OF assms(1)]] assms(2) unfolding all_held_def by force
  then show "ensures (Inr (addReads al s)) (hstep s)" using addReads_hstep [OF assms(1)] by simp
qed

section \<open>Links\<close>

lemma on_table_hstep:
  assumes "hgood s" and "ensures (f (fst s)) (relinked (fst s))"
  shows "ensures (on_table f s) (hstep s)"
proof -
  obtain T ins where s: "s = (T, ins)" by (cases s)
  show ?thesis unfolding on_table_def s prod.case
    by (rule ensures_bind [OF assms(2) [unfolded s fst_conv]])
       (use later_hstep [OF assms(1)] relinked_later in \<open>auto simp: s\<close>)
qed

lemma for_pairs_relinked:
  assumes "table_live T" and "\<forall>a \<in> set ls \<union> set rs. held T a"
    and "\<And>l r T'. table_live T' \<Longrightarrow> held T' l \<Longrightarrow> held T' r \<Longrightarrow> ensures (f l r T') (relinked T')"
  shows "ensures (for_pairs f ls rs T) (relinked T)"
  unfolding for_pairs_def
proof (rule ensures_fold)
  show "relinked T T" using assms(1) by (rule relinked_refl)
next
  fix l T1 assume l: "l \<in> set ls" "relinked T T1"
  show "ensures (fold_res (f l) rs T1) (relinked T)"
  proof (rule ensures_fold)
    fix r T2 assume r: "r \<in> set rs" "relinked T T2"
    have "ensures (f l r T2) (relinked T2)"
      by (rule assms(3)) (use l(1) r(1) assms(2) in \<open>simp_all add: relinked_table [OF r(2)] relinked_held [OF r(2)]\<close>)
    then show "ensures (f l r T2) (relinked T)"
      by (rule ensures_weaken) (rule relinked_trans [OF r(2)])
  qed (rule l(2))
qed

lemma ensures_links:
  "table_live T \<Longrightarrow> held T l \<Longrightarrow> held T r \<Longrightarrow> ensures (addAliasPtr T r l) (relinked T)"
  "table_live T \<Longrightarrow> held T l \<Longrightarrow> held T r \<Longrightarrow> ensures (addAliasReference T r l) (relinked T)"
  "table_live T \<Longrightarrow> held T l \<Longrightarrow> ensures (fuseAliased T r l) (relinked T)"
  "table_live T \<Longrightarrow> held T l \<Longrightarrow> ensures (replaceAliasedToElement T r l) (relinked T)"
  "table_live T \<Longrightarrow> ensures (removeDependencyPtr T l) (relinked T)"
  by (auto simp: ensures_def intro: addAliasPtr_relinked addAliasReference_relinked fuseAliased_relinked
      replaceAliasedToElement_relinked removeDependencyPtr_relinked)

lemma on_pairs_hstep:
  assumes "hgood s" and "all_held s ls" and "all_held s rs"
    and "\<And>l r T'. table_live T' \<Longrightarrow> held T' l \<Longrightarrow> held T' r \<Longrightarrow> ensures (f l r T') (relinked T')"
  shows "ensures (on_table (for_pairs f ls rs) s) (hstep s)"
  by (intro on_table_hstep [OF assms(1)] for_pairs_relinked hgood_table [OF assms(1)])
     (use assms(2-4) in \<open>auto simp: all_held_def\<close>)

lemma modified_held:
  assumes "hgood s" and "all_held s al" and "getModifiedVariables (fst s) al depth = Inr al'"
  shows "all_held s al'"
  using getModifiedVariables_held [OF hgood_links [OF assms(1)] _ assms(3)] assms(2) by (simp add: all_held_def)

lemma all_held_sinsl [simp]: "all_held s (sinsl xs ys) \<longleftrightarrow> all_held s xs \<and> all_held s ys"
  by (auto simp: all_held_def)

lemma all_held_sins [simp]: "all_held s (sins x ys) \<longleftrightarrow> held (fst s) x \<and> all_held s ys"
  by (auto simp: all_held_def)

lemma all_held_Nil [simp]: "all_held s []"
  by (simp add: all_held_def)

section \<open>The methods\<close>

text \<open>The calls that do not change the state.\<close>

lemmas ensures_pures =
  ensures_pure [where r = "bind_res (exprType e) g" for e g]
  ensures_pure [where r = "getParamDecl f i" for f i]
  ensures_pure [where r = "isFullConstType C t" for C t]
  ensures_pure [where r = "getPtrDepthAccess_var C v e" for C v e]
  ensures_pure [where r = "getPtrDepthAccess C t u" for C t u]
  ensures_pure [where r = "getArraySubscriptsIndexesValues C e" for C e]
  ensures_pure [where r = "exprType e" for e]
  ensures_pure [where r = "exprDepth C e d" for C e d]
  ensures_pure [where r = "getSubExpr e" for e]
  ensures_pure [where r = "initVarFromExpr C e" for C e]
  ensures_pure [where r = "getLHS e" for e]
  ensures_pure [where r = "getRHS e" for e]
  ensures_pure [where r = "getIdx C e" for C e]
  ensures_pure [where r = "deref h a" for h a]
  ensures_pure [where r = "getModifiedVariables T al d" for T al d]
  ensures_pure [where r = "referenced_exprs C e" for C e]
  ensures_pure [where r = "sharedArgument C e" for C e]
  ensures_pure [where r = "isMutableParam C t" for C t]

locale visitor_calls =
  fixes C :: "'t clang" and handle :: "'t handler" and compute :: "'t computer"
  assumes handle_hstep: "hgood s \<Longrightarrow> ensures (handle e w r s) (hstep s)"
    and compute_hstep: "hgood s \<Longrightarrow> all_held s al \<Longrightarrow> ensures (compute e al s) (hstep_list s)"
begin

text \<open>A recursive call, followed by another operation.\<close>

lemma ensures_compute:
  assumes "hgood s" and "all_held s al"
    and "\<And>al' s1. hstep s s1 \<Longrightarrow> hgood s1 \<Longrightarrow> all_held s1 al' \<Longrightarrow> ensures (f (al', s1)) (hstep s1)"
  shows "ensures (bind_res (compute e al s) f) (hstep s)"
proof (rule ensures_bind [OF compute_hstep [OF assms(1,2)]])
  fix r :: "addr list \<times> 't hstate" assume r: "hstep_list s r"
  obtain al' s1 where "r = (al', s1)" by (cases r)
  with r have "hstep s s1" "all_held s1 al'" "r = (al', s1)" by (simp_all add: hstep_list_def)
  then show "ensures (f r) (hstep s)" using assms(3) by (simp add: hensures_after hstep_good)
qed

lemma ensures_compute_list:
  assumes "hgood s" and "all_held s al"
    and "\<And>al' s1. hstep s s1 \<Longrightarrow> hgood s1 \<Longrightarrow> all_held s1 al' \<Longrightarrow> ensures (f (al', s1)) (hstep_list s1)"
  shows "ensures (bind_res (compute e al s) f) (hstep_list s)"
proof (rule ensures_bind [OF compute_hstep [OF assms(1,2)]])
  fix r :: "addr list \<times> 't hstate" assume r: "hstep_list s r"
  obtain al' s1 where "r = (al', s1)" by (cases r)
  with r have "hstep s s1" "all_held s1 al'" "r = (al', s1)" by (simp_all add: hstep_list_def)
  then show "ensures (f r) (hstep_list s)" using assms(3) by (simp add: ensures_after_list hstep_good)
qed

lemma ensures_aliasOf_list:
  assumes "hgood s" and "\<And>a s1. hstep s s1 \<Longrightarrow> hgood s1 \<Longrightarrow> held (fst s1) a \<Longrightarrow> ensures (f (a, s1)) (hstep_list s1)"
  shows "ensures (bind_res (aliasOf C e type s) f) (hstep_list s)"
proof (rule ensures_bind [OF aliasOf_hstep [OF assms(1)]], clarify)
  fix a T ins assume h: "hstep s (T, ins)" "held (fst (T, ins)) a"
  show "ensures (f (a, T, ins)) (hstep_list s)"
    by (rule ensures_after_list [OF h(1) assms(2) [OF h(1) hstep_good [OF h(1)] h(2)]])
qed

subsection \<open>The right side of an assignment\<close>

lemma computeAliases_variable_hstep:
  assumes "hgood s" and "all_held s al"
  shows "ensures (computeAliases_variable C rhs d al s) (hstep_list s)"
proof (cases "declRefVar d")
  case (Some v)
  show ?thesis unfolding computeAliases_variable_def Some option.case
  proof (rule ensures_aliasOf_list [OF assms(1)], clarify)
    fix a T ins assume h: "hstep s (T, ins)" "hgood (T, ins)" "held (fst (T, ins)) a"
    have al1: "all_held (T, ins) (sins a al)" using h hstep_all_held [OF h(1) assms(2)] by simp
    have r: "hstep_list (T, ins) (al2, T, with_curAliases f ins)" if "all_held (T, ins) al2" for al2 f
      using that h(2) by (simp add: hstep_list_def hstep_def hgood_def later_refl all_held_def)
    show "ensures (let aliases1 = sins a al in
           bind_res (getPtrDepthAccess_var C v rhs) (\<lambda>depth.
           bind_res (if depth \<noteq> -1 then getModifiedVariables T aliases1 depth else Inr aliases1) (\<lambda>aliases2.
             Inr (aliases2, T,
               with_curAliases (sinsl (map (Pair a) (filter (\<lambda>alias. a \<noteq> alias) aliases2))) ins)))) (hstep_list (T, ins))"
      unfolding Let_def
      by (intro ensures_pure) (use al1 modified_held [OF h(2) al1] in \<open>auto intro!: r split: if_splits\<close>)
  qed
qed (simp add: computeAliases_variable_def)

lemma computeAliases_argument_hstep:
  assumes "hstep_list s st" and "hgood (snd st)"
  shows "ensures (computeAliases_argument C compute f iarg st) (hstep_list s)"
proof -
  obtain i arg where ia: "iarg = (i, arg)" by (cases iarg)
  obtain al s1 where st: "st = (al, s1)" by (cases st)
  have h: "hstep s s1" "all_held s1 al" "hgood s1" using assms by (simp_all add: st hstep_list_def)
  have keep: "hstep_list s1 (al, s1)" using h by (simp add: hstep_list_def hstep_refl)
  have sub: "hstep_list s2 (sinsl sub al, s2)" "all_held s2 (sinsl sub al)"
    if "hstep s1 s2" "hgood s2" "all_held s2 sub" for s2 sub
    using that hstep_all_held [OF that(1) h(2)] by (simp_all add: hstep_list_def hstep_refl)
  have sub': "hstep_list s3 (sins a (sinsl sub al), s3)"
    if "hstep s1 s2" "hgood s2" "all_held s2 sub" "hstep s2 s3" "hgood s3" "held (fst s3) a" for s2 sub s3 a
    using hstep_all_held [OF that(4) sub(2) [OF that(1-3)]] that(5,6) by (simp add: hstep_list_def hstep_refl)
  show ?thesis unfolding computeAliases_argument_def ia st prod.case
    by (rule ensures_after_list [OF h(1)], rule ensures_pure)
       (auto split: option.splits simp: keep sub h(3) Let_def
          intro!: ensures_pures ensures_compute_list ensures_aliasOf_list sub')
qed

lemma computeAliases_body_hstep:
  assumes "hgood s" and "all_held s al"
  shows "ensures (computeAliases_body C handle compute e al s) (hstep_list s)"
proof -
  have arr: "hstep_list s1 (sins a al, s1)" if "hstep s s1" "hgood s1" "held (fst s1) a" for a s1
    using that hstep_all_held [OF that(1) assms(2)] by (simp add: hstep_list_def hstep_refl)
  have call: "ensures (fold_res (computeAliases_argument C compute f) args (al, s)) (hstep_list s)" for f args
  proof (rule ensures_fold)
    show "hstep_list s (al, s)" using assms by (simp add: hstep_list_def hstep_refl)
  next
    fix x st assume "hstep_list s st"
    then show "ensures (computeAliases_argument C compute f x st) (hstep_list s)"
      by (intro computeAliases_argument_hstep) (auto simp: hstep_list_def intro: hstep_good)
  qed
  have other: "ensures (bind_res (handle x False True s) (\<lambda>s1. Inr (al, s1))) (hstep_list s)" for x
    by (rule ensures_bind [OF handle_hstep [OF assms(1)]])
       (use hstep_all_held [OF _ assms(2)] in \<open>auto simp: hstep_list_def\<close>)
  show ?thesis
    unfolding computeAliases_body_def Let_def
    by (auto split: option.splits simp: arr assms(1)
        intro!: ensures_pures ensures_aliasOf_list call other computeAliases_variable_hstep assms)
qed

subsection \<open>Operators\<close>

lemma handle_fold_hstep: "hgood s \<Longrightarrow> ensures (fold_res (\<lambda>e. handle e w r) es s) (hstep s)"
  by (rule ensures_hfold) (auto intro: handle_hstep)

lemma handleCXXOperatorCallExpr_hstep:
  assumes "hgood s"
  shows "ensures (handleCXXOperatorCallExpr C handle c wr s) (hstep s)"
proof -
  have one: "ensures (bind_res (aliasOf C e NoneType s1) (\<lambda>(aliasVar, T, instr).
      bind_res (if b then addAliasReference T aliasVar ref else Inr T) (\<lambda>T1.
        Inr (addDependencyRead aliasVar (T1, instr))))) (hstep s1)"
    if g: "hgood s1" and h: "held (fst s1) ref" for e s1 b ref
  proof (rule ensures_aliasOf [OF g], clarify)
    fix a T ins assume s2: "hstep s1 (T, ins)" "hgood (T, ins)" "held (fst (T, ins)) a"
    have "ensures (if b then addAliasReference T a ref else Inr T) (relinked T)"
      using ensures_links(2) [of T ref a] hgood_table [OF s2(2)] hstep_held [OF s2(1) h] s2(3) by (simp add: relinked_refl)
    then show "ensures (bind_res (if b then addAliasReference T a ref else Inr T) (\<lambda>T1. Inr (addDependencyRead a (T1, ins))))
        (hstep (T, ins))"
    proof (rule ensures_bind)
      fix T1 assume r: "relinked T T1"
      have h1: "hstep (T, ins) (T1, ins)" using later_hstep [OF s2(2)] relinked_later [OF r] by simp
      have "hstep (T1, ins) (addDependencyRead a (T1, ins))"
        using addDependencies_hstep(1) [OF hstep_good [OF h1] hstep_held [OF h1 s2(3)]] .
      with h1 show "ensures (Inr (addDependencyRead a (T1, ins))) (hstep (T, ins))" by (simp add: hstep_trans [OF h1])
    qed
  qed
  have all: "ensures (bind_res (fold_res (\<lambda>e s. bind_res (aliasOf C e NoneType s) (\<lambda>(aliasVar, T, instr).
      bind_res (if b then addAliasReference T aliasVar ref else Inr T) (\<lambda>T1.
        Inr (addDependencyRead aliasVar (T1, instr))))) es s1) (\<lambda>s2. Inr (addDependencyWrite ref s2))) (hstep s1)"
    if "hgood s1" "held (fst s1) ref" for es s1 b ref
    by (intro hensures_then ensures_hfold one that(1))
       (auto intro: hstep_held that(2) addDependencies_hstep)
  show ?thesis
    unfolding handleCXXOperatorCallExpr_def Let_def
    by (auto split: option.splits list.splits bool.splits simp: assms hstep_refl simp del: fold_res.simps
        intro!: ensures_pures ensures_aliasOf handle_hstep handle_fold_hstep all)
qed

lemma handleUnaryOperator_hstep:
  assumes "hgood s"
  shows "ensures (handleUnaryOperator C handle compute uop s) (hstep s)"
proof -
  have reads: "hstep s1 (if isIncrementDecrement uop then addWrites al (addReads al s1) else addReads al s1)"
    if "hgood s1" "all_held s1 al" for s1 al
  proof -
    have r: "hstep s1 (addReads al s1)" using that by (rule addReads_hstep)
    have "hstep (addReads al s1) (addWrites al (addReads al s1))"
      by (rule addWrites_hstep [OF hstep_good [OF r] hstep_all_held [OF r that(2)]])
    then show ?thesis by (simp add: r hstep_trans [OF r])
  qed
  have rest: "ensures (if depth > 0 then bind_res (aliasOf C e NoneType s3) (\<lambda>(aliasDecl, s4). readAccessed aliasDecl depth s4)
      else handle subExpr False True s3) (hstep s3)" if "hgood s3" for e s3 depth subExpr
    using that by (auto intro!: ensures_aliasOf readAccessed_hstep handle_hstep)
  show ?thesis
    unfolding handleUnaryOperator_def Let_def
    by (auto split: option.splits simp: assms
        intro!: ensures_pures ensures_compute handle_hstep hensures_after [OF reads rest] hstep_good [OF reads])
qed

subsection \<open>Assignments\<close>

lemma linkArgument_hstep:
  assumes "hgood s" and "all_held s ls"
  shows "ensures (linkArgument C compute ls arg depth s) (hstep s)"
  unfolding linkArgument_def
proof (rule ensures_compute [OF assms(1) all_held_Nil], clarify)
  fix rs T ins assume h: "hstep s (T, ins)" "hgood (T, ins)" "all_held (T, ins) rs"
  have ls: "all_held (T, ins) ls" by (rule hstep_all_held [OF h(1) assms(2)])
  have ptr: "ensures (on_table (for_pairs (\<lambda>l r T. addAliasPtr T r l) ls rs) s2) (hstep s2)"
    if "hgood s2" "hstep (T, ins) s2" for s2
    by (rule on_pairs_hstep [OF that(1)]) (use hstep_all_held [OF that(2)] ls h(3) in \<open>auto intro: ensures_links\<close>)
  have fuse: "ensures (on_table (for_pairs (\<lambda>l r T. fuseAliased T r l) ls rs') s2) (hstep s2)"
    if "hgood s2" "hstep (T, ins) s2" "getModifiedVariables (fst s2) rs depth = Inr rs'" for s2 rs'
    by (rule on_pairs_hstep [OF that(1)])
       (use hstep_all_held [OF that(2)] ls modified_held [OF that(1) hstep_all_held [OF that(2) h(3)] that(3)]
         in \<open>auto intro: ensures_links\<close>)
  show "ensures (case getSingleDeclRefExprInsideExpr (Some arg) of
        None \<Rightarrow> Inl NullDeref
      | Some d \<Rightarrow>
          bind_res (aliasOf C d NoneType (T, ins)) (\<lambda>(argVar, s2).
            if argVar = null then Inl AssertFailed
            else
              bind_res (deref (heap (fst s2)) argVar) (\<lambda>av.
              bind_res (exprType arg) (\<lambda>t.
              bind_res (getPtrDepthAccess C t (vd_type (declarationOf av))) (\<lambda>d1.
                if d1 = 1 then on_table (for_pairs (\<lambda>l r T. addAliasPtr T r l) ls rs) s2
                else
                  bind_res (getModifiedVariables (fst s2) rs depth) (\<lambda>rights.
                    on_table (for_pairs (\<lambda>l r T. fuseAliased T r l) ls rights) s2)))))) (hstep (T, ins))"
    by (auto split: option.splits intro!: ensures_aliasOf ensures_pures ptr fuse h(2))
qed

text \<open>The stack of calls is beside the state.\<close>

lemma pointerArgument_hstep:
  assumes "hstep s (snd st)" and "all_held s ls"
  shows "ensures (pointerArgument C compute lhs ls f iarg st) (\<lambda>st'. hstep s (snd st'))"
proof -
  obtain i arg where ia: "iarg = (i, arg)" by (cases iarg)
  obtain cs s1 where st: "st = (cs, s1)" by (cases st)
  have h: "hstep s s1" using assms(1) st by simp
  have "ensures (bind_res (linkArgument C compute ls arg depth s1) (\<lambda>s'. Inr (cs, s'))) (\<lambda>st'. hstep s (snd st'))" for depth
    by (rule ensures_bind [OF linkArgument_hstep [OF hstep_good [OF h] hstep_all_held [OF h assms(2)]]])
       (simp add: hstep_trans [OF h])
  with h show ?thesis unfolding pointerArgument_def ia st prod.case
    by (auto intro!: ensures_pures)
qed

lemma pointerCalls_loop_hstep:
  assumes "hgood s" and "all_held s ls"
  shows "ensures (pointerCalls_loop C compute n lhs ls call cs s) (hstep s)"
  using assms
proof (induction n arbitrary: cs s)
  case 0
  then show ?case by (cases cs) (simp_all add: hstep_refl)
next
  case (Suc n)
  show ?case
  proof (cases cs)
    case (Cons cur cs')
    have "ensures (fold_res (pointerArgument C compute lhs ls f) args (cs', s)) (\<lambda>st. hstep s (snd st))" for f args
      by (rule ensures_fold) (use Suc.prems in \<open>auto simp: hstep_refl intro: pointerArgument_hstep\<close>)
    then show ?thesis unfolding Cons pointerCalls_loop.simps
    proof (rule ensures_bind)
      fix st :: "'t stmt list \<times> 't hstate" assume st: "hstep s (snd st)"
      obtain cs1 s1 where s1: "st = (cs1, s1)" by (cases st)
      with st have h: "hstep s s1" by simp
      show "ensures (case st of (cs1, s1) \<Rightarrow> pointerCalls_loop C compute n lhs ls call cs1 s1) (hstep s)"
        unfolding s1 prod.case
        by (rule hensures_after [OF h Suc.IH [OF hstep_good [OF h] hstep_all_held [OF h Suc.prems(2)]]])
    qed
  qed (simp add: hstep_refl Suc.prems)
qed

lemma handlePointersBinaryAssignment_hstep:
  assumes "hgood s" and "all_held s ls"
  shows "ensures (handlePointersBinaryAssignment C compute n lhs rhs ls s) (hstep s)"
  unfolding handlePointersBinaryAssignment_def
proof (rule ensures_compute [OF assms(1) all_held_Nil], unfold prod.case)
  fix rs s1 assume h: "hstep s s1" "hgood s1" "all_held s1 rs"
  have ls: "all_held s1 ls" by (rule hstep_all_held [OF h(1) assms(2)])
  have ptr: "ensures (on_table (for_pairs (\<lambda>l r T. addAliasPtr T r l) ls rs) s2) (hstep s2)"
    if "hstep s1 s2" "hgood s2" for s2
    by (rule on_pairs_hstep [OF that(2)]) (use hstep_all_held [OF that(1)] ls h(3) in \<open>auto intro: ensures_links\<close>)
  have rem: "ensures (bind_res (on_table (\<lambda>T. removeDependencyPtr T l) s1)
      (on_table (for_pairs (\<lambda>l r T. addAliasPtr T r l) ls rs))) (hstep s1)" for l
    by (rule hensures_then [OF on_table_hstep [OF h(2)]]) (auto intro: ensures_links hgood_table h(2) ptr)
  have rem: "ensures (case ls' of [] \<Rightarrow> Inl UndefinedAccess | l0 # _ \<Rightarrow>
      bind_res (on_table (\<lambda>T. removeDependencyPtr T l0) s1)
        (on_table (for_pairs (\<lambda>l r T. addAliasPtr T r l) ls rs))) (hstep s1)" for ls'
    by (cases ls') (simp_all add: rem)
  have rep: "ensures (on_table (for_pairs (\<lambda>l r T. replaceAliasedToElement T r l) ls rs) s1) (hstep s1)"
    by (rule on_pairs_hstep [OF h(2) ls h(3)]) (auto intro: ensures_links)
  show "ensures (let declOrArrayExprRHS =
        (case getSingleArraySubscriptExprInsideExpr rhs of
           Some a \<Rightarrow> Some a
         | None \<Rightarrow> getSingleDeclRefExprInsideExpr (Some rhs)) in
      (case declOrArrayExprRHS of
         Some e \<Rightarrow>
           bind_res (exprDepth C e rhs) (\<lambda>depth.
             if depth = -1 then
               (case ls of
                  [] \<Rightarrow> Inl UndefinedAccess
                | l0 # _ \<Rightarrow>
                    bind_res (on_table (\<lambda>T. removeDependencyPtr T l0) s1) (\<lambda>s2.
                      on_table (for_pairs (\<lambda>l r T. addAliasPtr T r l) ls rs) s2))
             else on_table (for_pairs (\<lambda>l r T. replaceAliasedToElement T r l) ls rs) s1)
       | None \<Rightarrow>
           (if isCallExpr (ignoreParenImpCasts C rhs) then
              pointerCalls_loop C compute n lhs ls (ignoreParenImpCasts C rhs) [ignoreParenImpCasts C rhs] s1
            else Inr s1))) (hstep s1)"
    unfolding Let_def
    by (auto split: option.splits intro!: ensures_pures rem rep pointerCalls_loop_hstep simp: h ls hstep_refl)
qed

text \<open>A compound assignment also reads what it writes.\<close>

lemma assigned_hstep:
  assumes "hgood s" and "all_held s al"
  shows "hstep s (fold (\<lambda>alias s. (let s' = addDependencyWrite alias s in
     if c then addDependencyRead alias s' else s')) al s)"
proof (rule fold_hstep [OF assms(1) _ assms(2)])
  fix a s1 assume a: "hgood s1" "held (fst s1) a"
  have w: "hstep s1 (addDependencyWrite a s1)" using a by (rule addDependencies_hstep)
  have "hstep (addDependencyWrite a s1) (addDependencyRead a (addDependencyWrite a s1))"
    by (intro addDependencies_hstep hstep_good [OF w] hstep_held [OF w a(2)])
  then show "hstep s1 (let s' = addDependencyWrite a s1 in if c then addDependencyRead a s' else s')"
    using w hstep_trans [OF w] by (simp add: Let_def)
qed

lemma handleBinaryAssignment_hstep:
  assumes "hgood s"
  shows "ensures (handleBinaryAssignment C handle compute n bop s) (hstep s)"
proof -
  have last: "ensures (bind_res (if 0 < depth then readAccessed a depth s4 else Inr s4) (handle rhs False True)) (hstep s4)"
    if "hgood s4" "held (fst s4) a" for depth a s4 rhs
    by (rule hensures_then) (use that in \<open>auto simp: hstep_refl intro: readAccessed_hstep handle_hstep\<close>)
  have tail: "ensures (bind_res (aliasOf C e t s3) (\<lambda>(aliasMain, s4). bind_res (exprDepth C e lhs) (\<lambda>depth.
      bind_res (if 0 < depth then readAccessed aliasMain depth s4 else Inr s4) (handle rhs False True)))) (hstep s3)"
    if "hgood s3" for e t s3 lhs rhs
    using that by (auto intro!: ensures_aliasOf ensures_pures last)
  have mid: "ensures (bind_res (if isPointerQualType C tl then handlePointersBinaryAssignment C compute n lhs rhs ls s1 else Inr s1)
      (\<lambda>s2. bind_res (aliasOf C e t (fold (\<lambda>alias s. (let s' = addDependencyWrite alias s in
          if exprKind bop = Some CompoundAssignOperator then addDependencyRead alias s' else s')) ls s2))
        (\<lambda>(aliasMain, s4). bind_res (exprDepth C e lhs) (\<lambda>depth.
      bind_res (if 0 < depth then readAccessed aliasMain depth s4 else Inr s4) (handle rhs False True))))) (hstep s1)"
    if h: "hgood s1" "all_held s1 ls" for s1 ls e t lhs rhs tl
  proof (rule hensures_then)
    show "ensures (if isPointerQualType C tl then handlePointersBinaryAssignment C compute n lhs rhs ls s1 else Inr s1) (hstep s1)"
      using h by (simp add: hstep_refl handlePointersBinaryAssignment_hstep)
  next
    fix s2 assume h2: "hstep s1 s2" "hgood s2"
    note w = assigned_hstep [OF h2(2) hstep_all_held [OF h2(1) h(2)]]
    show "ensures (bind_res (aliasOf C e t (fold (\<lambda>alias s. (let s' = addDependencyWrite alias s in
          if exprKind bop = Some CompoundAssignOperator then addDependencyRead alias s' else s')) ls s2))
        (\<lambda>(aliasMain, s4). bind_res (exprDepth C e lhs) (\<lambda>depth.
      bind_res (if 0 < depth then readAccessed aliasMain depth s4 else Inr s4) (handle rhs False True)))) (hstep s2)"
      by (rule hensures_after [OF w tail [OF hstep_good [OF w]]])
  qed
  show ?thesis
    unfolding handleBinaryAssignment_def Let_def
    by (auto split: option.splits simp: assms simp del: fun_upd_apply
        intro!: ensures_pures ensures_compute handle_hstep mid [unfolded Let_def])
qed

lemma handleBinaryOperator_hstep:
  assumes "hgood s"
  shows "ensures (handleBinaryOperator C handle compute n bop s) (hstep s)"
  unfolding handleBinaryOperator_def
  by (auto simp: assms intro!: handleBinaryAssignment_hstep ensures_pures hensures_then [OF handle_hstep] handle_hstep)

subsection \<open>Calls\<close>

lemma handleArgument_hstep:
  assumes "hgood s"
  shows "ensures (handleArgument C W handle f args ip s) (hstep s)"
  unfolding handleArgument_def Let_def
  by (auto split: prod.splits simp: assms hstep_refl intro!: ensures_pures handle_hstep)

lemma handleCallExpr_hstep:
  assumes "hgood s"
  shows "ensures (handleCallExpr C W handle c s) (hstep s)"
  unfolding handleCallExpr_def
  by (auto split: option.splits intro!: ensures_hfold handleArgument_hstep assms)

lemma handleMemberCallExpr_hstep:
  assumes "hgood s"
  shows "ensures (handleMemberCallExpr C W handle c s) (hstep s)"
proof -
  have rw: "hstep s1 (if m then addDependencyWrite a (addDependencyRead a s1) else addDependencyRead a s1)"
    if h: "hgood s1" "held (fst s1) a" for s1 a m
  proof -
    have r: "hstep s1 (addDependencyRead a s1)" using h by (rule addDependencies_hstep)
    have "hstep (addDependencyRead a s1) (addDependencyWrite a (addDependencyRead a s1))"
      by (intro addDependencies_hstep hstep_good [OF r] hstep_held [OF r h(2)])
    then show ?thesis using r hstep_trans [OF r] by simp
  qed
  have obj: "ensures (if isDeclRefExpr obj then
      bind_res (aliasOf C obj NoneType s) (\<lambda>(alias, s1).
        (case callCallee c of
           Some (Some m) \<Rightarrow>
             (let s2 = addDependencyRead alias s1 in Inr (if \<not> fd_isConst m then addDependencyWrite alias s2 else s2))
         | _ \<Rightarrow> Inl NullDeref))
    else handle obj False True s) (hstep s)" for obj
    by (auto split: option.splits simp: Let_def assms intro!: ensures_aliasOf handle_hstep rw)
       (use rw [of _ _ False] rw [of _ _ True] in auto)
  show ?thesis
  proof (cases "getImplicitObjectArgument C c")
    case (Some x)
    show ?thesis unfolding handleMemberCallExpr_def Some option.case
      by (rule hensures_then [OF obj]) (rule handleCallExpr_hstep)
  qed (simp add: handleMemberCallExpr_def)
qed

subsection \<open>Statements\<close>

lemma flags_hstep:
  "hgood s \<Longrightarrow> held (fst s) a \<Longrightarrow> ensures (let s2 = (if rd then addDependencyRead a s else s) in
     Inr (if wr then addDependencyWrite a s2 else s2)) (hstep s)"
  using addDependency_flags_hstep [of s a rd wr] unfolding Let_def ensures_simps .

lemma access_hstep:
  "hgood s \<Longrightarrow> ensures (bind_res (aliasOf C e t s) (\<lambda>(alias, s1).
     (let s2 = (if rd then addDependencyRead alias s1 else s1) in
      Inr (if wr then addDependencyWrite alias s2 else s2)))) (hstep s)"
  by (rule ensures_aliasOf) (simp_all only: prod.case flags_hstep)

lemma handleArraySubscript_hstep:
  assumes "hgood s"
  shows "ensures (handleArraySubscript C handle curExp wr rd s) (hstep s)"
proof -
  have "ensures (case getSingleArraySubscriptExprInsideExpr curExp of
         Some arrayExpr \<Rightarrow>
           bind_res (getArraySubscriptsIndexesValues C curExp) (\<lambda>_.
           bind_res (aliasOf C arrayExpr NoneType s) (\<lambda>(alias, s1).
           (let s2 = (if rd then addDependencyRead alias s1 else s1) in
            Inr (if wr then addDependencyWrite alias s2 else s2))))
       | None \<Rightarrow> Inr s) (hstep s)"
    by (auto split: option.split simp: assms hstep_refl intro!: ensures_pures access_hstep)
  then show ?thesis unfolding handleArraySubscript_def
    by (rule hensures_then) (auto intro!: ensures_pures handle_hstep)
qed

lemma handleExpr_hstep:
  assumes "hgood s"
  shows "ensures (handleExpr C W handle compute n curExp wr rd s) (hstep s)"
proof (cases "isDeclRefExpr curExp")
  case True
  then show ?thesis using access_hstep [OF assms] by (simp add: handleExpr_def)
next
  case False
  have "ensures (bind_res (addDependenciesRead C curExp s) (\<lambda>s1.
          (case exprKind curExp of
             Some (CXXOperatorCallExpr _ _) \<Rightarrow> handleCXXOperatorCallExpr C handle curExp wr s1
           | Some (UnaryOperator _) \<Rightarrow> handleUnaryOperator C handle compute curExp s1
           | Some (BinaryOperator _) \<Rightarrow> handleBinaryOperator C handle compute n curExp s1
           | Some CompoundAssignOperator \<Rightarrow> handleBinaryOperator C handle compute n curExp s1
           | Some (CXXMemberCallExpr _) \<Rightarrow> handleMemberCallExpr C W handle curExp s1
           | Some (CallExpr _) \<Rightarrow> handleCallExpr C W handle curExp s1
           | Some ArraySubscriptExpr \<Rightarrow> handleArraySubscript C handle curExp wr rd s1
           | _ \<Rightarrow> Inr s1))) (hstep s)"
    by (rule hensures_then [OF addDependenciesRead_hstep [OF assms]])
       (auto split: option.split ekind.split simp: hstep_refl handleCXXOperatorCallExpr_hstep handleUnaryOperator_hstep
          handleBinaryOperator_hstep handleMemberCallExpr_hstep handleCallExpr_hstep handleArraySubscript_hstep)
  then show ?thesis using False by (simp add: handleExpr_def)
qed

lemma handleStmt_body_hstep:
  assumes "hgood s"
  shows "ensures (handleStmt_body C W handle compute n st wr rd s) (hstep s)"
  unfolding handleStmt_body_def
  by (auto split: stmt.split option.split simp: assms hstep_refl intro: handleExpr_hstep handle_hstep)

end

section \<open>The recursion\<close>

lemma visitor_calls_bounded: "visitor_calls (handleStmt C W n) (computeAliasesForRHS C W n)"
proof (induction n)
  case 0
  show ?case by unfold_locales simp_all
next
  case (Suc n)
  show ?case
    by unfold_locales (simp_all add: visitor_calls.handleStmt_body_hstep [OF Suc] visitor_calls.computeAliases_body_hstep [OF Suc])
qed

interpretation bounded_calls: visitor_calls C "handleStmt C W n" "computeAliasesForRHS C W n" for C W n
  by (rule visitor_calls_bounded)

end
