(* ===== verification/Unit_Order.thy ===== *)
theory Unit_Order
  imports Visitor_Invariant Task_Driver
begin

text \<open>
  From the statements of a file to the order of its tasks: the traversal records only entries of the
  alias table in the instructions, at every level of nesting, and a graph is generated only when none
  of them is null. So the order of the conflicting instructions is kept for every file on which the
  analysis returns, without an assumption on what it records.
\<close>

section \<open>The instructions of the scopes\<close>

fun instr_good :: "'t aliasTable \<Rightarrow> 't instruction \<Rightarrow> bool" where
  "instr_good T (Instruction s str c nf k deps scoped al) \<longleftrightarrow>
     (\<forall>d \<in> fst ` set deps. held T d) \<and> (c \<longrightarrow> s \<noteq> None \<and> (\<forall>i \<in> set scoped. instr_good T i))"

lemma instr_good_iff:
  "instr_good T i \<longleftrightarrow> (\<forall>d \<in> fst ` set (instr_dependencies i). held T d)
     \<and> (complexInstruction i \<longrightarrow> instr_stmt i \<noteq> None \<and> (\<forall>j \<in> set (scopedInstructions i). instr_good T j))"
  by (cases i) simp

text \<open>An instruction whose scope is not filled in yet.\<close>

definition instr_head :: "'t aliasTable \<Rightarrow> 't instruction \<Rightarrow> bool" where
  "instr_head T i \<longleftrightarrow> (\<forall>d \<in> fst ` set (instr_dependencies i). held T d) \<and> (complexInstruction i \<longrightarrow> instr_stmt i \<noteq> None)"

definition visitor_good :: "'t visitor \<Rightarrow> bool" where
  "visitor_good v \<longleftrightarrow> table_live (vtable v) \<and> (\<forall>is \<in> set (vscopes v). \<forall>i \<in> set is. instr_good (vtable v) i)"

definition vstep :: "'t visitor \<Rightarrow> 't visitor \<Rightarrow> bool" where
  "vstep v v' \<longleftrightarrow> visitor_good v' \<and> later (vtable v) (vtable v')"

lemma instr_good_later: "later T T' \<Longrightarrow> instr_good T i \<Longrightarrow> instr_good T' i"
  by (induction T i rule: instr_good.induct) (auto intro: later_held)

lemma instr_head_later: "later T T' \<Longrightarrow> instr_head T i \<Longrightarrow> instr_head T' i"
  by (auto simp: instr_head_def intro: later_held)

interpretation visitor: stepping visitor_good vstep
proof (unfold_locales, goal_cases)
  case (1 v)
  then show ?case by (simp add: vstep_def visitor_good_def later_refl)
next
  case (2 v v' v'')
  then show ?case using later_trans by (auto simp: vstep_def)
next
  case (3 v v')
  then show ?case by (simp add: vstep_def)
qed

lemma vstep_same:
  "visitor_good v \<Longrightarrow> vtable v' = vtable v \<Longrightarrow> set (vscopes v') \<subseteq> set (vscopes v) \<union> {[]} \<Longrightarrow> vstep v v'"
  by (fastforce simp: vstep_def visitor_good_def later_refl)

lemma vstep_table:
  assumes "visitor_good v" and "later (vtable v) T" and "vtable v' = T" and "vscopes v' = vscopes v"
  shows "vstep v v'"
  using assms by (auto simp: vstep_def visitor_good_def later_live intro: instr_good_later)

lemma pushInstruction_vstep:
  assumes "visitor_good v" and "instr_good (vtable v) ins"
  shows "ensures (pushInstruction ins v) (vstep v)"
  unfolding pushInstruction_def backScope_def
  using assms last_in_set [of "vscopes v"]
  by (auto simp: vstep_def visitor_good_def later_refl dest: in_set_butlastD)

lemma popScope_vstep: "visitor_good v \<Longrightarrow> ensures (popScope v) (vstep v)"
  by (auto simp: popScope_def intro!: vstep_same dest: in_set_butlastD)

lemma backScope_good: "visitor_good v \<Longrightarrow> backScope v = Inr is \<Longrightarrow> \<forall>i \<in> set is. instr_good (vtable v) i"
  by (auto simp: backScope_def visitor_good_def split: if_splits)

lemma pushScope_vstep: "visitor_good v \<Longrightarrow> vstep v (pushScope v)"
  by (rule vstep_same) (auto simp: pushScope_def)

lemma addToOrder_vstep: "visitor_good v \<Longrightarrow> ensures (addToOrder st v) (vstep v)"
  by (rule ensuresI, drule addToOrder_fields) (auto intro: vstep_same)

lemma enterOrder_vstep: "visitor_good v \<Longrightarrow> ensures (enterOrder st v) (vstep v)"
  by (rule ensuresI, drule enterOrder_fields) (auto intro: vstep_same)

section \<open>Statements without a scope\<close>

lemma handleTop_hstep: "hgood s \<Longrightarrow> ensures (handleTop C W st s) (hstep s)"
  unfolding handleTop_def by (rule bounded_calls.handle_hstep)

lemma with_noFusion_fields [simp]:
  "instr_dependencies (with_noFusion i) = instr_dependencies i" "shell (with_noFusion i) = shell i"
  by (cases i; simp add: shell_def)+

text \<open>The instruction of a statement, analysed in the current table.\<close>

lemma new_instruction_good:
  "visitor_good v \<Longrightarrow> hgood (vtable v, Instruction_new s str c n)"
  by (simp add: hgood_def visitor_good_def Instruction_new_def)

lemma simple_instruction:
  assumes "visitor_good v" and "hstep (vtable v, Instruction_new (Some s) str False n) (T, ins)"
    and "shell ins' = shell ins" and "instr_dependencies ins' = instr_dependencies ins"
  shows "ensures (pushInstruction ins' (v\<lparr>vtable := T\<rparr>)) (vstep v)"
proof (rule visitor.ensures_after)
  show v: "vstep v (v\<lparr>vtable := T\<rparr>)"
    by (rule vstep_table [OF assms(1), of T]) (use assms(2) in \<open>simp_all add: hstep_def\<close>)
  show "ensures (pushInstruction ins' (v\<lparr>vtable := T\<rparr>)) (vstep (v\<lparr>vtable := T\<rparr>))"
    by (rule pushInstruction_vstep [OF visitor.step_good [OF v]])
       (use assms(2-4) in \<open>auto simp: hstep_def hgood_def shell_def Instruction_new_def instr_good_iff [of _ ins']\<close>)
qed

lemma traverseSimpleElements_vstep:
  assumes "visitor_good v"
  shows "ensures (traverseSimpleElements C W st v) (vstep v)"
proof -
  have "ensures (bind_res (addToOrder st v) (\<lambda>v1.
      bind_res (handleTop C W st (vtable v1, Instruction_new (Some st) (getStmtAsString C (Some st) False) False 0)) (\<lambda>(T, ins).
        pushInstruction ins (v1\<lparr>vtable := T\<rparr>)))) (vstep v)"
  proof (rule visitor.ensures_then [OF addToOrder_vstep [OF assms]])
    fix v1 :: "'a visitor" assume g: "visitor_good v1"
    show "ensures (bind_res (handleTop C W st (vtable v1, Instruction_new (Some st) (getStmtAsString C (Some st) False) False 0)) (\<lambda>(T, ins).
        pushInstruction ins (v1\<lparr>vtable := T\<rparr>))) (vstep v1)"
      by (rule ensures_bind [OF handleTop_hstep [OF new_instruction_good [OF g]]])
         (auto intro: simple_instruction [OF g])
  qed
  then show ?thesis using assms by (simp add: traverseSimpleElements_def visitor.step_refl)
qed

lemma TraverseCXXDeleteExpr_vstep:
  assumes "visitor_good v"
  shows "ensures (TraverseCXXDeleteExpr C d v) (vstep v)"
proof -
  let ?s = "\<lambda>v1. (vtable v1, Instruction_new (Some d) (getStmtAsString C (Some d) False) False 0)"
  let ?h = "\<lambda>arg v1. if isDeclRefExpr (ignoreImpCasts C arg) then
             bind_res (aliasOf C (ignoreImpCasts C arg) NoneType (?s v1)) (\<lambda>(alias, s1).
               Inr (addDependencyRead alias (addDependencyWrite alias s1)))
           else Inr (?s v1)"
  have rw: "hstep s1 (addDependencyRead a (addDependencyWrite a s1))" if h: "hgood s1" "held (fst s1) a" for s1 a
  proof -
    have w: "hstep s1 (addDependencyWrite a s1)" using h by (rule addDependencies_hstep)
    have "hstep (addDependencyWrite a s1) (addDependencyRead a (addDependencyWrite a s1))"
      by (intro addDependencies_hstep hstep_good [OF w] hstep_held [OF w h(2)])
    then show ?thesis by (rule hstep_trans [OF w])
  qed
  have h: "ensures (?h arg v1) (hstep (?s v1))" if "visitor_good v1" for arg v1
    using new_instruction_good [OF that] by (auto simp: hstep_refl intro!: ensures_aliasOf rw)
  have "ensures (bind_res (addToOrder d v) (\<lambda>v1. bind_res (getSubExpr d) (\<lambda>arg. bind_res (?h arg v1) (\<lambda>(T, ins).
          pushInstruction (with_noFusion ins) (v1\<lparr>vtable := T\<rparr>))))) (vstep v)"
  proof (rule visitor.ensures_then [OF addToOrder_vstep [OF assms]], rule ensures_pure)
    fix v1 :: "'a visitor" and arg assume g: "visitor_good v1"
    show "ensures (bind_res (?h arg v1) (\<lambda>(T, ins). pushInstruction (with_noFusion ins) (v1\<lparr>vtable := T\<rparr>))) (vstep v1)"
      by (rule ensures_bind [OF h [OF g]]) (auto intro: simple_instruction [OF g])
  qed
  then show ?thesis using assms by (simp add: TraverseCXXDeleteExpr_def visitor.step_refl Let_def)
qed

section \<open>Scopes\<close>

lemma with_scope_fields [simp]:
  "instr_stmt (with_scope is n new i) = instr_stmt i" "complexInstruction (with_scope is n new i) = complexInstruction i"
  "scopedInstructions (with_scope is n new i) = is"
  by (cases i; simp)+

lemma dom_fold_ains: "fst ` set (fold (\<lambda>(a, dep). ains a dep) new deps) = fst ` set new \<union> fst ` set deps"
proof (induction new arbitrary: deps)
  case (Cons x new)
  obtain a dep where "x = (a, dep)" by (cases x)
  then show ?case using Cons.IH [of "ains a dep deps"] by (simp only: fold_simps prod.case dom_ains) auto
qed simp

lemma with_scope_dependencies:
  "fst ` set (instr_dependencies (with_scope is n new i)) = fst ` set new \<union> fst ` set (instr_dependencies i)"
  by (cases i) (simp add: dom_fold_ains)

lemma with_scope_good:
  assumes "instr_head T i" and "\<forall>j \<in> set is. instr_good T j" and "\<forall>d \<in> fst ` set new. held T d"
  shows "instr_good T (with_scope is n new i)" and "instr_head T (with_scope is n new i)"
proof -
  have "\<forall>d \<in> fst ` set (instr_dependencies (with_scope is n new i)). held T d"
    using assms(1,3) unfolding with_scope_dependencies instr_head_def by blast
  then show "instr_good T (with_scope is n new i)" "instr_head T (with_scope is n new i)"
    using assms(1,2) by (simp_all only: instr_good_iff [of T "with_scope is n new i"] instr_head_def with_scope_fields) simp_all
qed

lemma loopDependencies_held:
  "\<forall>j \<in> set is. instr_good T j \<Longrightarrow> \<forall>d \<in> fst ` set (loopDependencies is). held T d"
proof
  fix d assume g: "\<forall>j \<in> set is. instr_good T j" and "d \<in> fst ` set (loopDependencies is)"
  then obtain j where "j \<in> set is" "d \<in> fst ` set (instr_dependencies j)" by (auto simp: loopDependencies_def)
  then show "held T d" using g instr_good_iff [of T j] by blast
qed

lemma closeScope_vstep:
  assumes "visitor_good v" and "instr_head (vtable v) instr"
  shows "ensures (closeScope b instr v) (vstep v)"
  unfolding closeScope_def
proof (rule ensures_pure, rule visitor.ensures_then [OF popScope_vstep [OF assms(1)]])
  fix "is" v1 assume b: "backScope v = Inr is" and v1: "vstep v v1" "visitor_good v1"
  have later: "later (vtable v) (vtable v1)" using v1(1) by (simp add: vstep_def)
  have good: "\<forall>i \<in> set is. instr_good (vtable v1) i"
    using backScope_good [OF assms(1) b] instr_good_later [OF later] by blast
  have "\<forall>d \<in> fst ` set (if b then loopDependencies is else []). held (vtable v1) d"
    using loopDependencies_held [OF good] by simp
  then show "ensures (pushInstruction (with_scope is (scopedCount is) (if b then loopDependencies is else []) instr) v1) (vstep v1)"
    by (rule pushInstruction_vstep [OF v1(2) with_scope_good(1) [OF instr_head_later [OF later assms(2)] good]])
qed

lemma Instruction_new_head: "instr_head T (Instruction_new (Some s) str c n)"
  by (simp add: instr_head_def Instruction_new_def)

lemma with_noFusion_head: "instr_head T i \<Longrightarrow> instr_head T (with_noFusion i)"
  using with_noFusion_fields(2) [of i] by (simp add: instr_head_def shell_def)

lemma enterFor_vstep: "visitor_good v \<Longrightarrow> ensures (enterFor f v) (vstep v)"
  unfolding enterFor_def
  by (intro visitor.ensures_then [OF addToOrder_vstep] visitor.ensures_then [OF enterOrder_vstep])
     (auto intro: pushScope_vstep)

lemma enterBranch_vstep: "visitor_good v \<Longrightarrow> ensures (enterBranch f v) (vstep v)"
  unfolding enterBranch_def
  by (intro visitor.ensures_then [OF addToOrder_vstep] visitor.ensures_then [OF enterOrder_vstep])
     (auto intro: pushScope_vstep)

lemma vstep_current: "visitor_good v \<Longrightarrow> vstep v (v\<lparr>vcurrent := n\<rparr>)" "visitor_good v \<Longrightarrow> vstep v (v\<lparr>vignore := b\<rparr>)"
  "visitor_good v \<Longrightarrow> vstep v (v\<lparr>vignore := b, vcurrent := n\<rparr>)"
  by (auto intro: vstep_same)

lemma leaveBranch_vstep:
  assumes "visitor_good v"
  shows "ensures (leaveBranch c str outer v) (vstep v)"
  unfolding leaveBranch_def
  by (rule visitor.ensures_after [OF vstep_current(1) [OF assms]], rule closeScope_vstep)
     (use visitor.step_good [OF vstep_current(1) [OF assms]] in \<open>simp_all add: Instruction_new_head\<close>)

text \<open>The visitor with the instruction of a conditional beside it.\<close>

definition vstep_head :: "'t visitor \<Rightarrow> 't visitor \<times> 't instruction \<Rightarrow> bool" where
  "vstep_head v r \<longleftrightarrow> vstep v (fst r) \<and> instr_head (vtable (fst r)) (snd r)"

lemma leavePlainElse_vstep:
  assumes "visitor_good v" and "instr_head (vtable v) instr"
  shows "ensures (leavePlainElse instr v) (vstep_head v)"
  unfolding leavePlainElse_def Let_def
proof (rule ensures_pure)
  fix "is" assume b: "backScope v = Inr is"
  let ?i = "with_scope is (scopedCount is) [] instr"
  have i: "instr_good (vtable v) ?i" "instr_head (vtable v) ?i"
    using with_scope_good [OF assms(2) backScope_good [OF assms(1) b], of "[]"] by simp_all
  have "ensures (bind_res (popScope v) (pushInstruction ?i)) (vstep v)"
  proof (rule visitor.ensures_then [OF popScope_vstep [OF assms(1)]])
    fix v1 assume v1: "vstep v v1" "visitor_good v1"
    show "ensures (pushInstruction ?i v1) (vstep v1)"
      by (rule pushInstruction_vstep [OF v1(2) instr_good_later [OF _ i(1)]]) (use v1 in \<open>simp add: vstep_def\<close>)
  qed
  then show "ensures (bind_res (popScope v) (\<lambda>v1. bind_res (pushInstruction ?i v1) (\<lambda>v2. Inr (v2, ?i)))) (vstep_head v)"
    using instr_head_later [OF _ i(2)] by (fastforce simp: ensures_def res_simps vstep_head_def vstep_def)
qed

lemma enterIf_vstep:
  assumes "visitor_good v"
  shows "ensures (enterIf C W i cond v) (vstep_head v)"
proof (rule ensuresI)
  fix r assume "enterIf C W i cond v = Inr r"
  then obtain v1 v2 T ins where e: "addToOrder i v = Inr v1" "enterOrder i v1 = Inr v2"
    and h: "handleTop C W cond (vtable v2, with_noFusion (Instruction_new (Some i) (getStmtAsString C (Some i) False) True 0)) = Inr (T, ins)"
    and r: "r = (pushScope (v2\<lparr>vtable := T\<rparr>), ins)" by (auto simp: enterIf_def res_simps)
  have v1: "vstep v v1" using ensuresD [OF addToOrder_vstep [OF assms] e(1)] .
  have v2: "vstep v1 v2" using ensuresD [OF enterOrder_vstep [OF visitor.step_good [OF v1]] e(2)] .
  have "hgood (vtable v2, with_noFusion (Instruction_new (Some i) (getStmtAsString C (Some i) False) True 0))"
    using new_instruction_good [OF visitor.step_good [OF v2]] by (simp add: hgood_def)
  from ensuresD [OF handleTop_hstep [OF this] h] have s: "hgood (T, ins)" "later (vtable v2) T"
    "shell ins = shell (Instruction_new (Some i) (getStmtAsString C (Some i) False) True 0)"
    by (simp_all add: hstep_def)
  have v3: "vstep v2 (v2\<lparr>vtable := T\<rparr>)" by (rule vstep_table [OF visitor.step_good [OF v2] s(2)]) simp_all
  have "vstep v (fst r)"
    using visitor.step_trans [OF v1 visitor.step_trans [OF v2 visitor.step_trans [OF v3 pushScope_vstep [OF visitor.step_good [OF v3]]]]]
    by (simp add: r)
  moreover have "instr_head T ins"
    using s(1,3) by (simp add: instr_head_def hgood_def shell_def Instruction_new_def)
  ultimately show "vstep_head v r" by (simp add: vstep_head_def r pushScope_def)
qed

section \<open>The traversal\<close>

lemma fold_vstep:
  assumes "fold_res f xs v = Inr v'" and "visitor_good v"
    and "\<And>x v v'. x \<in> set xs \<Longrightarrow> f x v = Inr v' \<Longrightarrow> visitor_good v \<Longrightarrow> vstep v v'"
  shows "vstep v v'"
  using visitor.ensures_steps [of v xs f] assms by (simp add: ensures_def)

lemma branch_vstep:
  assumes "bind_res (enterBranch b v) (\<lambda>v2. bind_res (fold_res f ss v2) (leaveBranch b str outer)) = Inr v'"
    and "visitor_good v"
    and "\<And>v2 c v0 v'. enterBranch b v = Inr v2 \<Longrightarrow> c \<in> set ss \<Longrightarrow> f c v0 = Inr v' \<Longrightarrow> visitor_good v0 \<Longrightarrow> vstep v0 v'"
  shows "vstep v v'"
proof -
  obtain v2 v3 where e: "enterBranch b v = Inr v2" "fold_res f ss v2 = Inr v3" "leaveBranch b str outer v3 = Inr v'"
    using assms(1) by (auto simp: res_simps)
  have s2: "vstep v v2" using ensuresD [OF enterBranch_vstep [OF assms(2)] e(1)] .
  have s3: "vstep v2 v3" by (rule fold_vstep [OF e(2) visitor.step_good [OF s2] assms(3) [OF e(1)]])
  have "vstep v3 v'" using ensuresD [OF leaveBranch_vstep [OF visitor.step_good [OF s3]] e(3)] .
  then show ?thesis by (rule visitor.step_trans [OF s2 visitor.step_trans [OF s3]])
qed

lemma traverseStmt_vstep: "traverseStmt C W s v = Inr v' \<Longrightarrow> visitor_good v \<Longrightarrow> vstep v v'"
proof (induction C W s v arbitrary: v' rule: traverseStmt.induct)
  case (1 C W i l t k cs v)
  have "ensures (traverseSimpleElements C W (Expr i l t k cs) v) (vstep v)" "ensures (TraverseCXXDeleteExpr C (Expr i l t k cs) v) (vstep v)"
    using "1.prems"(2) by (rule traverseSimpleElements_vstep TraverseCXXDeleteExpr_vstep)+
  then show ?case using 1 fold_vstep [of _ cs v v'] by (auto simp: ensures_def split: if_splits)
next
  case (2 C W i l ds v)
  then show ?case using addToOrder_vstep [of v]
    by (auto simp: TraverseDeclStmt_def visitor.step_refl ensures_def split: if_splits)
next
  case (4 C W i l v)
  then show ?case using addToOrder_vstep [of v]
    by (auto simp: TraverseGotoStmt_def visitor.step_refl ensures_def split: if_splits)
next
  case (5 C W i l ini cond inc body v)
  show ?case
  proof (cases "isInHeaders l")
    case False
    let ?f = "ForStmt i l ini cond inc body"
    from "5.prems" False obtain v1 v2 v3 where
      v: "enterFor ?f v = Inr v1" "fold_res (traverseStmt C W) (present [cond, inc, ini]) (v1\<lparr>vignore := True\<rparr>) = Inr v2"
        "traverseStmt C W body (v2\<lparr>vignore := False\<rparr>) = Inr v3"
        "closeScope True (forInstruction C ?f) (v3\<lparr>vignore := vignore v, vcurrent := vcurrent v\<rparr>) = Inr v'"
      by (auto simp: res_simps Let_def)
    have h: "\<not> isInHeaders (getBeginLoc ?f)" using False by simp
    note trans = visitor.step_trans and good = visitor.step_good
    have s1: "vstep v v1" using ensuresD [OF enterFor_vstep [OF "5.prems"(2)] v(1)] .
    note i1 = vstep_current(2) [OF good [OF s1], of True]
    have "vstep (v1\<lparr>vignore := True\<rparr>) v2"
      by (rule fold_vstep [OF v(2) good [OF i1]]) (rule "5.IH"(1) [OF refl h v(1)])
    then have s2: "vstep v v2" by (rule trans [OF s1 trans [OF i1]])
    note i2 = vstep_current(2) [OF good [OF s2], of False]
    have s3: "vstep v v3" by (rule trans [OF s2 trans [OF i2 "5.IH"(2) [OF refl h v(1-3) good [OF i2]]]])
    note i3 = vstep_current(3) [OF good [OF s3], of "vcurrent v" "vignore v"]
    have "instr_head (vtable v3) (forInstruction C ?f)"
      unfolding forInstruction_def by (rule with_noFusion_head [OF Instruction_new_head])
    then show ?thesis
      using ensuresD [OF closeScope_vstep [OF good [OF i3]] v(4)] by (intro trans [OF s3 trans [OF i3]]) simp
  qed (use "5.prems" in \<open>simp add: visitor.step_refl\<close>)
next
  case (6 C W i l cond thn els v)
  show ?case
  proof (cases "isInHeaders l")
    case False
    let ?f = "IfStmt i l cond thn els"
    from "6.prems" False obtain v1 instr v3 v7 instr' where
      v: "enterIf C W ?f cond v = Inr (v1, instr)"
        "(case compoundBody thn of
            Some ss \<Rightarrow>
              bind_res (enterBranch thn v1) (\<lambda>v2.
              bind_res (fold_res (traverseStmt C W) ss v2) (leaveBranch thn ''if'' (vcurrent v1)))
          | None \<Rightarrow> Inr v1) = Inr v3"
        "(case els of
            None \<Rightarrow> Inr (v3, instr)
          | Some e \<Rightarrow>
              (case compoundBody e of
                 Some ss \<Rightarrow>
                   bind_res (bind_res (enterBranch e v3) (\<lambda>v4.
                     bind_res (fold_res (traverseStmt C W) ss v4) (leaveBranch e ''else'' (vcurrent v3))))
                     (\<lambda>v6. Inr (v6, instr))
               | None \<Rightarrow> bind_res (traverseStmt C W e (pushScope v3)) (leavePlainElse instr))) = Inr (v7, instr')"
        "closeScope False instr' (v7\<lparr>vcurrent := vcurrent v\<rparr>) = Inr v'"
      by (auto simp: res_simps Let_def)
    note IH = "6.IH" [OF refl _ v(1) refl]
    have h: "\<not> isInHeaders (getBeginLoc ?f)" using False by simp
    note trans = visitor.step_trans and good = visitor.step_good
    have s1: "vstep v v1" "instr_head (vtable v1) instr"
      using ensuresD [OF enterIf_vstep [OF "6.prems"(2)] v(1)] by (simp_all add: vstep_head_def)
    have s3: "vstep v1 v3"
    proof (cases "compoundBody thn")
      case (Some ss)
      have "bind_res (enterBranch thn v1) (\<lambda>v2. bind_res (fold_res (traverseStmt C W) ss v2) (leaveBranch thn ''if'' (vcurrent v1))) = Inr v3"
        using v(2) Some by simp
      from branch_vstep [OF this good [OF s1(1)] IH(1) [OF h Some]] show ?thesis .
    qed (use v(2) good [OF s1(1)] in \<open>simp add: visitor.step_refl\<close>)
    have i3: "instr_head (vtable v3) instr"
      using instr_head_later [OF _ s1(2)] s3 by (simp add: vstep_def)
    have s7: "vstep_head v3 (v7, instr')"
    proof (cases els)
      case els: (Some e)
      show ?thesis
      proof (cases "compoundBody e")
        case (Some ss)
        have run: "bind_res (enterBranch e v3) (\<lambda>v4. bind_res (fold_res (traverseStmt C W) ss v4) (leaveBranch e ''else'' (vcurrent v3))) = Inr v7"
          and "instr' = instr"
          using v(3) els Some by (auto simp: res_simps)
        have s7: "vstep v3 v7" by (rule branch_vstep [OF run good [OF s3]]) (rule IH(3) [OF h v(2) els Some])
        then have "instr_head (vtable v7) instr" using instr_head_later [OF _ i3] by (simp add: vstep_def)
        with s7 show ?thesis by (simp add: vstep_head_def \<open>instr' = instr\<close>)
      next
        case None
        then obtain v5 where v5: "traverseStmt C W e (pushScope v3) = Inr v5" "leavePlainElse instr v5 = Inr (v7, instr')"
          using v(3) els by (auto simp: res_simps)
        have p: "vstep v3 (pushScope v3)" by (rule pushScope_vstep [OF good [OF s3]])
        have s5: "vstep v3 v5" by (rule trans [OF p IH(2) [OF h v(2) els None v5(1) good [OF p]]])
        have "instr_head (vtable v5) instr" using instr_head_later [OF _ i3] s5 by (simp add: vstep_def)
        from ensuresD [OF leavePlainElse_vstep [OF good [OF s5] this] v5(2)] show ?thesis
          using trans [OF s5] by (simp add: vstep_head_def)
      qed
    qed (use v(3) good [OF s3] i3 in \<open>simp add: vstep_head_def visitor.step_refl\<close>)
    have s: "vstep v v7" using trans [OF s1(1) trans [OF s3]] s7 by (simp add: vstep_head_def)
    note i7 = vstep_current(1) [OF good [OF s], of "vcurrent v"]
    have "instr_head (vtable (v7\<lparr>vcurrent := vcurrent v\<rparr>)) instr'" using s7 by (simp add: vstep_head_def)
    from ensuresD [OF closeScope_vstep [OF good [OF i7] this] v(4)] show ?thesis by (rule trans [OF s trans [OF i7]])
  qed (use "6.prems" in \<open>simp add: visitor.step_refl\<close>)
next
  case (7 C W i l c b v)
  then obtain v1 where v1: "traverseStmt C W c v = Inr v1" "traverseStmt C W b v1 = Inr v'" by (auto simp: res_simps)
  have s: "vstep v v1" by (rule "7.IH"(1) [OF v1(1) "7.prems"(2)])
  show ?case by (rule visitor.step_trans [OF s "7.IH"(2) [OF v1 visitor.step_good [OF s]]])
qed (auto simp: visitor.step_refl intro: fold_vstep)

section \<open>The whole file\<close>

lemma visitor_start_good: "visitor_good visitor_start"
  using table_ok_empty
  by (simp add: visitor_good_def visitor_start_def table_live_def links_live_def link_rel_def aliasTable_empty_def)

lemma TraverseFunctionDecl_vstep:
  assumes "TraverseFunctionDecl C W main functions functionsToIgnore fb v = Inr v'" and "visitor_good v"
  shows "vstep v v'"
proof -
  have p: "vstep v (pushScope v)" by (rule pushScope_vstep [OF assms(2)])
  then show ?thesis
    using assms traverseStmt_vstep [OF _ visitor.step_good [OF p]] visitor.step_trans [OF p] visitor.step_refl [OF assms(2)]
    by (auto simp: TraverseFunctionDecl_def split: if_splits option.splits)
qed

lemma visitUnit_good:
  assumes "visitUnit C main functions functionsToIgnore unit = Inr v"
  shows "visitor_good v"
proof -
  obtain written where "fold_res (TraverseFunctionDecl C (Some written) main functions functionsToIgnore) unit visitor_start = Inr v"
    using assms by (auto simp: visitUnit_def res_simps)
  then show ?thesis
    by (rule visitor.step_good [OF fold_vstep [OF _ visitor_start_good TraverseFunctionDecl_vstep]])
qed

section \<open>Graphs of recorded entries\<close>

text \<open>A dependence without children, the null one or one with an index below -1, makes the construction fail.\<close>

lemma handleDep_children:
  "handleDep T node s (d, dep) st = Inr st' \<Longrightarrow> \<exists>cs. getArrayElementChildren T d = Inr cs"
  by (auto simp: handleDep_def res_simps)

lemma handleInstructionDeps_children:
  assumes "handleInstructionDeps T (n, deps) s = Inr s'" and "d \<in> fst ` set deps"
  shows "\<exists>cs. getArrayElementChildren T d = Inr cs"
proof -
  have "\<forall>x \<in> set ds. \<exists>cs. getArrayElementChildren T (fst x) = Inr cs"
    if "fold_res (handleDep T n s) ds st = Inr st'" for ds st st'
    using that
  proof (induction ds arbitrary: st)
    case (Cons x ds)
    obtain st1 where "handleDep T n s (fst x, snd x) st = Inr st1" "fold_res (handleDep T n s) ds st1 = Inr st'"
      using Cons.prems by (auto simp: bind_res_Inr simp del: split_paired_Ex)
    from handleDep_children [OF this(1)] Cons.IH [OF this(2)] show ?case by simp
  qed simp
  then show ?thesis using assms by (fastforce simp: handleInstructionDeps_def res_simps)
qed

lemma getArrayElementChildren_null: "table_ok T \<Longrightarrow> getArrayElementChildren T null = Inl NullDeref"
proof -
  assume "table_ok T"
  then have "map_of (heap T) null = None"
    by (cases "map_of (heap T) null") (auto simp: table_ok_def heap_ok_def null_def)
  then show ?thesis by (simp add: getArrayElementChildren_def getArrayElementDependencies_def deref_def)
qed

lemma held_dep_ok:
  assumes "table_live T" and "held T d" and "getArrayElementChildren T d = Inr cs"
  shows "dep_ok T d"
proof -
  have ok: "table_ok T" using assms(1) by (simp add: table_live_def)
  have "d \<noteq> null" using assms(3) getArrayElementChildren_null [OF ok] by auto
  then have "live T d" using assms(2) by (simp add: held_def)
  then obtain a where a: "stored T d a" using live_stored [OF ok] by blast
  from getArrayElementChildren_bounds [OF a assms(3) \<open>d \<noteq> null\<close>] a show ?thesis by (auto simp: dep_ok_def)
qed

lemma InstructionToGraph_wf:
  "table_live T \<Longrightarrow> InstructionToGraph T ins l st = Inr (g, st') \<Longrightarrow> \<forall>i \<in> set ins. instr_good T i \<Longrightarrow> \<forall>i \<in> set ins. instr_wf T i"
  "table_live T \<Longrightarrow> InstructionToGraph_loop T l nis st = Inr st' \<Longrightarrow> \<forall>i \<in> set (map snd nis). instr_good T i \<Longrightarrow>
     \<forall>i \<in> set (map snd nis). instr_wf T i"
proof (induction T ins l st and T l nis st arbitrary: g st' and st' rule: InstructionToGraph_InstructionToGraph_loop.induct)
  case (1 T ins l st)
  have "map snd (zip [node_idCounter st..<node_idCounter st + length ins] ins) = ins" by simp
  then show ?case using 1 by (auto simp: res_simps Let_def simp del: map_snd_zip)
next
  case (2 T l st)
  then show ?case by simp
next
  case (3 T l n i rest st)
  obtain s where s: "handleInstructionDeps T (n, instr_dependencies i) (build_of st) = Inr s"
    using "3.prems"(2) by (auto simp: res_simps)
  have good: "instr_good T i" "\<forall>j \<in> set (map snd rest). instr_good T j" using "3.prems"(3) by simp_all
  have deps: "\<forall>(d, dep) \<in> set (instr_dependencies i). dep_ok T d"
    using handleInstructionDeps_children [OF s] held_dep_ok [OF "3.prems"(1)] good(1) instr_good_iff [of T i] by fastforce
  have inner: "complexInstruction i \<longrightarrow> instr_stmt i \<noteq> None \<and> (\<forall>j \<in> set (scopedInstructions i). instr_wf T j)"
  proof
    assume c: "complexInstruction i"
    then obtain x where x: "instr_stmt i = Some x" and w: "\<forall>j \<in> set (scopedInstructions i). instr_good T j"
      using good(1) instr_good_iff [of T i] by blast
    have "\<forall>j \<in> set (scopedInstructions i). instr_wf T j"
    proof (cases "isForStmt x")
      case True
      obtain g st2 where "InstructionToGraph T (scopedInstructions i) True ((with_maps st s)\<lparr>readMap := [], writeMap := []\<rparr>) = Inr (g, st2)"
        using "3.prems"(2) True c x s by (auto simp: res_simps Let_def)
      then show ?thesis by (rule "3.IH"(1) [OF refl c x True "3.prems"(1) _ w])
    next
      case False
      obtain g st2 where "InstructionToGraph T (scopedInstructions i) l (with_maps st s) = Inr (g, st2)"
        using "3.prems"(2) False c x s by (auto simp: res_simps Let_def)
      then show ?thesis by (rule "3.IH"(2) [OF refl c x False "3.prems"(1) _ w])
    qed
    with x show "instr_stmt i \<noteq> None \<and> (\<forall>j \<in> set (scopedInstructions i). instr_wf T j)" by simp
  qed
  obtain st4 where "InstructionToGraph_loop T l rest st4 = Inr st'" using "3.prems"(2) by (auto simp: res_simps Let_def)
  from "3.IH"(3) [OF refl "3.prems"(1) this good(2)] show ?case
    using deps inner instr_wf_iff [of T i] by auto
qed

lemma generateGraph_wf:
  assumes "table_live T" and "generateGraph T fs st = Inr (gs, st')" and "\<forall>f \<in> set fs. \<forall>i \<in> set f. instr_good T i"
  shows "\<forall>f \<in> set fs. \<forall>i \<in> set f. instr_wf T i"
  using assms(2,3)
proof (induction fs arbitrary: st gs)
  case (Cons f fs)
  then obtain g st1 gs' where "InstructionToGraph T f False (st\<lparr>readMap := [], writeMap := []\<rparr>) = Inr (g, st1)"
    "generateGraph T fs st1 = Inr (gs', st')" by (auto simp: res_simps simp del: InstructionToGraph.simps)
  with InstructionToGraph_wf(1) [OF assms(1) this(1)] Cons show ?case by auto
qed simp

text \<open>The traversal and the construction of the graphs together: what the theorems on the graphs assume.\<close>

lemma unit_wf:
  assumes "visitUnit C main functions functionsToIgnore unit = Inr v"
    and "generateGraph (vtable v) (vscopes v) program_empty = Inr (gs, st)"
  shows "table_ok (vtable v)" and "\<forall>f \<in> set (vscopes v). \<forall>i \<in> set f. instr_wf (vtable v) i"
proof -
  have v: "table_live (vtable v)" "\<forall>f \<in> set (vscopes v). \<forall>i \<in> set f. instr_good (vtable v) i"
    using visitUnit_good [OF assms(1)] by (simp_all add: visitor_good_def)
  show "table_ok (vtable v)" using v(1) by (simp add: table_live_def)
  show "\<forall>f \<in> set (vscopes v). \<forall>i \<in> set f. instr_wf (vtable v) i" by (rule generateGraph_wf [OF v(1) assms(2) v(2)])
qed

lemma fold_optimizeAndOrder:
  "fold_res (optimizeAndOrder fuel ah) gs (st, oh) = Inr (st', oh') \<Longrightarrow> optimizeAll fuel ah gs st = Inr st'"
  unfolding optimizeAll_def
proof (induction gs arbitrary: st oh)
  case (Cons g gs)
  obtain st1 oh1 where "optimizeAndOrder fuel ah g (st, oh) = Inr (st1, oh1)" and
    r: "fold_res (optimizeAndOrder fuel ah) gs (st1, oh1) = Inr (st', oh')"
    using Cons.prems by (auto simp: res_simps)
  then have "optimizeGraph fuel ah g st = Inr st1" by (auto simp: optimizeAndOrder_def res_simps)
  with Cons.IH [OF r] show ?case by simp
qed simp

section \<open>Properties\<close>

text \<open>
  C3: after the traversal of any file, the construction of the graphs returns exactly when every
  dependence of the instructions, at every level of nesting, is an entry of the alias table whose
  indexes are -1 or more; it then returns one graph per function.
\<close>

theorem unit_generateGraph_iff:
  assumes "visitUnit C main functions functionsToIgnore unit = Inr v"
  shows "(\<forall>f \<in> set (vscopes v). \<forall>i \<in> set f. instr_wf (vtable v) i) =
    (\<exists>gs st. generateGraph (vtable v) (vscopes v) program_empty = Inr (gs, st) \<and> length gs = length (vscopes v))"
proof
  have "table_live (vtable v)" using visitUnit_good [OF assms] by (simp add: visitor_good_def)
  then have ok: "table_ok (vtable v)" by (simp add: table_live_def)
  show "\<exists>gs st. generateGraph (vtable v) (vscopes v) program_empty = Inr (gs, st) \<and> length gs = length (vscopes v)"
    if "\<forall>f \<in> set (vscopes v). \<forall>i \<in> set f. instr_wf (vtable v) i"
    using generateGraph_built [OF ok program_empty_inv that] by blast
  show "\<forall>f \<in> set (vscopes v). \<forall>i \<in> set f. instr_wf (vtable v) i"
    if "\<exists>gs st. generateGraph (vtable v) (vscopes v) program_empty = Inr (gs, st) \<and> length gs = length (vscopes v)"
    using that unit_wf(2) [OF assms] by blast
qed


section \<open>Witnesses\<close>

text \<open>The function with a conditional.\<close>

definition ex_branch_unit :: "(ex_type fundecl \<times> ex_type stmt option) list" where
  "ex_branch_unit = [(ex_task_fun, Some ex_branch)]"

lemma ex_branch_built:
  obtains v gs st where "visitUnit ex_clang ''main'' [] [] ex_branch_unit = Inr v" and "concat (vscopes v) \<noteq> []"
    and "generateGraph (vtable v) (vscopes v) program_empty = Inr (gs, st)" and "map fst (pnodes st) = [0, 1, 2, 3, 4]"
proof -
  let ?P = "\<lambda>v. concat (vscopes v) \<noteq> [] \<and> (case generateGraph (vtable v) (vscopes v) program_empty of Inl _ \<Rightarrow> False
        | Inr (gs, st) \<Rightarrow> map fst (pnodes st) = [0, 1, 2, 3, 4])"
  have "case visitUnit ex_clang ''main'' [] [] ex_branch_unit of Inl _ \<Rightarrow> False | Inr v \<Rightarrow> ?P v" by code_simp
  then obtain v where v: "visitUnit ex_clang ''main'' [] [] ex_branch_unit = Inr v" "?P v"
    by (cases "visitUnit ex_clang ''main'' [] [] ex_branch_unit") (simp_all only: sum.case, blast)
  then obtain gs st where g: "generateGraph (vtable v) (vscopes v) program_empty = Inr (gs, st)" "map fst (pnodes st) = [0, 1, 2, 3, 4]"
    by (cases "generateGraph (vtable v) (vscopes v) program_empty") (auto simp only: sum.case split: prod.splits)
  show ?thesis by (rule that [OF v(1) conjunct1 [OF v(2)] g])
qed

lemma unit_generateGraph_iff_witness:
  "\<exists>v. visitUnit ex_clang ''main'' [] [] ex_branch_unit = Inr v \<and> concat (vscopes v) \<noteq> []
     \<and> (\<forall>f \<in> set (vscopes v). \<forall>i \<in> set f. instr_wf (vtable v) i)"
proof -
  obtain v gs st where v: "visitUnit ex_clang ''main'' [] [] ex_branch_unit = Inr v" "concat (vscopes v) \<noteq> []"
    and g: "generateGraph (vtable v) (vscopes v) program_empty = Inr (gs, st)" by (rule ex_branch_built)
  have "length gs = length (vscopes v)"
    using generateGraph_built [OF unit_wf(1) [OF v(1) g] program_empty_inv unit_wf(2) [OF v(1) g]] g by auto
  then have "\<forall>f \<in> set (vscopes v). \<forall>i \<in> set f. instr_wf (vtable v) i"
    using g by (subst unit_generateGraph_iff [OF v(1)]) blast
  with v show ?thesis by blast
qed


end
