(* ===== verification/Command_Line.thy ===== *)
theory Command_Line
  imports Common_Strings
begin

text \<open>
  The command line program (\<open>cli/src/apac.cpp\<close>) and the settings of a pass (\<open>core/transfoCommon.hpp\<close>).
  The options are parsed by LLVM: the sources and the three strings are arguments here. The files are a
  map from names to contents; whether a file can be created is a parameter. Running a pass on files is
  Clang's: the program is the list of the runs with their arguments.
\<close>

section \<open>Settings\<close>

text \<open>
  The pieces \<open>std::getline\<close> reads from a string up to a separator, which it drops: there is no empty
  piece after a separator at the end.
\<close>

function getlines :: "char \<Rightarrow> string \<Rightarrow> string list" where
  "getlines d s =
     (if s = [] then []
      else takeWhile (\<lambda>c. c \<noteq> d) s # getlines d (tl (dropWhile (\<lambda>c. c \<noteq> d) s)))"
  by pat_completeness auto
termination
proof (relation "measure (\<lambda>(d, s). length s)", goal_cases)
  case (2 d s)
  have "length (tl (dropWhile (\<lambda>c. c \<noteq> d) s)) \<le> length s - 1"
    using length_dropWhile_le [of "\<lambda>c. c \<noteq> d" s] by simp
  also have "\<dots> < length s" using 2 by (cases s) simp_all
  finally show ?case by simp
qed simp

declare getlines.simps [simp del]

record settings =
  mainName :: string
  functionsToIgnore :: "string list"
  functionsToParse :: "string list"

definition callParse :: "string \<Rightarrow> string \<Rightarrow> string \<Rightarrow> settings \<Rightarrow> settings" where
  "callParse main functions ignore st =
     \<lparr>mainName = (if main = [] then ''main'' else main),
      functionsToIgnore = functionsToIgnore st @ (if ignore = [] then [] else getlines (CHR '','') ignore),
      functionsToParse = functionsToParse st @ (if functions = [] then [] else getlines (CHR '','') functions)\<rparr>"

definition settings_start :: settings where
  "settings_start = \<lparr>mainName = [], functionsToIgnore = [], functionsToParse = []\<rparr>"

section \<open>The copies of the sources\<close>

definition outputName :: "string \<Rightarrow> string" where
  "outputName file =
     (if CHR ''/'' \<in> set file then
        (let n = length file - length (takeWhile (\<lambda>c. c \<noteq> CHR ''/'') (rev file)) in
         take n file @ ''APAC'' @ drop n file)
      else ''APAC'' @ file)"

type_synonym files = "string \<rightharpoonup> string"

text \<open>The copy is emptied before the source is opened.\<close>

definition copyFile :: "(string \<Rightarrow> bool) \<Rightarrow> string \<Rightarrow> files \<times> string list \<Rightarrow> files \<times> string list" where
  "copyFile canCreate file s =
     (case s of (fs, filesOutput) \<Rightarrow>
        (let outputFile = outputName file in
         if \<not> canCreate outputFile then (fs, filesOutput)
         else
           (let fs1 = fs(outputFile \<mapsto> []) in
            case fs1 file of
              None \<Rightarrow> (fs1, filesOutput)
            | Some content \<Rightarrow> (fs1(outputFile \<mapsto> content), filesOutput @ [outputFile]))))"

section \<open>The passes\<close>

datatype pass =
  DuplicateFunctionsHandler | ConditionUnstackHandler | MultipleDeclSplitterHandler | UnstackHandler
| DeclarationSplitterHandler | GotoRetHandler | TaskGraphHandler | MainParallelHandler

record passRun =
  run_pass :: pass
  run_input :: "string list"
  run_settings :: settings
  run_output :: "string list"

text \<open>The \<open>run\<close> method of a handler: its settings, the queue of its output files, the files it rewrites.\<close>

definition handlerRun :: "pass \<Rightarrow> string list \<Rightarrow> string \<times> string \<times> string \<Rightarrow> string list \<Rightarrow> passRun" where
  "handlerRun p filesInput options filesOutput =
     (case options of (main, functions, ignore) \<Rightarrow>
        \<lparr>run_pass = p, run_input = filesInput, run_settings = callParse main functions ignore settings_start,
         run_output = filesOutput\<rparr>)"

definition apacRuns :: "string list \<Rightarrow> string \<times> string \<times> string \<Rightarrow> string list \<Rightarrow> passRun list" where
  "apacRuns files options filesOutput =
     [handlerRun DuplicateFunctionsHandler filesOutput options filesOutput,
      handlerRun ConditionUnstackHandler filesOutput options filesOutput,
      handlerRun MultipleDeclSplitterHandler filesOutput options filesOutput,
      handlerRun UnstackHandler files options filesOutput,
      handlerRun DeclarationSplitterHandler filesOutput options filesOutput,
      handlerRun GotoRetHandler filesOutput options filesOutput,
      handlerRun TaskGraphHandler filesOutput options filesOutput,
      handlerRun MainParallelHandler filesOutput options filesOutput]"

text \<open>Without an argument the program ends with status 1.\<close>

definition apacMain ::
    "nat \<Rightarrow> (string \<Rightarrow> bool) \<Rightarrow> string list \<Rightarrow> string \<times> string \<times> string \<Rightarrow> files \<Rightarrow> nat + files \<times> passRun list" where
  "apacMain argc canCreate files options fs =
     (if argc < 2 then Inl 1
      else (case fold (copyFile canCreate) files (fs, []) of
              (fs', filesOutput) \<Rightarrow> Inr (fs', apacRuns files options filesOutput)))"

section \<open>Round trip of the lists of functions\<close>

lemma getlines_token:
  assumes "d \<notin> set a"
  shows "getlines d (a @ d # s) = a # getlines d s" and "a \<noteq> [] \<Longrightarrow> getlines d a = [a]"
proof -
  have t: "takeWhile (\<lambda>c. c \<noteq> d) (a @ d # s) = a" "dropWhile (\<lambda>c. c \<noteq> d) (a @ d # s) = d # s" for s
    using assms by (induction a) auto
  show "getlines d (a @ d # s) = a # getlines d s"
    by (subst getlines.simps) (simp add: t)
  have "takeWhile (\<lambda>c. c \<noteq> d) a = a" "tl (dropWhile (\<lambda>c. c \<noteq> d) a) = []"
    using assms by (induction a) auto
  then show "a \<noteq> [] \<Longrightarrow> getlines d a = [a]"
    using getlines.simps [of d "[]"] getlines.simps [of d a] by simp
qed

lemma getlines_join:
  assumes "\<forall>x \<in> set xs. d \<notin> set x" and "xs \<noteq> [] \<Longrightarrow> last xs \<noteq> []"
  shows "getlines d (join [d] xs) = xs"
  using assms
proof (induction "[d]" xs rule: join.induct)
  case 1
  show ?case by (simp add: getlines.simps)
next
  case (2 x)
  then show ?case by (simp add: getlines_token)
next
  case (3 x y ys)
  then have "getlines d (join [d] (y # ys)) = y # ys" by simp
  moreover have "getlines d (x @ d # join [d] (y # ys)) = x # getlines d (join [d] (y # ys))"
    using 3 by (simp add: getlines_token)
  ultimately show ?case by simp
qed

lemma join_empty: "join sep xs = [] \<Longrightarrow> xs \<noteq> [] \<Longrightarrow> last xs = []"
  by (induction sep xs rule: join.induct) auto

text \<open>
  C39: the names of functions a user joins with commas are read back as they are, both for the functions
  to transform and for those to ignore: names without a comma, of which the last is not empty. The
  option for the main function defaults to \<open>main\<close>.
\<close>

theorem callParse_join:
  assumes "\<forall>x \<in> set fs \<union> set ig. CHR '','' \<notin> set x" and "fs \<noteq> [] \<longrightarrow> last fs \<noteq> []" and "ig \<noteq> [] \<longrightarrow> last ig \<noteq> []"
  shows "callParse main (join '','' fs) (join '','' ig) settings_start
    = \<lparr>mainName = (if main = [] then ''main'' else main), functionsToIgnore = ig, functionsToParse = fs\<rparr>"
proof -
  have "(if join '','' xs = [] then [] else getlines (CHR '','') (join '','' xs)) = xs"
    if "\<forall>x \<in> set xs. CHR '','' \<notin> set x" "xs \<noteq> [] \<longrightarrow> last xs \<noteq> []" for xs
    using that getlines_join [of xs "CHR '',''"] join_empty [of "'',''" xs] by auto
  then show ?thesis using assms by (simp add: callParse_def settings_start_def)
qed

lemma callParse_join_witness:
  "callParse [] (join '','' [''f'', '''', ''g'']) (join '','' [''h'']) settings_start
    = \<lparr>mainName = ''main'', functionsToIgnore = [''h''], functionsToParse = [''f'', '''', ''g'']\<rparr>"
  using callParse_join [of "[''f'', '''', ''g'']" "[''h'']" "[]"] by simp

section \<open>The sources and their copies\<close>

lemma outputName_longer: "length (outputName f) = length f + 4"
  by (simp add: outputName_def Let_def)

lemma copyFile_step:
  "fst (copyFile canCreate f (fs, os)) x =
     (if x = outputName f \<and> canCreate x then (case fs f of None \<Rightarrow> Some [] | Some c \<Rightarrow> Some c) else fs x)"
  "snd (copyFile canCreate f (fs, os)) = os @ (if canCreate (outputName f) \<and> fs f \<noteq> None then [outputName f] else [])"
proof -
  have "f \<noteq> outputName f" using outputName_longer [of f] by (metis add_cancel_right_right zero_neq_numeral)
  then show "fst (copyFile canCreate f (fs, os)) x =
     (if x = outputName f \<and> canCreate x then (case fs f of None \<Rightarrow> Some [] | Some c \<Rightarrow> Some c) else fs x)"
    "snd (copyFile canCreate f (fs, os)) = os @ (if canCreate (outputName f) \<and> fs f \<noteq> None then [outputName f] else [])"
    by (auto simp: copyFile_def Let_def split: option.splits)
qed

lemma fold_copyFile:
  assumes "fold (copyFile canCreate) files (fs, os) = (fs', os')" and "outputName ` set files \<inter> set files = {}"
  shows "(\<forall>x. x \<notin> outputName ` set files \<longrightarrow> fs' x = fs x)
    \<and> os' = os @ map outputName (filter (\<lambda>f. canCreate (outputName f) \<and> fs f \<noteq> None) files)"
  using assms
proof (induction files arbitrary: fs os)
  case (Cons f files)
  obtain fs1 os1 where s: "copyFile canCreate f (fs, os) = (fs1, os1)" by (cases "copyFile canCreate f (fs, os)")
  have fs1: "fs1 x = fs x" if "x \<noteq> outputName f" for x
    using copyFile_step(1) [of canCreate f fs os x] that by (simp add: s)
  have os1: "os1 = os @ (if canCreate (outputName f) \<and> fs f \<noteq> None then [outputName f] else [])"
    using copyFile_step(2) [of canCreate f fs os] by (simp add: s)
  have "(\<forall>x. x \<notin> outputName ` set files \<longrightarrow> fs' x = fs1 x)
    \<and> os' = os1 @ map outputName (filter (\<lambda>f. canCreate (outputName f) \<and> fs1 f \<noteq> None) files)"
    using Cons.prems s by (intro Cons.IH) auto
  moreover have "filter (\<lambda>f. canCreate (outputName f) \<and> fs1 f \<noteq> None) files
      = filter (\<lambda>f. canCreate (outputName f) \<and> fs f \<noteq> None) files"
  proof (intro filter_cong refl)
    fix x assume "x \<in> set files"
    then have "x \<noteq> outputName f" using Cons.prems(2) by auto
    from fs1 [OF this] show "(canCreate (outputName x) \<and> fs1 x \<noteq> None) = (canCreate (outputName x) \<and> fs x \<noteq> None)" by simp
  qed
  ultimately show ?case using fs1 os1 by auto
qed simp

text \<open>The name of the copy determines the source.\<close>

definition baseName :: "string \<Rightarrow> string" where
  "baseName f = rev (takeWhile (\<lambda>c. c \<noteq> CHR ''/'') (rev f))"

lemma outputName_split: "\<exists>dir. f = dir @ baseName f \<and> outputName f = dir @ ''APAC'' @ baseName f
    \<and> baseName (outputName f) = ''APAC'' @ baseName f"
proof -
  let ?n = "length f - length (baseName f)"
  have f: "f = take ?n f @ baseName f"
    using takeWhile_dropWhile_id [of "\<lambda>c. c \<noteq> CHR ''/''" "rev f"] unfolding baseName_def
    by (metis append_eq_conv_conj length_append length_rev rev_append rev_rev_ident add_diff_cancel_right')
  have d: "drop ?n f = baseName f" using f by (metis append_eq_conv_conj length_take diff_le_self min.absorb2)
  have slash: "take ?n f = [] \<or> last (take ?n f) = CHR ''/''"
  proof -
    have "take ?n f = rev (dropWhile (\<lambda>c. c \<noteq> CHR ''/'') (rev f))"
      using f takeWhile_dropWhile_id [of "\<lambda>c. c \<noteq> CHR ''/''" "rev f"] unfolding baseName_def
      by (metis append_same_eq rev_append rev_rev_ident)
    then show ?thesis using hd_dropWhile [of "\<lambda>c. c \<noteq> CHR ''/''" "rev f"] by (auto simp: last_rev)
  qed
  have nb: "CHR ''/'' \<notin> set (baseName f)" unfolding baseName_def by (auto dest: set_takeWhileD)
  have out: "outputName f = take ?n f @ ''APAC'' @ baseName f"
  proof (cases "CHR ''/'' \<in> set f")
    case True
    then show ?thesis using d by (simp add: outputName_def Let_def baseName_def)
  next
    case False
    then have tw: "takeWhile (\<lambda>c. c \<noteq> CHR ''/'') (rev f) = rev f" unfolding takeWhile_eq_all_conv by auto
    have "baseName f = f" unfolding baseName_def tw by simp
    with False show ?thesis by (simp add: outputName_def)
  qed
  have "baseName (p @ b) = b" if "p = [] \<or> last p = CHR ''/''" "CHR ''/'' \<notin> set b" for p b
  proof -
    have tw: "takeWhile (\<lambda>c. c \<noteq> CHR ''/'') (rev b @ r) = rev b" if "r = [] \<or> hd r = CHR ''/''" for r
      using that \<open>CHR ''/'' \<notin> set b\<close> by (cases r) (auto simp: takeWhile_append)
    have "rev p = [] \<or> hd (rev p) = CHR ''/''" using that(1) by (auto simp: hd_rev)
    then show ?thesis by (simp add: baseName_def tw)
  qed
  from this [OF slash, of "''APAC'' @ baseName f"] nb have "baseName (outputName f) = ''APAC'' @ baseName f"
    unfolding out by simp
  with f out show ?thesis by blast
qed

lemma outputName_inj: "outputName f = outputName g \<Longrightarrow> f = g"
  using outputName_split [of f] outputName_split [of g] by (metis append_same_eq same_append_eq)

lemma fold_copyFile_copies:
  assumes "fold (copyFile canCreate) files (fs, os) = (fs', os')" and "outputName ` set files \<inter> set files = {}"
    and "f \<in> set files" and "canCreate (outputName f)" and "fs f = Some c"
  shows "fs' (outputName f) = Some c"
  using assms
proof (induction files arbitrary: fs os)
  case (Cons g files)
  obtain fs1 os1 where s: "copyFile canCreate g (fs, os) = (fs1, os1)" by (cases "copyFile canCreate g (fs, os)")
  have fs1: "fs1 x = (if x = outputName g \<and> canCreate x then (case fs g of None \<Rightarrow> Some [] | Some c \<Rightarrow> Some c) else fs x)" for x
    using copyFile_step(1) [of canCreate g fs os x] by (simp add: s)
  have r: "fold (copyFile canCreate) files (fs1, os1) = (fs', os')" using Cons.prems(1) s by simp
  have d: "outputName ` set files \<inter> set files = {}" using Cons.prems(2) by auto
  show ?case
  proof (cases "f \<in> set files")
    case True
    have "f \<noteq> outputName g" using Cons.prems(2) True by auto
    then have "fs1 f = Some c" using fs1 Cons.prems(5) by simp
    then show ?thesis by (rule Cons.IH [OF r d True Cons.prems(4)])
  next
    case False
    then have f: "f = g" using Cons.prems(3) by simp
    then have "outputName f \<notin> outputName ` set files" using False outputName_inj by auto
    then have "fs' (outputName f) = fs1 (outputName f)" using fold_copyFile [OF r d] by blast
    then show ?thesis using fs1 f Cons.prems(4,5) by simp
  qed
qed simp



end
