(* ===== verification/Decimal.thy ===== *)
theory Decimal
  imports Prelude
begin

text \<open>
  The numbers the passes put into the names they make: printing has an inverse, so names that differ in
  their number are different, and a printed number has digits only.
\<close>

definition nat_of_digits :: "string \<Rightarrow> nat" where
  "nat_of_digits = foldl (\<lambda>n c. 10 * n + (of_char c - 48)) 0"

definition digits :: "string \<Rightarrow> bool" where
  "digits s \<longleftrightarrow> (\<forall>c \<in> set s. 48 \<le> (of_char c :: nat) \<and> (of_char c :: nat) \<le> 57)"

lemma of_char_digit: "d < 10 \<Longrightarrow> of_char (char_of (48 + d) :: char) = 48 + d" for d :: nat
  by simp

lemma nat_of_digits_snoc: "nat_of_digits (s @ [c]) = 10 * nat_of_digits s + (of_char c - 48)"
  by (simp add: nat_of_digits_def)

lemma nat_of_digits_string_of_nat [simp]: "nat_of_digits (string_of_nat n) = n"
proof (induction n rule: string_of_nat.induct)
  case (1 n)
  show ?case
  proof (cases "n < 10")
    case True
    then show ?thesis by (simp add: string_of_nat.simps [of n] nat_of_digits_def)
  next
    case False
    have "nat_of_digits (string_of_nat n) = 10 * (n div 10) + n mod 10"
      using 1 [OF False] False of_char_digit [of "n mod 10"]
      by (subst string_of_nat.simps) (simp add: nat_of_digits_snoc del: of_char_of)
    then show ?thesis by simp
  qed
qed

lemma string_of_nat_inject [simp]: "string_of_nat m = string_of_nat n \<longleftrightarrow> m = n"
  by (metis nat_of_digits_string_of_nat)

lemma digits_string_of_nat [simp]: "digits (string_of_nat n)"
proof (induction n rule: string_of_nat.induct)
  case (1 n)
  show ?case
  proof (cases "n < 10")
    case True
    then show ?thesis by (simp add: string_of_nat.simps [of n] digits_def)
  next
    case False
    then show ?thesis using 1 [OF False] of_char_digit [of "n mod 10"]
      by (subst string_of_nat.simps) (simp add: digits_def del: of_char_of)
  qed
qed

lemma digits_notin: "digits s \<Longrightarrow> \<not> (48 \<le> (of_char c :: nat) \<and> (of_char c :: nat) \<le> 57) \<Longrightarrow> c \<notin> set s"
  unfolding digits_def by blast

lemma string_of_nat_nonempty [simp]: "string_of_nat n \<noteq> []"
  by (subst string_of_nat.simps) simp

end
