(* ===== verification/Heapify.thy ===== *)
theory Heapify
  imports Example_Types Rewriter_Edits Decimal
begin

text \<open>
  The pass that moves local variables to the heap (\<open>Heapify\<close>): a declaration is replaced by a block that
  is allocated and a reference to it; the block is deleted at the end of its scope, and in front of a
  \<open>return\<close> or \<open>goto\<close> that leaves it.

  A scope (\<open>ScopeInfo\<close> of \<open>core.hpp\<close>) is a node of a tree. Its parent is the node it is a child of, and
  during the traversal (\<open>ASTHeapifyVisitor.cpp\<close>) the scope below it on the stack. A variable is kept
  with its initialiser. The types of an item are those \<open>initItem\<close> computes (\<open>utilitaryFunctions.cpp\<close>).
\<close>

section \<open>Scopes\<close>

type_synonym 't heapVar = "'t vardecl \<times> 't stmt option"

record 't item_found =
  item_name :: string
  item_id :: nat
  qTypeTempMem :: 't
  qTypeNew :: 't
  qTypeVar :: 't
  item_isFound :: bool
  item_array :: bool
  item_declaration :: "'t heapVar"

datatype 't scopeInfo = ScopeInfo
  (scompound: "'t stmt")
  (hasReturnGoto: bool)
  (doesNotNeedHeap: int)
  (variablesCurScope: "'t heapVar list")
  (variablesToDelete: "'t heapVar list")
  (goToReturnStmts: "'t stmt list")
  (variablesToHeap: "'t item_found list")
  (itemsToDelete: "'t item_found list")
  (subScopes: "'t scopeInfo list")

definition scope_new :: "'t stmt \<Rightarrow> 't scopeInfo" where
  "scope_new coSt = ScopeInfo coSt False (-1) [] [] [] [] [] []"

text \<open>The variables of a scope and of its parents: the scope is the first one of the list.\<close>

definition getVariablesToDelete :: "'t scopeInfo list \<Rightarrow> 't heapVar list" where
  "getVariablesToDelete scopes = concat (map variablesCurScope scopes)"

section \<open>Which variables\<close>

definition foundCorrectFunction :: "string \<Rightarrow> string \<Rightarrow> bool" where
  "foundCorrectFunction fName soughtFunctionName \<longleftrightarrow>
     \<not> contains ''_apacSeq'' fName \<and> (soughtFunctionName = [] \<or> fName = soughtFunctionName)"

definition isInitAReference :: "'t clang \<Rightarrow> 't heapVar \<Rightarrow> bool" where
  "isInitAReference C vDec = (case snd vDec of None \<Rightarrow> False | Some vInit \<Rightarrow> isDeclRefExpr (ignoreCasts C vInit))"

definition isInitNew :: "'t heapVar \<Rightarrow> bool" where
  "isInitNew v = (case snd v of None \<Rightarrow> False | Some vInit \<Rightarrow> exprKind vInit = Some CXXNewExpr)"

definition foundCorrectVarType :: "'t clang \<Rightarrow> 't heapVar \<Rightarrow> bool" where
  "foundCorrectVarType C vDec \<longleftrightarrow>
     \<not> (isPointerType C (vd_type (fst vDec)) \<or> (isReferenceType C (vd_type (fst vDec)) \<and> isInitAReference C vDec))"

definition foundCorrectVariable :: "'t clang \<Rightarrow> 't heapVar \<Rightarrow> string \<Rightarrow> bool" where
  "foundCorrectVariable C vDec soughtVariableName \<longleftrightarrow>
     (soughtVariableName = [] \<or> vd_name (fst vDec) = soughtVariableName) \<and> foundCorrectVarType C vDec"

section \<open>The visitor\<close>

record 't heapVisitor =
  scopeStack :: "'t scopeInfo list"
  topScopes :: "'t scopeInfo list"

text \<open>The first \<open>goto\<close> or \<open>return\<close> of a scope is recorded, the others are not.\<close>

definition gotoReturnHandle :: "'t stmt \<Rightarrow> 't heapVisitor \<Rightarrow> 't heapVisitor res" where
  "gotoReturnHandle st v =
     (case scopeStack v of
        [] \<Rightarrow> Inl UndefinedAccess
      | ScopeInfo c h d vs del gs vh it subs # rest \<Rightarrow>
          if h then Inr v
          else Inr (v\<lparr>scopeStack := ScopeInfo c True d vs (getVariablesToDelete (scopeStack v)) (gs @ [st]) vh it subs # rest\<rparr>))"

definition pushVariable :: "'t heapVar \<Rightarrow> 't heapVisitor \<Rightarrow> 't heapVisitor res" where
  "pushVariable x v =
     (case scopeStack v of
        [] \<Rightarrow> Inl UndefinedAccess
      | ScopeInfo c h d vs del gs vh it subs # rest \<Rightarrow>
          Inr (v\<lparr>scopeStack := ScopeInfo c h d (vs @ [x]) del gs vh it subs # rest\<rparr>))"

definition VisitDeclStmt_heap :: "'t clang \<Rightarrow> string \<Rightarrow> ('t decl \<times> 't stmt option) list \<Rightarrow> 't heapVisitor \<Rightarrow> 't heapVisitor res" where
  "VisitDeclStmt_heap C variableHeap decls v =
     fold_res (\<lambda>(decl, ini) v.
       case decl of
         VarDecl x \<Rightarrow>
           if foundCorrectVariable C (x, ini) variableHeap \<and> \<not> isInitNew (x, ini) then pushVariable (x, ini) v else Inr v
       | OtherDecl _ _ _ \<Rightarrow> Inr v) decls v"

definition pushScope_heap :: "'t stmt \<Rightarrow> 't heapVisitor \<Rightarrow> 't heapVisitor" where
  "pushScope_heap coSt v = v\<lparr>scopeStack := scope_new coSt # scopeStack v\<rparr>"

text \<open>A scope that is left is among the sub-scopes of the one below, or a top one.\<close>

definition popScope_heap :: "'t heapVisitor \<Rightarrow> 't heapVisitor res" where
  "popScope_heap v =
     (case scopeStack v of
        [] \<Rightarrow> Inl UndefinedAccess
      | [s] \<Rightarrow> Inr (v\<lparr>scopeStack := [], topScopes := topScopes v @ [s]\<rparr>)
      | s # ScopeInfo c h d vs del gs vh it subs # rest \<Rightarrow>
          Inr (v\<lparr>scopeStack := ScopeInfo c h d vs del gs vh it (subs @ [s]) # rest\<rparr>))"

text \<open>The traversal, with the nodes to enter and the scopes to leave.\<close>

datatype 't heapWork = Enter "'t stmt" | Leave

definition heapVisit :: "'t clang \<Rightarrow> string \<Rightarrow> 't stmt \<Rightarrow> 't heapVisitor \<Rightarrow> 't heapVisitor res" where
  "heapVisit C variableHeap s v =
     (case s of
        GotoStmt _ _ \<Rightarrow> gotoReturnHandle s v
      | ReturnStmt _ _ _ \<Rightarrow> gotoReturnHandle s v
      | DeclStmt _ _ ds \<Rightarrow> VisitDeclStmt_heap C variableHeap ds v
      | CompoundStmt _ _ _ \<Rightarrow> Inr (pushScope_heap s v)
      | _ \<Rightarrow> Inr v)"

definition heapChildren :: "'t stmt \<Rightarrow> 't heapWork list" where
  "heapChildren s = map Enter (children s) @ (if isCompoundStmt s then [Leave] else [])"

definition heapWeight :: "'t heapWork \<Rightarrow> nat" where
  "heapWeight w = (case w of Enter s \<Rightarrow> 2 * weight s | Leave \<Rightarrow> 1)"

lemma heapWeight_children: "sum_list (map heapWeight (heapChildren s)) < 2 * weight s"
proof -
  have "sum_list (map heapWeight (map Enter cs)) = 2 * sum_list (map weight cs)" for cs :: "'a stmt list"
    by (induction cs) (simp_all add: heapWeight_def)
  then show ?thesis using weight_children [of s] by (simp add: heapChildren_def heapWeight_def)
qed

function traverseHeap :: "'t clang \<Rightarrow> string \<Rightarrow> 't heapWork list \<Rightarrow> 't heapVisitor \<Rightarrow> 't heapVisitor res" where
  "traverseHeap C variableHeap [] v = Inr v"
| "traverseHeap C variableHeap (Leave # ws) v = bind_res (popScope_heap v) (traverseHeap C variableHeap ws)"
| "traverseHeap C variableHeap (Enter s # ws) v =
     (if isIfStmt s \<and> \<not> elementsConditions (getBeginLoc s) then traverseHeap C variableHeap ws v
      else bind_res (heapVisit C variableHeap s v) (traverseHeap C variableHeap (heapChildren s @ ws)))"
  by pat_completeness auto
termination
proof (relation "measure (\<lambda>(C, n, q, v). sum_list (map heapWeight q))")
  fix C :: "'t clang" and n :: string and s :: "'t stmt" and ws v w
  show "((C, n, heapChildren s @ ws, w), C, n, Enter s # ws, v) \<in> measure (\<lambda>(C, n, q, v). sum_list (map heapWeight q))"
    using heapWeight_children [of s] by (simp add: heapWeight_def)
qed (auto simp: heapWeight_def weight_def)

definition TraverseFunctionDecl_heap ::
    "'t clang \<Rightarrow> string \<Rightarrow> string \<Rightarrow> string \<Rightarrow> string list \<Rightarrow> string list \<Rightarrow> 't fundecl \<times> 't stmt option \<Rightarrow>
     't heapVisitor \<Rightarrow> 't heapVisitor res" where
  "TraverseFunctionDecl_heap C functionHeap variableHeap main functions functionsToIgnore fb v =
     (if \<not> functionsConditions main functions functionsToIgnore fb \<or> \<not> foundCorrectFunction (fd_name (fst fb)) functionHeap
      then Inr v
      else traverseHeap C variableHeap (case snd fb of None \<Rightarrow> [] | Some b \<Rightarrow> [Enter b]) v)"

section \<open>Which scopes\<close>

fun computeNeededHeapScope :: "'t scopeInfo \<Rightarrow> 't scopeInfo" where
  "computeNeededHeapScope (ScopeInfo c h d vs del gs vh it subs) =
     (let subs' = map computeNeededHeapScope subs; d' = (if h then 1 else 0) in
      ScopeInfo c h
        (if d' \<noteq> 1 then
           (let subScopesNeedHeap = foldl (\<lambda>b sub. b \<and> doesNotNeedHeap sub \<noteq> 0) False subs' in
            if subScopesNeedHeap then 0 else d')
         else d')
        vs del gs vh it subs')"

section \<open>The items\<close>

definition initItem :: "'t clang \<Rightarrow> 't heapVar \<Rightarrow> nat \<Rightarrow> 't item_found" where
  "initItem C vDec i =
     (let t = vd_type (fst vDec);
          new = (if isReferenceType C t \<or> \<not> isInitAReference C vDec then getUnreferencedQType C t else t) in
      if isArrayType C t then
        (let tempMem = getPointerType C (getArrayElementType C t) in
         \<lparr>item_name = vd_name (fst vDec), item_id = i, qTypeTempMem = tempMem, qTypeNew = new,
          qTypeVar = getLValueReferenceType C tempMem, item_isFound = True, item_array = True, item_declaration = vDec\<rparr>)
      else
        \<lparr>item_name = vd_name (fst vDec), item_id = i, qTypeTempMem = withConst C (getPointerType C new), qTypeNew = new,
         qTypeVar = getLValueReferenceType C new, item_isFound = True, item_array = False, item_declaration = vDec\<rparr>)"

definition varKey :: "'t heapVar \<Rightarrow> nat" where
  "varKey v = vd_canonical (fst v)"

type_synonym 't varToItem = "(nat \<times> 't item_found) list"

fun heapVariables :: "'t clang \<Rightarrow> 't heapVar list \<Rightarrow> nat \<Rightarrow> 't varToItem \<Rightarrow> 't item_found list \<times> nat \<times> 't varToItem" where
  "heapVariables C [] i m = ([], i, m)"
| "heapVariables C (var # vs) i m =
     (if map_of m (varKey var) = None then
        (let item = initItem C var i in
         case heapVariables C vs (Suc i) (ains (varKey var) item m) of (items, i', m') \<Rightarrow> (item # items, i', m'))
      else heapVariables C vs i m)"

text \<open>The number is passed on to the sub-scopes by value, so each of them starts with the same one.\<close>

fun computeScopeVariables :: "'t clang \<Rightarrow> 't scopeInfo \<Rightarrow> nat \<Rightarrow> 't varToItem \<Rightarrow> 't scopeInfo \<times> 't varToItem"
  and computeSubScopes :: "'t clang \<Rightarrow> 't scopeInfo list \<Rightarrow> nat \<Rightarrow> 't varToItem \<Rightarrow> 't scopeInfo list \<times> 't varToItem" where
  "computeScopeVariables C (ScopeInfo c h d vs del gs vh it subs) i m =
     (case (if d = 0 then heapVariables C vs i m else ([], i, m)) of (items, i', m1) \<Rightarrow>
        (case computeSubScopes C subs i' m1 of (subs', m2) \<Rightarrow>
           (ScopeInfo c h d vs del gs (vh @ items)
              (it @ List.map_filter (\<lambda>varDel. map_of m2 (varKey varDel)) del) subs', m2)))"
| "computeSubScopes C [] i m = ([], m)"
| "computeSubScopes C (sub # subs) i m =
     (case computeScopeVariables C sub i m of (sub', m1) \<Rightarrow>
        (case computeSubScopes C subs i m1 of (subs', m2) \<Rightarrow> (sub' # subs', m2)))"

section \<open>The texts\<close>

definition getApacMemBlockStr :: "'t item_found \<Rightarrow> string" where
  "getApacMemBlockStr var = ''apacMemeBloc__'' @ item_name var @ ''_'' @ string_of_nat (item_id var)"

definition createDeleteString :: "'t item_found \<Rightarrow> string" where
  "createDeleteString var =
     ''delete '' @ (if item_array var then ''[] '' else []) @ getApacMemBlockStr var @ '';'' @ newline"

definition createDeleteSegment :: "'t item_found list \<Rightarrow> string" where
  "createDeleteSegment varsToDelete = concat (map createDeleteString varsToDelete)"

definition createCreationStringNonArray :: "'t clang \<Rightarrow> 't item_found \<Rightarrow> string" where
  "createCreationStringNonArray C itFound =
     (let apacMemBloc = getApacMemBlockStr itFound; v = item_declaration itFound in
      typeAsString C (qTypeTempMem itFound) @ '' '' @ apacMemBloc @ '' = new '' @ typeAsString C (qTypeNew itFound)
      @ (case snd v of Some e \<Rightarrow> ''('' @ getExprAsString C (Some e) @ '')'' | None \<Rightarrow> ''()'')
      @ '';'' @ newline @ typeAsString C (qTypeVar itFound) @ vd_name (fst v) @ ''= *('' @ apacMemBloc @ '');'' @ newline)"

text \<open>\<open>find\<close> of a character, and \<open>insert\<close> at a position, which throws when it is behind the end.\<close>

definition findChar :: "char \<Rightarrow> string \<Rightarrow> nat option" where
  "findChar c s = (if c \<in> set s then Some (length (takeWhile (\<lambda>x. x \<noteq> c) s)) else None)"

definition insertAt :: "nat \<Rightarrow> string \<Rightarrow> string \<Rightarrow> string res" where
  "insertAt n t s = (if n \<le> length s then Inr (take n s @ t @ drop n s) else Inl OutOfRange)"

definition createCreationStringArray :: "'t clang \<Rightarrow> 't item_found \<Rightarrow> string res" where
  "createCreationStringArray C itFound =
     (let apacMemBloc = getApacMemBlockStr itFound; v = item_declaration itFound;
          strTempMemType = typeAsString C (qTypeTempMem itFound); strVarType = typeAsString C (qTypeVar itFound);
          found = findChar (CHR ''&'') strVarType in
      bind_res (case found of None \<Rightarrow> Inr strTempMemType | Some n \<Rightarrow> insertAt n ('' '' @ apacMemBloc) strTempMemType) (\<lambda>strStart.
      bind_res (case found of None \<Rightarrow> Inr strVarType | Some n \<Rightarrow> insertAt (Suc n) (item_name itFound) strVarType) (\<lambda>strVar.
        Inr (strStart @ '' = new '' @ typeAsString C (qTypeNew itFound)
          @ (case snd v of Some e \<Rightarrow> getExprAsString C (Some e) | None \<Rightarrow> [])
          @ '';'' @ newline @ strVar @ ''= ('' @ apacMemBloc @ '');'' @ newline))))"

definition createCreationString :: "'t clang \<Rightarrow> 't item_found \<Rightarrow> string res" where
  "createCreationString C item =
     (if item_array item then createCreationStringArray C item else Inr (createCreationStringNonArray C item))"

section \<open>The edits\<close>

text \<open>All the scopes, in one order of the \<open>unordered_map\<close> they are kept in.\<close>

fun allScopes :: "'t scopeInfo \<Rightarrow> 't scopeInfo list" where
  "allScopes (ScopeInfo c h d vs del gs vh it subs) = ScopeInfo c h d vs del gs vh it subs # concat (map allScopes subs)"

definition modifyScope :: "'t clang \<Rightarrow> 't scopeInfo \<Rightarrow> 't edit list \<Rightarrow> 't edit list res" where
  "modifyScope C scopeInfo es =
     bind_res
       (if doesNotNeedHeap scopeInfo = 0 then
          bind_res (map_res (\<lambda>itemHeap. bind_res (createCreationString C itemHeap) (\<lambda>t.
              Inr (ReplaceText (VarRange (fst (item_declaration itemHeap))) t))) (variablesToHeap scopeInfo)) (\<lambda>rs.
            Inr (es @ rs @ [InsertText (EndLoc (scompound scopeInfo)) (createDeleteSegment (variablesToHeap scopeInfo))]))
        else Inr es) (\<lambda>es1.
       Inr (es1 @ map (\<lambda>gotoRetStmt. InsertText (BeginLoc gotoRetStmt) (createDeleteSegment (itemsToDelete scopeInfo)))
         (goToReturnStmts scopeInfo)))"

definition modifyFile_heap :: "'t clang \<Rightarrow> 't scopeInfo list \<Rightarrow> 't edit list res" where
  "modifyFile_heap C tops = fold_res (modifyScope C) (concat (map allScopes tops)) []"

definition HandleTranslationUnit_heap ::
    "'t clang \<Rightarrow> string \<Rightarrow> string \<Rightarrow> string \<Rightarrow> string list \<Rightarrow> string list \<Rightarrow> ('t fundecl \<times> 't stmt option) list \<Rightarrow> 't edit list res" where
  "HandleTranslationUnit_heap C functionHeap variableHeap main functions functionsToIgnore unit =
     bind_res (fold_res (TraverseFunctionDecl_heap C functionHeap variableHeap main functions functionsToIgnore) unit
         \<lparr>scopeStack = [], topScopes = []\<rparr>) (\<lambda>v.
       (let needed = map computeNeededHeapScope (topScopes v);
            (tops, m) = fold (\<lambda>scope (tops, m). case computeScopeVariables C scope 0 m of (scope', m') \<Rightarrow> (tops @ [scope'], m'))
              needed ([], []) in
        modifyFile_heap C tops))"

section \<open>The names of the blocks\<close>

lemma block_suffix:
  assumes "CHR ''_'' \<notin> set n" and "CHR ''_'' \<notin> set m" and "a @ ''_'' @ n = b @ ''_'' @ m"
  shows "n = m"
proof -
  have t: "takeWhile (\<lambda>c. c \<noteq> CHR ''_'') (rev (a @ ''_'' @ n)) = rev n" if "CHR ''_'' \<notin> set n" for a n :: string
    using that by (simp add: takeWhile_append)
  have "rev n = rev m" using t [OF assms(1), of a] t [OF assms(2), of b] unfolding assms(3) by (rule trans [OF sym])
  then show ?thesis by simp
qed

lemma block_inject: "getApacMemBlockStr x = getApacMemBlockStr y \<Longrightarrow> item_id x = item_id y"
proof -
  have d: "CHR ''_'' \<notin> set (string_of_nat n)" for n
    using digits_notin [OF digits_string_of_nat, of "CHR ''_''" n] by simp
  assume "getApacMemBlockStr x = getApacMemBlockStr y"
  then have "item_name x @ ''_'' @ string_of_nat (item_id x) = item_name y @ ''_'' @ string_of_nat (item_id y)"
    by (simp add: getApacMemBlockStr_def)
  from block_suffix [OF d d this] show ?thesis by simp
qed

section \<open>Which scopes are put on the heap\<close>

lemma foldl_and_False: "foldl (\<lambda>b x. b \<and> f x) False xs = False"
  by (induction xs) simp_all

text \<open>The sub-scopes have no influence: the conjunction over them starts with \<open>False\<close>.\<close>

lemma doesNotNeedHeap_computeNeeded: "doesNotNeedHeap (computeNeededHeapScope s) = (if hasReturnGoto s then 1 else 0)"
  by (cases s) (simp add: foldl_and_False Let_def)

fun allKeys :: "'t scopeInfo \<Rightarrow> nat list" where
  "allKeys (ScopeInfo c h d vs del gs vh it subs) = map varKey vs @ concat (map allKeys subs)"

text \<open>
  After the traversal, with \<open>K\<close> the variables of the enclosing scopes: the variables a scope deletes at its
  \<open>return\<close> are among those of it and of the enclosing ones, and there are no items.
\<close>

fun vars_ok :: "nat set \<Rightarrow> 't scopeInfo \<Rightarrow> bool" where
  "vars_ok K (ScopeInfo c h d vs del gs vh it subs) \<longleftrightarrow>
     varKey ` set del \<subseteq> K \<union> varKey ` set vs \<and> vh = [] \<and> it = [] \<and> (\<forall>sub \<in> set subs. vars_ok (K \<union> varKey ` set vs) sub)"

fun heap_ready :: "nat set \<Rightarrow> 't scopeInfo \<Rightarrow> bool" where
  "heap_ready K (ScopeInfo c h d vs del gs vh it subs) \<longleftrightarrow>
     varKey ` set del \<subseteq> K \<union> varKey ` set vs \<and> vh = [] \<and> it = [] \<and> d = (if h then 1 else 0)
     \<and> (\<forall>sub \<in> set subs. heap_ready (K \<union> varKey ` set vs) sub)"

lemma allKeys_computeNeeded [simp]: "allKeys (computeNeededHeapScope s) = allKeys s"
proof (induction s rule: computeNeededHeapScope.induct)
  case (1 c h d vs del gs vh it subs)
  then have "map (allKeys \<circ> computeNeededHeapScope) subs = map allKeys subs" by simp
  then have "concat (map (allKeys \<circ> computeNeededHeapScope) subs) = concat (map allKeys subs)" by (rule arg_cong)
  then show ?case by (simp only: computeNeededHeapScope.simps allKeys.simps Let_def map_map)
qed

lemma ready_computeNeeded: "vars_ok K s \<Longrightarrow> heap_ready K (computeNeededHeapScope s)"
proof (induction s arbitrary: K rule: computeNeededHeapScope.induct)
  case (1 c h d vs del gs vh it subs)
  then show ?case by (simp add: Let_def foldl_and_False)
qed

section \<open>The items of the scopes\<close>

definition itemKey :: "'t item_found \<Rightarrow> nat" where
  "itemKey x = varKey (item_declaration x)"

text \<open>
  What a scope has in the end, with \<open>A\<close> the items of the enclosing scopes: an item for each of its
  variables unless it is left by a \<open>return\<close> or \<open>goto\<close>, with a name no enclosing item has; and the items
  deleted at that statement are those of it and of the enclosing scopes whose variables were declared
  before it.
\<close>

fun scope_ok :: "'t item_found set \<Rightarrow> 't scopeInfo \<Rightarrow> bool" where
  "scope_ok A (ScopeInfo c h d vs del gs vh it subs) \<longleftrightarrow>
     d = (if h then 1 else 0) \<and> map item_declaration vh = (if h then [] else vs)
     \<and> distinct (map getApacMemBlockStr vh) \<and> getApacMemBlockStr ` set vh \<inter> getApacMemBlockStr ` A = {}
     \<and> set it = {x \<in> A \<union> set vh. itemKey x \<in> varKey ` set del}
     \<and> (\<forall>sub \<in> set subs. scope_ok (A \<union> set vh) sub)"

lemma initItem_fields [simp]:
  "item_id (initItem C v i) = i" "item_declaration (initItem C v i) = v" "item_name (initItem C v i) = vd_name (fst v)"
  by (simp_all add: initItem_def Let_def)

lemma heapVariables_items:
  assumes "heapVariables C vs i m = (items, i', m')" and "distinct (map varKey vs)" and "\<forall>k \<in> varKey ` set vs. map_of m k = None"
  shows "map item_declaration items = vs \<and> map item_id items = [i..<i'] \<and> i \<le> i'
    \<and> (\<forall>k. k \<notin> varKey ` set vs \<longrightarrow> map_of m' k = map_of m k)
    \<and> (\<forall>k \<in> varKey ` set vs. \<forall>x. map_of m' k = Some x \<longleftrightarrow> x \<in> set items \<and> itemKey x = k)"
  using assms
proof (induction C vs i m arbitrary: items i' m' rule: heapVariables.induct)
  case (2 C v vs i m)
  let ?m = "ains (varKey v) (initItem C v i) m"
  have n: "map_of m (varKey v) = None" using 2(5) by simp
  obtain xs where xs: "heapVariables C vs (Suc i) ?m = (xs, i', m')" and items: "items = initItem C v i # xs"
    using 2(3) n by (auto simp: Let_def split: prod.splits)
  have d: "distinct (map varKey vs)" and v: "varKey v \<notin> varKey ` set vs" using 2(4) by auto
  have fresh: "\<forall>k \<in> varKey ` set vs. map_of ?m k = None"
  proof
    fix k assume k: "k \<in> varKey ` set vs"
    then have "k \<noteq> varKey v" using v by blast
    moreover have "map_of m k = None" using 2(5) k by auto
    ultimately show "map_of ?m k = None" using n by simp
  qed
  note IH = 2(1) [OF n refl xs d fresh]
  have a: "map item_declaration xs = vs" "map item_id xs = [Suc i..<i']" "Suc i \<le> i'" using IH by simp_all
  have out: "map_of m' k = map_of ?m k" if "k \<notin> varKey ` set vs" for k using IH that by blast
  have inn: "map_of m' k = Some x \<longleftrightarrow> x \<in> set xs \<and> itemKey x = k" if "k \<in> varKey ` set vs" for k x using IH that by blast
  have keys: "itemKey x \<in> varKey ` set vs" if "x \<in> set xs" for x
    using that a(1) unfolding itemKey_def by (metis image_eqI list.set_map)
  have "map_of m' k = Some x \<longleftrightarrow> x \<in> set items \<and> itemKey x = k" if k: "k \<in> varKey ` set (v # vs)" for k x
  proof (cases "k = varKey v")
    case True
    have "map_of m' k = Some (initItem C v i)" using out [of k] v True n by simp
    moreover have "x \<notin> set xs" if "itemKey x = k" using keys [of x] that v True by auto
    ultimately show ?thesis using True items by (auto simp: itemKey_def)
  next
    case False
    then have "k \<in> varKey ` set vs" using k by auto
    then show ?thesis using inn False items by (auto simp: itemKey_def)
  qed
  moreover have "map_of m' k = map_of m k" if "k \<notin> varKey ` set (v # vs)" for k using out [of k] that n by simp
  moreover have "[i..<i'] = i # [Suc i..<i']" using a(3) by (simp add: upt_conv_Cons)
  ultimately show ?case using a items by auto
qed simp

lemma set_map_filter: "set (List.map_filter f xs) = {y. \<exists>x \<in> set xs. f x = Some y}"
  by (induction xs) (auto simp: List.map_filter_simps split: option.splits)

lemma computeScopes_ok:
  "heap_ready K s \<Longrightarrow> distinct (allKeys s) \<Longrightarrow> K \<inter> set (allKeys s) = {} \<Longrightarrow> \<forall>k \<in> set (allKeys s). map_of m k = None
    \<Longrightarrow> \<forall>k \<in> K. \<forall>x. map_of m k = Some x \<longleftrightarrow> x \<in> A \<and> itemKey x = k \<Longrightarrow> itemKey ` A \<subseteq> K \<Longrightarrow> \<forall>x \<in> A. item_id x < i
    \<Longrightarrow> computeScopeVariables C s i m = (s', m')
    \<Longrightarrow> scope_ok A s' \<and> (\<forall>k. k \<notin> set (allKeys s) \<longrightarrow> map_of m' k = map_of m k)"
  "\<forall>s \<in> set subs. heap_ready K s \<Longrightarrow> distinct (concat (map allKeys subs)) \<Longrightarrow> K \<inter> set (concat (map allKeys subs)) = {}
    \<Longrightarrow> \<forall>k \<in> set (concat (map allKeys subs)). map_of m k = None
    \<Longrightarrow> \<forall>k \<in> K. \<forall>x. map_of m k = Some x \<longleftrightarrow> x \<in> A \<and> itemKey x = k \<Longrightarrow> itemKey ` A \<subseteq> K \<Longrightarrow> \<forall>x \<in> A. item_id x < i
    \<Longrightarrow> computeSubScopes C subs i m = (subs', m')
    \<Longrightarrow> (\<forall>s \<in> set subs'. scope_ok A s) \<and> (\<forall>k. k \<notin> set (concat (map allKeys subs)) \<longrightarrow> map_of m' k = map_of m k)"
proof (induction C s i m and C subs i m arbitrary: K A s' m' and K A subs' m'
    rule: computeScopeVariables_computeSubScopes.induct)
  case (1 C c h d vs del gs vh it subs i m)
  obtain items i' m1 where it1: "(if d = 0 then heapVariables C vs i m else ([], i, m)) = (items, i', m1)"
    by (cases "if d = 0 then heapVariables C vs i m else ([], i, m)")
  obtain subs' m2 where sub: "computeSubScopes C subs i' m1 = (subs', m2)" by (cases "computeSubScopes C subs i' m1")
  let ?it = "List.map_filter (\<lambda>varDel. map_of m2 (varKey varDel)) del"
  have r: "varKey ` set del \<subseteq> K \<union> varKey ` set vs" "vh = []" "it = []" "d = (if h then 1 else 0)"
    "\<forall>sub \<in> set subs. heap_ready (K \<union> varKey ` set vs) sub" using 1(2) by simp_all
  have res: "s' = ScopeInfo c h d vs del gs items ?it subs'" "m' = m2"
    using 1(9) it1 sub r(2,3) by auto
  have keys: "distinct (map varKey vs)" "distinct (concat (map allKeys subs))"
    "varKey ` set vs \<inter> set (concat (map allKeys subs)) = {}" "K \<inter> varKey ` set vs = {}"
    "K \<inter> set (concat (map allKeys subs)) = {}" using 1(3,4) by auto
  have fresh: "\<forall>k \<in> varKey ` set vs. map_of m k = None" "\<forall>k \<in> set (concat (map allKeys subs)). map_of m k = None" using 1(5) by auto
  let ?K = "K \<union> varKey ` set vs" and ?A = "A \<union> set items"
  have Akeys: "x \<notin> A" if "itemKey x \<in> varKey ` set vs" for x using that 1(7) keys(4) by auto
  have items: "map item_declaration items = (if h then [] else vs)" "map item_id items = [i..<i']" "i \<le> i'"
    "\<forall>k. k \<notin> varKey ` set vs \<longrightarrow> map_of m1 k = map_of m k"
    "\<forall>k \<in> varKey ` set vs. \<forall>x. map_of m1 k = Some x \<longleftrightarrow> x \<in> set items \<and> itemKey x = k"
  proof -
    have "map item_declaration items = (if h then [] else vs) \<and> map item_id items = [i..<i'] \<and> i \<le> i'
      \<and> (\<forall>k. k \<notin> varKey ` set vs \<longrightarrow> map_of m1 k = map_of m k)
      \<and> (\<forall>k \<in> varKey ` set vs. \<forall>x. map_of m1 k = Some x \<longleftrightarrow> x \<in> set items \<and> itemKey x = k)"
    proof (cases h)
      case True
      then have "items = []" "i' = i" "m1 = m" using it1 r(4) by simp_all
      then show ?thesis using fresh(1) True by simp
    next
      case False
      then have "heapVariables C vs i m = (items, i', m1)" using it1 r(4) by simp
      from heapVariables_items [OF this keys(1) fresh(1)] False show ?thesis by simp
    qed
    then show "map item_declaration items = (if h then [] else vs)" "map item_id items = [i..<i']" "i \<le> i'"
      "\<forall>k. k \<notin> varKey ` set vs \<longrightarrow> map_of m1 k = map_of m k"
      "\<forall>k \<in> varKey ` set vs. \<forall>x. map_of m1 k = Some x \<longleftrightarrow> x \<in> set items \<and> itemKey x = k" by blast+
  qed
  have ikeys: "itemKey x \<in> varKey ` set vs" if "x \<in> set items" for x
  proof -
    have "item_declaration x \<in> set (map item_declaration items)" using that by simp
    then show ?thesis unfolding items(1) itemKey_def by (auto split: if_splits)
  qed
  have look: "\<forall>k \<in> ?K. \<forall>x. map_of m1 k = Some x \<longleftrightarrow> x \<in> ?A \<and> itemKey x = k"
  proof (intro ballI allI)
    fix k x assume k: "k \<in> ?K"
    show "map_of m1 k = Some x \<longleftrightarrow> x \<in> ?A \<and> itemKey x = k"
    proof (cases "k \<in> varKey ` set vs")
      case True
      then show ?thesis using items(5) Akeys by blast
    next
      case False
      then show ?thesis using items(4) 1(6) k ikeys by auto
    qed
  qed
  have ids: "\<forall>x \<in> set items. i \<le> item_id x \<and> item_id x < i'"
  proof
    fix x assume "x \<in> set items"
    then have "item_id x \<in> set (map item_id items)" by simp
    then show "i \<le> item_id x \<and> item_id x < i'" unfolding items(2) by simp
  qed
  have s: "(\<forall>s \<in> set subs'. scope_ok ?A s) \<and> (\<forall>k. k \<notin> set (concat (map allKeys subs)) \<longrightarrow> map_of m2 k = map_of m1 k)"
  proof (rule 1(1) [OF it1 [symmetric] refl r(5) keys(2) _ _ look _ _ sub])
    show "?K \<inter> set (concat (map allKeys subs)) = {}" using keys(3,5) by auto
    show "\<forall>k \<in> set (concat (map allKeys subs)). map_of m1 k = None"
    proof
      fix k assume k: "k \<in> set (concat (map allKeys subs))"
      then have "k \<notin> varKey ` set vs" using keys(3) by blast
      then have "map_of m1 k = map_of m k" using items(4) by blast
      then show "map_of m1 k = None" using fresh(2) k by metis
    qed
    show "itemKey ` ?A \<subseteq> ?K" using 1(7) ikeys by auto
    show "\<forall>x \<in> ?A. item_id x < i'" using 1(8) ids items(3) by auto
  qed
  have del: "set ?it = {x \<in> ?A. itemKey x \<in> varKey ` set del}"
  proof -
    have "map_of m2 (varKey v) = Some x \<longleftrightarrow> x \<in> ?A \<and> itemKey x = varKey v" if "v \<in> set del" for v x
    proof -
      have k: "varKey v \<in> ?K" using r(1) that by auto
      then have "varKey v \<notin> set (concat (map allKeys subs))" using keys(3,5) by auto
      then have "map_of m2 (varKey v) = map_of m1 (varKey v)" using s by blast
      then show ?thesis using look k by simp
    qed
    then show ?thesis unfolding set_map_filter by blast
  qed
  have "distinct (map item_id items)" unfolding items(2) by simp
  then have names: "distinct (map getApacMemBlockStr items)" using block_inject by (auto simp: distinct_map inj_on_def)
  have "item_id x \<noteq> item_id y" if "x \<in> set items" "y \<in> A" for x y using ids 1(8) that by fastforce
  then have disj: "getApacMemBlockStr ` set items \<inter> getApacMemBlockStr ` A = {}" using block_inject by blast
  have "map_of m2 k = map_of m k" if "k \<notin> set (allKeys (ScopeInfo c h d vs del gs vh it subs))" for k
    using s items(4) that by simp
  then show ?case unfolding res using r(4) items(1) names disj del s by simp
next
  case (2 C i m)
  then show ?case by simp
next
  case (3 C sub subs i m)
  obtain t m1 where t: "computeScopeVariables C sub i m = (t, m1)" by (cases "computeScopeVariables C sub i m")
  obtain ts where ts: "computeSubScopes C subs i m1 = (ts, m')" and subs': "subs' = t # ts"
    using 3(10) t by (auto split: prod.splits)
  have a: "scope_ok A t" "\<forall>k. k \<notin> set (allKeys sub) \<longrightarrow> map_of m1 k = map_of m k"
    using 3(1) [OF _ _ _ _ 3(7,8,9) t] 3(3-6) by auto
  have b: "(\<forall>s \<in> set ts. scope_ok A s) \<and> (\<forall>k. k \<notin> set (concat (map allKeys subs)) \<longrightarrow> map_of m' k = map_of m1 k)"
  proof (rule 3(2) [OF t [symmetric] _ _ _ _ _ 3(8,9) ts])
    show "\<forall>s \<in> set subs. heap_ready K s" using 3(3) by simp
    show "distinct (concat (map allKeys subs))" "K \<inter> set (concat (map allKeys subs)) = {}" using 3(4,5) by auto
    show "\<forall>k \<in> set (concat (map allKeys subs)). map_of m1 k = None"
    proof
      fix k assume k: "k \<in> set (concat (map allKeys subs))"
      then have "k \<notin> set (allKeys sub)" using 3(4) by auto
      then have "map_of m1 k = map_of m k" using a(2) by blast
      then show "map_of m1 k = None" using 3(6) k by auto
    qed
    show "\<forall>k \<in> K. \<forall>x. map_of m1 k = Some x \<longleftrightarrow> x \<in> A \<and> itemKey x = k" using 3(5,7) a(2) by auto
  qed
  then show ?case using a unfolding subs' by auto
qed

section \<open>The traversal\<close>

definition stackKeys :: "'t scopeInfo list \<Rightarrow> nat set" where
  "stackKeys st = varKey ` set (getVariablesToDelete st)"

lemma stackKeys_Cons: "stackKeys (s # st) = varKey ` set (variablesCurScope s) \<union> stackKeys st"
  by (simp add: stackKeys_def getVariablesToDelete_def image_Un)

text \<open>Every scope of the stack is as it should be above the ones below it, and so is every top scope.\<close>

fun stack_ok :: "'t scopeInfo list \<Rightarrow> bool" where
  "stack_ok [] = True"
| "stack_ok (s # st) \<longleftrightarrow> vars_ok (stackKeys st) s \<and> stack_ok st"

definition visitor_ok :: "'t heapVisitor \<Rightarrow> bool" where
  "visitor_ok v \<longleftrightarrow> stack_ok (scopeStack v) \<and> (\<forall>s \<in> set (topScopes v). vars_ok {} s)"

lemma vars_ok_mono: "vars_ok K s \<Longrightarrow> K \<subseteq> L \<Longrightarrow> vars_ok L s"
proof (induction s arbitrary: K L)
  case (ScopeInfo c h d vs del gs vh it subs)
  then have "K \<union> varKey ` set vs \<subseteq> L \<union> varKey ` set vs" by blast
  then show ?case using ScopeInfo by auto
qed

text \<open>Whether the works can be done with that many scopes on the stack.\<close>

fun depth_ok :: "'t heapWork list \<Rightarrow> nat \<Rightarrow> bool" where
  "depth_ok [] n \<longleftrightarrow> n = 0"
| "depth_ok (Leave # ws) n \<longleftrightarrow> n > 0 \<and> depth_ok ws (n - 1)"
| "depth_ok (Enter s # ws) n \<longleftrightarrow> (n > 0 \<or> isCompoundStmt s) \<and> depth_ok ws n"

lemma depth_ok_children: "n > 0 \<Longrightarrow> depth_ok ws n \<Longrightarrow> depth_ok (map Enter cs @ ws) n"
  by (induction cs) simp_all

lemma gotoReturnHandle_ok:
  assumes "scopeStack v \<noteq> []" and "visitor_ok v"
  shows "\<exists>v'. gotoReturnHandle s v = Inr v' \<and> visitor_ok v' \<and> length (scopeStack v') = length (scopeStack v)"
proof -
  obtain c h d vs del gs vh it subs rest where st: "scopeStack v = ScopeInfo c h d vs del gs vh it subs # rest"
    using assms(1) by (cases "scopeStack v") (auto, metis scopeInfo.exhaust)
  have "varKey ` set (getVariablesToDelete (scopeStack v)) = varKey ` set vs \<union> stackKeys rest"
    using stackKeys_Cons [of "ScopeInfo c h d vs del gs vh it subs" rest] by (simp add: st stackKeys_def)
  then show ?thesis using assms(2) by (auto simp: gotoReturnHandle_def st visitor_ok_def)
qed

lemma pushVariable_ok:
  assumes "scopeStack v \<noteq> []" and "visitor_ok v"
  shows "\<exists>v'. pushVariable x v = Inr v' \<and> visitor_ok v' \<and> length (scopeStack v') = length (scopeStack v)"
proof -
  obtain c h d vs del gs vh it subs rest where st: "scopeStack v = ScopeInfo c h d vs del gs vh it subs # rest"
    using assms(1) by (cases "scopeStack v") (auto, metis scopeInfo.exhaust)
  have sub: "stackKeys rest \<union> varKey ` set vs \<subseteq> stackKeys rest \<union> varKey ` set (vs @ [x])" by auto
  have "vars_ok (stackKeys rest) (ScopeInfo c h d (vs @ [x]) del gs vh it subs)"
    using assms(2) vars_ok_mono [OF _ sub] by (auto simp: visitor_ok_def st)
  then show ?thesis using assms(2) by (simp add: pushVariable_def st visitor_ok_def)
qed

lemma VisitDeclStmt_heap_ok:
  assumes "scopeStack v \<noteq> []" and "visitor_ok v"
  shows "\<exists>v'. VisitDeclStmt_heap C n ds v = Inr v' \<and> visitor_ok v' \<and> length (scopeStack v') = length (scopeStack v)"
  using assms
proof (induction ds arbitrary: v)
  case (Cons d ds)
  obtain decl ini where d: "d = (decl, ini)" by (cases d)
  let ?step = "case decl of
         VarDecl x \<Rightarrow> if foundCorrectVariable C (x, ini) n \<and> \<not> isInitNew (x, ini) then pushVariable (x, ini) v else Inr v
       | OtherDecl _ _ _ \<Rightarrow> Inr v"
  have "\<exists>w. ?step = Inr w \<and> visitor_ok w \<and> length (scopeStack w) = length (scopeStack v)"
    using pushVariable_ok [OF Cons.prems] Cons.prems(2) by (cases decl) auto
  then obtain w where w: "?step = Inr w" "visitor_ok w" "length (scopeStack w) = length (scopeStack v)" by blast
  then have "scopeStack w \<noteq> []" using Cons.prems(1) by auto
  from Cons.IH [OF this w(2)] w(1,3) show ?case by (simp add: VisitDeclStmt_heap_def d)
qed (simp add: VisitDeclStmt_heap_def)

lemma popScope_ok:
  assumes "scopeStack v \<noteq> []" and "visitor_ok v"
  shows "\<exists>v'. popScope_heap v = Inr v' \<and> visitor_ok v' \<and> length (scopeStack v') = length (scopeStack v) - 1"
proof (cases "tl (scopeStack v)")
  case Nil
  then obtain s where "scopeStack v = [s]" using assms(1) by (cases "scopeStack v") simp_all
  then show ?thesis using assms(2) by (auto simp: popScope_heap_def visitor_ok_def stackKeys_def getVariablesToDelete_def)
next
  case (Cons p rest)
  obtain c h d vs del gs vh it subs where p: "p = ScopeInfo c h d vs del gs vh it subs" by (cases p)
  obtain s where st: "scopeStack v = s # p # rest" using assms(1) Cons by (cases "scopeStack v") simp_all
  then show ?thesis using assms(2) stackKeys_Cons [of p rest]
    by (auto simp: popScope_heap_def visitor_ok_def p Un_commute)
qed

lemma heapVisit_ok:
  assumes "scopeStack v \<noteq> [] \<or> isCompoundStmt s" and "visitor_ok v"
  shows "\<exists>v'. heapVisit C n s v = Inr v' \<and> visitor_ok v'
    \<and> length (scopeStack v') = length (scopeStack v) + (if isCompoundStmt s then 1 else 0)"
  using assms gotoReturnHandle_ok [of v s] VisitDeclStmt_heap_ok [of v C n]
  by (cases s) (auto simp: heapVisit_def isCompoundStmt_def pushScope_heap_def visitor_ok_def scope_new_def)

lemma traverseHeap_ok:
  "depth_ok ws (length (scopeStack v)) \<Longrightarrow> visitor_ok v \<Longrightarrow>
     \<exists>v'. traverseHeap C n ws v = Inr v' \<and> visitor_ok v' \<and> scopeStack v' = []"
proof (induction C n ws v rule: traverseHeap.induct)
  case (1 C n v)
  then show ?case by simp
next
  case (2 C n ws v)
  then have "scopeStack v \<noteq> []" by auto
  from popScope_ok [OF this 2(3)] obtain w where
    w: "popScope_heap v = Inr w" "visitor_ok w" "length (scopeStack w) = length (scopeStack v) - 1" by blast
  show ?case using 2(1) [OF w(1)] 2(2) w by simp
next
  case (3 C n s ws v)
  show ?case
  proof (cases "isIfStmt s \<and> \<not> elementsConditions (getBeginLoc s)")
    case True
    then show ?thesis using 3(1) [OF True] 3(3,4) by simp
  next
    case False
    obtain w where w: "heapVisit C n s v = Inr w" "visitor_ok w"
      "length (scopeStack w) = length (scopeStack v) + (if isCompoundStmt s then 1 else 0)"
      using heapVisit_ok [of v s C n] 3(3,4) by auto
    have "depth_ok (heapChildren s @ ws) (length (scopeStack w))"
      using 3(3) w(3) by (auto simp: heapChildren_def intro!: depth_ok_children)
    from 3(2) [OF False w(1) this w(2)] show ?thesis
      unfolding traverseHeap.simps if_not_P [OF False] w(1) bind_res_simps .
  qed
qed

lemma fold_TraverseFunctionDecl_heap:
  assumes "\<forall>fb \<in> set unit. \<forall>b. snd fb = Some b \<longrightarrow> isCompoundStmt b" and "visitor_ok v" and "scopeStack v = []"
  shows "\<exists>v'. fold_res (TraverseFunctionDecl_heap C fh vh main fns ign) unit v = Inr v' \<and> visitor_ok v' \<and> scopeStack v' = []"
  using assms
proof (induction unit arbitrary: v)
  case (Cons fb unit)
  have "depth_ok (case snd fb of None \<Rightarrow> [] | Some b \<Rightarrow> [Enter b]) (length (scopeStack v))"
    using Cons.prems by (cases "snd fb") simp_all
  from traverseHeap_ok [OF this Cons.prems(2), of C vh]
  have "\<exists>w. TraverseFunctionDecl_heap C fh vh main fns ign fb v = Inr w \<and> visitor_ok w \<and> scopeStack w = []"
    using Cons.prems(2,3) by (simp add: TraverseFunctionDecl_heap_def)
  then obtain w where w: "TraverseFunctionDecl_heap C fh vh main fns ign fb v = Inr w" "visitor_ok w" "scopeStack w = []" by blast
  from Cons.IH [OF _ w(2,3)] Cons.prems(1) w(1) show ?case by simp
qed simp

section \<open>The pass on a file\<close>

lemma fold_computeScopeVariables:
  assumes "\<forall>s \<in> set ss. heap_ready {} s" and "distinct (concat (map allKeys ss))" and "\<forall>k \<in> set (concat (map allKeys ss)). map_of m k = None"
    and "fold (\<lambda>scope (tops, m). case computeScopeVariables C scope 0 m of (scope', m') \<Rightarrow> (tops @ [scope'], m')) ss (ts, m) = (ts', m')"
    and "\<forall>s \<in> set ts. scope_ok {} s"
  shows "\<forall>s \<in> set ts'. scope_ok {} s"
  using assms
proof (induction ss arbitrary: ts m)
  case (Cons s ss)
  obtain s' m1 where s': "computeScopeVariables C s 0 m = (s', m1)" by (cases "computeScopeVariables C s 0 m")
  have a: "scope_ok {} s' \<and> (\<forall>k. k \<notin> set (allKeys s) \<longrightarrow> map_of m1 k = map_of m k)"
    by (rule computeScopes_ok(1) [OF _ _ _ _ _ _ _ s', of "{}" "{}"]) (use Cons.prems in auto)
  have "\<forall>k \<in> set (concat (map allKeys ss)). map_of m1 k = None"
  proof
    fix k assume k: "k \<in> set (concat (map allKeys ss))"
    then have "k \<notin> set (allKeys s)" using Cons.prems(2) by auto
    then show "map_of m1 k = None" using a Cons.prems(3) k by simp
  qed
  then show ?case using Cons.IH [of m1 "ts @ [s']"] Cons.prems a s' by simp
qed simp


section \<open>Witness\<close>

text \<open>The body \<open>{ int x1; { int x2; } { int x3; return x1; return; } int x4; }\<close>.\<close>

definition ex_var_decl :: "nat \<Rightarrow> ex_type stmt" where
  "ex_var_decl n = DeclStmt n (ex_at n) [(VarDecl (ex_decl n IntT), None)]"

definition ex_heap_body :: "ex_type stmt" where
  "ex_heap_body = CompoundStmt 10 (ex_at 10) [ex_var_decl 1, CompoundStmt 11 (ex_at 11) [ex_var_decl 2],
     CompoundStmt 12 (ex_at 12) [ex_var_decl 3, ReturnStmt 13 (ex_at 13) (Some (ex_use 14 1 IntT)), ReturnStmt 15 (ex_at 15) None],
     ex_var_decl 4]"

definition ex_heap_unit :: "(ex_type fundecl \<times> ex_type stmt option) list" where
  "ex_heap_unit = [(\<lparr>fd_canonical = 1, fd_name = ''f'', fd_params = [], fd_loc = ex_at 0, fd_isConst = False,
     fd_returnType = IntT, fd_context = 0\<rparr>, Some ex_heap_body)]"

text \<open>
  The block of \<open>x1\<close> is deleted in front of the first \<open>return\<close>, which reads \<open>x1\<close> after that, and not in front
  of the second one.
\<close>

lemma heapify_example:
  "HandleTranslationUnit_heap ex_clang [] [] ''main'' [] [] ex_heap_unit = Inr
     [ReplaceText (VarRange (ex_decl 1 IntT)) (''int * const apacMemeBloc__x1_0 = new int();'' @ newline @ ''int &x1= *(apacMemeBloc__x1_0);'' @ newline),
      ReplaceText (VarRange (ex_decl 4 IntT)) (''int * const apacMemeBloc__x4_1 = new int();'' @ newline @ ''int &x4= *(apacMemeBloc__x4_1);'' @ newline),
      InsertText (EndLoc ex_heap_body) (''delete apacMemeBloc__x1_0;'' @ newline @ ''delete apacMemeBloc__x4_1;'' @ newline),
      ReplaceText (VarRange (ex_decl 2 IntT)) (''int * const apacMemeBloc__x2_2 = new int();'' @ newline @ ''int &x2= *(apacMemeBloc__x2_2);'' @ newline),
      InsertText (EndLoc (CompoundStmt 11 (ex_at 11) [ex_var_decl 2])) (''delete apacMemeBloc__x2_2;'' @ newline),
      InsertText (BeginLoc (ReturnStmt 13 (ex_at 13) (Some (ex_use 14 1 IntT)))) (''delete apacMemeBloc__x1_0;'' @ newline)]"
  by code_simp


end
