(* ===== verification/Goto_Transfo.thy ===== *)
theory Goto_Transfo
  imports Example_Types Rewriter_Edits Decimal
begin

text \<open>
  The pass that gives a function a single exit (\<open>ASTGotoVisitor.hpp\<close>, \<open>ASTGotoVisitor.cpp\<close>,
  \<open>gotoRet.cpp\<close> of \<open>GotoTransfo\<close>): its return statements are replaced by gotos to a section at its end
  that returns the value kept in \<open>__result\<close>. The exit sections are numbered.

  A return statement is collected with the flag whether its replacement is put in braces. The end of a
  return statement includes its semicolon when the lexer finds one behind it, which is a parameter.
\<close>

section \<open>The return statements\<close>

definition subVisitReturnStmt :: "'t stmt \<Rightarrow> bool \<Rightarrow> ('t stmt \<times> bool) list" where
  "subVisitReturnStmt retStmt forceBraces =
     (case retStmt of
        ReturnStmt _ _ v \<Rightarrow> [(retStmt, forceBraces \<and> v \<noteq> None)]
      | _ \<Rightarrow> [])"

definition isReturn :: "'t stmt \<Rightarrow> bool" where
  "isReturn s = (case s of ReturnStmt _ _ _ \<Rightarrow> True | _ \<Rightarrow> False)"

text \<open>The list grows at its end while the body is walked, so it is the result of the walk.\<close>

fun handleSubStmt :: "'t stmt \<Rightarrow> ('t stmt \<times> bool) list" where
  "handleSubStmt (ReturnStmt i l v) = subVisitReturnStmt (ReturnStmt i l v) False"
| "handleSubStmt (CompoundStmt i l ss) = concat (map handleSubStmt ss)"
| "handleSubStmt (IfStmt i l c t e) =
     (if isReturn t then subVisitReturnStmt t True else handleSubStmt t)
     @ (case e of None \<Rightarrow> [] | Some s \<Rightarrow> if isReturn s then subVisitReturnStmt s True else handleSubStmt s)"
| "handleSubStmt (ForStmt i l ini c n b) = (if isReturn b then subVisitReturnStmt b True else handleSubStmt b)"
| "handleSubStmt (WhileStmt i l c b) = (if isReturn b then subVisitReturnStmt b True else handleSubStmt b)"
| "handleSubStmt s = []"

definition subVisitCompoundStmt :: "'t stmt \<Rightarrow> ('t stmt \<times> bool) list" where
  "subVisitCompoundStmt coSt = concat (map handleSubStmt (children coSt))"

section \<open>The texts\<close>

definition exitLabel :: "nat \<Rightarrow> string" where
  "exitLabel exitCounter = ''__exit'' @ string_of_nat exitCounter"

definition createGotoString :: "'t clang \<Rightarrow> 't stmt \<Rightarrow> nat \<Rightarrow> bool \<Rightarrow> string res" where
  "createGotoString C retStmt exitCounter wrapInBraces =
     (case retStmt of
        ReturnStmt _ _ v \<Rightarrow>
          bind_res (case v of
              None \<Rightarrow> Inr []
            | Some e \<Rightarrow> bind_res (exprType e) (\<lambda>t.
                Inr (''__result = build_wrapper<'' @ typeAsString C t @ ''>('' @ getExprAsString C (Some e) @ '');'' @ newline))) (\<lambda>assign.
            Inr ((if wrapInBraces then ''{'' @ newline else []) @ assign
              @ ''goto '' @ exitLabel exitCounter @ (if wrapInBraces then '';'' @ newline @ ''}'' else [])))
      | _ \<Rightarrow> Inl UndefinedAccess)"

definition resultText :: "'t clang \<Rightarrow> 't fundecl \<Rightarrow> string" where
  "resultText C f =
     (if isVoidType C (fd_returnType f) then []
      else newline @ ''wrapper_t<'' @ typeAsString C (fd_returnType f) @ ''> __result;'' @ newline)
     @ ''{'' @ newline"

definition exitText :: "'t clang \<Rightarrow> 't fundecl \<Rightarrow> nat \<Rightarrow> string" where
  "exitText C f exitCounter =
     newline @ ''}'' @ newline @ exitLabel exitCounter
     @ (if isVoidType C (fd_returnType f) then '':;'' @ newline
        else '':;'' @ newline @ '' return *__result;'' @ newline)"

section \<open>The visitor\<close>

text \<open>The edits so far and the number of the next exit section.\<close>

record 't gotoVisitor =
  gotoEdits :: "'t edit list"
  functionsCounter :: nat

text \<open>
  The range of a return statement in braces ends behind its semicolon if the lexer finds one; it is then
  told apart from the statement's range by the constructor \<open>CharsFrom\<close> with its length.
\<close>

definition replaceReturn ::
    "'t clang \<Rightarrow> ('t stmt \<Rightarrow> nat option) \<Rightarrow> nat \<Rightarrow> 't stmt \<times> bool \<Rightarrow> 't edit list \<Rightarrow> 't edit list res" where
  "replaceReturn C semiEnd exitCounter ret es =
     (case ret of (r, braces) \<Rightarrow>
        bind_res (createGotoString C r exitCounter braces) (\<lambda>t.
          Inr (es @ [ReplaceText
            (if braces then (case semiEnd r of Some n \<Rightarrow> CharsFrom (getBeginLoc r) n | None \<Rightarrow> StmtRange r) else StmtRange r) t])))"

definition needsExit :: "'t clang \<Rightarrow> 't fundecl \<Rightarrow> 't stmt \<Rightarrow> ('t stmt \<times> bool) list \<Rightarrow> bool" where
  "needsExit C f body returnsList \<longleftrightarrow>
     length returnsList > 1
     \<or> (length returnsList = 1 \<and> isVoidType C (fd_returnType f)
        \<and> (children body = [] \<or> last (children body) \<noteq> fst (hd returnsList)))"

text \<open>Only the body that is a compound statement is walked; that of a function \<open>try\<close> block is none.\<close>

definition returnsOf :: "'t stmt \<Rightarrow> ('t stmt \<times> bool) list" where
  "returnsOf body = (if isCompoundStmt body then subVisitCompoundStmt body else [])"

definition VisitFunctionDecl_goto ::
    "'t clang \<Rightarrow> ('t stmt \<Rightarrow> nat option) \<Rightarrow> 't fundecl \<times> 't stmt option \<Rightarrow> 't gotoVisitor \<Rightarrow> 't gotoVisitor res" where
  "VisitFunctionDecl_goto C semiEnd fb v =
     (case snd fb of
        None \<Rightarrow> Inr v
      | Some body \<Rightarrow>
          (let f = fst fb;
               returnsList = returnsOf body in
           if needsExit C f body returnsList then
             bind_res (fold_res (replaceReturn C semiEnd (functionsCounter v)) returnsList
                 (gotoEdits v @ [InsertTextAfterToken (BeginLoc body) (resultText C f),
                    InsertTextAfter (EndLoc body) (exitText C f (functionsCounter v))])) (\<lambda>es.
               Inr \<lparr>gotoEdits = es, functionsCounter = Suc (functionsCounter v)\<rparr>)
           else Inr v))"

text \<open>
  The pass on a unit: the include of its header, then every function that is chosen. The functions of
  the unit are visited in their order; a function has no function inside it.
\<close>

definition HandleTranslationUnit_goto ::
    "'t clang \<Rightarrow> ('t stmt \<Rightarrow> nat option) \<Rightarrow> string \<Rightarrow> string list \<Rightarrow> string list \<Rightarrow> ('t fundecl \<times> 't stmt option) list \<Rightarrow>
     't edit list res" where
  "HandleTranslationUnit_goto C semiEnd main functions functionsToIgnore unit =
     bind_res (fold_res (VisitFunctionDecl_goto C semiEnd)
         (filter (functionsConditions main functions functionsToIgnore) unit)
         \<lparr>gotoEdits = [InsertTextAfter StartOfFile (''#include \"_apac_header.hpp\"'' @ newline)], functionsCounter = 0\<rparr>) (\<lambda>v.
       Inr (gotoEdits v))"

section \<open>The return statements collected\<close>

text \<open>All the return statements of a statement, in the order of the source.\<close>

function allReturns :: "'t stmt \<Rightarrow> 't stmt list" where
  "allReturns s = (if isReturn s then [s] else concat (map allReturns (children s)))"
  by pat_completeness auto
termination
  by (relation "measure size") (auto intro: size_children)

declare allReturns.simps [simp del]

text \<open>
  No return statement is in a statement the walk does not enter: a \<open>do\<close> loop, a \<open>switch\<close>, a label, a
  \<open>try\<close>, or an expression or a declaration, where it would be that of a lambda.
\<close>

fun structured :: "'t stmt \<Rightarrow> bool" where
  "structured (ReturnStmt i l v) = True"
| "structured (CompoundStmt i l ss) = (\<forall>s \<in> set ss. structured s)"
| "structured (IfStmt i l c t e) =
     (allReturns c = [] \<and> structured t \<and> (case e of None \<Rightarrow> True | Some s \<Rightarrow> structured s))"
| "structured (ForStmt i l ini c n b) =
     ((\<forall>s \<in> set (List.map_filter id [ini, c, n]). allReturns s = []) \<and> structured b)"
| "structured (WhileStmt i l c b) = (allReturns c = [] \<and> structured b)"
| "structured s = (allReturns s = [])"

lemma allReturns_cases:
  "allReturns (ReturnStmt i l v) = [ReturnStmt i l v]"
  "allReturns (CompoundStmt i l ss) = concat (map allReturns ss)"
  "allReturns (IfStmt i l c t e) = allReturns c @ allReturns t @ (case e of None \<Rightarrow> [] | Some s \<Rightarrow> allReturns s)"
  "allReturns (ForStmt i l ini cn n b) = concat (map allReturns (List.map_filter id [ini, cn, n])) @ allReturns b"
  "allReturns (WhileStmt i l c b) = allReturns c @ allReturns b"
  by (subst allReturns.simps, simp add: isReturn_def split: option.splits)+

text \<open>A branch or a body, with the case of a return statement without braces around it.\<close>

lemma subVisit_return:
  "map fst (if isReturn s then subVisitReturnStmt s True else handleSubStmt s) = map fst (handleSubStmt s)"
  by (cases s) (simp_all add: isReturn_def subVisitReturnStmt_def)

lemma handleSubStmt_isReturn: "isReturn s \<Longrightarrow> map fst (handleSubStmt s) = allReturns s"
  by (cases s) (simp_all add: isReturn_def subVisitReturnStmt_def allReturns_cases)

lemma handleSubStmt_returns: "structured s \<Longrightarrow> map fst (handleSubStmt s) = allReturns s"
proof (induction s rule: handleSubStmt.induct)
  case (1 i l v)
  then show ?case by (simp add: subVisitReturnStmt_def allReturns_cases)
next
  case (2 i l ss)
  then have "map (map fst \<circ> handleSubStmt) ss = map allReturns ss" by simp
  then show ?case by (simp only: handleSubStmt.simps map_concat map_map allReturns_cases)
next
  case (3 i l c t e)
  have s: "allReturns c = []" "structured t" "\<And>s. e = Some s \<Longrightarrow> structured s" using 3(3) by simp_all
  have t: "map fst (handleSubStmt t) = allReturns t"
    by (cases "isReturn t") (rule handleSubStmt_isReturn 3(1) [OF _ s(2)], assumption)+
  have e: "map fst (handleSubStmt s) = allReturns s" if "e = Some s" for s
    by (cases "isReturn s") (rule handleSubStmt_isReturn 3(2) [OF that _ s(3) [OF that]], assumption)+
  show ?case using s(1) t e
    by (cases e) (simp_all only: handleSubStmt.simps map_append subVisit_return allReturns_cases option.case append_Nil list.map append_Nil2)
next
  case (4 i l ini c n b)
  have s: "structured b" "concat (map allReturns (List.map_filter id [ini, c, n])) = []" using 4(2) by simp_all
  have "map fst (handleSubStmt b) = allReturns b"
    by (cases "isReturn b") (rule handleSubStmt_isReturn 4(1) [OF _ s(1)], assumption)+
  then show ?case using s(2) by (simp only: handleSubStmt.simps subVisit_return allReturns_cases append_Nil)
next
  case (5 i l c b)
  have s: "structured b" "allReturns c = []" using 5(2) by simp_all
  have "map fst (handleSubStmt b) = allReturns b"
    by (cases "isReturn b") (rule handleSubStmt_isReturn 5(1) [OF _ s(1)], assumption)+
  then show ?case using s(2) by (simp only: handleSubStmt.simps subVisit_return allReturns_cases append_Nil)
qed simp_all

section \<open>The edits of a function\<close>

definition returnRange :: "('t stmt \<Rightarrow> nat option) \<Rightarrow> 't stmt \<times> bool \<Rightarrow> 't range" where
  "returnRange semiEnd ret =
     (if snd ret then (case semiEnd (fst ret) of Some n \<Rightarrow> CharsFrom (getBeginLoc (fst ret)) n | None \<Rightarrow> StmtRange (fst ret))
      else StmtRange (fst ret))"

text \<open>What a function with an exit section gets: the number \<open>k\<close> is in the section and in every goto.\<close>

definition exitEdits ::
    "'t clang \<Rightarrow> ('t stmt \<Rightarrow> nat option) \<Rightarrow> nat \<Rightarrow> 't fundecl \<Rightarrow> 't stmt \<Rightarrow> string list \<Rightarrow> 't edit list" where
  "exitEdits C semiEnd k f body ts =
     [InsertTextAfterToken (BeginLoc body) (resultText C f), InsertTextAfter (EndLoc body) (exitText C f k)]
     @ map2 (\<lambda>ret t. ReplaceText (returnRange semiEnd ret) t) (subVisitCompoundStmt body) ts"

definition gotoTexts :: "'t clang \<Rightarrow> nat \<Rightarrow> 't stmt \<Rightarrow> string list \<Rightarrow> bool" where
  "gotoTexts C k body ts \<longleftrightarrow> list_all2 (\<lambda>ret t. createGotoString C (fst ret) k (snd ret) = Inr t) (subVisitCompoundStmt body) ts"

lemma fold_replaceReturn:
  "fold_res (replaceReturn C semiEnd k) rets es = Inr es' \<longleftrightarrow>
     (\<exists>ts. list_all2 (\<lambda>ret t. createGotoString C (fst ret) k (snd ret) = Inr t) rets ts
        \<and> es' = es @ map2 (\<lambda>ret t. ReplaceText (returnRange semiEnd ret) t) rets ts)"
proof (induction rets arbitrary: es)
  case (Cons ret rets)
  have "replaceReturn C semiEnd k ret es =
      bind_res (createGotoString C (fst ret) k (snd ret)) (\<lambda>t. Inr (es @ [ReplaceText (returnRange semiEnd ret) t]))"
    by (simp add: replaceReturn_def returnRange_def split_beta)
  then have "fold_res (replaceReturn C semiEnd k) (ret # rets) es = Inr es' \<longleftrightarrow>
      (\<exists>t. createGotoString C (fst ret) k (snd ret) = Inr t
         \<and> fold_res (replaceReturn C semiEnd k) rets (es @ [ReplaceText (returnRange semiEnd ret) t]) = Inr es')"
    by (auto simp: bind_res_Inr)
  also have "\<dots> \<longleftrightarrow> (\<exists>t ts. createGotoString C (fst ret) k (snd ret) = Inr t
      \<and> list_all2 (\<lambda>ret t. createGotoString C (fst ret) k (snd ret) = Inr t) rets ts
      \<and> es' = es @ ReplaceText (returnRange semiEnd ret) t # map2 (\<lambda>ret t. ReplaceText (returnRange semiEnd ret) t) rets ts)"
    unfolding Cons.IH by simp
  also have "\<dots> \<longleftrightarrow> (\<exists>ts. list_all2 (\<lambda>ret t. createGotoString C (fst ret) k (snd ret) = Inr t) (ret # rets) ts
      \<and> es' = es @ map2 (\<lambda>ret t. ReplaceText (returnRange semiEnd ret) t) (ret # rets) ts)"
    by (rule iffI) (force simp: list_all2_Cons1)+
  finally show ?case .
qed auto

text \<open>The functions that get an exit section.\<close>

definition hasExit :: "'t clang \<Rightarrow> 't fundecl \<times> 't stmt option \<Rightarrow> bool" where
  "hasExit C fb = (case snd fb of None \<Rightarrow> False | Some body \<Rightarrow> needsExit C (fst fb) body (returnsOf body))"

lemma VisitFunctionDecl_goto_edits:
  assumes "VisitFunctionDecl_goto C semiEnd (f, Some body) v = Inr v'" and "hasExit C (f, Some body)"
  shows "\<exists>ts. gotoTexts C (functionsCounter v) body ts
     \<and> gotoEdits v' = gotoEdits v @ exitEdits C semiEnd (functionsCounter v) f body ts
     \<and> functionsCounter v' = Suc (functionsCounter v)"
proof -
  have n: "needsExit C f body (returnsOf body)" using assms(2) by (simp add: hasExit_def)
  then have r: "returnsOf body = subVisitCompoundStmt body" by (auto simp: needsExit_def returnsOf_def split: if_splits)
  obtain es where es: "fold_res (replaceReturn C semiEnd (functionsCounter v)) (subVisitCompoundStmt body)
      (gotoEdits v @ [InsertTextAfterToken (BeginLoc body) (resultText C f),
         InsertTextAfter (EndLoc body) (exitText C f (functionsCounter v))]) = Inr es"
    and v': "v' = \<lparr>gotoEdits = es, functionsCounter = Suc (functionsCounter v)\<rparr>"
    using assms(1) n unfolding VisitFunctionDecl_goto_def Let_def fst_conv snd_conv option.case if_P [OF n] r
    by (auto simp only: if_True bind_res_Inr sum.inject)
  then show ?thesis unfolding fold_replaceReturn by (auto simp: gotoTexts_def exitEdits_def)
qed

lemma VisitFunctionDecl_goto_skip: "\<not> hasExit C fb \<Longrightarrow> VisitFunctionDecl_goto C semiEnd fb v = Inr v"
  by (cases fb) (auto simp: VisitFunctionDecl_goto_def hasExit_def Let_def split: option.splits)

lemma fold_VisitFunctionDecl_goto:
  assumes "fold_res (VisitFunctionDecl_goto C semiEnd) fbs v = Inr v'"
  shows "\<exists>ws. map (\<lambda>(f, body, ts). (f, Some body)) ws = filter (hasExit C) fbs
     \<and> gotoEdits v' = gotoEdits v @ concat (map (\<lambda>(k, f, body, ts). exitEdits C semiEnd k f body ts) (enumerate (functionsCounter v) ws))
     \<and> (\<forall>(k, f, body, ts) \<in> set (enumerate (functionsCounter v) ws). gotoTexts C k body ts)"
  using assms
proof (induction fbs arbitrary: v)
  case Nil
  then show ?case by (intro exI [of _ "[]"]) simp
next
  case (Cons fb fbs)
  obtain v1 where v1: "VisitFunctionDecl_goto C semiEnd fb v = Inr v1" "fold_res (VisitFunctionDecl_goto C semiEnd) fbs v1 = Inr v'"
    using Cons.prems by (auto simp: bind_res_Inr)
  from Cons.IH [OF v1(2)] obtain ws where ws: "map (\<lambda>(f, body, ts). (f, Some body)) ws = filter (hasExit C) fbs"
      "gotoEdits v' = gotoEdits v1 @ concat (map (\<lambda>(k, f, body, ts). exitEdits C semiEnd k f body ts) (enumerate (functionsCounter v1) ws))"
      "\<forall>(k, f, body, ts) \<in> set (enumerate (functionsCounter v1) ws). gotoTexts C k body ts" by blast
  show ?case
  proof (cases "hasExit C fb")
    case True
    then obtain f body where fb: "fb = (f, Some body)" by (cases fb) (auto simp: hasExit_def split: option.splits)
    from VisitFunctionDecl_goto_edits [OF v1(1) [unfolded fb] True [unfolded fb]] obtain ts where
      "gotoTexts C (functionsCounter v) body ts" "functionsCounter v1 = Suc (functionsCounter v)"
      "gotoEdits v1 = gotoEdits v @ exitEdits C semiEnd (functionsCounter v) f body ts" by blast
    with ws True fb show ?thesis by (intro exI [of _ "(f, body, ts) # ws"]) auto
  next
    case False
    then have "v1 = v" using v1(1) VisitFunctionDecl_goto_skip [OF False] by simp
    with ws False show ?thesis by (intro exI [of _ ws]) simp
  qed
qed

lemma exitLabel_inject: "exitLabel m = exitLabel n \<longleftrightarrow> m = n"
  by (simp add: exitLabel_def)

text \<open>
  C19: in a function body whose return statements are in blocks, branches and bodies of \<open>for\<close> and \<open>while\<close>
  loops only, the walk collects every return statement, once and in the order of the source.
\<close>

theorem goto_collects_returns:
  assumes "isCompoundStmt body" and "structured body"
  shows "map fst (returnsOf body) = allReturns body"
proof -
  obtain i l ss where body: "body = CompoundStmt i l ss" using assms(1) by (cases body) (auto simp: isCompoundStmt_def)
  then have "map (map fst \<circ> handleSubStmt) ss = map allReturns ss" using assms(2) handleSubStmt_returns by auto
  then show ?thesis unfolding returnsOf_def if_P [OF assms(1)]
    by (simp only: subVisitCompoundStmt_def body children.simps map_concat map_map allReturns_cases)
qed


section \<open>Braces\<close>

text \<open>The section is in the braces the text behind the opening brace of the body opens.\<close>

lemma plain_digits: "digits s \<Longrightarrow> plain s"
  unfolding plain_def using digits_notin [of s "CHR ''{''"] digits_notin [of s "CHR ''}''"] by simp

lemma plain_bracketed: "plain s \<Longrightarrow> bracketed s"
  by (simp add: bracketed_opens plain_opens)

lemma bracketed_braces:
  assumes "bracketed t"
  shows "bracketed (''{'' @ t @ ''}'')"
proof -
  have "nest (Suc 0) t = Some (Suc 0)" using nest_shift [of 0 t 0 1] assms by (simp add: bracketed_def)
  then show ?thesis by (simp add: bracketed_def nest_append)
qed

lemma plain_exitLabel [simp]: "plain (exitLabel k)"
  using plain_digits [OF digits_string_of_nat [of k]] by (simp add: exitLabel_def)

lemma result_opens: "plain (typeAsString C (fd_returnType f)) \<Longrightarrow> opens 1 (resultText C f)"
  unfolding resultText_def
  using opens_brace [of 0 "if isVoidType C (fd_returnType f) then [] else newline @ ''wrapper_t<'' @ typeAsString C (fd_returnType f) @ ''> __result;'' @ newline" newline]
  by (simp add: plain_opens)

lemma exit_closes: "\<exists>t. plain t \<and> exitText C f k = newline @ ''}'' @ newline @ t"
  by (auto simp: exitText_def)

lemma goto_section_bracketed:
  assumes "plain (typeAsString C (fd_returnType f))" and "bracketed body"
  shows "bracketed (resultText C f @ body @ exitText C f k)"
proof -
  obtain t where t: "plain t" "exitText C f k = newline @ ''}'' @ newline @ t" using exit_closes by blast
  have "bracketed (body @ newline)" by (rule bracketed_append [OF assms(2) plain_bracketed [OF plain_newline]])
  from opens_close [OF result_opens [OF assms(1)] this] have "bracketed (resultText C f @ (body @ newline) @ ''}'' @ newline)" .
  from bracketed_append [OF this, of t] show ?thesis using t plain_opens [of t] by (simp add: bracketed_opens)
qed

lemma createGotoString_bracketed:
  assumes "createGotoString C r k b = Inr t" and "\<And>e. bracketed (printPretty C e)" and "\<And>t. plain (typeAsString C t)"
  shows "bracketed t"
proof -
  obtain i l v where r: "r = ReturnStmt i l v" using assms(1) by (cases r) (auto simp: createGotoString_def)
  obtain a where a: "bracketed a"
    and t: "t = (if b then ''{'' @ newline else []) @ a @ ''goto '' @ exitLabel k @ (if b then '';'' @ newline @ ''}'' else [])"
  proof (cases v)
    case None
    then show ?thesis using that [of "[]"] assms(1) by (simp add: r createGotoString_def)
  next
    case (Some e)
    from Some assms(1) obtain ty where "t = (if b then ''{'' @ newline else [])
        @ ((''__result = build_wrapper<'' @ typeAsString C ty @ ''>('') @ printPretty C e @ ('');'' @ newline))
        @ ''goto '' @ exitLabel k @ (if b then '';'' @ newline @ ''}'' else [])"
      by (auto simp: r createGotoString_def bind_res_Inr getExprAsString_def)
    moreover have "bracketed ((''__result = build_wrapper<'' @ typeAsString C ty @ ''>('') @ printPretty C e @ ('');'' @ newline))"
      by (intro bracketed_append plain_bracketed assms(2)) (simp_all add: assms(3))
    ultimately show ?thesis using that by blast
  qed
  have g: "bracketed (a @ ''goto '' @ exitLabel k)"
    by (rule bracketed_append [OF a plain_bracketed]) simp
  have "bracketed ((newline @ a @ ''goto '' @ exitLabel k) @ '';'' @ newline)"
    using bracketed_append [OF plain_bracketed [OF plain_newline] g] by (rule bracketed_append) (simp add: plain_bracketed)
  from bracketed_braces [OF this] g show ?thesis unfolding t by (cases b) simp_all
qed

section \<open>Witnesses\<close>

text \<open>The function \<open>f\<close> with the body \<open>if (x1) return x2; return x3;\<close>.\<close>

definition ex_ret :: "nat \<Rightarrow> nat \<Rightarrow> ex_type stmt" where
  "ex_ret i n = ReturnStmt i (ex_at i) (Some (ex_use (Suc i) n IntT))"

definition ex_goto_body :: "ex_type stmt" where
  "ex_goto_body = CompoundStmt 1 (ex_at 1) [IfStmt 2 (ex_at 2) (ex_use 3 1 IntT) (ex_ret 4 2) None, ex_ret 6 3]"

definition ex_goto_fun :: "ex_type fundecl" where
  "ex_goto_fun = \<lparr>fd_canonical = 1, fd_name = ''f'', fd_params = [], fd_loc = ex_at 0, fd_isConst = False,
     fd_returnType = IntT, fd_context = 0\<rparr>"

lemma goto_collects_returns_witness: "map fst (returnsOf ex_goto_body) = [ex_ret 4 2, ex_ret 6 3]"
proof -
  have "isCompoundStmt ex_goto_body" by (simp add: isCompoundStmt_def ex_goto_body_def)
  moreover have u: "allReturns (ex_use i n IntT) = []" for i n
    by (subst allReturns.simps) (simp add: ex_use_def isReturn_def)
  then have "structured ex_goto_body" by (simp add: ex_goto_body_def ex_ret_def)
  moreover have "allReturns ex_goto_body = [ex_ret 4 2, ex_ret 6 3]"
    by (simp add: ex_goto_body_def ex_ret_def allReturns_cases u)
  ultimately show ?thesis using goto_collects_returns by metis
qed


end
