(* ===== verification/Unstack.thy ===== *)
theory Unstack
  imports Example_Types Rewriter_Edits Decimal
begin

text \<open>
  The pass that takes nested calls out of expressions (\<open>Unstack\<close>): a call in an argument of another one
  is replaced by a temporary, declared in front of the statement with the result of the call.

  The visitor (\<open>ASTUnstackVisitor.hpp\<close>, \<open>ASTUnstackVisitor.cpp\<close>) collects, for each function and each
  location, the calls in no other call; \<open>createUnstackString.cpp\<close> builds the tree of the calls in
  their arguments, numbers it and makes the texts. A \<open>std::map\<close> over locations is a list ordered by
  the offset of the location, with the location beside it.

  The type of a call is a parameter. A node has its children in the order of their insertion, which is one
  order of the \<open>unordered_map\<close> the code keeps them in.
\<close>

section \<open>Calls that are in no other call\<close>

function findTopCalls_loop :: "'t stmt list \<Rightarrow> 't stmt list \<Rightarrow> 't stmt list" where
  "findTopCalls_loop [] callExprVect = callExprVect"
| "findTopCalls_loop (currentExpr # exprStack) callExprVect =
     (if isCallExpr currentExpr then findTopCalls_loop exprStack (callExprVect @ [currentExpr])
      else findTopCalls_loop (rev (filter isExpr (children currentExpr)) @ exprStack) callExprVect)"
  by pat_completeness auto
termination
proof (relation "measure (\<lambda>(q, f). sum_list (map weight q))", goal_cases)
  case (3 s q f)
  then show ?case using weight_fold [of isExpr s] by simp
qed (auto simp: weight_def)

definition findTopCallsInExpr :: "'t stmt \<Rightarrow> 't stmt list \<Rightarrow> 't stmt list" where
  "findTopCallsInExpr ex callExprVect = findTopCalls_loop [ex] callExprVect"

section \<open>The visitor\<close>

type_synonym 't callsAt = "(nat \<times> srcloc \<times> 't stmt list) list"

definition addCallsToUnstack :: "'t stmt list \<Rightarrow> srcloc \<Rightarrow> 't callsAt list \<Rightarrow> 't callsAt list res" where
  "addCallsToUnstack calls loc callsToUnstack =
     (if callsToUnstack = [] then Inl UndefinedAccess
      else Inr (butlast callsToUnstack
        @ [case map_of (last callsToUnstack) (loc_offset loc) of
             None \<Rightarrow> oput (loc_offset loc) (loc, calls) (last callsToUnstack)
           | Some (l, cs) \<Rightarrow> oput (loc_offset loc) (l, cs @ calls) (last callsToUnstack)]))"

definition retrieveCalls_decl :: "'t stmt \<Rightarrow> 't callsAt list \<Rightarrow> 't callsAt list res" where
  "retrieveCalls_decl declSt v =
     (case declSt of
        DeclStmt i l [(VarDecl x, ini)] \<Rightarrow>
          addCallsToUnstack (case ini of None \<Rightarrow> [] | Some e \<Rightarrow> findTopCallsInExpr e []) l v
      | DeclStmt i l [(OtherDecl n nm dl, ini)] \<Rightarrow> Inl AssertFailed
      | DeclStmt i l ds \<Rightarrow>
          addCallsToUnstack
            (fold (\<lambda>(d, ini) calls. case (d, ini) of (VarDecl x, Some e) \<Rightarrow> findTopCallsInExpr e calls | _ \<Rightarrow> calls) ds []) l v
      | _ \<Rightarrow> Inr v)"

definition retrieveCalls_call :: "'t stmt \<Rightarrow> 't callsAt list \<Rightarrow> 't callsAt list res" where
  "retrieveCalls_call calExpr v = addCallsToUnstack [calExpr] (getBeginLoc calExpr) v"

definition retrieveCalls_expr :: "'t stmt \<Rightarrow> 't callsAt list \<Rightarrow> 't callsAt list res" where
  "retrieveCalls_expr expr v = addCallsToUnstack (findTopCallsInExpr expr []) (getBeginLoc expr) v"

text \<open>An assignment to \<open>__result\<close>, which is not entered.\<close>

definition assignsResult :: "'t clang \<Rightarrow> 't stmt \<Rightarrow> bool" where
  "assignsResult C opCall =
     (case callArgs opCall of
        [] \<Rightarrow> False
      | firstArg # _ \<Rightarrow>
          (case exprKind (ignoreParenCasts C firstArg) of
             Some (DeclRefExpr (VarDecl v)) \<Rightarrow> vd_name v = ''__result''
           | Some (DeclRefExpr (OtherDecl n nm l)) \<Rightarrow> nm = ''__result''
           | _ \<Rightarrow> False))"

text \<open>What the visitor does at a node: nothing, a list of calls, or the traversal of the children.\<close>

definition unstackNode :: "'t clang \<Rightarrow> 't stmt \<Rightarrow> ('t callsAt list \<Rightarrow> 't callsAt list res) option" where
  "unstackNode C s =
     (let inFile = elementsConditions (getBeginLoc s); guarded = (\<lambda>f. Some (if inFile then f else Inr)) in
      case s of
        DeclStmt _ _ _ \<Rightarrow> guarded (retrieveCalls_decl s)
      | IfStmt _ _ _ _ _ \<Rightarrow> if inFile then None else Some Inr
      | Expr _ _ _ k _ \<Rightarrow>
          (case k of
             CallExpr _ \<Rightarrow> guarded (retrieveCalls_call s)
           | BinaryOperator _ \<Rightarrow> guarded (retrieveCalls_expr s)
           | UnaryOperator _ \<Rightarrow> guarded (retrieveCalls_expr s)
           | CXXOperatorCallExpr _ _ \<Rightarrow> if inFile \<and> \<not> assignsResult C s then None else Some Inr
           | _ \<Rightarrow> None)
      | _ \<Rightarrow> None)"

function traverseUnstack :: "'t clang \<Rightarrow> 't stmt list \<Rightarrow> 't callsAt list \<Rightarrow> 't callsAt list res" where
  "traverseUnstack C [] v = Inr v"
| "traverseUnstack C (s # ss) v =
     (case unstackNode C s of
        Some f \<Rightarrow> bind_res (f v) (traverseUnstack C ss)
      | None \<Rightarrow> traverseUnstack C (children s @ ss) v)"
  by pat_completeness auto
termination
proof (relation "measure (\<lambda>(C, q, v). sum_list (map weight q))")
  fix C :: "'t clang" and s :: "'t stmt" and ss v
  show "((C, children s @ ss, v), C, s # ss, v) \<in> measure (\<lambda>(C, q, v). sum_list (map weight q))"
    using weight_children [of s] by simp
qed (auto simp: weight_def)

text \<open>
  A function opens its own list of locations; a method and the initialiser of a variable of the file add
  to the last one.
\<close>

datatype 't unitDecl =
  UnitFunction "'t fundecl \<times> 't stmt option"
| UnitMethod "'t fundecl \<times> 't stmt option"
| UnitVar "'t vardecl" "'t stmt option"

definition TraverseDecl_unstack ::
    "'t clang \<Rightarrow> string \<Rightarrow> string list \<Rightarrow> string list \<Rightarrow> 't unitDecl \<Rightarrow> 't callsAt list \<Rightarrow> 't callsAt list res" where
  "TraverseDecl_unstack C main functions functionsToIgnore d v =
     (case d of
        UnitFunction fb \<Rightarrow>
          if functionsConditions main functions functionsToIgnore fb
          then traverseUnstack C (case snd fb of None \<Rightarrow> [] | Some b \<Rightarrow> [b]) (v @ [[]]) else Inr v
      | UnitMethod fb \<Rightarrow>
          if functionsConditions main functions functionsToIgnore fb
          then traverseUnstack C (case snd fb of None \<Rightarrow> [] | Some b \<Rightarrow> [b]) v else Inr v
      | UnitVar x ini \<Rightarrow>
          if elementsConditions (vd_loc x) then traverseUnstack C (case ini of None \<Rightarrow> [] | Some e \<Rightarrow> [e]) v else Inr v)"

section \<open>The tree of the calls\<close>

datatype 't unode = Node (ncall: "'t stmt") (nid: nat) (nchildren: "'t unode list")

definition subTopCalls :: "'t stmt \<Rightarrow> 't stmt list" where
  "subTopCalls call = fold findTopCallsInExpr (callArgs call) []"

text \<open>The calls of the tree as the search finds them.\<close>

function topCalls :: "'t stmt \<Rightarrow> 't stmt list" where
  "topCalls s = (if isCallExpr s then [s] else if isExpr s then concat (map topCalls (rev (children s))) else [])"
  by pat_completeness auto
termination
  by (relation "measure size") (auto dest: size_children)

declare topCalls.simps [simp del]

lemma topCalls_notExpr: "\<not> isExpr s \<Longrightarrow> topCalls s = []"
  by (cases s) (simp_all add: topCalls.simps isCallExpr_def callCallee_def)

lemma topCalls_filter: "concat (map topCalls (filter isExpr cs)) = concat (map topCalls cs)"
  by (induction cs) (simp_all add: topCalls_notExpr)

lemma topCalls_call: "isCallExpr s \<Longrightarrow> topCalls s = [s]"
  by (simp add: topCalls.simps)

lemma topCalls_expr: "\<not> isCallExpr s \<Longrightarrow> isExpr s \<Longrightarrow> topCalls s = concat (map topCalls (rev (filter isExpr (children s))))"
  by (subst topCalls.simps) (simp only: if_False if_True rev_filter topCalls_filter)

lemma findTopCalls_loop_topCalls:
  "\<forall>s \<in> set st. isExpr s \<Longrightarrow> findTopCalls_loop st acc = acc @ concat (map topCalls st)"
proof (induction st acc rule: findTopCalls_loop.induct)
  case (2 s st acc)
  show ?case
  proof (cases "isCallExpr s")
    case True
    then show ?thesis using 2(1) [OF True] 2(3) by (simp add: topCalls_call)
  next
    case False
    have "isExpr s" using 2(3) by simp
    note t = topCalls_expr [OF False this]
    have "findTopCalls_loop (s # st) acc = findTopCalls_loop (rev (filter isExpr (children s)) @ st) acc" using False by simp
    also have "\<dots> = acc @ concat (map topCalls (rev (filter isExpr (children s)) @ st))"
      by (rule 2(2) [OF False]) (use 2(3) in auto)
    finally show ?thesis by (simp only: map_append concat_append t [symmetric] list.map concat.simps)
  qed
qed simp

lemma findTopCallsInExpr_topCalls: "isExpr e \<Longrightarrow> findTopCallsInExpr e acc = acc @ topCalls e"
  using findTopCalls_loop_topCalls [of "[e]"] by (simp add: findTopCallsInExpr_def del: findTopCalls_loop.simps)

lemma weight_findTopCalls_loop:
  "sum_list (map weight (findTopCalls_loop st acc)) \<le> sum_list (map weight st) + sum_list (map weight acc)"
proof (induction st acc rule: findTopCalls_loop.induct)
  case (2 s st acc)
  then show ?case using weight_fold [of isExpr s] by (cases "isCallExpr s") simp_all
qed simp

lemma weight_findTopCallsInExpr:
  "sum_list (map weight (findTopCallsInExpr e acc)) \<le> weight e + sum_list (map weight acc)"
  using weight_findTopCalls_loop [of "[e]" acc] by (simp add: findTopCallsInExpr_def del: findTopCalls_loop.simps)

lemma weight_subTopCalls: "sum_list (map weight (subTopCalls call)) < weight call"
proof -
  have f: "sum_list (map weight (fold findTopCallsInExpr es acc)) \<le> sum_list (map weight es) + sum_list (map weight acc)" for es acc
  proof (induction es arbitrary: acc)
    case (Cons e es)
    show ?case using Cons.IH [of "findTopCallsInExpr e acc"] weight_findTopCallsInExpr [of e acc] by simp
  qed simp
  have "sum_list (map weight (callArgs call)) \<le> sum_list (map weight (children call))"
    unfolding callArgs_def by (cases "children call") simp_all
  then show ?thesis using f [of "callArgs call" "[]"] weight_children [of call] by (simp add: subTopCalls_def)
qed

text \<open>
  \<open>buildSubTree\<close> for the calls of a list one after the other, with the counter: a node takes its number
  before its children do.
\<close>

function buildSubTrees :: "'t stmt list \<Rightarrow> nat \<Rightarrow> 't unode list \<times> nat" where
  "buildSubTrees [] tempVarsCounter = ([], tempVarsCounter)"
| "buildSubTrees (call # calls) tempVarsCounter =
     (case buildSubTrees (subTopCalls call) (Suc tempVarsCounter) of (chs, k) \<Rightarrow>
        (case buildSubTrees calls k of (ns, k') \<Rightarrow> (Node call tempVarsCounter chs # ns, k')))"
  by pat_completeness auto
termination
proof (relation "measure (\<lambda>(q, k). sum_list (map weight q))", goal_cases)
  case (2 call calls k)
  then show ?case using weight_subTopCalls [of call] by simp
next
  case (3 call calls k)
  then show ?case by (simp add: weight_def)
qed simp

type_synonym 't roots = "(nat \<times> srcloc \<times> 't unode list) list"

definition unstackTransformCallExpr :: "'t stmt \<Rightarrow> srcloc \<Rightarrow> 't roots \<times> nat \<Rightarrow> 't roots \<times> nat" where
  "unstackTransformCallExpr calExp instructionBegin s =
     (case s of (callRoots, tempVarsCounter) \<Rightarrow>
        (case buildSubTrees [calExp] tempVarsCounter of (ns, k) \<Rightarrow>
           (case map_of callRoots (loc_offset instructionBegin) of
              None \<Rightarrow> (oput (loc_offset instructionBegin) (instructionBegin, ns) callRoots, k)
            | Some (l, rs) \<Rightarrow> (oput (loc_offset instructionBegin) (l, rs @ ns) callRoots, k))))"

definition transformFunctionCalls :: "'t callsAt \<Rightarrow> 't roots \<Rightarrow> 't roots" where
  "transformFunctionCalls callLocations callRoots =
     fst (fold (\<lambda>(k, loc, calls). fold (\<lambda>call. unstackTransformCallExpr call loc) calls) callLocations (callRoots, 0))"

definition transformFunctionsCalls :: "'t callsAt list \<Rightarrow> 't roots \<Rightarrow> 't roots" where
  "transformFunctionsCalls functionCalls callRoots = fold transformFunctionCalls functionCalls callRoots"

section \<open>The texts\<close>

text \<open>\<open>children[call]\<close>; a call that is not among the children gets a null pointer.\<close>

definition childOf :: "'t unode \<Rightarrow> 't stmt \<Rightarrow> 't unode res" where
  "childOf node call =
     (case find (\<lambda>n. sid (ncall n) = sid call) (nchildren node) of None \<Rightarrow> Inl NullDeref | Some n \<Rightarrow> Inr n)"

definition tempName :: "nat \<Rightarrow> string" where
  "tempName i = ''__tempVar_'' @ string_of_nat i"

definition unaryText :: "unary_op \<Rightarrow> string" where
  "unaryText uop = (if uop = UO_PreDec \<or> uop = UO_PostDec then ''--'' else ''++'')"

definition isPostfix :: "unary_op \<Rightarrow> bool" where
  "isPostfix uop \<longleftrightarrow> uop = UO_PostInc \<or> uop = UO_PostDec"

text \<open>The recursion goes down the expression, whose size bounds it. The counter is a reference argument.\<close>

fun createCallArgString :: "'t clang \<Rightarrow> nat \<Rightarrow> 't unode \<Rightarrow> 't stmt \<Rightarrow> nat \<Rightarrow> (string \<times> nat) res" where
  "createCallArgString C 0 node arg childCounter = Inl OutOfFuel"
| "createCallArgString C (Suc n) node arg childCounter =
     (let argExpr = ignoreImpCasts C arg in
      if isCallExpr argExpr then
        if childCounter \<ge> length (nchildren node) then Inr (getExprAsString C (Some argExpr), childCounter)
        else bind_res (childOf node argExpr) (\<lambda>c. Inr ('' '' @ tempName (nid c) @ '' '', Suc childCounter))
      else if (\<exists>b. exprKind argExpr = Some (BinaryOperator b)) \<or> exprKind argExpr = Some CompoundAssignOperator then
        bind_res (getLHS argExpr) (\<lambda>lhs.
        bind_res (createCallArgString C n node lhs childCounter) (\<lambda>(s, k).
        bind_res (getRHS argExpr) (\<lambda>rhs.
        bind_res (createCallArgString C n node rhs k) (\<lambda>(t, k').
          Inr (s @ getOpcodeStr C argExpr @ t, k')))))
      else
        (case exprKind argExpr of
           Some (UnaryOperator uop) \<Rightarrow>
             bind_res (getSubExpr argExpr) (\<lambda>e.
             bind_res (createCallArgString C n node e childCounter) (\<lambda>(s, k).
               Inr (if isPostfix uop then s @ unaryText uop else unaryText uop @ s, k)))
         | _ \<Rightarrow> Inr (getExprAsString C (Some argExpr), childCounter)))"

fun createArgsString :: "'t clang \<Rightarrow> 't unode \<Rightarrow> 't stmt list \<Rightarrow> nat \<Rightarrow> string list res" where
  "createArgsString C node [] childCounter = Inr []"
| "createArgsString C node (b # es) childCounter =
     bind_res (createCallArgString C (Suc (size b)) node b childCounter) (\<lambda>(s, k).
     bind_res (createArgsString C node es k) (\<lambda>ss. Inr (s # ss)))"

definition createTempVarString :: "'t clang \<Rightarrow> ('t stmt \<Rightarrow> 't) \<Rightarrow> 't unode \<Rightarrow> string res" where
  "createTempVarString C getCallReturnType node =
     (case callCallee (ncall node) of
        Some (Some f) \<Rightarrow>
          bind_res (createArgsString C node (callArgs (ncall node)) 0) (\<lambda>ss.
            Inr (typeAsString C (getCallReturnType (ncall node)) @ '' '' @ tempName (nid node) @ '' = '' @ fd_name f @ ''(''
              @ join '','' ss @ '');'' @ newline))
      | _ \<Rightarrow> Inl NullDeref)"

text \<open>The texts of the nodes of a list one after the other, those of the children of a node before its own.\<close>

fun createTempVarStrings :: "'t clang \<Rightarrow> ('t stmt \<Rightarrow> 't) \<Rightarrow> 't unode list \<Rightarrow> string res" where
  "createTempVarStrings C getCallReturnType [] = Inr []"
| "createTempVarStrings C getCallReturnType (Node c i chs # ns) =
     bind_res (createTempVarStrings C getCallReturnType chs) (\<lambda>s.
     bind_res (createTempVarString C getCallReturnType (Node c i chs)) (\<lambda>t.
     bind_res (createTempVarStrings C getCallReturnType ns) (\<lambda>u. Inr (s @ t @ u))))"

text \<open>\<open>createTempVarStringHelper\<close>: a root has no temporary.\<close>

definition createTempVarStringHelper :: "'t clang \<Rightarrow> ('t stmt \<Rightarrow> 't) \<Rightarrow> 't unode \<Rightarrow> bool \<Rightarrow> string res" where
  "createTempVarStringHelper C getCallReturnType node isRoot =
     (if isRoot then createTempVarStrings C getCallReturnType (nchildren node)
      else createTempVarStrings C getCallReturnType [node])"

definition modifyCalls_at ::
    "'t clang \<Rightarrow> ('t stmt \<Rightarrow> 't) \<Rightarrow> nat \<times> srcloc \<times> 't unode list \<Rightarrow> 't edit list \<Rightarrow> 't edit list res" where
  "modifyCalls_at C getCallReturnType locRootsPair es =
     (case locRootsPair of (k, loc, roots) \<Rightarrow>
        bind_res (map_res (\<lambda>root. createTempVarStringHelper C getCallReturnType root True) roots) (\<lambda>ss.
        bind_res (map_res (\<lambda>root. map_res (childOf root) (subTopCalls (ncall root))) roots) (\<lambda>nss.
          Inr (es @ InsertText (AtLoc loc) (concat ss)
            # map (\<lambda>node. ReplaceText (StmtRange (ncall node)) ('' '' @ tempName (nid node) @ '' '')) (concat nss)))))"

definition modifyCalls :: "'t clang \<Rightarrow> ('t stmt \<Rightarrow> 't) \<Rightarrow> 't roots \<Rightarrow> 't edit list res" where
  "modifyCalls C getCallReturnType callRoots = fold_res (modifyCalls_at C getCallReturnType) callRoots []"

definition HandleTranslationUnit_unstack ::
    "'t clang \<Rightarrow> ('t stmt \<Rightarrow> 't) \<Rightarrow> string \<Rightarrow> string list \<Rightarrow> string list \<Rightarrow> 't unitDecl list \<Rightarrow> 't edit list res" where
  "HandleTranslationUnit_unstack C getCallReturnType main functions functionsToIgnore unit =
     bind_res (fold_res (TraverseDecl_unstack C main functions functionsToIgnore) unit []) (\<lambda>v.
       modifyCalls C getCallReturnType (transformFunctionsCalls v []))"

section \<open>The trees\<close>

fun postorder :: "'t unode list \<Rightarrow> 't unode list" where
  "postorder [] = []"
| "postorder (Node c i chs # ns) = postorder chs @ Node c i chs # postorder ns"

fun numbers :: "'t unode list \<Rightarrow> nat list" where
  "numbers [] = []"
| "numbers (Node c i chs # ns) = i # numbers chs @ numbers ns"

lemma postorder_numbers: "mset (map nid (postorder ns)) = mset (numbers ns)"
  by (induction ns rule: postorder.induct) simp_all

text \<open>The children of a node are the calls in the arguments of its call, in the order they are found.\<close>

definition complete :: "'t unode \<Rightarrow> bool" where
  "complete n \<longleftrightarrow> map ncall (nchildren n) = subTopCalls (ncall n)"

lemma buildSubTrees_trees:
  "buildSubTrees cs n = (ns, k) \<Longrightarrow>
     map ncall ns = cs \<and> n \<le> k \<and> numbers ns = [n..<k] \<and> (\<forall>m \<in> set (postorder ns). complete m)"
proof (induction cs n arbitrary: ns k rule: buildSubTrees.induct)
  case (2 c cs n)
  obtain chs k1 where chs: "buildSubTrees (subTopCalls c) (Suc n) = (chs, k1)" by (cases "buildSubTrees (subTopCalls c) (Suc n)")
  obtain rest where rest: "buildSubTrees cs k1 = (rest, k)" and ns: "ns = Node c n chs # rest"
    using 2(3) chs by (auto split: prod.splits)
  have a: "map ncall chs = subTopCalls c" "Suc n \<le> k1" "numbers chs = [Suc n..<k1]" "\<forall>m \<in> set (postorder chs). complete m"
    using 2(1) [OF chs] by simp_all
  have b: "map ncall rest = cs" "k1 \<le> k" "numbers rest = [k1..<k]" "\<forall>m \<in> set (postorder rest). complete m"
    using 2(2) [OF chs [symmetric] rest] by simp_all
  have "n # [Suc n..<k1] @ [k1..<k] = [n..<k]"
    using a(2) b(2) upt_add_eq_append [of n k1 "k - k1"] by (simp add: upt_conv_Cons)
  then show ?case using a b unfolding ns by (simp add: complete_def ball_Un)
qed simp

text \<open>The nodes that get a temporary at a location, in the order of their declarations.\<close>

definition declared :: "'t unode list \<Rightarrow> 't unode list" where
  "declared roots = concat (map (\<lambda>r. postorder (nchildren r)) roots)"

lemma postorder_roots: "set (postorder ns) = set ns \<union> set (declared ns)"
proof (induction ns)
  case (Cons n ns)
  then show ?case by (cases n) (auto simp: declared_def)
qed (simp add: declared_def)

lemma mset_postorder_roots: "mset (postorder ns) = mset ns + mset (declared ns)"
proof (induction ns)
  case (Cons n ns)
  then show ?case by (cases n) (simp add: declared_def)
qed (simp add: declared_def)

lemma declared_children: "set (concat (map nchildren roots)) \<subseteq> set (declared roots)"
proof -
  have "set (nchildren r) \<subseteq> set (postorder (nchildren r))" for r :: "'a unode" by (simp add: postorder_roots)
  then show ?thesis by (fastforce simp: declared_def)
qed

section \<open>The texts of the arguments\<close>

text \<open>A text of an argument as a list of pieces.\<close>

datatype piece = Verbatim string | Temp nat

fun showPiece :: "piece \<Rightarrow> string" where
  "showPiece (Verbatim s) = s"
| "showPiece (Temp i) = '' '' @ tempName i @ '' ''"

definition showPieces :: "piece list \<Rightarrow> string" where
  "showPieces ps = concat (map showPiece ps)"

fun argPieces :: "'t clang \<Rightarrow> nat \<Rightarrow> 't unode \<Rightarrow> 't stmt \<Rightarrow> piece list" where
  "argPieces C 0 node arg = []"
| "argPieces C (Suc n) node arg =
     (let argExpr = ignoreImpCasts C arg in
      if isCallExpr argExpr then
        (case childOf node argExpr of Inl e \<Rightarrow> [] | Inr c \<Rightarrow> [Temp (nid c)])
      else (case (exprKind argExpr, children argExpr) of
        (Some (BinaryOperator b), l # r # _) \<Rightarrow>
          argPieces C n node l @ Verbatim (getOpcodeStr C argExpr) # argPieces C n node r
      | (Some CompoundAssignOperator, l # r # _) \<Rightarrow>
          argPieces C n node l @ Verbatim (getOpcodeStr C argExpr) # argPieces C n node r
      | (Some (UnaryOperator uop), e # _) \<Rightarrow>
          (if isPostfix uop then argPieces C n node e @ [Verbatim (unaryText uop)]
           else Verbatim (unaryText uop) # argPieces C n node e)
      | _ \<Rightarrow> [Verbatim (printPretty C argExpr)]))"

definition temporaries :: "piece list \<Rightarrow> nat set" where
  "temporaries ps = {i. Temp i \<in> set ps}"

lemma temporaries_simps [simp]:
  "temporaries [] = {}"
  "temporaries (Verbatim s # ps) = temporaries ps"
  "temporaries (Temp i # ps) = insert i (temporaries ps)"
  "temporaries (ps @ qs) = temporaries ps \<union> temporaries qs"
  by (auto simp: temporaries_def)

lemma showPieces_simps [simp]:
  "showPieces [] = []"
  "showPieces (p # ps) = showPiece p @ showPieces ps"
  "showPieces (ps @ qs) = showPieces ps @ showPieces qs"
  by (simp_all add: showPieces_def)

text \<open>The nodes of a tree, and what every tree Clang builds has.\<close>

function nodesOf :: "'t stmt \<Rightarrow> 't stmt list" where
  "nodesOf s = s # concat (map nodesOf (children s))"
  by pat_completeness auto
termination
  by (relation "measure size") (auto dest: size_children)

declare nodesOf.simps [simp del]

definition arityOk :: "'t stmt \<Rightarrow> bool" where
  "arityOk s = (case (exprKind s, children s) of
       (Some (BinaryOperator b), cs) \<Rightarrow> (case cs of l # r # _ \<Rightarrow> isExpr l \<and> isExpr r | _ \<Rightarrow> False)
     | (Some CompoundAssignOperator, cs) \<Rightarrow> (case cs of l # r # _ \<Rightarrow> isExpr l \<and> isExpr r | _ \<Rightarrow> False)
     | (Some (UnaryOperator uop), cs) \<Rightarrow> (case cs of e # _ \<Rightarrow> isExpr e | _ \<Rightarrow> False)
     | _ \<Rightarrow> True)"

definition callOk :: "'t stmt \<Rightarrow> bool" where
  "callOk s \<longleftrightarrow> callCallee s \<notin> {None, Some None} \<and> (\<forall>a \<in> set (callArgs s). isExpr a)
     \<and> distinct (map sid (subTopCalls s))"

text \<open>
  The operators have their operands; every call has a callee that is known, and the nodes of the calls in
  its arguments have different addresses.
\<close>

definition treeOk :: "'t stmt \<Rightarrow> bool" where
  "treeOk e \<longleftrightarrow> (\<forall>s \<in> set (nodesOf e). arityOk s \<and> (isCallExpr s \<longrightarrow> callOk s))"

text \<open>The documented behaviour of the casts: they go down to a node of the tree and pass no call.\<close>

definition casts_descend :: "'t clang \<Rightarrow> bool" where
  "casts_descend C \<longleftrightarrow> (\<forall>e. ignoreImpCasts C e \<in> set (nodesOf e) \<and> topCalls (ignoreImpCasts C e) = topCalls e)"

lemma nodesOf_self: "s \<in> set (nodesOf s)"
  by (simp add: nodesOf.simps [of s])

lemma nodesOf_child: "c \<in> set (children s) \<Longrightarrow> set (nodesOf c) \<subseteq> set (nodesOf s)"
  by (subst (2) nodesOf.simps) auto

lemma nodesOf_trans: "x \<in> set (nodesOf s) \<Longrightarrow> set (nodesOf x) \<subseteq> set (nodesOf s)"
proof (induction s rule: nodesOf.induct)
  case (1 s)
  show ?case
  proof (cases "x = s")
    case False
    then obtain c where c: "c \<in> set (children s)" "x \<in> set (nodesOf c)" using 1(2) by (subst (asm) nodesOf.simps) auto
    then show ?thesis using 1(1) [OF c] nodesOf_child [OF c(1)] by blast
  qed simp
qed

lemma nodesOf_size: "x \<in> set (nodesOf s) \<Longrightarrow> size x \<le> size s"
proof (induction s rule: nodesOf.induct)
  case (1 s)
  show ?case
  proof (cases "x = s")
    case False
    then obtain c where c: "c \<in> set (children s)" "x \<in> set (nodesOf c)" using 1(2) by (subst (asm) nodesOf.simps) auto
    then show ?thesis using 1(1) [OF c] size_children [OF c(1)] by simp
  qed simp
qed

lemma topCalls_nodes: "set (topCalls s) \<subseteq> set (nodesOf s)"
proof (induction s rule: topCalls.induct)
  case (1 s)
  then show ?case using nodesOf_self [of s] nodesOf_child [of _ s]
    by (subst topCalls.simps) (fastforce split: if_splits)
qed

lemma topCalls_calls: "c \<in> set (topCalls s) \<Longrightarrow> isCallExpr c"
proof (induction s rule: topCalls.induct)
  case (1 s)
  then show ?case by (subst (asm) (2) topCalls.simps) (auto split: if_splits)
qed

lemma treeOk_node: "treeOk s \<Longrightarrow> x \<in> set (nodesOf s) \<Longrightarrow> treeOk x"
  unfolding treeOk_def using nodesOf_trans by blast

lemma treeOk_child: "treeOk s \<Longrightarrow> x \<in> set (children s) \<Longrightarrow> treeOk x"
  using treeOk_node nodesOf_child nodesOf_self by blast

lemma subTopCalls_topCalls: "callOk c \<Longrightarrow> subTopCalls c = concat (map topCalls (callArgs c))"
proof -
  have f: "\<forall>a \<in> set as. isExpr a \<Longrightarrow> fold findTopCallsInExpr as acc = acc @ concat (map topCalls as)" for as acc :: "'a stmt list"
    by (induction as arbitrary: acc) (simp_all add: findTopCallsInExpr_topCalls)
  show "callOk c \<Longrightarrow> subTopCalls c = concat (map topCalls (callArgs c))" for c :: "'a stmt"
    using f [of "callArgs c" "[]"] by (simp add: subTopCalls_def callOk_def)
qed

lemma callArgs_children: "a \<in> set (callArgs c) \<Longrightarrow> a \<in> set (children c)"
  unfolding callArgs_def by (cases "children c") simp_all

lemma subTopCalls_ok:
  assumes "treeOk c" and "isCallExpr c" and "x \<in> set (subTopCalls c)"
  shows "treeOk x \<and> isCallExpr x"
proof -
  have "callOk c" using assms(1,2) nodesOf_self unfolding treeOk_def by blast
  then obtain a where a: "a \<in> set (callArgs c)" "x \<in> set (topCalls a)" using assms(3) by (auto simp: subTopCalls_topCalls)
  then show ?thesis
    using treeOk_node [OF treeOk_child [OF assms(1) callArgs_children [OF a(1)]]] topCalls_nodes topCalls_calls by blast
qed

lemma childOf_complete:
  assumes "complete node" and "callOk (ncall node)" and "c \<in> set (subTopCalls (ncall node))"
  shows "\<exists>n. childOf node c = Inr n \<and> n \<in> set (nchildren node) \<and> ncall n = c"
proof -
  have calls: "map ncall (nchildren node) = subTopCalls (ncall node)" using assms(1) by (simp add: complete_def)
  then obtain m where m: "m \<in> set (nchildren node)" "ncall m = c" using assms(3) by (metis in_set_conv_nth length_map nth_map nth_mem)
  then obtain n where n: "find (\<lambda>n. sid (ncall n) = sid c) (nchildren node) = Some n"
    by (cases "find (\<lambda>n. sid (ncall n) = sid c) (nchildren node)") (auto simp: find_None_iff)
  then have "n \<in> set (nchildren node)" "sid (ncall n) = sid c" by (auto simp: find_Some_iff)
  moreover have "inj_on sid (set (subTopCalls (ncall node)))" using assms(2) by (simp add: callOk_def distinct_map)
  moreover have "ncall n \<in> set (subTopCalls (ncall node))" using calls \<open>n \<in> _\<close> by (metis image_eqI list.set_map)
  ultimately show ?thesis using n assms(3) by (auto simp: childOf_def dest: inj_onD)
qed

lemma isCallExpr_kind: "\<not> isCallExpr s \<Longrightarrow> exprKind s \<noteq> Some (CallExpr f) \<and> exprKind s \<noteq> Some (CXXMemberCallExpr f)"
  by (auto simp: isCallExpr_def callCallee_def)

lemma exprKind_isExpr: "exprKind s = Some k \<Longrightarrow> isExpr s"
  by (cases s) simp_all

text \<open>The text of an argument is that of its pieces, the counter stays below the number of the children.\<close>

lemma createCallArgString_pieces:
  assumes cd: "casts_descend C" and node: "complete node" "callOk (ncall node)"
  shows "treeOk arg \<Longrightarrow> set (topCalls arg) \<subseteq> set (subTopCalls (ncall node)) \<Longrightarrow> size arg < n
    \<Longrightarrow> k + length (topCalls arg) \<le> length (nchildren node)
    \<Longrightarrow> \<exists>k'. createCallArgString C n node arg k = Inr (showPieces (argPieces C n node arg), k') \<and> k' \<le> k + length (topCalls arg)
         \<and> temporaries (argPieces C n node arg) \<subseteq> nid ` set (nchildren node)"
proof (induction n arbitrary: arg k)
  case (Suc n)
  let ?e = "ignoreImpCasts C arg"
  have e: "?e \<in> set (nodesOf arg)" "topCalls ?e = topCalls arg" using cd by (simp_all add: casts_descend_def)
  have ok: "treeOk ?e" "arityOk ?e" using treeOk_node [OF Suc.prems(1) e(1)] nodesOf_self [of ?e] by (auto simp: treeOk_def)
  have sub: "treeOk c" "size c < n" if "c \<in> set (children ?e)" for c
    using treeOk_child [OF ok(1) that] size_children [OF that] nodesOf_size [OF e(1)] Suc.prems(3) by auto
  show ?case
  proof (cases "isCallExpr ?e")
    case True
    then have t: "topCalls arg = [?e]" using e(2) topCalls_call by metis
    then obtain c where "childOf node ?e = Inr c" "c \<in> set (nchildren node)"
      using childOf_complete [OF node] Suc.prems(2) by auto
    then show ?thesis using True t Suc.prems(4) by (simp add: Let_def)
  next
    case nc: False
    have tops: "topCalls arg = concat (map topCalls (rev (children ?e)))" if "isExpr ?e"
      using nc that e(2) by (metis topCalls.simps)
    consider (bin) b where "exprKind ?e = Some (BinaryOperator b) \<or> exprKind ?e = Some CompoundAssignOperator"
      | (un) uop where "exprKind ?e = Some (UnaryOperator uop)"
      | (other) "\<forall>b. exprKind ?e \<noteq> Some (BinaryOperator b)" "exprKind ?e \<noteq> Some CompoundAssignOperator"
          "\<forall>uop. exprKind ?e \<noteq> Some (UnaryOperator uop)" by blast
    then show ?thesis
    proof cases
      case bin
      then obtain l r cs where ch: "children ?e = l # r # cs" using ok(2) by (auto simp: arityOk_def split: list.splits)
      have x: "isExpr ?e" using bin exprKind_isExpr by blast
      have t: "topCalls arg = concat (map topCalls (rev cs)) @ topCalls r @ topCalls l" using tops [OF x] ch by simp
      obtain k1 where k1: "createCallArgString C n node l k = Inr (showPieces (argPieces C n node l), k1)"
        "k1 \<le> k + length (topCalls l)" "temporaries (argPieces C n node l) \<subseteq> nid ` set (nchildren node)"
        using Suc.IH [of l k] sub [of l] Suc.prems(2,4) t ch by auto
      obtain k2 where k2: "createCallArgString C n node r k1 = Inr (showPieces (argPieces C n node r), k2)"
        "k2 \<le> k1 + length (topCalls r)" "temporaries (argPieces C n node r) \<subseteq> nid ` set (nchildren node)"
        using Suc.IH [of r k1] sub [of r] Suc.prems(2,4) t ch k1(2) by auto
      have p: "argPieces C (Suc n) node arg = argPieces C n node l @ Verbatim (getOpcodeStr C ?e) # argPieces C n node r"
        using nc bin ch by (auto simp: Let_def)
      show ?thesis using nc bin ch k1 k2 t unfolding p
        by (auto simp: Let_def getLHS_def getRHS_def nthChild_def simp del: argPieces.simps)
    next
      case un
      then obtain c cs where ch: "children ?e = c # cs" using ok(2) by (auto simp: arityOk_def split: list.splits)
      have x: "isExpr ?e" using un exprKind_isExpr by blast
      have t: "topCalls arg = concat (map topCalls (rev cs)) @ topCalls c" using tops [OF x] ch by simp
      obtain k1 where k1: "createCallArgString C n node c k = Inr (showPieces (argPieces C n node c), k1)"
        "k1 \<le> k + length (topCalls c)" "temporaries (argPieces C n node c) \<subseteq> nid ` set (nchildren node)"
        using Suc.IH [of c k] sub [of c] Suc.prems(2,4) t ch by auto
      have p: "argPieces C (Suc n) node arg = (if isPostfix uop then argPieces C n node c @ [Verbatim (unaryText uop)]
           else Verbatim (unaryText uop) # argPieces C n node c)"
        using nc un ch by (simp add: Let_def)
      show ?thesis using nc un ch k1 t unfolding p
        by (auto simp: Let_def getSubExpr_def nthChild_def simp del: argPieces.simps)
    next
      case other
      have p: "argPieces C (Suc n) node arg = [Verbatim (printPretty C ?e)]"
        using nc other by (simp add: Let_def split: option.splits ekind.splits)
      have "createCallArgString C (Suc n) node arg k = Inr (printPretty C ?e, k)"
        using nc other by (auto simp: Let_def getExprAsString_def split: option.splits ekind.splits)
      then show ?thesis unfolding p by simp
    qed
  qed
qed simp

section \<open>The declarations\<close>

definition argumentPieces :: "'t clang \<Rightarrow> 't unode \<Rightarrow> piece list list" where
  "argumentPieces C n = map (\<lambda>b. argPieces C (Suc (size b)) n b) (callArgs (ncall n))"

definition declText :: "'t clang \<Rightarrow> ('t stmt \<Rightarrow> 't) \<Rightarrow> 't unode \<Rightarrow> string" where
  "declText C getCallReturnType n =
     typeAsString C (getCallReturnType (ncall n)) @ '' '' @ tempName (nid n) @ '' = ''
     @ fd_name (the (the (callCallee (ncall n)))) @ ''('' @ join '','' (map showPieces (argumentPieces C n)) @ '');'' @ newline"

text \<open>The temporaries the declaration of a node reads.\<close>

definition readTemps :: "'t clang \<Rightarrow> 't unode \<Rightarrow> nat set" where
  "readTemps C n = (\<Union>ps \<in> set (argumentPieces C n). temporaries ps)"

text \<open>Every node of a list is complete and its call is as in every tree Clang builds.\<close>

definition nodesOk :: "'t unode list \<Rightarrow> bool" where
  "nodesOk ns \<longleftrightarrow> (\<forall>n \<in> set (postorder ns). complete n \<and> treeOk (ncall n) \<and> isCallExpr (ncall n))"

lemma nodesOk_node: "nodesOk ns \<Longrightarrow> n \<in> set (postorder ns) \<Longrightarrow> complete n \<and> callOk (ncall n) \<and> treeOk (ncall n)"
  unfolding nodesOk_def treeOk_def using nodesOf_self by blast

lemma buildSubTrees_ok:
  assumes "buildSubTrees cs n = (ns, k)" and "\<forall>c \<in> set cs. treeOk c \<and> isCallExpr c"
  shows "nodesOk ns"
  using assms
proof (induction cs n arbitrary: ns k rule: buildSubTrees.induct)
  case (2 c cs n)
  obtain chs k1 where chs: "buildSubTrees (subTopCalls c) (Suc n) = (chs, k1)" by (cases "buildSubTrees (subTopCalls c) (Suc n)")
  obtain rest where rest: "buildSubTrees cs k1 = (rest, k)" and ns: "ns = Node c n chs # rest"
    using 2(3) chs by (auto split: prod.splits)
  have "nodesOk chs" by (rule 2(1) [OF chs]) (use 2(4) subTopCalls_ok in auto)
  moreover have "nodesOk rest" by (rule 2(2) [OF chs [symmetric] rest]) (use 2(4) in auto)
  moreover have "complete (Node c n chs)" using buildSubTrees_trees [OF chs] by (simp add: complete_def)
  ultimately show ?case using 2(4) unfolding ns nodesOk_def by auto
qed (simp add: nodesOk_def)

lemma createArgsString_pieces:
  assumes cd: "casts_descend C" and node: "complete node" "callOk (ncall node)"
  shows "\<forall>b \<in> set es. treeOk b \<Longrightarrow> (\<Union>b \<in> set es. set (topCalls b)) \<subseteq> set (subTopCalls (ncall node))
    \<Longrightarrow> k + length (concat (map topCalls es)) \<le> length (nchildren node)
    \<Longrightarrow> createArgsString C node es k = Inr (map (\<lambda>b. showPieces (argPieces C (Suc (size b)) node b)) es)
         \<and> (\<forall>b \<in> set es. temporaries (argPieces C (Suc (size b)) node b) \<subseteq> nid ` set (nchildren node))"
proof (induction es arbitrary: k)
  case (Cons b es)
  obtain k' where k': "createCallArgString C (Suc (size b)) node b k = Inr (showPieces (argPieces C (Suc (size b)) node b), k')"
    "k' \<le> k + length (topCalls b)" "temporaries (argPieces C (Suc (size b)) node b) \<subseteq> nid ` set (nchildren node)"
    using createCallArgString_pieces [OF cd node, of b "Suc (size b)" k] Cons.prems by auto
  then show ?case using Cons.IH [of k'] Cons.prems by (simp del: createCallArgString.simps argPieces.simps)
qed simp

lemma createTempVarString_text:
  assumes cd: "casts_descend C" and node: "complete node" "callOk (ncall node)" "treeOk (ncall node)"
  shows "createTempVarString C getCallReturnType node = Inr (declText C getCallReturnType node)
    \<and> readTemps C node \<subseteq> nid ` set (nchildren node)"
proof -
  obtain f where f: "callCallee (ncall node) = Some (Some f)" using node(2) by (auto simp: callOk_def)
  have top: "subTopCalls (ncall node) = concat (map topCalls (callArgs (ncall node)))" by (rule subTopCalls_topCalls [OF node(2)])
  then have len: "length (nchildren node) = length (concat (map topCalls (callArgs (ncall node))))"
    using node(1) unfolding complete_def by (metis length_map)
  have "\<forall>b \<in> set (callArgs (ncall node)). treeOk b" using treeOk_child [OF node(3)] callArgs_children by blast
  from createArgsString_pieces [OF cd node(1,2) this, of 0] len top
  have a: "createArgsString C node (callArgs (ncall node)) 0 = Inr (map showPieces (argumentPieces C node))"
    and r: "readTemps C node \<subseteq> nid ` set (nchildren node)"
    by (auto simp: argumentPieces_def readTemps_def comp_def simp del: argPieces.simps)
  show ?thesis using f r by (simp add: createTempVarString_def a declText_def)
qed

lemma createTempVarStrings_text:
  assumes "casts_descend C" and "nodesOk ns"
  shows "createTempVarStrings C getCallReturnType ns = Inr (concat (map (declText C getCallReturnType) (postorder ns)))"
  using assms(2)
proof (induction ns rule: postorder.induct)
  case (2 c i chs ns)
  have ok: "nodesOk chs" "nodesOk ns" using 2(3) by (auto simp: nodesOk_def)
  have "createTempVarString C getCallReturnType (Node c i chs) = Inr (declText C getCallReturnType (Node c i chs))"
    using createTempVarString_text [OF assms(1)] nodesOk_node [OF 2(3), of "Node c i chs"] by simp
  then show ?case using 2(1) [OF ok(1)] 2(2) [OF ok(2)] by simp
qed simp

lemmas createTempVarString_reads = createTempVarString_text [THEN conjunct2]

text \<open>A declaration reads temporaries of declarations in front of it only.\<close>

definition declared_before_use :: "'t clang \<Rightarrow> 't unode list \<Rightarrow> bool" where
  "declared_before_use C ns \<longleftrightarrow> (\<forall>i < length ns. readTemps C (ns ! i) \<subseteq> nid ` set (take i ns))"

lemma declared_before_use_Nil [simp]: "declared_before_use C []"
  by (simp add: declared_before_use_def)

lemma declared_before_use_append:
  assumes "declared_before_use C ms" and "declared_before_use C ns"
  shows "declared_before_use C (ms @ ns)"
  unfolding declared_before_use_def
proof (intro allI impI)
  fix i assume i: "i < length (ms @ ns)"
  show "readTemps C ((ms @ ns) ! i) \<subseteq> nid ` set (take i (ms @ ns))"
  proof (cases "i < length ms")
    case True
    then show ?thesis using assms(1) by (auto simp: declared_before_use_def nth_append)
  next
    case False
    then have "readTemps C (ns ! (i - length ms)) \<subseteq> nid ` set (take (i - length ms) ns)"
      using assms(2) i by (auto simp: declared_before_use_def)
    then show ?thesis using False by (auto simp: nth_append)
  qed
qed

lemma declared_before_use_snoc:
  "declared_before_use C (ms @ [n]) \<longleftrightarrow> declared_before_use C ms \<and> readTemps C n \<subseteq> nid ` set ms"
proof
  assume a: "declared_before_use C (ms @ [n])"
  have "readTemps C (ms ! i) \<subseteq> nid ` set (take i ms)" if "i < length ms" for i
    using a [unfolded declared_before_use_def, rule_format, of i] that by (simp add: nth_append)
  then show "declared_before_use C ms \<and> readTemps C n \<subseteq> nid ` set ms"
    using a [unfolded declared_before_use_def, rule_format, of "length ms"] by (simp add: declared_before_use_def)
qed (auto simp: declared_before_use_def nth_append less_Suc_eq)

lemma postorder_declared_before_use:
  assumes "casts_descend C" and "nodesOk ns"
  shows "declared_before_use C (postorder ns)"
  using assms(2)
proof (induction ns rule: postorder.induct)
  case (2 c i chs ns)
  have ok: "nodesOk chs" "nodesOk ns" using 2(3) by (auto simp: nodesOk_def)
  have "readTemps C (Node c i chs) \<subseteq> nid ` set (nchildren (Node c i chs))"
    by (rule createTempVarString_reads [OF assms(1)]) (use nodesOk_node [OF 2(3), of "Node c i chs"] in simp_all)
  then have "readTemps C (Node c i chs) \<subseteq> nid ` set (postorder chs)" using postorder_roots [of chs] by auto
  with 2(1) [OF ok(1)] have "declared_before_use C (postorder chs @ [Node c i chs])" by (simp add: declared_before_use_snoc)
  from declared_before_use_append [OF this 2(2) [OF ok(2)]] show ?case by simp
qed simp

lemma nodesOk_children: "nodesOk ns \<Longrightarrow> n \<in> set ns \<Longrightarrow> nodesOk (nchildren n)"
  unfolding nodesOk_def postorder_roots [of ns] declared_def by auto

lemma declared_before_use_declared:
  assumes "casts_descend C" and "nodesOk ns"
  shows "declared_before_use C (declared ns)"
proof -
  have "declared_before_use C (concat (map (\<lambda>r. postorder (nchildren r)) rs))" if "set rs \<subseteq> set ns" for rs
    using that
    by (induction rs) (simp_all add: declared_before_use_append postorder_declared_before_use [OF assms(1) nodesOk_children [OF assms(2)]])
  then show ?thesis by (simp add: declared_def)
qed

section \<open>The edits\<close>

definition entryEdits :: "'t clang \<Rightarrow> ('t stmt \<Rightarrow> 't) \<Rightarrow> nat \<times> srcloc \<times> 't unode list \<Rightarrow> 't edit list" where
  "entryEdits C getCallReturnType e =
     (case e of (k, loc, roots) \<Rightarrow>
        InsertText (AtLoc loc) (concat (map (declText C getCallReturnType) (declared roots)))
        # map (\<lambda>n. ReplaceText (StmtRange (ncall n)) ('' '' @ tempName (nid n) @ '' '')) (concat (map nchildren roots)))"

lemma childOf_children:
  assumes "complete n" and "callOk (ncall n)"
  shows "map_res (childOf n) (subTopCalls (ncall n)) = Inr (nchildren n)"
proof -
  have c: "map ncall (nchildren n) = subTopCalls (ncall n)" using assms(1) by (simp add: complete_def)
  then have d: "distinct (map (sid \<circ> ncall) (nchildren n))" using assms(2) unfolding callOk_def by (metis map_map)
  have "childOf n (ncall m) = Inr m" if m: "m \<in> set (nchildren n)" for m
  proof -
    have "ncall m \<in> set (subTopCalls (ncall n))" using c m by (metis image_eqI list.set_map)
    from childOf_complete [OF assms this] obtain m' where m': "childOf n (ncall m) = Inr m'" "m' \<in> set (nchildren n)" "ncall m' = ncall m"
      by blast
    have "inj_on (sid \<circ> ncall) (set (nchildren n))" using d by (simp add: distinct_map)
    then have "m' = m" by (rule inj_onD) (use m m' in simp_all)
    then show ?thesis using m'(1) by simp
  qed
  then show ?thesis unfolding c [symmetric] by (simp add: map_res_Inr list_all2_map1 list_all2_same)
qed

lemma concat_map_concat: "concat (map f (concat xss)) = concat (map (\<lambda>xs. concat (map f xs)) xss)"
  by (induction xss) simp_all

lemma map_res_eq: "(\<And>x. x \<in> set xs \<Longrightarrow> f x = Inr (g x)) \<Longrightarrow> map_res f xs = Inr (map g xs)"
  by (induction xs) simp_all

lemma modifyCalls_edits:
  assumes "casts_descend C" and "\<forall>(k, loc, rs) \<in> set callRoots. nodesOk rs"
  shows "modifyCalls C getCallReturnType callRoots = Inr (concat (map (entryEdits C getCallReturnType) callRoots))"
proof -
  have one: "modifyCalls_at C getCallReturnType e es = Inr (es @ entryEdits C getCallReturnType e)" if "e \<in> set callRoots" for e es
  proof -
    obtain k loc rs where e: "e = (k, loc, rs)" by (cases e)
    have ok: "nodesOk rs" using assms(2) that e by auto
    have a: "map_res (\<lambda>root. createTempVarStringHelper C getCallReturnType root True) rs
        = Inr (map (\<lambda>root. concat (map (declText C getCallReturnType) (postorder (nchildren root)))) rs)"
      by (rule map_res_eq) (simp add: createTempVarStringHelper_def createTempVarStrings_text [OF assms(1) nodesOk_children [OF ok]])
    have "n \<in> set (postorder rs)" if "n \<in> set rs" for n using that by (simp add: postorder_roots)
    then have b: "map_res (\<lambda>root. map_res (childOf root) (subTopCalls (ncall root))) rs = Inr (map nchildren rs)"
      by (intro map_res_eq childOf_children) (use nodesOk_node [OF ok] in auto)
    show ?thesis unfolding e
      by (simp add: modifyCalls_at_def a b entryEdits_def declared_def concat_map_concat comp_def)
  qed
  have "fold_res (modifyCalls_at C getCallReturnType) rs es = Inr (es @ concat (map (entryEdits C getCallReturnType) rs))"
    if "set rs \<subseteq> set callRoots" for rs es
    using that by (induction rs arbitrary: es) (simp_all add: one)
  then show ?thesis by (simp add: modifyCalls_def)
qed

section \<open>The trees of a function\<close>

fun treesOf :: "'t callsAt \<Rightarrow> nat \<Rightarrow> 't roots" where
  "treesOf [] n = []"
| "treesOf ((k, loc, calls) # m) n =
     (case buildSubTrees calls n of (ns, n') \<Rightarrow> (if calls = [] then [] else [(k, loc, ns)]) @ treesOf m n')"

lemma buildSubTrees_Cons:
  "buildSubTrees (c # cs) n = (case buildSubTrees [c] n of (ns, k) \<Rightarrow> case buildSubTrees cs k of (ms, k') \<Rightarrow> (ns @ ms, k'))"
  by (simp split: prod.splits)

lemma oput_oput: "oput k w (oput k v m) = oput k w m"
  by (induction k v m rule: oput.induct) auto

lemma oput_subset: "set (oput k v m) \<subseteq> insert (k, v) (set m)"
  by (induction k v m rule: oput.induct) auto

lemma set_oput: "k \<notin> fst ` set m \<Longrightarrow> set (oput k v m) = insert (k, v) (set m)"
  by (induction k v m rule: oput.induct) auto

lemma fold_transform_present:
  assumes "sorted_wrt (<) (map fst R)" and "buildSubTrees calls n = (ns, n')"
  shows "fold (\<lambda>call. unstackTransformCallExpr call loc) calls (oput (loc_offset loc) (l, rs) R, n)
    = (oput (loc_offset loc) (l, rs @ ns) R, n')"
  using assms(2)
proof (induction calls arbitrary: n rs ns)
  case (Cons c calls)
  obtain ms k where ms: "buildSubTrees [c] n = (ms, k)" by (cases "buildSubTrees [c] n")
  obtain ms' where ms': "buildSubTrees calls k = (ms', n')" "ns = ms @ ms'"
    using Cons.prems ms by (subst (asm) buildSubTrees_Cons) (auto split: prod.splits)
  have "unstackTransformCallExpr c loc (oput (loc_offset loc) (l, rs) R, n) = (oput (loc_offset loc) (l, rs @ ms) R, k)"
    by (simp only: unstackTransformCallExpr_def prod.case ms map_of_oput [OF assms(1)] fun_upd_same option.case oput_oput)
  then show ?case using Cons.IH [OF ms'(1), of "rs @ ms"] ms'(2) by simp
qed simp

lemma fold_transform_new:
  assumes "sorted_wrt (<) (map fst R)" and "buildSubTrees calls n = (ns, n')" and "loc_offset loc \<notin> fst ` set R"
  shows "fold (\<lambda>call. unstackTransformCallExpr call loc) calls (R, n)
    = (if calls = [] then R else oput (loc_offset loc) (loc, ns) R, n')"
proof (cases calls)
  case (Cons c cs)
  obtain ms k where ms: "buildSubTrees [c] n = (ms, k)" by (cases "buildSubTrees [c] n")
  obtain ms' where ms': "buildSubTrees cs k = (ms', n')" "ns = ms @ ms'"
    using assms(2) ms unfolding Cons by (subst (asm) buildSubTrees_Cons) (auto split: prod.splits)
  have "map_of R (loc_offset loc) = None" using assms(3) by (simp add: map_of_eq_None_iff)
  then have "unstackTransformCallExpr c loc (R, n) = (oput (loc_offset loc) (loc, ms) R, k)"
    by (simp only: unstackTransformCallExpr_def prod.case ms option.case)
  then show ?thesis using fold_transform_present [OF assms(1) ms'(1), of loc loc ms] ms'(2) unfolding Cons by simp
qed (use assms(2) in simp)

text \<open>The locations of a function are keyed by their offset, and each has its own.\<close>

definition keyed :: "'t callsAt \<Rightarrow> bool" where
  "keyed m \<longleftrightarrow> (\<forall>(k, loc, calls) \<in> set m. k = loc_offset loc)"

lemma fold_transform_function:
  assumes "sorted_wrt (<) (map fst R)" and "keyed m" and "distinct (map fst m)" and "fst ` set R \<inter> fst ` set m = {}"
  shows "sorted_wrt (<) (map fst (fst (fold (\<lambda>(k, loc, calls). fold (\<lambda>call. unstackTransformCallExpr call loc) calls) m (R, n))))
    \<and> set (fst (fold (\<lambda>(k, loc, calls). fold (\<lambda>call. unstackTransformCallExpr call loc) calls) m (R, n))) = set R \<union> set (treesOf m n)"
  using assms
proof (induction m arbitrary: R n)
  case (Cons e m)
  obtain loc calls where e: "e = (loc_offset loc, loc, calls)" using Cons.prems(2) by (cases e) (auto simp: keyed_def)
  obtain ns n' where ns: "buildSubTrees calls n = (ns, n')" by (cases "buildSubTrees calls n")
  have new: "loc_offset loc \<notin> fst ` set R" using Cons.prems(4) e by auto
  let ?R = "if calls = [] then R else oput (loc_offset loc) (loc, ns) R"
  have s: "sorted_wrt (<) (map fst ?R)" using Cons.prems(1) sorted_oput by auto
  have d: "fst ` set ?R \<inter> fst ` set m = {}" using Cons.prems(3,4) e by auto
  have "set ?R = set R \<union> (if calls = [] then {} else {(loc_offset loc, loc, ns)})" using set_oput [OF new] by auto
  then show ?case
    using Cons.IH [OF s _ _ d, of n'] Cons.prems(2,3) fold_transform_new [OF Cons.prems(1) ns new] e ns
    by (auto simp: keyed_def)
qed simp

lemma treesOf_keys: "fst ` set (treesOf m n) \<subseteq> fst ` set m"
proof (induction m n rule: treesOf.induct)
  case (2 k loc calls m n)
  obtain ns n1 where ns: "buildSubTrees calls n = (ns, n1)" by (cases "buildSubTrees calls n")
  have "fst ` set (treesOf ((k, loc, calls) # m) n) \<subseteq> insert k (fst ` set (treesOf m n1))" using ns by auto
  also have "\<dots> \<subseteq> fst ` set ((k, loc, calls) # m)" using 2 [OF ns [symmetric]] by auto
  finally show ?case .
qed simp

lemma transformFunctionsCalls_trees:
  assumes "\<forall>m \<in> set ms. keyed m" and "distinct (map fst (concat ms))"
    and "sorted_wrt (<) (map fst R)" and "fst ` set R \<inter> fst ` set (concat ms) = {}"
  shows "set (transformFunctionsCalls ms R) = set R \<union> (\<Union>m \<in> set ms. set (treesOf m 0))"
  using assms
proof (induction ms arbitrary: R)
  case (Cons m ms)
  let ?R = "transformFunctionCalls m R"
  have d: "fst ` set m \<inter> fst ` set (concat ms) = {}" and dm: "distinct (map fst m)" using Cons.prems(2) by auto
  have disj: "fst ` set R \<inter> fst ` set m = {}" using Cons.prems(4) by auto
  have r: "sorted_wrt (<) (map fst ?R)" "set ?R = set R \<union> set (treesOf m 0)"
    using fold_transform_function [OF Cons.prems(3) _ dm disj, of 0] Cons.prems(1) by (simp_all add: transformFunctionCalls_def)
  have "fst ` set R \<inter> fst ` set (concat ms) = {}" using Cons.prems(4) by (simp add: image_Un Int_Un_distrib)
  moreover have "fst ` set (treesOf m 0) \<inter> fst ` set (concat ms) = {}" using d treesOf_keys [of m 0] by blast
  ultimately have "fst ` set ?R \<inter> fst ` set (concat ms) = {}" unfolding r(2) image_Un Int_Un_distrib2 by blast
  then show ?case using Cons.IH [of ?R] Cons.prems(1,2) r by (auto simp: transformFunctionsCalls_def)
qed (simp add: transformFunctionsCalls_def)

definition declaredIn :: "'t roots \<Rightarrow> 't unode list" where
  "declaredIn rs = concat (map (\<lambda>(k, loc, ns). declared ns) rs)"

lemma treesOf_numbers:
  "\<exists>n'. concat (map (\<lambda>(k, loc, ns). numbers ns) (treesOf m n)) = [n..<n'] \<and> n \<le> n'"
proof (induction m n rule: treesOf.induct)
  case (2 k loc calls m n)
  obtain ns n1 where ns: "buildSubTrees calls n = (ns, n1)" by (cases "buildSubTrees calls n")
  obtain n2 where n2: "concat (map (\<lambda>(k, loc, ns). numbers ns) (treesOf m n1)) = [n1..<n2]" "n1 \<le> n2"
    using 2 [OF ns [symmetric]] by blast
  have a: "n \<le> n1" "numbers ns = [n..<n1]" using buildSubTrees_trees [OF ns] by simp_all
  have b: "[n..<n1] @ [n1..<n2] = [n..<n2]" using a(1) n2(2) upt_add_eq_append [of n n1 "n2 - n1"] by simp
  have "calls = [] \<Longrightarrow> n1 = n" using ns by simp
  then show ?case using ns n2 a b by (intro exI [of _ n2]) auto
next
  case (1 n)
  show ?case by (intro exI [of _ n]) simp
qed

lemma distinct_sub:
  assumes "mset xs \<subseteq># mset ys" and "distinct ys"
  shows "distinct xs"
  unfolding distinct_count_atmost_1
proof
  fix a
  have "count (mset xs) a \<le> count (mset ys) a" using assms(1) by (rule mset_subset_eq_count)
  then have le: "count (mset xs) a \<le> 1" using assms(2) unfolding distinct_count_atmost_1 by (metis le_trans order_refl zero_le_one)
  show "count (mset xs) a = (if a \<in> set xs then 1 else 0)"
  proof (cases "a \<in> set xs")
    case True
    then have "0 < count (mset xs) a" by (metis count_greater_zero_iff set_mset_mset)
    with le have "count (mset xs) a = 1" by linarith
    with True show ?thesis by (simp only: if_True)
  next
    case False
    then have "count (mset xs) a = 0" by (metis count_eq_zero_iff set_mset_mset)
    with False show ?thesis by simp
  qed
qed

lemma declaredIn_distinct: "distinct (map nid (declaredIn (treesOf m n)))"
proof -
  have sub: "mset (map nid (declaredIn rs)) \<subseteq># mset (concat (map (\<lambda>(k, loc, ns). numbers ns) rs))" for rs :: "'a roots"
  proof (induction rs)
    case (Cons r rs)
    obtain k loc ns where r: "r = (k, loc, ns)" by (cases r)
    have "mset (map nid (declared ns)) \<subseteq># mset (numbers ns)"
      using postorder_numbers [of ns] mset_postorder_roots [of ns] by (metis image_mset_union mset_map mset_subset_eq_add_right)
    then show ?case using Cons by (simp add: r declaredIn_def subset_mset.add_mono)
  qed (simp add: declaredIn_def)
  obtain n' where "concat (map (\<lambda>(k, loc, ns). numbers ns) (treesOf m n)) = [n..<n']" using treesOf_numbers by blast
  with sub [of "treesOf m n"] have "mset (map nid (declaredIn (treesOf m n))) \<subseteq># mset [n..<n']" by simp
  then show ?thesis by (rule distinct_sub) simp
qed

text \<open>Every tree of a function is as the construction makes it.\<close>

lemma treesOf_ok:
  assumes "\<forall>(k, loc, calls) \<in> set m. \<forall>c \<in> set calls. treeOk c \<and> isCallExpr c"
  shows "\<forall>(k, loc, ns) \<in> set (treesOf m n). nodesOk ns"
  using assms
proof (induction m n rule: treesOf.induct)
  case (2 k loc calls m n)
  obtain ns n1 where ns: "buildSubTrees calls n = (ns, n1)" by (cases "buildSubTrees calls n")
  have "nodesOk ns" using buildSubTrees_ok [OF ns] 2(2) by auto
  moreover have "\<forall>(k, loc, ns) \<in> set (treesOf m n1). nodesOk ns" using 2(1) [OF ns [symmetric]] 2(2) by auto
  ultimately show ?case using ns by auto
qed simp

text \<open>What the visitor collects are calls, keyed by the offset of their location.\<close>

definition collected :: "'t callsAt list \<Rightarrow> bool" where
  "collected ms \<longleftrightarrow> (\<forall>m \<in> set ms. keyed m \<and> (\<forall>(k, loc, calls) \<in> set m. \<forall>c \<in> set calls. treeOk c \<and> isCallExpr c))"

lemma findTopCalls_loop_calls:
  assumes "\<forall>s \<in> set st. treeOk s" and "\<forall>c \<in> set acc. treeOk c \<and> isCallExpr c"
  shows "\<forall>c \<in> set (findTopCalls_loop st acc). treeOk c \<and> isCallExpr c"
  using assms
proof (induction st acc rule: findTopCalls_loop.induct)
  case (2 s st acc)
  have "\<forall>c \<in> set (rev (filter isExpr (children s)) @ st). treeOk c" using 2(3) treeOk_child by auto
  note ok = this
  show ?case
  proof (cases "isCallExpr s")
    case True
    then have "\<forall>c \<in> set (findTopCalls_loop st (acc @ [s])). treeOk c \<and> isCallExpr c"
      by (intro 2(1) [OF True]) (use 2(3,4) in auto)
    with True show ?thesis by (simp only: findTopCalls_loop.simps if_True)
  next
    case False
    from 2(2) [OF False ok 2(4)] False show ?thesis by (simp only: findTopCalls_loop.simps if_False)
  qed
qed simp

lemma findTopCallsInExpr_calls:
  "treeOk e \<Longrightarrow> \<forall>c \<in> set acc. treeOk c \<and> isCallExpr c \<Longrightarrow> \<forall>c \<in> set (findTopCallsInExpr e acc). treeOk c \<and> isCallExpr c"
  unfolding findTopCallsInExpr_def by (rule findTopCalls_loop_calls) simp_all

lemma addCallsToUnstack_collected:
  assumes "addCallsToUnstack calls loc v = Inr v'" and "collected v" and "\<forall>c \<in> set calls. treeOk c \<and> isCallExpr c"
  shows "collected v'"
proof -
  let ?m = "last v" and ?k = "loc_offset loc"
  have v: "v \<noteq> []" using assms(1) by (auto simp: addCallsToUnstack_def split: if_splits)
  then have m: "keyed ?m" "\<forall>(k, loc, calls) \<in> set ?m. \<forall>c \<in> set calls. treeOk c \<and> isCallExpr c"
    using assms(2) last_in_set [OF v] unfolding collected_def by blast+
  obtain l cs where v': "v' = butlast v @ [oput ?k (l, cs) ?m]" and l: "?k = loc_offset l" and cs: "\<forall>c \<in> set cs. treeOk c \<and> isCallExpr c"
  proof (cases "map_of ?m ?k")
    case None
    then show ?thesis using that [of loc calls] assms(1,3) v by (simp add: addCallsToUnstack_def)
  next
    case (Some e)
    then have e: "(?k, fst e, snd e) \<in> set ?m" using map_of_SomeD by fastforce
    have "loc_offset loc = loc_offset (fst e)" using m(1) e by (auto simp: keyed_def)
    moreover have "\<forall>c \<in> set (snd e). treeOk c \<and> isCallExpr c" using m(2) e by auto
    ultimately show ?thesis using that [of "fst e" "snd e @ calls"] assms(1,3) v Some
      by (auto simp: addCallsToUnstack_def split_beta)
  qed
  have "set (oput ?k (l, cs) ?m) \<subseteq> insert (?k, l, cs) (set ?m)" by (rule oput_subset)
  note sub = this
  have kk: "keyed (oput ?k (l, cs) ?m)" using sub m(1) l unfolding keyed_def by blast
  have "\<forall>c \<in> set calls. treeOk c \<and> isCallExpr c" if "(k, loc, calls) \<in> set (oput ?k (l, cs) ?m)" for k loc calls
    using subsetD [OF sub that] m(2) cs by auto
  with kk have "keyed (oput ?k (l, cs) ?m)"
    "\<forall>(k, loc, calls) \<in> set (oput ?k (l, cs) ?m). \<forall>c \<in> set calls. treeOk c \<and> isCallExpr c" by auto
  then have "collected [oput ?k (l, cs) ?m]" unfolding collected_def by simp
  moreover have "collected (butlast v)" using assms(2) unfolding collected_def by (blast dest: in_set_butlastD)
  ultimately show ?thesis unfolding v' collected_def set_append ball_Un by (intro conjI)
qed

lemma unstackNode_collected:
  assumes "unstackNode C s = Some f" and "f v = Inr v'" and "collected v" and "treeOk s"
  shows "collected v'"
proof (cases "f v = Inr v")
  case False
  have decl: "collected v'" if r: "retrieveCalls_decl s v = Inr v'" and s: "s = DeclStmt i l ds" for i l ds
  proof -
    have t: "treeOk e" if "(d, Some e) \<in> set ds" for d e
      by (rule treeOk_child [OF assms(4)]) (use that s in \<open>force simp: List.map_filter_def\<close>)
    let ?step = "\<lambda>(d, ini) calls. case (d, ini) of (VarDecl x, Some e) \<Rightarrow> findTopCallsInExpr e calls | _ \<Rightarrow> calls"
    have step: "\<forall>c \<in> set (?step (d, ini) acc). treeOk c \<and> isCallExpr c"
      if "(d, ini) \<in> set ds" and acc: "\<forall>c \<in> set acc. treeOk c \<and> isCallExpr c" for d ini acc
    proof (cases d)
      case (VarDecl x)
      show ?thesis
      proof (cases ini)
        case (Some e)
        from findTopCallsInExpr_calls [OF t acc] that(1) VarDecl Some show ?thesis by simp
      qed (use VarDecl acc in simp)
    qed (use acc in simp)
    have f: "\<forall>c \<in> set (fold ?step es acc). treeOk c \<and> isCallExpr c"
      if "set es \<subseteq> set ds" "\<forall>c \<in> set acc. treeOk c \<and> isCallExpr c" for es acc
      using that
    proof (induction es arbitrary: acc)
      case (Cons e es)
      obtain d ini where e: "e = (d, ini)" by (cases e)
      have "\<forall>c \<in> set (?step (d, ini) acc). treeOk c \<and> isCallExpr c" by (rule step) (use Cons.prems e in auto)
      from Cons.IH [OF _ this] Cons.prems(1) show ?case unfolding e fold_simps comp_apply by simp
    qed simp
    obtain calls where c: "addCallsToUnstack calls l v = Inr v'"
        "calls = fold (\<lambda>(d, ini) calls. case (d, ini) of (VarDecl x, Some e) \<Rightarrow> findTopCallsInExpr e calls | _ \<Rightarrow> calls) ds []"
      using r s by (auto simp: retrieveCalls_decl_def split: list.splits prod.splits decl.splits option.splits)
    have "\<forall>x \<in> set calls. treeOk x \<and> isCallExpr x" unfolding c(2) by (rule f) simp_all
    then show ?thesis by (rule addCallsToUnstack_collected [OF c(1) assms(3)])
  qed
  have expr: "collected v'" if "retrieveCalls_expr s v = Inr v'"
    using that assms(3,4) findTopCallsInExpr_calls [of s "[]"] addCallsToUnstack_collected unfolding retrieveCalls_expr_def by auto
  have call: "collected v'" if "retrieveCalls_call s v = Inr v'" "isCallExpr s"
    using that assms(3,4) addCallsToUnstack_collected [of "[s]"] unfolding retrieveCalls_call_def by auto
  show ?thesis using assms(1,2) False decl expr call
    by (cases s) (auto simp: unstackNode_def Let_def isCallExpr_def callCallee_def split: if_splits ekind.splits)
qed (use assms in simp)

lemma traverseUnstack_collected:
  assumes "traverseUnstack C ss v = Inr v'" and "collected v" and "\<forall>s \<in> set ss. treeOk s"
  shows "collected v'"
  using assms
proof (induction C ss v arbitrary: v' rule: traverseUnstack.induct)
  case (2 C s ss v)
  show ?case
  proof (cases "unstackNode C s")
    case None
    then show ?thesis using 2(1) [OF None] 2(3-) treeOk_child by auto
  next
    case (Some f)
    then obtain w where w: "f v = Inr w" "traverseUnstack C ss w = Inr v'" using 2(3) by (auto simp: bind_res_Inr)
    have "collected w" using unstackNode_collected [OF Some w(1)] 2(4,5) by simp
    then show ?thesis using 2(2) [OF Some w(1)] w 2(5) by simp
  qed
qed simp

fun bodyOf :: "'t unitDecl \<Rightarrow> 't stmt option" where
  "bodyOf (UnitFunction fb) = snd fb"
| "bodyOf (UnitMethod fb) = snd fb"
| "bodyOf (UnitVar x ini) = ini"

lemma fold_TraverseDecl_collected:
  assumes "fold_res (TraverseDecl_unstack C main functions ign) unit [] = Inr ms"
    and "\<forall>d \<in> set unit. \<forall>b. bodyOf d = Some b \<longrightarrow> treeOk b"
  shows "collected ms"
  using assms(1)
proof (rule fold_res_invariant)
  show "collected []" by (simp add: collected_def)
  fix d v w
  assume d: "d \<in> set unit" "collected v" "TraverseDecl_unstack C main functions ign d v = Inr w"
  have "collected (v @ [[]])" using d(2) by (auto simp: collected_def keyed_def)
  then show "collected w" using d assms(2) traverseUnstack_collected [of C _ _ w]
    by (cases d) (fastforce simp: TraverseDecl_unstack_def split: if_splits option.splits)+
qed

text \<open>
  C5: when the traversal of a file returns, the calls in its bodies know their callees and no location is
  in two functions, the pass returns. At each location it inserts the declarations of the calls below the
  ones collected there, and replaces the outer ones of them by their temporaries; the temporaries of a
  function have different names, and a declaration reads only temporaries declared in front of it, which
  are those of the calls in its own arguments.
\<close>

theorem unstack_temporaries:
  assumes "casts_descend C" and "fold_res (TraverseDecl_unstack C main functions ign) unit [] = Inr ms"
    and "\<forall>d \<in> set unit. \<forall>b. bodyOf d = Some b \<longrightarrow> treeOk b"
    and "distinct (map fst (concat ms))"
  shows "\<exists>callRoots. set callRoots = (\<Union>m \<in> set ms. set (treesOf m 0))
    \<and> HandleTranslationUnit_unstack C getCallReturnType main functions ign unit
        = Inr (concat (map (entryEdits C getCallReturnType) callRoots))
    \<and> (\<forall>m \<in> set ms. distinct (map (tempName \<circ> nid) (declaredIn (treesOf m 0))))
    \<and> (\<forall>(k, loc, roots) \<in> set callRoots. declared_before_use C (declared roots)
         \<and> set (concat (map nchildren roots)) \<subseteq> set (declared roots)
         \<and> (\<forall>n \<in> set (declared roots). readTemps C n \<subseteq> nid ` set (nchildren n) \<and> complete n))"
proof -
  let ?R = "transformFunctionsCalls ms []"
  have col: "\<forall>m \<in> set ms. keyed m \<and> (\<forall>(k, loc, calls) \<in> set m. \<forall>c \<in> set calls. treeOk c \<and> isCallExpr c)"
    using fold_TraverseDecl_collected [OF assms(2,3)] unfolding collected_def .
  have set: "set ?R = (\<Union>m \<in> set ms. set (treesOf m 0))"
    using transformFunctionsCalls_trees [of ms "[]"] col assms(4) by simp
  have ok: "\<forall>(k, loc, roots) \<in> set ?R. nodesOk roots" unfolding set using treesOf_ok col by fastforce
  have names: "distinct (map (tempName \<circ> nid) (declaredIn (treesOf m 0)))" for m :: "'a callsAt"
    using declaredIn_distinct [of m 0] by (simp add: distinct_map tempName_def inj_on_def)
  have each: "\<forall>(k, loc, roots) \<in> set ?R. declared_before_use C (declared roots)
      \<and> set (concat (map nchildren roots)) \<subseteq> set (declared roots)
      \<and> (\<forall>n \<in> set (declared roots). readTemps C n \<subseteq> nid ` set (nchildren n) \<and> complete n)"
  proof (intro ballI, unfold split_beta, intro conjI ballI)
    fix e assume "e \<in> set ?R"
    then have r: "nodesOk (snd (snd e))" using ok by auto
    show "declared_before_use C (declared (snd (snd e)))" by (rule declared_before_use_declared [OF assms(1) r])
    show "set (concat (map nchildren (snd (snd e)))) \<subseteq> set (declared (snd (snd e)))" by (rule declared_children)
    fix n assume "n \<in> set (declared (snd (snd e)))"
    then have n: "complete n \<and> callOk (ncall n) \<and> treeOk (ncall n)" using nodesOk_node [OF r] by (simp add: postorder_roots)
    then show "readTemps C n \<subseteq> nid ` set (nchildren n)" by (intro createTempVarString_reads [OF assms(1)]) simp_all
    show "complete n" using n by simp
  qed
  have "HandleTranslationUnit_unstack C getCallReturnType main functions ign unit
      = Inr (concat (map (entryEdits C getCallReturnType) ?R))"
    by (simp add: HandleTranslationUnit_unstack_def assms(2) modifyCalls_edits [OF assms(1) ok])
  moreover have "\<forall>m \<in> set ms. distinct (map (tempName \<circ> nid) (declaredIn (treesOf m 0)))" using names by blast
  ultimately show ?thesis using set each by (intro exI [of _ ?R] conjI)
qed

section \<open>What stops the visitor, and a text that is another program\<close>

text \<open>A statement that declares one name, a type or a function say, fails the cast to a variable.\<close>

lemma retrieveCalls_other_decl: "retrieveCalls_decl (DeclStmt i l [(OtherDecl n nm dl, ini)]) v = Inl AssertFailed"
  by (simp add: retrieveCalls_decl_def)

text \<open>A call in a method or an initialiser in front of the first function has no list it is added to.\<close>

lemma method_before_function:
  assumes "functionsConditions main functions ign (f, Some (Expr i l t (CallExpr g) cs))" and "elementsConditions l"
  shows "TraverseDecl_unstack C main functions ign (UnitMethod (f, Some (Expr i l t (CallExpr g) cs))) [] = Inl UndefinedAccess"
  using assms by (simp add: TraverseDecl_unstack_def unstackNode_def retrieveCalls_call_def addCallsToUnstack_def Let_def)

text \<open>Every prefix operator but the decrement is printed as an increment.\<close>

lemma unary_printed_as_increment:
  assumes "ignoreImpCasts C (Expr i l t (UnaryOperator uop) [e]) = Expr i l t (UnaryOperator uop) [e]"
    and "uop \<notin> {UO_PreDec, UO_PostDec, UO_PostInc}"
    and "createCallArgString C n node e k = Inr (s, k')"
  shows "createCallArgString C (Suc n) node (Expr i l t (UnaryOperator uop) [e]) k = Inr (''++'' @ s, k')"
  using assms by (simp add: Let_def isCallExpr_def callCallee_def getSubExpr_def nthChild_def isPostfix_def unaryText_def)

section \<open>Witnesses\<close>

definition ex_callee :: "string \<Rightarrow> ex_type fundecl" where
  "ex_callee nm = \<lparr>fd_canonical = 7, fd_name = nm, fd_params = [], fd_loc = ex_at 0, fd_isConst = False,
     fd_returnType = IntT, fd_context = 0\<rparr>"

definition ex_ucall :: "nat \<Rightarrow> string \<Rightarrow> ex_type stmt list \<Rightarrow> ex_type stmt" where
  "ex_ucall i nm args = Expr i (ex_at i) IntT (CallExpr (Some (ex_callee nm))) (ex_use (Suc i) 0 IntT # args)"

text \<open>The call \<open>f(g(h(x1)), k(-x2))\<close>.\<close>

definition ex_nested :: "ex_type stmt" where
  "ex_nested = ex_ucall 10 ''f'' [ex_ucall 20 ''g'' [ex_ucall 30 ''h'' [ex_use 40 1 IntT]],
     ex_ucall 50 ''k'' [Expr 60 (ex_at 60) IntT (UnaryOperator UO_Minus) [ex_use 61 2 IntT]]]"

lemma unstack_minus_example:
  "modifyCalls ex_clang (\<lambda>s. IntT) (transformFunctionsCalls [[(10, ex_at 10, [ex_nested])]] []) =
     Inr [InsertText (AtLoc (ex_at 10)) (''int __tempVar_2 = h(x1);'' @ newline @ ''int __tempVar_1 = g( __tempVar_2 );'' @ newline
            @ ''int __tempVar_3 = k(++x2);'' @ newline),
          ReplaceText (StmtRange (callArgs ex_nested ! 0)) '' __tempVar_1 '',
          ReplaceText (StmtRange (callArgs ex_nested ! 1)) '' __tempVar_3 '']"
  by code_simp

lemma nodesOf_single: "x \<in> set (nodesOf c) \<Longrightarrow> x \<in> set (nodesOf (Expr i l t k [c]))"
  by (subst nodesOf.simps) simp

lemma ex_casts_descend: "casts_descend ex_clang"
proof -
  have "ex_ignore e \<in> set (nodesOf e)" for e :: "ex_type stmt"
  proof (induction e rule: ex_ignore.induct)
    case (1 i l t c)
    then show ?case using nodesOf_single by simp
  next
    case (2 i l t c)
    then show ?case using nodesOf_single by simp
  qed (simp_all add: nodesOf_self)
  moreover have "topCalls (ex_ignore e) = topCalls e" for e :: "ex_type stmt"
  proof (induction e rule: ex_ignore.induct)
    case (1 i l t c)
    have "topCalls (Expr i l t ParenExpr [c]) = topCalls c"
      by (subst topCalls.simps) (simp add: isCallExpr_def callCallee_def)
    then show ?case using 1 by simp
  next
    case (2 i l t c)
    have "topCalls (Expr i l t ImplicitCastExpr [c]) = topCalls c"
      by (subst topCalls.simps) (simp add: isCallExpr_def callCallee_def)
    then show ?case using 2 by simp
  qed simp_all
  ultimately show ?thesis by (simp add: casts_descend_def ex_clang_def)
qed

text \<open>The body \<open>x3 = f(g(h(x1)), k(-x2));\<close> of \<open>main\<close>.\<close>

definition ex_unstack_unit :: "ex_type unitDecl list" where
  "ex_unstack_unit = [UnitFunction (ex_callee ''main'',
     Some (CompoundStmt 1 (ex_at 1) [Expr 2 (ex_at 8) IntT (BinaryOperator True) [ex_use 3 3 IntT, ex_nested]]))]"

lemma unstack_temporaries_witness:
  "\<exists>m. HandleTranslationUnit_unstack ex_clang (\<lambda>s. IntT) ''main'' [] [] ex_unstack_unit
       = Inr (entryEdits ex_clang (\<lambda>s. IntT) (hd (treesOf m 0)))
   \<and> m = [(8, ex_at 8, [ex_nested])] \<and> distinct (map (tempName \<circ> nid) (declaredIn (treesOf m 0)))"
proof -
  let ?m = "[(8, ex_at 8, [ex_nested])]"
  have v: "fold_res (TraverseDecl_unstack ex_clang ''main'' [] []) ex_unstack_unit [] = Inr [?m]" by code_simp
  have "\<forall>d \<in> set ex_unstack_unit. treeOk (the (bodyOf d))" by code_simp
  then have ok: "\<forall>d \<in> set ex_unstack_unit. \<forall>b. bodyOf d = Some b \<longrightarrow> treeOk b" by fastforce
  have d: "distinct (map fst (concat [?m]))" by simp
  from unstack_temporaries [OF ex_casts_descend v ok d, of "\<lambda>s. IntT"]
  have R: "distinct (map (tempName \<circ> nid) (declaredIn (treesOf ?m 0)))"
    by (elim exE conjE) (simp only: list.set ball_simps)
  have "modifyCalls ex_clang (\<lambda>s. IntT) (transformFunctionsCalls [?m] [])
      = Inr (entryEdits ex_clang (\<lambda>s. IntT) (hd (treesOf ?m 0)))" by code_simp
  then have "HandleTranslationUnit_unstack ex_clang (\<lambda>s. IntT) ''main'' [] [] ex_unstack_unit
       = Inr (entryEdits ex_clang (\<lambda>s. IntT) (hd (treesOf ?m 0)))" by (simp add: HandleTranslationUnit_unstack_def v)
  with R show ?thesis by blast
qed

end
