(* ===== verification/Declaration_Passes.thy ===== *)
theory Declaration_Passes
  imports Example_Types Rewriter_Edits
begin

text \<open>
  The three passes that rewrite declarations before the task graph is built.
  \<open>ASTConditionUnstackVisitor.cpp\<close> takes the declarations in the headers of \<open>while\<close>, \<open>if\<close> and \<open>for\<close> out
  in front of the statement, \<open>ASTMultipleDeclSplitter.hpp\<close> gives every variable a statement of its own,
  and \<open>ASTSplitterVisitor.cpp\<close> separates the declarations from the initialisations.

  The visitors see the nodes of a function in the order of the source; a conditional that is in a header
  is not entered. The declarations in the headers of \<open>if\<close> and \<open>while\<close> are what Clang's parameters give.
\<close>

section \<open>The nodes visited\<close>

definition headerDecls :: "'t clang \<Rightarrow> 't stmt \<Rightarrow> 't stmt list" where
  "headerDecls C s =
     (case s of
        IfStmt _ _ _ _ _ \<Rightarrow> List.map_filter id [getStmtInit C s, getConditionVariableDeclStmt C s]
      | WhileStmt _ _ _ _ \<Rightarrow> List.map_filter id [getConditionVariableDeclStmt C s]
      | _ \<Rightarrow> [])"

function visitedNodes :: "'t clang \<Rightarrow> 't stmt \<Rightarrow> 't stmt list" where
  "visitedNodes C s =
     (if isIfStmt s \<and> \<not> elementsConditions (getBeginLoc s) then []
      else s # headerDecls C s @ concat (map (visitedNodes C) (children s)))"
  by pat_completeness auto
termination
  by (relation "measure (\<lambda>(C, s). size s)") (auto dest: size_children)

declare visitedNodes.simps [simp del]

definition traverseFunctions ::
    "'t clang \<Rightarrow> ('t stmt \<Rightarrow> 't edit list \<Rightarrow> 't edit list res) \<Rightarrow> string \<Rightarrow> string list \<Rightarrow> string list \<Rightarrow>
     ('t fundecl \<times> 't stmt option) list \<Rightarrow> 't edit list \<Rightarrow> 't edit list res" where
  "traverseFunctions C visit main functions functionsToIgnore unit es =
     fold_res (\<lambda>fb. fold_res visit (case snd fb of None \<Rightarrow> [] | Some b \<Rightarrow> visitedNodes C b))
       (filter (functionsConditions main functions functionsToIgnore) unit) es"

section \<open>Declarations\<close>

definition declsOf :: "'t stmt \<Rightarrow> ('t decl \<times> 't stmt option) list" where
  "declsOf d = (case d of DeclStmt _ _ ds \<Rightarrow> ds | _ \<Rightarrow> [])"

text \<open>Clang prints the declaration, as a statement of its own.\<close>

definition getCompleteVarDeclStr_pretty :: "'t clang \<Rightarrow> 't vardecl \<Rightarrow> 't stmt option \<Rightarrow> string" where
  "getCompleteVarDeclStr_pretty C v ini = getStmtAsString C (Some (DeclStmt 0 (vd_loc v) [(VarDecl v, ini)])) False"

text \<open>\<open>getSingleDecl\<close> asserts that there is one; the cast asserts that it is a variable.\<close>

definition singleName :: "'t stmt \<Rightarrow> string res" where
  "singleName d = (case declsOf d of [(VarDecl v, ini)] \<Rightarrow> Inr (vd_name v) | _ \<Rightarrow> Inl AssertFailed)"

section \<open>Declarations in headers\<close>

text \<open>The loop over the variables: the text in front, and the replacement of the statement in the header.\<close>

definition moveDecls :: "'t clang \<Rightarrow> bool \<Rightarrow> 't stmt \<Rightarrow> string \<times> 't edit list \<Rightarrow> (string \<times> 't edit list) res" where
  "moveDecls C replace d s =
     fold_res (\<lambda>(decl, ini) (SSprint, es).
       case decl of
         VarDecl v \<Rightarrow>
           if replace then bind_res (singleName d) (\<lambda>n.
             Inr (SSprint @ getCompleteVarDeclStr_pretty C v ini, es @ [ReplaceText (StmtRange d) n]))
           else Inr (SSprint @ getCompleteVarDeclStr_pretty C v ini, es)
       | OtherDecl _ _ _ \<Rightarrow> Inr (SSprint, es)) (declsOf d) s"

definition VisitWhileStmt :: "'t clang \<Rightarrow> 't stmt \<Rightarrow> 't edit list \<Rightarrow> 't edit list res" where
  "VisitWhileStmt C whileSt es =
     (case getConditionVariableDeclStmt C whileSt of
        None \<Rightarrow> Inr es
      | Some whileStCond \<Rightarrow>
          bind_res (moveDecls C True whileStCond (''{'' @ newline, es)) (\<lambda>(SSprint, es1).
            Inr (es1 @ [InsertTextAfter (BeginLoc whileSt) SSprint, InsertTextAfterToken (EndLoc whileSt) (''}'' @ newline)])))"

definition VisitIfStmt :: "'t clang \<Rightarrow> 't stmt \<Rightarrow> 't edit list \<Rightarrow> 't edit list res" where
  "VisitIfStmt C ifSt es =
     (if getConditionVariableDeclStmt C ifSt \<noteq> None \<or> getStmtInit C ifSt \<noteq> None then
        bind_res (case getStmtInit C ifSt of
            None \<Rightarrow> Inr (''{'' @ newline, es)
          | Some ifStInit \<Rightarrow>
              if isDeclStmt ifStInit then
                bind_res (moveDecls C False ifStInit (''{'' @ newline, es)) (\<lambda>(SSprint, es1).
                  Inr (SSprint, es1 @ [RemoveText (StmtRange ifStInit)]))
              else Inr (''{'' @ newline, es)) (\<lambda>s.
        bind_res (case getConditionVariableDeclStmt C ifSt of
            None \<Rightarrow> Inr s
          | Some ifStCond \<Rightarrow> moveDecls C True ifStCond s) (\<lambda>(SSprint, es2).
          Inr (es2 @ [InsertTextAfter (BeginLoc ifSt) SSprint, InsertTextAfterToken (EndLoc ifSt) (''}'' @ newline)])))
      else Inr es)"

definition VisitForStmt :: "'t clang \<Rightarrow> 't stmt \<Rightarrow> 't edit list \<Rightarrow> 't edit list res" where
  "VisitForStmt C forSt es =
     (case forSt of
        ForStmt _ _ (Some forStCond) _ _ _ \<Rightarrow>
          if isDeclStmt forStCond then
            bind_res (moveDecls C True forStCond (''{'' @ newline, es)) (\<lambda>(SSprint, es1).
              Inr (es1 @ [ReplaceText (StmtRange forStCond) '';'', InsertTextAfter (BeginLoc forSt) SSprint,
                InsertTextAfterToken (EndLoc forSt) (''}'' @ newline)]))
          else Inr es
      | _ \<Rightarrow> Inr es)"

definition conditionVisit :: "'t clang \<Rightarrow> 't stmt \<Rightarrow> 't edit list \<Rightarrow> 't edit list res" where
  "conditionVisit C s es =
     (case s of
        WhileStmt _ _ _ _ \<Rightarrow> VisitWhileStmt C s es
      | IfStmt _ _ _ _ _ \<Rightarrow> VisitIfStmt C s es
      | ForStmt _ _ _ _ _ _ \<Rightarrow> VisitForStmt C s es
      | _ \<Rightarrow> Inr es)"

section \<open>Several variables in a statement\<close>

definition VisitDeclStmt_multiple :: "'t clang \<Rightarrow> 't stmt \<Rightarrow> 't edit list \<Rightarrow> 't edit list res" where
  "VisitDeclStmt_multiple C declStmt es =
     (case declStmt of
        DeclStmt _ _ declGroup \<Rightarrow>
          if length declGroup \<noteq> 1 then
            Inr (es @ [ReplaceText (StmtRange declStmt)
              (concat (map (\<lambda>(decl, ini). case decl of VarDecl v \<Rightarrow> getCompleteVarDeclStr_pretty C v ini
                                            | OtherDecl _ _ _ \<Rightarrow> []) declGroup))])
          else Inr es
      | _ \<Rightarrow> Inr es)"

section \<open>Declaration and initialisation\<close>

definition isValidSeparation :: "'t clang \<Rightarrow> 't vardecl \<Rightarrow> bool" where
  "isValidSeparation C v1 \<longleftrightarrow>
     (isStructureOrClassType C (vd_type v1) \<longrightarrow> (\<forall>(isDefault, isDeleted) \<in> set (constructors C (vd_type v1)). \<not> (isDefault \<and> isDeleted)))"

text \<open>The style of an initialisation is not read by the function that prints the assignment.\<close>

definition varDefOf :: "'t vardecl \<Rightarrow> 't stmt option \<Rightarrow> 't varDef" where
  "varDefOf v ini = \<lparr>vdef_var = v, vdef_init = ini, vdef_style = OtherInit\<rparr>"

definition invalidRef :: "'t clang \<Rightarrow> 't \<Rightarrow> 't \<Rightarrow> 't vardecl \<Rightarrow> string" where
  "invalidRef C wrapped arg v =
     ''std::reference_wrapper<'' @ typeAsString C wrapped @ ''> '' @ vd_name v @ '' = invalid_ref<'' @ typeAsString C arg @ ''>();'' @ newline"

definition refTemporary :: "'t clang \<Rightarrow> 't \<Rightarrow> 't vardecl \<Rightarrow> 't stmt option \<Rightarrow> string" where
  "refTemporary C t v ini =
     typeAsString C t @ '' __refT_'' @ vd_name v @ ''='' @ getInitString C (varDefOf v ini) @ '';'' @ newline"

definition refAssign :: "'t vardecl \<Rightarrow> string" where
  "refAssign v = vd_name v @ ''= __refT_'' @ vd_name v @ '';'' @ newline"

text \<open>Whether the reference is bound to a value that is stored in a temporary.\<close>

definition bindsValue :: "'t clang \<Rightarrow> 't \<Rightarrow> 't stmt \<Rightarrow> bool res" where
  "bindsValue C qType e =
     (let ini = ignoreCasts C e; childrenSize = length (children ini) in
      bind_res (exprType ini) (\<lambda>t.
        Inr ((isConstQualified C qType \<and> childrenSize = 1 \<and> isCallExpr ini \<and> \<not> isReferenceQualType C t)
             \<or> childrenSize > 1 \<or> \<not> isDeclRefExpr ini)))"

definition stringVarDecl :: "'t clang \<Rightarrow> 't vardecl \<Rightarrow> 't stmt option \<Rightarrow> string \<times> string \<Rightarrow> (string \<times> string) res" where
  "stringVarDecl C v ini s =
     (case s of (SSprintDecl, SSprintInit) \<Rightarrow>
        if \<not> isValidSeparation C v then Inr (SSprintDecl @ getCompleteVarDeclStr_pretty C v ini, SSprintInit)
        else if isReferenceQualType C (vd_type v) then
          (let qType = getUnreferencedQType C (vd_type v) in
           case ini of
             None \<Rightarrow> Inl NullDeref
           | Some e \<Rightarrow> bind_res (bindsValue C qType e) (\<lambda>b.
               if b then
                 Inr (SSprintDecl @ invalidRef C qType (getUnqualifiedType C qType) v @ refTemporary C (vd_type v) v ini,
                      SSprintInit @ refAssign v)
               else Inr (SSprintDecl @ invalidRef C qType qType v, SSprintInit @ getVarDeclDefStr C (varDefOf v ini))))
        else if isConstQualified C (vd_type v) \<and> ini \<noteq> None then
          Inr (SSprintDecl @ invalidRef C (vd_type v) (getUnqualifiedType C (vd_type v)) v
                 @ refTemporary C (getLValueReferenceType C (vd_type v)) v ini,
               SSprintInit @ refAssign v)
        else Inr (SSprintDecl @ getVarDeclDeclStr C (varDefOf v ini),
                  SSprintInit @ (if ini \<noteq> None then getVarDeclDefStr C (varDefOf v ini) else [])))"

definition VisitDeclStmt_splitter :: "'t clang \<Rightarrow> 't stmt \<Rightarrow> 't edit list \<Rightarrow> 't edit list res" where
  "VisitDeclStmt_splitter C declSt es =
     (if \<not> isDeclStmt declSt \<or> isInHeaders (getBeginLoc declSt) then Inr es
      else bind_res
        (case declsOf declSt of
           [(VarDecl v, ini)] \<Rightarrow>
             (case ini of
                None \<Rightarrow> Inr (([], []), es)
              | Some e \<Rightarrow> bind_res (stringVarDecl C v ini ([], [])) (\<lambda>s. Inr (s, es @ [RemoveText (StmtRange e)])))
         | ds \<Rightarrow>
             bind_res (fold_res (\<lambda>(decl, ini) s. case decl of VarDecl v \<Rightarrow> stringVarDecl C v ini s
                                                   | OtherDecl _ _ _ \<Rightarrow> Inr s) ds ([], [])) (\<lambda>s. Inr (s, es)))
        (\<lambda>((SSprintDecl, SSprintInit), es1).
           Inr (if SSprintDecl @ SSprintInit \<noteq> []
                then es1 @ [ReplaceText (StmtRange declSt) (SSprintDecl @ SSprintInit)] else es1)))"

definition stringReferenceHandlerClass :: string where
  "stringReferenceHandlerClass =
     ''#include <functional>'' @ newline @ ''#include <optional>'' @ newline @ ''template <class T>'' @ newline
     @ ''T& invalid_ref(){'' @ newline @ ''T* ptr = nullptr;'' @ newline @ ''return (*ptr);}'' @ newline @ newline"

section \<open>The passes on a file\<close>

definition HandleTranslationUnit_condition ::
    "'t clang \<Rightarrow> string \<Rightarrow> string list \<Rightarrow> string list \<Rightarrow> ('t fundecl \<times> 't stmt option) list \<Rightarrow> 't edit list res" where
  "HandleTranslationUnit_condition C main functions functionsToIgnore unit =
     traverseFunctions C (conditionVisit C) main functions functionsToIgnore unit []"

definition HandleTranslationUnit_multiple ::
    "'t clang \<Rightarrow> string \<Rightarrow> string list \<Rightarrow> string list \<Rightarrow> ('t fundecl \<times> 't stmt option) list \<Rightarrow> 't edit list res" where
  "HandleTranslationUnit_multiple C main functions functionsToIgnore unit =
     traverseFunctions C (VisitDeclStmt_multiple C) main functions functionsToIgnore unit []"

definition HandleTranslationUnit_splitter ::
    "'t clang \<Rightarrow> string \<Rightarrow> string list \<Rightarrow> string list \<Rightarrow> ('t fundecl \<times> 't stmt option) list \<Rightarrow> 't edit list res" where
  "HandleTranslationUnit_splitter C main functions functionsToIgnore unit =
     traverseFunctions C (VisitDeclStmt_splitter C) main functions functionsToIgnore unit
       [InsertTextAfter StartOfFile stringReferenceHandlerClass]"

section \<open>When the passes return\<close>

lemma fold_res_returns_iff:
  assumes "\<And>x s. x \<in> set xs \<Longrightarrow> (\<exists>t. f x s = Inr t) \<longleftrightarrow> P x"
  shows "(\<exists>t. fold_res f xs s = Inr t) \<longleftrightarrow> (\<forall>x \<in> set xs. P x)"
  using assms
proof (induction xs arbitrary: s)
  case (Cons x xs)
  have x: "(\<exists>t. f x s = Inr t) \<longleftrightarrow> P x" by (rule Cons.prems) simp
  have IH: "(\<exists>t. fold_res f xs u = Inr t) \<longleftrightarrow> (\<forall>x \<in> set xs. P x)" for u by (rule Cons.IH) (use Cons.prems in simp)
  have "(\<exists>t. fold_res f (x # xs) s = Inr t) \<longleftrightarrow> (\<exists>u. f x s = Inr u \<and> (\<exists>t. fold_res f xs u = Inr t))"
    by (auto simp: bind_res_Inr)
  then show ?case unfolding IH using x by auto
qed simp

text \<open>A declaration statement in a header that can be replaced by a name: it declares one variable, or none.\<close>

definition movable :: "'t stmt \<Rightarrow> bool" where
  "movable d = (case declsOf d of
      [(VarDecl v, ini)] \<Rightarrow> True
    | ds \<Rightarrow> (\<forall>(decl, ini) \<in> set ds. case decl of VarDecl v \<Rightarrow> False | OtherDecl _ _ _ \<Rightarrow> True))"

lemma movable_iff:
  "movable d \<longleftrightarrow> (\<exists>n. singleName d = Inr n) \<or> (\<forall>(decl, ini) \<in> set (declsOf d). \<forall>v. decl \<noteq> VarDecl v)"
  by (auto simp: movable_def singleName_def split: list.splits prod.splits decl.splits)

lemma moveDecls_returns: "(\<exists>r. moveDecls C replace d s = Inr r) \<longleftrightarrow> (replace \<longrightarrow> movable d)"
proof -
  have "(\<exists>r. moveDecls C replace d s = Inr r)
      \<longleftrightarrow> (\<forall>(decl, ini) \<in> set (declsOf d). replace \<longrightarrow> (\<exists>n. singleName d = Inr n) \<or> (\<forall>v. decl \<noteq> VarDecl v))"
    unfolding moveDecls_def
    by (rule fold_res_returns_iff) (auto simp: bind_res_Inr split: decl.splits prod.splits)
  also have "\<dots> \<longleftrightarrow> (replace \<longrightarrow> movable d)" unfolding movable_iff by auto
  finally show ?thesis .
qed

text \<open>The declaration statements whose variables the visitor moves and replaces by their name.\<close>

definition movedDecls :: "'t clang \<Rightarrow> 't stmt \<Rightarrow> 't stmt list" where
  "movedDecls C s =
     (case s of
        WhileStmt _ _ _ _ \<Rightarrow> List.map_filter id [getConditionVariableDeclStmt C s]
      | IfStmt _ _ _ _ _ \<Rightarrow> List.map_filter id [getConditionVariableDeclStmt C s]
      | ForStmt _ _ (Some d) _ _ _ \<Rightarrow> if isDeclStmt d then [d] else []
      | _ \<Rightarrow> [])"

lemma bind_returns_iff:
  "(\<exists>t. bind_res r f = Inr t) \<longleftrightarrow> (\<exists>a. r = Inr a \<and> (\<exists>t. f a = Inr t))"
  by (auto simp: bind_res_Inr)

lemma conditionVisit_returns: "(\<exists>es'. conditionVisit C s es = Inr es') \<longleftrightarrow> (\<forall>d \<in> set (movedDecls C s). movable d)"
proof -
  have w: "(\<exists>es'. VisitWhileStmt C s es = Inr es') \<longleftrightarrow> (\<forall>d. getConditionVariableDeclStmt C s = Some d \<longrightarrow> movable d)"
  proof (cases "getConditionVariableDeclStmt C s")
    case (Some d)
    have "(\<exists>es'. VisitWhileStmt C s es = Inr es') \<longleftrightarrow> (\<exists>r. moveDecls C True d (''{'' @ newline, es) = Inr r)"
      unfolding VisitWhileStmt_def Some option.case bind_returns_iff by (simp add: split_beta)
    then show ?thesis unfolding moveDecls_returns using Some by simp
  qed (simp add: VisitWhileStmt_def)
  have i: "(\<exists>es'. VisitIfStmt C s es = Inr es') \<longleftrightarrow> (\<forall>d. getConditionVariableDeclStmt C s = Some d \<longrightarrow> movable d)"
  proof (cases "getConditionVariableDeclStmt C s \<noteq> None \<or> getStmtInit C s \<noteq> None")
    case True
    let ?first = "case getStmtInit C s of None \<Rightarrow> Inr (''{'' @ newline, es)
          | Some ifStInit \<Rightarrow>
              if isDeclStmt ifStInit then
                bind_res (moveDecls C False ifStInit (''{'' @ newline, es)) (\<lambda>(SSprint, es1).
                  Inr (SSprint, es1 @ [RemoveText (StmtRange ifStInit)]))
              else Inr (''{'' @ newline, es)"
    have "\<exists>r. ?first = Inr r"
    proof (cases "getStmtInit C s")
      case (Some d)
      obtain r where "moveDecls C False d (''{'' @ newline, es) = Inr r" using moveDecls_returns [of C False d] by blast
      then show ?thesis using Some by (simp add: split_beta)
    qed simp
    then obtain r where r: "?first = Inr r" by blast
    have "(\<exists>es'. VisitIfStmt C s es = Inr es')
        \<longleftrightarrow> (\<exists>q. (case getConditionVariableDeclStmt C s of None \<Rightarrow> Inr r | Some d \<Rightarrow> moveDecls C True d r) = Inr q)"
      unfolding VisitIfStmt_def if_P [OF True] r bind_res_simps bind_returns_iff by (simp add: split_beta)
    then show ?thesis using moveDecls_returns [of C True] by (cases "getConditionVariableDeclStmt C s") simp_all
  qed (simp add: VisitIfStmt_def)
  have f: "(\<exists>es'. VisitForStmt C (ForStmt j l ini cn inc b) es = Inr es')
      \<longleftrightarrow> (\<forall>d. ini = Some d \<and> isDeclStmt d \<longrightarrow> movable d)" for j l ini cn inc b
  proof (cases "\<exists>d. ini = Some d \<and> isDeclStmt d")
    case True
    then obtain d where d: "ini = Some d" "isDeclStmt d" by blast
    have "(\<exists>es'. VisitForStmt C (ForStmt j l ini cn inc b) es = Inr es') \<longleftrightarrow> (\<exists>r. moveDecls C True d (''{'' @ newline, es) = Inr r)"
      unfolding VisitForStmt_def d stmt.case option.case if_P [OF d(2)] bind_returns_iff by (simp add: split_beta)
    then show ?thesis unfolding moveDecls_returns using d by simp
  next
    case False
    then show ?thesis by (cases ini) (simp_all add: VisitForStmt_def)
  qed
  show ?thesis using w i f
    by (cases s) (auto simp: conditionVisit_def movedDecls_def List.map_filter_def split: option.splits)
qed

text \<open>
  C30: the pass on the headers returns exactly when no header of the functions chosen declares several names
  with a variable among them: the loop \<open>for (int i = 0, j = 0; ...)\<close> stops it.
\<close>

theorem condition_pass_returns_iff:
  "(\<exists>es. HandleTranslationUnit_condition C main functions functionsToIgnore unit = Inr es) \<longleftrightarrow>
     (\<forall>fb \<in> set (filter (functionsConditions main functions functionsToIgnore) unit).
        \<forall>s \<in> set (case snd fb of None \<Rightarrow> [] | Some b \<Rightarrow> visitedNodes C b). \<forall>d \<in> set (movedDecls C s). movable d)"
  unfolding HandleTranslationUnit_condition_def traverseFunctions_def
  by (intro fold_res_returns_iff conditionVisit_returns)

definition ex_header_for :: "ex_type stmt" where
  "ex_header_for = ForStmt 5 (ex_at 5) (Some (DeclStmt 6 (ex_at 6) [(VarDecl (ex_decl 1 IntT), Some (ex_literal 0)),
     (VarDecl (ex_decl 2 IntT), Some (ex_literal 0))])) None None (CompoundStmt 7 (ex_at 7) [])"

lemma condition_pass_returns_iff_witness:
  "\<not> (\<exists>es. HandleTranslationUnit_condition ex_clang ''main'' [] []
     [(\<lparr>fd_canonical = 1, fd_name = ''f'', fd_params = [], fd_loc = ex_at 0, fd_isConst = False, fd_returnType = IntT, fd_context = 0\<rparr>,
       Some (CompoundStmt 1 (ex_at 1) [ex_header_for]))] = Inr es)"
  unfolding condition_pass_returns_iff by code_simp

section \<open>Statements that lose their meaning\<close>

text \<open>A statement that declares several types and no variable is replaced by nothing.\<close>

lemma several_types_removed:
  assumes "length ds \<noteq> 1" and "\<forall>(decl, ini) \<in> set ds. \<forall>v. decl \<noteq> VarDecl v"
  shows "VisitDeclStmt_multiple C (DeclStmt i l ds) es = Inr (es @ [ReplaceText (StmtRange (DeclStmt i l ds)) []])"
proof -
  have "concat (map (\<lambda>(decl, ini). case decl of VarDecl v \<Rightarrow> getCompleteVarDeclStr_pretty C v ini | OtherDecl _ _ _ \<Rightarrow> []) ds) = []"
    using assms(2) by (fastforce split: decl.splits)
  with assms(1) show ?thesis by (simp add: VisitDeclStmt_multiple_def)
qed

text \<open>The initialiser of a variable in the header of a \<open>while\<close> is in front of the loop, and in it no more.\<close>

lemma while_initialiser_hoisted:
  assumes "getConditionVariableDeclStmt C (WhileStmt i l c b) = Some (DeclStmt j k [(VarDecl v, ini)])"
  shows "VisitWhileStmt C (WhileStmt i l c b) es = Inr (es @
    [ReplaceText (StmtRange (DeclStmt j k [(VarDecl v, ini)])) (vd_name v),
     InsertTextAfter (BeginLoc (WhileStmt i l c b)) (''{'' @ newline @ getCompleteVarDeclStr_pretty C v ini),
     InsertTextAfterToken (EndLoc (WhileStmt i l c b)) (''}'' @ newline)])"
  using assms by (simp add: VisitWhileStmt_def moveDecls_def declsOf_def singleName_def)

text \<open>
  The declaration of a variable of a plain type is its type and its name: the storage class of a \<open>static\<close>
  variable and the bounds of an array, which the language puts behind the name, are not printed.
\<close>

lemma plain_variable_split:
  assumes "isValidSeparation C v" and "\<not> isReferenceQualType C (vd_type v)" and "\<not> isConstQualified C (vd_type v)"
    and "\<not> isInHeaders l" and "exprKind e \<noteq> Some CXXConstructExpr"
  shows "VisitDeclStmt_splitter C (DeclStmt i l [(VarDecl v, Some e)]) es = Inr (es @
    [RemoveText (StmtRange e), ReplaceText (StmtRange (DeclStmt i l [(VarDecl v, Some e)]))
       (typeAsString C (vd_type v) @ '' '' @ vd_name v @ '';'' @ newline @ vd_name v @ '' = '' @ printPretty C e @ '';'' @ newline)])"
  using assms
  by (simp add: VisitDeclStmt_splitter_def declsOf_def isDeclStmt_def stringVarDecl_def getVarDeclDeclStr_def getVarDeclDefStr_def
      varDefOf_def getInitString_def getExprAsString_def)

end
