(* ===== verification/Function_Passes.thy ===== *)
theory Function_Passes
  imports Goto_Transfo Unstack Declaration_Passes Code_Modification
begin

text \<open>
  The passes on whole functions. \<open>DuplicateFunctions\<close> turns each function into its sequential version,
  named with the suffix \<open>_apacSeq\<close>, and prints the function again behind it. \<open>MainParallel\<close> opens the
  parallel region in the first conditional of the main function. \<open>ApacDepth\<close> is a pass of its own that
  counts the depth of recursive calls; the command line tool does not run it.
\<close>

section \<open>Sequential versions\<close>

text \<open>
  What the file declares, as far as the pass sees it: constructors and destructors are not filtered by the
  names chosen, and the calls in the initialiser of a variable are visited, too.
\<close>

datatype 't dupDecl =
  DupFunction "'t fundecl \<times> 't stmt option"
| DupConstructor "'t fundecl \<times> 't stmt option"
| DupVar "'t vardecl" "'t stmt option"

text \<open>The head of a function: its parameters are printed with their types and names.\<close>

definition parameterList :: "'t clang \<Rightarrow> 't fundecl \<Rightarrow> string" where
  "parameterList C f = ''('' @ join '', '' (map (\<lambda>p. typeAsString C (vd_type p) @ '' '' @ vd_name p) (fd_params f)) @ '')''"

definition seqName :: "string \<Rightarrow> string" where
  "seqName n = n @ ''_apacSeq''"

definition duplicateText :: "'t clang \<Rightarrow> 't fundecl \<times> 't stmt option \<Rightarrow> string" where
  "duplicateText C fb =
     typeAsString C (fd_returnType (fst fb)) @ '' '' @ fd_name (fst fb) @ parameterList C (fst fb)
     @ getStmtAsStringFull C (snd fb)"

definition addDuplicateFunctions :: "'t clang \<Rightarrow> ('t fundecl \<times> 't stmt option) list \<Rightarrow> 't edit list" where
  "addDuplicateFunctions C functionsDecl =
     map (\<lambda>fb. InsertTextAfterToken (FunctionEnd (fst fb)) (duplicateText C fb)) functionsDecl"

definition VisitFunctionDecl_rename :: "'t clang \<Rightarrow> 't fundecl \<Rightarrow> 't edit" where
  "VisitFunctionDecl_rename C f =
     ReplaceText (DeclaratorRange f) (typeAsString C (fd_returnType f) @ '' '' @ seqName (fd_name f) @ parameterList C f)"

text \<open>The calls of a function or an initialiser in the order they are visited.\<close>

function callsIn :: "'t clang \<Rightarrow> 't stmt \<Rightarrow> 't stmt list" where
  "callsIn C s =
     (if isIfStmt s \<and> \<not> elementsConditions (getBeginLoc s) then []
      else if isOperatorCall s \<and> (\<not> elementsConditions (getBeginLoc s) \<or> assignsResult C s) then []
      else (if isCallExpr s then [s] else []) @ concat (map (callsIn C) (children s)))"
  by pat_completeness auto
termination
  by (relation "measure (\<lambda>(C, s). size s)") (auto dest: size_children)

declare callsIn.simps [simp del]

definition VisitCallExpr_rename :: "'t fundecl option \<Rightarrow> 't stmt \<Rightarrow> 't edit list" where
  "VisitCallExpr_rename currentFunctionDecl cExpr =
     (case (callCallee cExpr, currentFunctionDecl) of
        (Some (Some callee), Some current) \<Rightarrow>
          if fd_name current = fd_name callee
          then [ReplaceText (CharsFrom (getBeginLoc cExpr) (length (fd_name callee))) (seqName (fd_name callee))]
          else []
      | _ \<Rightarrow> [])"

text \<open>The function last visited and the edits.\<close>

definition TraverseDecl_rename ::
    "'t clang \<Rightarrow> string \<Rightarrow> string list \<Rightarrow> string list \<Rightarrow> 't dupDecl \<Rightarrow> 't fundecl option \<times> 't edit list \<Rightarrow>
     't fundecl option \<times> 't edit list" where
  "TraverseDecl_rename C main functions functionsToIgnore d s =
     (case s of (current, es) \<Rightarrow>
        (let visit = (\<lambda>fb. (Some (fst fb), es @ VisitFunctionDecl_rename C (fst fb)
               # concat (map (VisitCallExpr_rename (Some (fst fb))) (case snd fb of None \<Rightarrow> [] | Some b \<Rightarrow> callsIn C b)))) in
         case d of
           DupFunction fb \<Rightarrow> if functionsConditions main functions functionsToIgnore fb then visit fb else s
         | DupConstructor fb \<Rightarrow> if elementsConditions (fd_loc (fst fb)) then visit fb else s
         | DupVar x ini \<Rightarrow>
             if elementsConditions (vd_loc x)
             then (current, es @ concat (map (VisitCallExpr_rename current) (case ini of None \<Rightarrow> [] | Some e \<Rightarrow> callsIn C e)))
             else s))"

definition duplicated :: "string \<Rightarrow> string list \<Rightarrow> string list \<Rightarrow> 't dupDecl list \<Rightarrow> ('t fundecl \<times> 't stmt option) list" where
  "duplicated main functions functionsToIgnore unit =
     concat (map (\<lambda>d. case d of
         DupFunction fb \<Rightarrow> if functionsConditions main functions functionsToIgnore fb then [fb] else []
       | DupConstructor fb \<Rightarrow> if elementsConditions (fd_loc (fst fb)) then [fb] else []
       | DupVar x ini \<Rightarrow> []) unit)"

definition HandleTranslationUnit_duplicate ::
    "'t clang \<Rightarrow> string \<Rightarrow> string list \<Rightarrow> string list \<Rightarrow> 't dupDecl list \<Rightarrow> 't edit list" where
  "HandleTranslationUnit_duplicate C main functions functionsToIgnore unit =
     snd (fold (TraverseDecl_rename C main functions functionsToIgnore) unit
       (None, addDuplicateFunctions C (duplicated main functions functionsToIgnore unit)))"

section \<open>The parallel region\<close>

record 't mainParaVisitor =
  firstValidFunctionIf :: "'t stmt option"
  mainFuncReturnStmt :: "'t stmt option"
  resultWrapperDecl :: "'t stmt option"
  mainFuncDecl :: "'t fundecl option"

definition mainParaVisitor_new :: "'t mainParaVisitor" where
  "mainParaVisitor_new =
     \<lparr>firstValidFunctionIf = None, mainFuncReturnStmt = None, resultWrapperDecl = None, mainFuncDecl = None\<rparr>"

definition mainParaVisit :: "'t stmt \<Rightarrow> 't mainParaVisitor \<Rightarrow> 't mainParaVisitor" where
  "mainParaVisit s v =
     (if isDeclStmt s then
        (if \<not> isInHeaders (getBeginLoc s) \<and> isResultDecl s then v\<lparr>resultWrapperDecl := Some s\<rparr> else v)
      else if isIfStmt s then
        (if elementsConditions (getBeginLoc s) \<and> firstValidFunctionIf v = None then v\<lparr>firstValidFunctionIf := Some s\<rparr> else v)
      else if isReturnStmt s then
        (if isInHeaders (getBeginLoc s) then v else v\<lparr>mainFuncReturnStmt := Some s\<rparr>)
      else v)"

text \<open>Of the functions only the main one is traversed; the methods that are chosen all are.\<close>

definition TraverseDecl_mainPara ::
    "'t clang \<Rightarrow> string \<Rightarrow> string list \<Rightarrow> string list \<Rightarrow> 't unitDecl \<Rightarrow> 't mainParaVisitor \<Rightarrow> 't mainParaVisitor" where
  "TraverseDecl_mainPara C main functions functionsToIgnore d v =
     (let visit = (\<lambda>fb. fold mainParaVisit (case snd fb of None \<Rightarrow> [] | Some b \<Rightarrow> visitedNodes C b) v) in
      case d of
        UnitFunction fb \<Rightarrow>
          if functionsConditions main functions functionsToIgnore fb \<and> fd_name (fst fb) = main
          then (visit fb)\<lparr>mainFuncDecl := Some (fst fb)\<rparr> else v
      | UnitMethod fb \<Rightarrow> if functionsConditions main functions functionsToIgnore fb then visit fb else v
      | UnitVar x ini \<Rightarrow> v)"

definition parallelText :: string where
  "parallelText = newline @ ''#pragma omp parallel num_threads(nb_cores)'' @ newline @ '' #pragma omp master'' @ newline @ ''{''"

definition addParaZone :: "'t mainParaVisitor \<Rightarrow> 't edit list res" where
  "addParaZone v =
     (case mainFuncDecl v of
        None \<Rightarrow> Inr []
      | Some f \<Rightarrow>
          (case firstValidFunctionIf v of
             Some (IfStmt i l c t e) \<Rightarrow>
               Inr [InsertTextAfterToken (BeginLoc t) parallelText, InsertTextBefore (EndLoc t) (''}'' @ newline)]
           | _ \<Rightarrow> Inl NullDeref))"

definition HandleTranslationUnit_mainPara ::
    "'t clang \<Rightarrow> string \<Rightarrow> string list \<Rightarrow> string list \<Rightarrow> 't unitDecl list \<Rightarrow> 't edit list res" where
  "HandleTranslationUnit_mainPara C main functions functionsToIgnore unit =
     addParaZone (fold (TraverseDecl_mainPara C main functions functionsToIgnore) unit mainParaVisitor_new)"

section \<open>The depth of recursive calls\<close>

text \<open>
  All the children of a node, the null ones included: a \<open>for\<close> has five, and its second one, the variable
  of its condition, is null unless the condition declares one.
\<close>

definition nullableChildren :: "'t stmt \<Rightarrow> 't stmt option list" where
  "nullableChildren s =
     (case s of
        ForStmt _ _ ini cond inc body \<Rightarrow> [ini, None, cond, inc, Some body]
      | _ \<Rightarrow> map Some (children s))"

definition isRecCall :: "string \<Rightarrow> 't stmt \<Rightarrow> bool" where
  "isRecCall name s = (case callCallee s of Some (Some f) \<Rightarrow> fd_name f = name | _ \<Rightarrow> False)"

definition weightOpt :: "'t stmt option \<Rightarrow> nat" where
  "weightOpt x = (case x of None \<Rightarrow> 1 | Some s \<Rightarrow> 5 * weight s)"

lemma nullableChildren_other: "\<not> isForStmt s \<Longrightarrow> nullableChildren s = map Some (children s)"
  by (cases s) (simp_all add: nullableChildren_def isForStmt_def)

lemma weight_nullable: "sum_list (map weightOpt (nullableChildren s)) < 5 * weight s"
proof (cases "isForStmt s")
  case True
  then obtain i l a c n b where s: "s = ForStmt i l a c n b" by (cases s) (simp_all add: isForStmt_def)
  have w: "sum_list (map weight (children s)) < weight s" by (rule weight_children)
  show ?thesis using w
    by (cases a; cases c; cases n) (auto simp: s nullableChildren_def weightOpt_def List.map_filter_def)
next
  case False
  have "sum_list (map weightOpt (map Some xs)) = 5 * sum_list (map weight xs)" for xs :: "'a stmt list"
    by (induction xs) (simp_all add: weightOpt_def)
  then show ?thesis using weight_children [of s] by (simp add: nullableChildren_other [OF False])
qed

function lookForRecCall_loop :: "string \<Rightarrow> 't stmt option list \<Rightarrow> bool res" where
  "lookForRecCall_loop name [] = Inr False"
| "lookForRecCall_loop name (None # stack) = Inl NullDeref"
| "lookForRecCall_loop name (Some current # stack) =
     (if isCallExpr current then (if isRecCall name current then Inr True else lookForRecCall_loop name stack)
      else lookForRecCall_loop name (rev (nullableChildren current) @ stack))"
  by pat_completeness auto
termination
proof (relation "measure (\<lambda>(n, q). sum_list (map weightOpt q))", goal_cases)
  case (2 name current stack)
  then show ?case by (simp add: weightOpt_def weight_def)
next
  case (3 name current stack)
  have "sum_list (map weightOpt (rev xs)) = sum_list (map weightOpt xs)" for xs :: "'a stmt option list"
    by (simp add: rev_map [symmetric])
  then show ?case using weight_nullable [of current] by (simp add: weightOpt_def)
qed simp

definition lookForRecCall :: "string \<Rightarrow> 't stmt \<Rightarrow> bool res" where
  "lookForRecCall name st = lookForRecCall_loop name [Some st]"

text \<open>
  The statements to handle one after the other. Those of the branches of a conditional are the children of
  the branches; a null child is skipped.
\<close>

function handleStmts :: "string \<Rightarrow> 't stmt option list \<Rightarrow> 't stmt list \<Rightarrow> 't stmt list res" where
  "handleStmts name [] recursiveCallsStatements = Inr recursiveCallsStatements"
| "handleStmts name (None # sts) recursiveCallsStatements = handleStmts name sts recursiveCallsStatements"
| "handleStmts name (Some st # sts) recursiveCallsStatements =
     (case st of
        IfStmt i l c t e \<Rightarrow>
          handleStmts name (nullableChildren t @ (case e of None \<Rightarrow> [] | Some s \<Rightarrow> nullableChildren s) @ sts) recursiveCallsStatements
      | _ \<Rightarrow> bind_res (lookForRecCall name st) (\<lambda>b.
               handleStmts name sts (if b then recursiveCallsStatements @ [st] else recursiveCallsStatements)))"
  by pat_completeness auto
termination
proof (relation "measure (\<lambda>(n, q, r). sum_list (map weightOpt q))")
  fix name :: string and st i l c t and e :: "'t stmt option" and sts r
  assume st: "st = IfStmt i l c t e"
  have w: "weight t + (case e of None \<Rightarrow> 0 | Some s \<Rightarrow> weight s) < weight st"
    using weight_children [of st] by (cases e) (simp_all add: st)
  have "sum_list (map weightOpt (case e of None \<Rightarrow> [] | Some s \<Rightarrow> nullableChildren s))
      \<le> 5 * (case e of None \<Rightarrow> 0 | Some s \<Rightarrow> weight s)"
    using weight_nullable by (cases e) (auto intro: less_imp_le)
  then show "((name, nullableChildren t @ (case e of None \<Rightarrow> [] | Some s \<Rightarrow> nullableChildren s) @ sts, r), name, Some st # sts, r)
      \<in> measure (\<lambda>(n, q, r). sum_list (map weightOpt q))"
    using weight_nullable [of t] w by (simp add: weightOpt_def)
qed (auto simp: weightOpt_def weight_def)

record 't depthAddVisitor =
  functionsWithCalls :: "('t fundecl \<times> 't stmt option) list"
  recursiveCalls :: "'t stmt list"

definition TraverseFunctionDecl_depthAdd ::
    "string \<Rightarrow> string list \<Rightarrow> string list \<Rightarrow> 't fundecl \<times> 't stmt option \<Rightarrow> 't depthAddVisitor \<Rightarrow> 't depthAddVisitor res" where
  "TraverseFunctionDecl_depthAdd main functions functionsToIgnore f v =
     (if isInHeaders (fd_loc (fst f)) then Inr v
      else if isToParseFunction (fd_name (fst f)) functions functionsToIgnore main then
        bind_res (handleStmts (fd_name (fst f)) (case snd f of None \<Rightarrow> [] | Some b \<Rightarrow> nullableChildren b) (recursiveCalls v)) (\<lambda>rs.
          Inr \<lparr>functionsWithCalls = (if length rs = length (recursiveCalls v) then functionsWithCalls v else functionsWithCalls v @ [f]),
               recursiveCalls = rs\<rparr>)
      else Inr v)"

definition addInitApacPart_depth :: "srcloc \<Rightarrow> 't fundecl option \<Rightarrow> 't edit list" where
  "addInitApacPart_depth beginCodeLoc firstFunction =
     (case firstFunction of None \<Rightarrow> [] | Some f \<Rightarrow> [InsertTextBefore (AtLoc (fd_loc f)) depthText])
     @ [InsertTextBefore (AtLoc beginCodeLoc) includeText]"

text \<open>The body of a function in the list is there, since a recursive call was found in it.\<close>

definition addFunctionDepth_depth :: "'t fundecl \<times> 't stmt option \<Rightarrow> 't edit list res" where
  "addFunctionDepth_depth f =
     (case snd f of
        None \<Rightarrow> Inl NullDeref
      | Some body \<Rightarrow>
          Inr [InsertTextAfterToken (BeginLoc body)
                 (''int __apac_depth_local = __apac_depth;'' @ newline
                  @ ''int __apac_depth_ok = (__apac_depth_local < __apac_depth_max);'' @ newline @ ''if(__apac_depth_ok) {'' @ newline),
               InsertTextBefore (EndLoc body)
                 (''}'' @ newline @ ''else {'' @ newline @ ''return '' @ seqName (fd_name (fst f)) @ ''('' @ argumentNames (fst f)
                  @ '');'' @ newline @ ''}'' @ newline)])"

definition incrementFunctionDepth :: "'t stmt list \<Rightarrow> 't edit list" where
  "incrementFunctionDepth placesToPlaceIncrement =
     map (\<lambda>st. InsertTextBefore (BeginLoc st) (''__apac_depth = __apac_depth_local + 1;'' @ newline)) placesToPlaceIncrement"

definition modifyCode_depth :: "srcloc \<Rightarrow> 't depthAddVisitor \<Rightarrow> 't edit list res" where
  "modifyCode_depth beginCodeLoc v =
     bind_res (map_res addFunctionDepth_depth (functionsWithCalls v)) (\<lambda>ess.
       Inr (addInitApacPart_depth beginCodeLoc (case functionsWithCalls v of [] \<Rightarrow> None | f # _ \<Rightarrow> Some (fst f))
         @ concat ess @ incrementFunctionDepth (recursiveCalls v)))"

definition HandleTranslationUnit_depth ::
    "string \<Rightarrow> string list \<Rightarrow> string list \<Rightarrow> srcloc \<Rightarrow> ('t fundecl \<times> 't stmt option) list \<Rightarrow> 't edit list res" where
  "HandleTranslationUnit_depth main functions functionsToIgnore codeBeginLoc unit =
     bind_res (fold_res (TraverseFunctionDecl_depthAdd main functions functionsToIgnore) unit
         \<lparr>functionsWithCalls = [], recursiveCalls = []\<rparr>) (modifyCode_depth codeBeginLoc)"

section \<open>Properties\<close>

text \<open>A function that ends in the suffix is skipped by every pass.\<close>

lemma contains_suffix: "contains pat (s @ pat)"
  by (induction s) (cases pat; simp)+

lemma sequential_version_skipped: "\<not> isToParseFunction (seqName n) functionsToParse functionsToIgnore main"
  by (simp add: isToParseFunction_def seqName_def contains_suffix)

lemma recursive_fold_functions:
  "fold (TraverseDecl_rename C main fns ign) (map DupFunction fbs) (cur, es)
     = (case filter (functionsConditions main fns ign) fbs of [] \<Rightarrow> cur | c # cs \<Rightarrow> Some (fst (last (c # cs))),
        es @ concat (map (\<lambda>fb. VisitFunctionDecl_rename C (fst fb)
          # concat (map (VisitCallExpr_rename (Some (fst fb))) (case snd fb of None \<Rightarrow> [] | Some b \<Rightarrow> callsIn C b)))
          (filter (functionsConditions main fns ign) fbs)))"
  by (induction fbs arbitrary: cur es) (auto simp: TraverseDecl_rename_def Let_def split: list.splits)

definition renames :: "'t fundecl \<Rightarrow> 't stmt \<Rightarrow> 't edit list" where
  "renames f c = [ReplaceText (CharsFrom (getBeginLoc c) (length (fd_name f))) (seqName (fd_name f))]"


lemma nullableChildren_children: "Some s \<in> set (nullableChildren c) \<Longrightarrow> s \<in> set (children c)"
  by (cases c) (auto simp: nullableChildren_def List.map_filter_simps split: option.splits)

lemma lookForRecCall_null:
  "None \<in> set st \<Longrightarrow> \<forall>s. Some s \<in> set st \<longrightarrow> (\<forall>x \<in> set (nodesOf s). \<not> isRecCall name x) \<Longrightarrow>
     lookForRecCall_loop name st = Inl NullDeref"
proof (induction name st rule: lookForRecCall_loop.induct)
  case (3 name current stack)
  have n: "None \<in> set stack" using 3(3) by simp
  show ?case
  proof (cases "isCallExpr current")
    case True
    have "\<not> isRecCall name current" using 3(4) nodesOf_self by auto
    moreover have "lookForRecCall_loop name stack = Inl NullDeref" by (rule 3(1) [OF True]) (use calculation n 3(4) in auto)
    ultimately show ?thesis using True by simp
  next
    case False
    have ch: "s \<in> set (children current)" if "Some s \<in> set (nullableChildren current)" for s
      using that by (rule nullableChildren_children)
    have "\<not> isRecCall name x" if "Some s \<in> set (rev (nullableChildren current) @ stack)" "x \<in> set (nodesOf s)" for s x
    proof (cases "Some s \<in> set stack")
      case True
      then show ?thesis using 3(4) that(2) by simp
    next
      case False
      then have "set (nodesOf s) \<subseteq> set (nodesOf current)" using that(1) ch nodesOf_child [of s current] by simp
      then show ?thesis using 3(4) that(2) by auto
    qed
    then have "\<forall>s. Some s \<in> set (rev (nullableChildren current) @ stack) \<longrightarrow> (\<forall>x \<in> set (nodesOf s). \<not> isRecCall name x)" by blast
    with 3(2) [OF False] n False show ?thesis by simp
  qed
qed simp_all

text \<open>
  The search for recursive calls of the depth pass dereferences a null pointer at every \<open>for\<close> loop with
  no recursive call in it: the variable of its condition is a null child.
\<close>

lemma depth_for_without_call:
  assumes "\<forall>x \<in> set (nodesOf (ForStmt i l ini cn inc b)). \<not> isRecCall name x"
  shows "handleStmts name (Some (ForStmt i l ini cn inc b) # sts) rs = Inl NullDeref"
proof -
  let ?f = "ForStmt i l ini cn inc b"
  have ch: "s \<in> set (children ?f)" if "Some s \<in> set (nullableChildren ?f)" for s
    using that by (rule nullableChildren_children)
  have "lookForRecCall_loop name (rev (nullableChildren ?f)) = Inl NullDeref"
    by (rule lookForRecCall_null) (use assms ch nodesOf_child [of _ ?f] in \<open>auto simp: nullableChildren_def\<close>)
  then have "lookForRecCall name ?f = Inl NullDeref" by (simp add: lookForRecCall_def isCallExpr_def callCallee_def)
  then show ?thesis by simp
qed

lemma depth_for_without_call_witness:
  "handleStmts ''f'' [Some (ForStmt 1 (ex_at 1) None (Some (ex_use 2 1 IntT)) None (CompoundStmt 3 (ex_at 3) []))] [] = Inl NullDeref"
proof -
  have "\<forall>x \<in> set (nodesOf (ForStmt 1 (ex_at 1) None (Some (ex_use 2 1 IntT)) None (CompoundStmt 3 (ex_at 3) []))). \<not> isRecCall ''f'' x"
    by code_simp
  then show ?thesis by (rule depth_for_without_call)
qed

section \<open>When the parallel region is opened\<close>

definition visitedIf :: "'t stmt \<Rightarrow> bool" where
  "visitedIf s \<longleftrightarrow> isIfStmt s \<and> elementsConditions (getBeginLoc s)"

lemma fold_mainParaVisit:
  "firstValidFunctionIf (fold mainParaVisit ns v) = (case firstValidFunctionIf v of Some s \<Rightarrow> Some s | None \<Rightarrow> find visitedIf ns)
   \<and> mainFuncDecl (fold mainParaVisit ns v) = mainFuncDecl v"
proof (induction ns arbitrary: v)
  case (Cons s ns)
  have "isIfStmt s \<Longrightarrow> \<not> isDeclStmt s" by (cases s) (simp_all add: isIfStmt_def isDeclStmt_def)
  then have "firstValidFunctionIf (mainParaVisit s v)
      = (case firstValidFunctionIf v of Some t \<Rightarrow> Some t | None \<Rightarrow> if visitedIf s then Some s else None)"
    "mainFuncDecl (mainParaVisit s v) = mainFuncDecl v"
    by (auto simp: mainParaVisit_def visitedIf_def split: option.splits)
  with Cons [of "mainParaVisit s v"] show ?case by (auto split: option.splits)
qed (simp split: option.splits)

text \<open>The main function among those of a file.\<close>

definition isMain :: "string \<Rightarrow> string list \<Rightarrow> string list \<Rightarrow> 't fundecl \<times> 't stmt option \<Rightarrow> bool" where
  "isMain main fns ign fb \<longleftrightarrow> functionsConditions main fns ign fb \<and> fd_name (fst fb) = main"

lemma fold_TraverseDecl_mainPara:
  assumes "v' = fold (TraverseDecl_mainPara C main fns ign) (map UnitFunction fbs) v"
  shows "(mainFuncDecl v' \<noteq> None \<longleftrightarrow> mainFuncDecl v \<noteq> None \<or> (\<exists>fb \<in> set fbs. isMain main fns ign fb))
    \<and> firstValidFunctionIf v' = (case firstValidFunctionIf v of Some s \<Rightarrow> Some s
        | None \<Rightarrow> find visitedIf (concat (map (\<lambda>fb. case snd fb of None \<Rightarrow> [] | Some b \<Rightarrow> visitedNodes C b) (filter (isMain main fns ign) fbs))))"
  using assms
proof (induction fbs arbitrary: v)
  case (Cons fb fbs)
  let ?w = "TraverseDecl_mainPara C main fns ign (UnitFunction fb) v"
  have app: "find P (xs @ ys) = (case find P xs of None \<Rightarrow> find P ys | Some x \<Rightarrow> Some x)" for P and xs ys :: "'a stmt list"
    by (induction xs) simp_all
  note IH = Cons.IH [of ?w]
  show ?case
  proof (cases "isMain main fns ign fb")
    case True
    have w: "mainFuncDecl ?w = Some (fst fb)"
      "firstValidFunctionIf ?w = (case firstValidFunctionIf v of Some s \<Rightarrow> Some s
         | None \<Rightarrow> find visitedIf (case snd fb of None \<Rightarrow> [] | Some b \<Rightarrow> visitedNodes C b))"
      using True fold_mainParaVisit [of "case snd fb of None \<Rightarrow> [] | Some b \<Rightarrow> visitedNodes C b" v]
      by (simp_all add: TraverseDecl_mainPara_def isMain_def Let_def)
    show ?thesis using IH Cons.prems w True by (simp add: app split: option.splits)
  next
    case False
    then have "?w = v" unfolding TraverseDecl_mainPara_def isMain_def Let_def unitDecl.case by (rule if_not_P)
    then show ?thesis using IH Cons.prems False by (simp cong: option.case_cong)
  qed
qed (simp split: option.splits)



end
