(* ===== verification/Pass_Balance.thy ===== *)
theory Pass_Balance
  imports Goto_Transfo Function_Passes
begin

text \<open>
  The braces the passes around the task graph insert. Two insertions at the begin and the end of one
  statement open and close a block, and every other text has its own braces closed. What is assumed is
  that the text Clang prints for a node is well bracketed and that types and names have no braces.
\<close>

section \<open>Edits\<close>

fun editText :: "'t edit \<Rightarrow> string" where
  "editText (ReplaceText r t) = t"
| "editText (RemoveText r) = []"
| "editText (InsertText p t) = t"
| "editText (InsertTextBefore p t) = t"
| "editText (InsertTextAfter p t) = t"
| "editText (InsertTextAfterToken p t) = t"

fun editPlace :: "'t edit \<Rightarrow> 't place option" where
  "editPlace (ReplaceText r t) = None"
| "editPlace (RemoveText r) = None"
| "editPlace (InsertText p t) = Some p"
| "editPlace (InsertTextBefore p t) = Some p"
| "editPlace (InsertTextAfter p t) = Some p"
| "editPlace (InsertTextAfterToken p t) = Some p"

definition closes :: "string \<Rightarrow> bool" where
  "closes u \<longleftrightarrow> nest 1 u = Some 0"

lemma around_bracketed:
  assumes "opens 1 t" and "bracketed b" and "closes u"
  shows "bracketed (t @ b @ u)"
proof -
  have "opens 1 (t @ b)" using opens_append [OF assms(1), of 0 b] assms(2) by (simp add: bracketed_opens)
  then have "nest 0 (t @ b) = Some (Suc 0)" by (simp add: opens_def)
  moreover have "nest (Suc 0) u = Some 0" using assms(3) by (simp add: closes_def)
  ultimately have "nest 0 ((t @ b) @ u) = Some 0" by (simp only: nest_append [of 0 "t @ b" u] option.case)
  then show ?thesis by (simp add: bracketed_def)
qed

inductive bracketedEdits :: "'t edit list \<Rightarrow> bool" where
  no_edit: "bracketedEdits []"
| single_edit: "bracketedEdits es \<Longrightarrow> bracketed (editText e) \<Longrightarrow> bracketedEdits (es @ [e])"
| around_edit: "bracketedEdits es \<Longrightarrow> editPlace e = Some (BeginLoc s) \<Longrightarrow> editPlace e' = Some (EndLoc s)
    \<Longrightarrow> opens 1 (editText e) \<Longrightarrow> closes (editText e') \<Longrightarrow> bracketedEdits (es @ [e, e'])"

text \<open>In any order of the edits, the braces of a block and of a text close what they open.\<close>

lemma single_edits: "bracketedEdits es \<Longrightarrow> \<forall>e \<in> set fs. bracketed (editText e) \<Longrightarrow> bracketedEdits (es @ fs)"
proof (induction fs rule: rev_induct)
  case (snoc f fs)
  then show ?case using single_edit [of "es @ fs" f] by simp
qed simp

lemma closes_brace: "closes (''}'' @ newline)"
  using plain_opens [OF plain_newline] by (simp add: closes_def opens_def)

lemma opens_start: "opens 1 (''{'' @ newline)"
  using opens_brace [of 0 "[]" newline] by simp

definition prints :: "'t clang \<Rightarrow> bool" where
  "prints C \<longleftrightarrow> (\<forall>s. bracketed (printPretty C s)) \<and> (\<forall>t. plain (typeAsString C t))"

definition namesOk :: "'t stmt \<Rightarrow> bool" where
  "namesOk s \<longleftrightarrow> (\<forall>(decl, ini) \<in> set (declsOf s). case decl of VarDecl v \<Rightarrow> plain (vd_name v) | OtherDecl _ _ _ \<Rightarrow> True)"

text \<open>The names of the variables declared in the functions of a file.\<close>

definition unitNames :: "'t clang \<Rightarrow> ('t fundecl \<times> 't stmt option) list \<Rightarrow> bool" where
  "unitNames C unit \<longleftrightarrow> (\<forall>fb \<in> set unit. \<forall>s \<in> set (case snd fb of None \<Rightarrow> [] | Some b \<Rightarrow> visitedNodes C b).
     namesOk s \<and> (\<forall>d \<in> set (movedDecls C s). namesOk d))"

lemma traverseFunctions_bracketed:
  assumes "traverseFunctions C visit main fns ign unit es = Inr es'" and "bracketedEdits es"
    and "\<And>fb b s es es'. fb \<in> set unit \<Longrightarrow> snd fb = Some b \<Longrightarrow> s \<in> set (visitedNodes C b) \<Longrightarrow> bracketedEdits es
      \<Longrightarrow> visit s es = Inr es' \<Longrightarrow> bracketedEdits es'"
  shows "bracketedEdits es'"
  using assms(1) unfolding traverseFunctions_def
proof (rule fold_res_invariant)
  show "bracketedEdits es" by (rule assms(2))
  fix fb es es'
  assume fb: "fb \<in> set (filter (functionsConditions main fns ign) unit)" and es: "bracketedEdits es"
    and f: "fold_res visit (case snd fb of None \<Rightarrow> [] | Some b \<Rightarrow> visitedNodes C b) es = Inr es'"
  from f es show "bracketedEdits es'"
  proof (rule fold_res_invariant)
    fix s es es'
    assume s: "s \<in> set (case snd fb of None \<Rightarrow> [] | Some b \<Rightarrow> visitedNodes C b)" "bracketedEdits es" "visit s es = Inr es'"
    obtain b where b: "snd fb = Some b" "s \<in> set (visitedNodes C b)" using s(1) by (cases "snd fb") auto
    show "bracketedEdits es'" by (rule assms(3) [OF _ b s(2,3)]) (use fb in simp)
  qed
qed

section \<open>Declarations in headers\<close>

lemma complete_bracketed: "prints C \<Longrightarrow> bracketed (getCompleteVarDeclStr_pretty C v ini)"
  by (simp add: getCompleteVarDeclStr_pretty_def prints_def isDeclStmt_def Let_def)

lemma moveDecls_bracketed:
  assumes "moveDecls C replace d (t, es) = Inr (t', es')" and "prints C" and "replace \<longrightarrow> namesOk d"
    and "opens 1 t" and "bracketedEdits es"
  shows "opens 1 t' \<and> bracketedEdits es'"
proof -
  have "case (t', es') of (t, es) \<Rightarrow> opens 1 t \<and> bracketedEdits es"
    using assms(1) unfolding moveDecls_def
  proof (rule fold_res_invariant)
    show "case (t, es) of (t, es) \<Rightarrow> opens 1 t \<and> bracketedEdits es" using assms(4,5) by simp
    fix x s r
    assume x: "x \<in> set (declsOf d)" and s: "case s of (t, es) \<Rightarrow> opens 1 t \<and> bracketedEdits es"
      and r: "(case x of (decl, ini) \<Rightarrow> \<lambda>(SSprint, es).
         case decl of
           VarDecl v \<Rightarrow>
             if replace then bind_res (singleName d) (\<lambda>n.
               Inr (SSprint @ getCompleteVarDeclStr_pretty C v ini, es @ [ReplaceText (StmtRange d) n]))
             else Inr (SSprint @ getCompleteVarDeclStr_pretty C v ini, es)
         | OtherDecl _ _ _ \<Rightarrow> Inr (SSprint, es)) s = Inr r"
    obtain decl ini u fs where e: "x = (decl, ini)" "s = (u, fs)" by (cases x; cases s)
    show "case r of (t, es) \<Rightarrow> opens 1 t \<and> bracketedEdits es"
    proof (cases decl)
      case (VarDecl v)
      have o: "opens 1 (u @ getCompleteVarDeclStr_pretty C v ini)"
        using s e opens_bracketed [OF _ complete_bracketed [OF assms(2)]] by simp
      show ?thesis
      proof (cases replace)
        case True
        then obtain n where n: "singleName d = Inr n" "r = (u @ getCompleteVarDeclStr_pretty C v ini, fs @ [ReplaceText (StmtRange d) n])"
          using r e VarDecl by (auto simp: bind_res_Inr)
        have "plain n" using n(1) assms(3) True
          by (auto simp: singleName_def namesOk_def split: list.splits prod.splits decl.splits)
        then show ?thesis using n(2) o s e single_edit [of fs "ReplaceText (StmtRange d) n"] by (simp add: plain_bracketed)
      next
        case False
        then show ?thesis using r e VarDecl o s by auto
      qed
    qed (use r e s in auto)
  qed
  then show ?thesis by simp
qed

lemma around_stmt:
  "bracketedEdits es \<Longrightarrow> opens 1 t \<Longrightarrow>
     bracketedEdits (es @ [InsertTextAfter (BeginLoc s) t, InsertTextAfterToken (EndLoc s) (''}'' @ newline)])"
  by (rule around_edit [where s = s]) (simp_all only: editPlace.simps editText.simps closes_brace)

lemma conditionVisit_bracketed:
  assumes "conditionVisit C s es = Inr es'" and "prints C" and "\<forall>d \<in> set (movedDecls C s). namesOk d" and "bracketedEdits es"
  shows "bracketedEdits es'"
proof -
  have start: "opens 1 (''{'' @ newline)" by (rule opens_start)
  have w: "bracketedEdits es'" if v: "VisitWhileStmt C s es = Inr es'" and d: "\<forall>d. getConditionVariableDeclStmt C s = Some d \<longrightarrow> namesOk d"
  proof (cases "getConditionVariableDeclStmt C s")
    case (Some d)
    then obtain t es1 where m: "moveDecls C True d (''{'' @ newline, es) = Inr (t, es1)"
      and r: "es' = es1 @ [InsertTextAfter (BeginLoc s) t, InsertTextAfterToken (EndLoc s) (''}'' @ newline)]"
      using v unfolding VisitWhileStmt_def Some option.case by (auto simp only: bind_res_Inr prod.case sum.inject)
    from moveDecls_bracketed [OF m assms(2) _ start assms(4)] that(2) Some show ?thesis unfolding r by (intro around_stmt) simp_all
  qed (use v assms(4) in \<open>simp add: VisitWhileStmt_def\<close>)
  have f: "bracketedEdits es'" if s: "s = ForStmt i l ini cn inc b" and v: "VisitForStmt C s es = Inr es'" for i l ini cn inc b
  proof (cases "\<exists>d. ini = Some d \<and> isDeclStmt d")
    case True
    then obtain d where d: "ini = Some d" "isDeclStmt d" by blast
    then obtain t es1 where m: "moveDecls C True d (''{'' @ newline, es) = Inr (t, es1)"
      and r: "es' = (es1 @ [ReplaceText (StmtRange d) '';'']) @ [InsertTextAfter (BeginLoc s) t, InsertTextAfterToken (EndLoc s) (''}'' @ newline)]"
      using v unfolding s VisitForStmt_def stmt.case d(1) option.case if_P [OF d(2)]
      by (auto simp only: bind_res_Inr prod.case sum.inject append_assoc append.simps)
    have "namesOk d" using assms(3) s d by (simp add: movedDecls_def)
    with moveDecls_bracketed [OF m assms(2) _ start assms(4)] have "opens 1 t" "bracketedEdits es1" by simp_all
    then show ?thesis unfolding r by (intro around_stmt single_edit) (simp_all add: plain_bracketed)
  next
    case False
    then show ?thesis using v s assms(4) by (cases ini) (simp_all add: VisitForStmt_def)
  qed
  have i: "bracketedEdits es'" if v: "VisitIfStmt C s es = Inr es'" and d: "\<forall>d. getConditionVariableDeclStmt C s = Some d \<longrightarrow> namesOk d"
  proof (cases "getConditionVariableDeclStmt C s \<noteq> None \<or> getStmtInit C s \<noteq> None")
    case True
    obtain t1 es1 t2 es2 where
      m1: "(case getStmtInit C s of None \<Rightarrow> Inr (''{'' @ newline, es)
          | Some ifStInit \<Rightarrow> if isDeclStmt ifStInit then
                bind_res (moveDecls C False ifStInit (''{'' @ newline, es)) (\<lambda>(SSprint, es1). Inr (SSprint, es1 @ [RemoveText (StmtRange ifStInit)]))
              else Inr (''{'' @ newline, es)) = Inr (t1, es1)"
      and m2: "(case getConditionVariableDeclStmt C s of None \<Rightarrow> Inr (t1, es1) | Some d \<Rightarrow> moveDecls C True d (t1, es1)) = Inr (t2, es2)"
      and r: "es' = es2 @ [InsertTextAfter (BeginLoc s) t2, InsertTextAfterToken (EndLoc s) (''}'' @ newline)]"
      using v unfolding VisitIfStmt_def if_P [OF True] by (auto simp only: bind_res_Inr prod.case sum.inject split_paired_Ex)
    have b1: "opens 1 t1 \<and> bracketedEdits es1"
    proof (cases "getStmtInit C s")
      case (Some e)
      show ?thesis
      proof (cases "isDeclStmt e")
        case True
        then obtain es0 where m: "moveDecls C False e (''{'' @ newline, es) = Inr (t1, es0)" and e1: "es1 = es0 @ [RemoveText (StmtRange e)]"
          using m1 Some by (auto simp: bind_res_Inr)
        from moveDecls_bracketed [OF m assms(2) _ start assms(4)] show ?thesis unfolding e1 by (simp add: single_edit)
      next
        case False
        then show ?thesis using m1 Some start assms(4) by auto
      qed
    qed (use m1 start assms(4) in auto)
    have "opens 1 t2 \<and> bracketedEdits es2"
    proof (cases "getConditionVariableDeclStmt C s")
      case (Some e)
      then have m: "moveDecls C True e (t1, es1) = Inr (t2, es2)" using m2 by simp
      show ?thesis using moveDecls_bracketed [OF m assms(2)] b1 d Some by blast
    qed (use m2 b1 in simp)
    then show ?thesis unfolding r by (intro around_stmt) simp_all
  qed (use v assms(4) in \<open>simp add: VisitIfStmt_def\<close>)
  show ?thesis using assms w f i
    by (cases s) (auto simp: conditionVisit_def movedDecls_def List.map_filter_simps split: option.splits)
qed

section \<open>Declaration and initialisation\<close>

lemma multiple_bracketed:
  assumes "VisitDeclStmt_multiple C s es = Inr es'" and "prints C" and "bracketedEdits es"
  shows "bracketedEdits es'"
proof (cases "\<exists>i l ds. s = DeclStmt i l ds \<and> length ds \<noteq> 1")
  case True
  then obtain i l ds where s: "s = DeclStmt i l ds" "length ds \<noteq> 1" by blast
  let ?f = "\<lambda>(decl, ini). case decl of VarDecl v \<Rightarrow> getCompleteVarDeclStr_pretty C v ini | OtherDecl _ _ _ \<Rightarrow> []"
  have "bracketed (?f x)" for x
    using complete_bracketed [OF assms(2)] by (cases x; cases "fst x") auto
  then have "bracketed (concat (map ?f ds))" by (induction ds) (simp_all add: bracketed_append)
  moreover have "es' = es @ [ReplaceText (StmtRange s) (concat (map ?f ds))]"
    using assms(1) s by (simp add: VisitDeclStmt_multiple_def)
  ultimately show ?thesis using assms(3) by (simp add: single_edit)
next
  case False
  then show ?thesis using assms(1,3) by (cases s) (auto simp: VisitDeclStmt_multiple_def split: if_splits)
qed

lemma types_plain: "prints C \<Longrightarrow> plain (typeAsString C t)"
  by (simp add: prints_def)

lemma initString_bracketed: "prints C \<Longrightarrow> bracketed (getInitString C v)"
  by (simp add: prints_def getInitString_def getExprAsString_def split: option.splits)

lemmas bracketed_parts = bracketed_append plain_bracketed initString_bracketed

lemma getVarDeclDefStr_bracketed:
  assumes "prints C" and "plain (vd_name v)"
  shows "bracketed (getVarDeclDefStr C (varDefOf v ini))"
proof (cases ini)
  case None
  then show ?thesis using assms by (simp add: getVarDeclDefStr_def varDefOf_def plain_bracketed)
next
  case (Some e)
  let ?i = "getInitString C (varDefOf v (Some e))"
  have i: "bracketed (typeAsString C (vd_type v) @ ''('' @ ?i @ '')'')" "bracketed ?i"
    using assms by (intro bracketed_parts; simp add: types_plain)+
  have g: "bracketed ((vd_name v @ '' = '') @ x @ '';'' @ newline)" if x: "bracketed x" for x
    by (rule bracketed_append [OF plain_bracketed bracketed_append [OF x plain_bracketed]]) (use assms(2) in simp_all)
  show ?thesis using g [OF i(1)] g [OF i(2)] by (simp add: Some getVarDeclDefStr_def varDefOf_def)
qed

lemma stringVarDecl_bracketed:
  assumes "stringVarDecl C v ini (t, u) = Inr (t', u')" and "prints C" and "plain (vd_name v)" and "bracketed t" and "bracketed u"
  shows "bracketed t' \<and> bracketed u'"
proof -
  have inv: "bracketed (invalidRef C a b v)" for a b
    using assms(2,3) by (intro plain_bracketed) (simp add: invalidRef_def types_plain)
  have ref: "bracketed (refTemporary C a v ini)" for a
    unfolding refTemporary_def using assms(2,3)
    by (intro bracketed_append plain_bracketed initString_bracketed) (simp_all add: types_plain)
  have asg: "bracketed (refAssign v)" using assms(3) by (intro plain_bracketed) (simp add: refAssign_def)
  have dcl: "bracketed (getVarDeclDeclStr C (varDefOf v ini))"
    using assms(2,3) by (intro plain_bracketed) (simp add: getVarDeclDeclStr_def varDefOf_def types_plain)
  have dfn: "bracketed (getVarDeclDefStr C (varDefOf v i))" for i by (rule getVarDeclDefStr_bracketed [OF assms(2,3)])
  have cmp: "bracketed (getCompleteVarDeclStr_pretty C v i)" for i by (rule complete_bracketed [OF assms(2)])
  show ?thesis using assms(1,4,5) inv ref asg dcl dfn cmp
    by (auto simp: stringVarDecl_def Let_def bind_res_Inr bracketed_append split: if_splits option.splits)
qed

lemma splitter_bracketed:
  assumes "VisitDeclStmt_splitter C s es = Inr es'" and "prints C" and "namesOk s" and "bracketedEdits es"
  shows "bracketedEdits es'"
proof (cases "\<not> isDeclStmt s \<or> isInHeaders (getBeginLoc s)")
  case False
  have p: "plain (vd_name v)" if "(VarDecl v, ini) \<in> set (declsOf s)" for v ini
    using assms(3) that by (auto simp: namesOk_def)
  let ?first = "case declsOf s of
           [(VarDecl v, ini)] \<Rightarrow>
             (case ini of
                None \<Rightarrow> Inr (([], []), es)
              | Some e \<Rightarrow> bind_res (stringVarDecl C v ini ([], [])) (\<lambda>s. Inr (s, es @ [RemoveText (StmtRange e)])))
         | ds \<Rightarrow>
             bind_res (fold_res (\<lambda>(decl, ini) s. case decl of VarDecl v \<Rightarrow> stringVarDecl C v ini s
                                                   | OtherDecl _ _ _ \<Rightarrow> Inr s) ds ([], [])) (\<lambda>s. Inr (s, es))"
  obtain t u es1 where f: "?first = Inr ((t, u), es1)"
    and r: "es' = (if t @ u \<noteq> [] then es1 @ [ReplaceText (StmtRange s) (t @ u)] else es1)"
    using assms(1) unfolding VisitDeclStmt_splitter_def if_not_P [OF False]
    by (auto simp only: bind_res_Inr prod.case sum.inject split_paired_Ex)
  have many: "bracketed t \<and> bracketed u \<and> bracketedEdits es1"
    if "fold_res (\<lambda>(decl, ini) s. case decl of VarDecl v \<Rightarrow> stringVarDecl C v ini s | OtherDecl _ _ _ \<Rightarrow> Inr s) (declsOf s) ([], [])
      = Inr (t, u)" "es1 = es"
  proof -
    have "case (t, u) of (t, u) \<Rightarrow> bracketed t \<and> bracketed u"
      using that(1)
    proof (rule fold_res_invariant)
      fix x q r
      assume x: "x \<in> set (declsOf s)" "case q of (t, u) \<Rightarrow> bracketed t \<and> bracketed u"
        "(case x of (decl, ini) \<Rightarrow> \<lambda>s. case decl of VarDecl v \<Rightarrow> stringVarDecl C v ini s | OtherDecl _ _ _ \<Rightarrow> Inr s) q = Inr r"
      obtain decl ini a b c d where e: "x = (decl, ini)" "q = (a, b)" "r = (c, d)" by (cases x; cases q; cases r)
      show "case r of (t, u) \<Rightarrow> bracketed t \<and> bracketed u"
      proof (cases decl)
        case (VarDecl v)
        then show ?thesis using x e stringVarDecl_bracketed [of C v ini a b c d, OF _ assms(2) p] by auto
      qed (use x e in auto)
    qed simp
    then show ?thesis using that(2) assms(4) by simp
  qed
  have "bracketed t \<and> bracketed u \<and> bracketedEdits es1"
  proof (cases "\<exists>v ini. declsOf s = [(VarDecl v, ini)]")
    case True
    then obtain v ini where d: "declsOf s = [(VarDecl v, ini)]" by blast
    show ?thesis
    proof (cases ini)
      case None
      then show ?thesis using f d assms(4) by simp
    next
      case (Some e)
      then have "stringVarDecl C v ini ([], []) = Inr (t, u)" "es1 = es @ [RemoveText (StmtRange e)]"
        using f d by (auto simp: bind_res_Inr)
      then show ?thesis using stringVarDecl_bracketed [of C v ini "[]" "[]" t u, OF _ assms(2) p] d assms(4) by (simp add: single_edit)
    qed
  next
    case False
    then have "?first = bind_res (fold_res (\<lambda>(decl, ini) s. case decl of VarDecl v \<Rightarrow> stringVarDecl C v ini s
        | OtherDecl _ _ _ \<Rightarrow> Inr s) (declsOf s) ([], [])) (\<lambda>s. Inr (s, es))"
      by (auto split: list.splits prod.splits decl.splits)
    note e = this
    have "bind_res (fold_res (\<lambda>(decl, ini) s. case decl of VarDecl v \<Rightarrow> stringVarDecl C v ini s
        | OtherDecl _ _ _ \<Rightarrow> Inr s) (declsOf s) ([], [])) (\<lambda>s. Inr (s, es)) = Inr ((t, u), es1)"
      by (rule trans [OF e [symmetric] f])
    then show ?thesis by (intro many) (auto simp only: bind_res_Inr sum.inject prod.inject)
  qed
  then show ?thesis unfolding r by (simp add: single_edit bracketed_append)
qed (use assms(1,4) in \<open>auto simp: VisitDeclStmt_splitter_def\<close>)

section \<open>Gotos and the parallel region\<close>

lemma closes_plain: "plain t \<Longrightarrow> closes (newline @ ''}'' @ newline @ t)"
  using plain_opens [OF plain_newline] plain_opens [of t] by (simp add: closes_def opens_def nest_append)

lemma gotoVisit_bracketed:
  assumes "VisitFunctionDecl_goto C semiEnd fb v = Inr v'" and "prints C" and "bracketedEdits (gotoEdits v)"
  shows "bracketedEdits (gotoEdits v')"
proof (cases "hasExit C fb")
  case True
  then obtain f body where fb: "fb = (f, Some body)" by (cases fb) (auto simp: hasExit_def split: option.splits)
  from VisitFunctionDecl_goto_edits [OF assms(1) [unfolded fb] True [unfolded fb]] obtain ts where
    ts: "gotoTexts C (functionsCounter v) body ts"
    "gotoEdits v' = gotoEdits v @ exitEdits C semiEnd (functionsCounter v) f body ts" by blast
  obtain t where t: "plain t" "exitText C f (functionsCounter v) = newline @ ''}'' @ newline @ t" using exit_closes by blast
  have "bracketedEdits (gotoEdits v @ [InsertTextAfterToken (BeginLoc body) (resultText C f),
      InsertTextAfter (EndLoc body) (exitText C f (functionsCounter v))])"
    by (rule around_edit [OF assms(3), where s = body])
      (simp_all only: editPlace.simps editText.simps t(2) closes_plain [OF t(1)] result_opens [OF types_plain [OF assms(2)]])
  moreover have "\<forall>e \<in> set (map2 (\<lambda>ret t. ReplaceText (returnRange semiEnd ret) t) (subVisitCompoundStmt body) ts). bracketed (editText e)"
  proof
    fix e assume "e \<in> set (map2 (\<lambda>ret t. ReplaceText (returnRange semiEnd ret) t) (subVisitCompoundStmt body) ts)"
    then obtain ret u where u: "(ret, u) \<in> set (zip (subVisitCompoundStmt body) ts)" "e = ReplaceText (returnRange semiEnd ret) u" by auto
    have "createGotoString C (fst ret) (functionsCounter v) (snd ret) = Inr u"
      using ts(1) u(1) unfolding gotoTexts_def by (auto simp: list_all2_iff)
    from createGotoString_bracketed [OF this] assms(2) u(2) show "bracketed (editText e)" by (simp add: prints_def)
  qed
  ultimately show ?thesis unfolding ts(2) exitEdits_def append_assoc [symmetric] by (rule single_edits)
next
  case False
  then show ?thesis using assms VisitFunctionDecl_goto_skip by fastforce
qed

lemma stringReferenceHandlerClass_bracketed: "bracketed stringReferenceHandlerClass"
  by code_simp

lemma parallelText_opens: "opens 1 parallelText"
proof -
  have "opens 1 ((newline @ ''#pragma omp parallel num_threads(nb_cores)'' @ newline @ '' #pragma omp master'' @ newline) @ ''{'' @ [])"
    unfolding One_nat_def by (rule opens_brace) (simp_all add: plain_opens)
  then show ?thesis by (simp add: parallelText_def)
qed


section \<open>Witness\<close>

text \<open>A printer with one text, and the body \<open>for (int x1 = 0;;) {}\<close>.\<close>

definition ex_print_clang :: "ex_type clang" where
  "ex_print_clang = ex_clang\<lparr>printPretty := (\<lambda>s. ''e'')\<rparr>"

lemma ex_prints: "prints ex_print_clang"
proof -
  have "plain (ex_type_string t)" for t by (induction t) simp_all
  then show ?thesis by (simp add: prints_def ex_print_clang_def ex_clang_def plain_bracketed)
qed

definition ex_pass_body :: "ex_type stmt" where
  "ex_pass_body = CompoundStmt 1 (ex_at 1) [ForStmt 2 (ex_at 2)
     (Some (DeclStmt 3 (ex_at 3) [(VarDecl (ex_decl 1 IntT), Some (ex_literal 0))])) None None (CompoundStmt 4 (ex_at 4) [])]"


end
