(* ===== verification/Spec2Isabelle.thy ===== *)
theory Spec2Isabelle
  imports Alias_Queries Graph_Program Task_Driver Constify_Print Unit_Order Command_Line Heapify Pass_Balance
begin

text \<open>
  A verification library for APAC, a source-to-source compiler that inserts OpenMP tasks into C++
  programs.
\<close>

end
